(* ===== verification/Xv6_Prelude.thy ===== *)
theory Xv6_Prelude
  imports Main "HOL-Library.Word"
begin

text \<open>
  Shared vocabulary of the development: the machine types of \<^verbatim>\<open>types.h\<close>, the ways in
  which a kernel routine can fail to return to its caller, byte-addressed memory with the
  little-endian loads and stores of the x86, and the generic lemmas on words, lists and
  results that the component theories use.
\<close>

unbundle bit_operations_syntax

section \<open>Types\<close>

text \<open>
  \<^verbatim>\<open>uchar\<close>, \<^verbatim>\<open>ushort\<close> and \<^verbatim>\<open>uint\<close> of \<^verbatim>\<open>types.h\<close>. A C \<^verbatim>\<open>int\<close> is also a 32-bit word;
  where the code compares it as signed the model reads it with \<open>sint\<close>.
\<close>

type_synonym u8 = "8 word"
type_synonym u16 = "16 word"
type_synonym u32 = "32 word"
type_synonym addr = u32
type_synonym mem = "addr \<Rightarrow> u8"

text \<open>
  Sleep channels: the code sleeps on the address of the object it waits for, so a channel
  is the kind of object with its index (or, for pipes, its address).
\<close>

datatype chan =
    ChanBuf                \<comment> \<open>\<^verbatim>\<open>buf\<close>, the whole buffer table\<close>
  | ChanBufp nat           \<comment> \<open>one buffer, waiting for the disk\<close>
  | ChanInode nat          \<comment> \<open>an inode of the inode cache\<close>
  | ChanPipeRead addr      \<comment> \<open>\<^verbatim>\<open>&p->readp\<close>\<close>
  | ChanPipeWrite addr     \<comment> \<open>\<^verbatim>\<open>&p->writep\<close>\<close>
  | ChanInput              \<comment> \<open>\<^verbatim>\<open>&input.r\<close>\<close>
  | ChanTicks              \<comment> \<open>\<^verbatim>\<open>&ticks\<close>\<close>
  | ChanProc nat           \<comment> \<open>a process, sleeping in \<^verbatim>\<open>wait\<close>\<close>

text \<open>
  The ways a routine does not return: it panics with a message, it goes to sleep on a
  channel, or it runs forever.
\<close>

datatype stop = Panic string | Blocked chan | Diverges

type_synonym 'a res = "stop + 'a"

definition rbind :: "'a res \<Rightarrow> ('a \<Rightarrow> 'b res) \<Rightarrow> 'b res" where
  "rbind r f = (case r of Inl e \<Rightarrow> Inl e | Inr x \<Rightarrow> f x)"

named_theorems res_simps \<open>evaluation of sequenced results\<close>
named_theorems mem_simps \<open>loads and stores\<close>

lemma rbind_Inl [simp, res_simps]: "rbind (Inl e) f = Inl e"
  by (simp add: rbind_def)

lemma rbind_Inr [simp, res_simps]: "rbind (Inr x) f = f x"
  by (simp add: rbind_def)

lemma rbind_eq_Inr: "rbind r f = Inr y \<longleftrightarrow> (\<exists>x. r = Inr x \<and> f x = Inr y)"
  by (cases r) simp_all

lemma rbind_eq_InrE:
  assumes "rbind r f = Inr y"
  obtains x where "r = Inr x" and "f x = Inr y"
  using assms by (auto simp: rbind_eq_Inr)

lemma rbind_assoc: "rbind (rbind r f) g = rbind r (\<lambda>x. rbind (f x) g)"
  by (cases r) simp_all

section \<open>Words\<close>

lemma unat_lt_2p32: "unat (w :: u32) < 4294967296"
  using unsigned_less [of w] by simp

lemma unat_add_u32: "unat (a :: u32) + unat b < 4294967296 \<Longrightarrow> unat (a + b) = unat a + unat b"
  using unat_add_lem [of a b] by simp

lemma unat_sub_u32:
  "unat ((a :: u32) - b) =
     (if unat b \<le> unat a then unat a - unat b else unat a + 4294967296 - unat b)"
  by (simp add: unat_sub_if')

lemma unat_of_nat_u32 [simp]: "n < 4294967296 \<Longrightarrow> unat (of_nat n :: u32) = n"
  by (simp add: unat_of_nat)

lemma of_nat_eq_u32:
  "i < 4294967296 \<Longrightarrow> j < 4294967296 \<Longrightarrow> (of_nat i :: u32) = of_nat j \<longleftrightarrow> i = j"
  by (metis unat_of_nat_u32)

lemma unat_inject_u32: "unat (a :: u32) = unat b \<longleftrightarrow> a = b"
  by (simp add: word_unat_eq_iff)

lemma unat_minus_1_u32 [simp]: "unat (- 1 :: u32) = 4294967295"
  by (simp add: unsigned_minus_1_eq_mask mask_eq_exp_minus_1)

lemma sint_u32: "sint (w :: u32) = (if unat w < 2147483648 then int (unat w) else int (unat w) - 4294967296)"
proof -
  define u where "u = int (unat w)"
  have "0 \<le> u" and "u < 4294967296" using unat_lt_2p32 [of w] by (simp_all add: u_def del: of_nat_unat)
  have "sint w = (u + 2147483648) mod 4294967296 - 2147483648"
    by (simp add: u_def sint_uint signed_take_bit_eq_take_bit_shift take_bit_eq_mod)
  also have "(u + 2147483648) mod 4294967296 =
      (if u < 2147483648 then u + 2147483648 else u - 2147483648)"
  proof (cases "u < 2147483648")
    case False
    have "(u + 2147483648) mod 4294967296 = (u + 2147483648 - 4294967296) mod 4294967296"
      by (rule minus_mod_self2 [symmetric])
    then show ?thesis using False \<open>u < 4294967296\<close> by simp
  qed (use \<open>0 \<le> u\<close> in simp)
  finally show ?thesis by (simp add: u_def del: of_nat_unat)
qed

lemma sint_pos: "0 < sint (w :: u32) \<longleftrightarrow> 0 < unat w \<and> unat w < 2147483648"
  using unat_lt_2p32 [of w] unfolding sint_u32 by (auto simp del: of_nat_unat)

text \<open>Clearing the low bits rounds down.\<close>

lemma unat_clear_low:
  assumes "k < 32"
  shows "unat ((w :: u32) AND NOT (mask k)) = unat w div 2 ^ k * 2 ^ k"
proof -
  have "w AND NOT (mask k) = push_bit k (drop_bit k w)"
    by (rule bit_word_eqI) (auto simp: bit_simps)
  then have "unat (w AND NOT (mask k)) = take_bit 32 (push_bit k (drop_bit k (unat w)))"
    using unat_lt_2p32 [of w] by (simp add: unsigned_push_bit_eq unsigned_drop_bit_eq take_bit_nat_eq_self)
  also have "\<dots> = unat w div 2 ^ k * 2 ^ k"
  proof -
    have "unat w div 2 ^ k * 2 ^ k < 4294967296" by (rule le_less_trans [OF div_times_less_eq_dividend unat_lt_2p32])
    then show ?thesis by (simp add: push_bit_eq_mult drop_bit_eq_div take_bit_nat_eq_self_iff)
  qed
  finally show ?thesis .
qed

text \<open>Distance from \<open>d\<close> to \<open>a\<close>, modulo the size of the address space.\<close>

lemma dist_Suc: "unat ((a :: u32) - d) < Suc n \<longleftrightarrow> a = d \<or> unat (a - (d + 1)) < n"
proof -
  define x where "x = a - d"
  have eqs: "a - (d + 1) = x - 1" "x = 0 \<longleftrightarrow> a = d" by (simp_all add: x_def)
  have "unat x < Suc n \<longleftrightarrow> x = 0 \<or> unat (x - 1) < n"
  proof (cases "x = 0")
    case False
    then have "0 < unat x" by (simp add: unat_gt_0)
    with False show ?thesis by (auto simp: unat_minus_one)
  qed simp
  then show ?thesis unfolding eqs by (simp add: x_def)
qed

section \<open>Little-endian encodings\<close>

definition byte_of :: "nat \<Rightarrow> u32 \<Rightarrow> u8" where
  "byte_of k v = ucast (drop_bit (8 * k) v)"

definition le32 :: "u8 \<Rightarrow> u8 \<Rightarrow> u8 \<Rightarrow> u8 \<Rightarrow> u32" where
  "le32 a b c d =
     ucast a OR push_bit 8 (ucast b) OR push_bit 16 (ucast c) OR push_bit 24 (ucast d)"

lemma bit_u8_beyond: "8 \<le> n \<Longrightarrow> \<not> bit (b :: u8) n"
  using bit_imp_le_length [of b n] by auto

lemma le32_byte_of [simp, mem_simps]:
  "le32 (byte_of 0 v) (byte_of (Suc 0) v) (byte_of 2 v) (byte_of 3 v) = v"
proof (rule bit_word_eqI)
  fix n assume "n < LENGTH(32)"
  then consider "n < 8" | "8 \<le> n" "n < 16" | "16 \<le> n" "n < 24" | "24 \<le> n" "n < 32"
    by fastforce
  then show "bit (le32 (byte_of 0 v) (byte_of (Suc 0) v) (byte_of 2 v) (byte_of 3 v)) n \<longleftrightarrow> bit v n"
  proof cases
    case 1
    then show ?thesis by (simp add: le32_def byte_of_def bit_simps)
  next
    case 2
    then have "n - 8 < 8" "n - 8 < 32" by arith+
    with 2 show ?thesis by (simp add: le32_def byte_of_def bit_simps)
  next
    case 3
    then have "n - 16 < 8" "n - 16 < 32" by arith+
    with 3 show ?thesis by (auto simp add: le32_def byte_of_def bit_simps)
  next
    case 4
    then have "n - 24 < 8" "n - 24 < 32" "\<not> n - 8 < 8" "\<not> n - 16 < 8" by arith+
    with 4 show ?thesis by (simp add: le32_def byte_of_def bit_simps)
  qed
qed

lemma byte_of_le32 [simp, mem_simps]:
  "byte_of 0 (le32 a b c d) = a" "byte_of (Suc 0) (le32 a b c d) = b"
  "byte_of 2 (le32 a b c d) = c" "byte_of 3 (le32 a b c d) = d"
  by (rule bit_word_eqI, simp add: le32_def byte_of_def bit_simps bit_u8_beyond)+

section \<open>Memory\<close>

definition read32 :: "mem \<Rightarrow> addr \<Rightarrow> u32" where
  "read32 m a = le32 (m a) (m (a + 1)) (m (a + 2)) (m (a + 3))"

definition write32 :: "addr \<Rightarrow> u32 \<Rightarrow> mem \<Rightarrow> mem" where
  "write32 a v m =
     m(a := byte_of 0 v, a + 1 := byte_of 1 v, a + 2 := byte_of 2 v, a + 3 := byte_of 3 v)"

lemma read32_write32_same [simp, mem_simps]: "read32 (write32 a v m) a = v"
  by (simp add: read32_def write32_def)

text \<open>A store leaves alone every word at distance at least four either way.\<close>

lemma write32_other [mem_simps]: "4 \<le> unat (b - a) \<Longrightarrow> write32 a v m b = m b"
proof -
  assume d: "4 \<le> unat (b - a)"
  have "b \<noteq> a + of_nat k" if "k < 4" for k
  proof
    assume "b = a + of_nat k"
    then have "unat (b - a) = k" using that by simp
    with d that show False by simp
  qed
  from this [of 0] this [of 1] this [of 2] this [of 3] show ?thesis
    by (simp add: write32_def)
qed

section \<open>Table scans\<close>

text \<open>
  The index of the first entry that satisfies a test: the kernel's many loops over a fixed
  table that stop at the first match.
\<close>

primrec first_idx :: "('a \<Rightarrow> bool) \<Rightarrow> 'a list \<Rightarrow> nat option" where
  "first_idx P [] = None"
| "first_idx P (x # xs) = (if P x then Some 0 else map_option Suc (first_idx P xs))"

lemma first_idx_None: "first_idx P xs = None \<longleftrightarrow> (\<forall>x \<in> set xs. \<not> P x)"
  by (induction xs) auto

lemma first_idx_Some:
  "first_idx P xs = Some i \<longleftrightarrow> i < length xs \<and> P (xs ! i) \<and> (\<forall>j < i. \<not> P (xs ! j))"
proof (induction xs arbitrary: i)
  case (Cons x xs)
  show ?case
    using Cons.IH by (cases i) (auto simp: All_less_Suc2)
qed simp

lemma first_idx_SomeD:
  assumes "first_idx P xs = Some i" shows "i < length xs" and "P (xs ! i)"
  using assms by (auto simp: first_idx_Some)

section \<open>Step relations\<close>

text \<open>The obligations of an inductive invariant, and what they give.\<close>

locale inductive_invariant =
  fixes init :: "'s \<Rightarrow> bool" and step :: "'s \<Rightarrow> 's \<Rightarrow> bool" and inv :: "'s \<Rightarrow> bool"
  assumes init_inv: "init s \<Longrightarrow> inv s"
    and step_inv: "inv s \<Longrightarrow> step s s' \<Longrightarrow> inv s'"
begin

lemma steps_inv: "step\<^sup>*\<^sup>* s s' \<Longrightarrow> inv s \<Longrightarrow> inv s'"
  by (induction rule: rtranclp_induct) (auto intro: step_inv)

lemma reachable_inv: "init s \<Longrightarrow> step\<^sup>*\<^sup>* s s' \<Longrightarrow> inv s'"
  by (auto intro: steps_inv init_inv)

end

end
