(* ===== verification/Strings.thy ===== *)
theory Strings
  imports Xv6_Prelude
begin

text \<open>
  The memory and string routines of \<^verbatim>\<open>string.c\<close> (linked into the kernel) and of
  \<^verbatim>\<open>ulib.c\<close> (linked into user programs), over byte-addressed memory. Pointers are 32-bit
  words, so pointer arithmetic wraps as it does on the machine. A loop with a counter is a
  recursion on the counter; a loop that only stops at a NUL byte is a partial function,
  whose result \<open>None\<close> means that it never stops.
\<close>

section \<open>Definitions\<close>

subsection \<open>string.c\<close>

primrec memset_loop :: "nat \<Rightarrow> addr \<Rightarrow> u8 \<Rightarrow> mem \<Rightarrow> mem" where
  "memset_loop 0 d c m = m"
| "memset_loop (Suc n) d c m = memset_loop n (d + 1) c (m(d := c))"

definition memset :: "addr \<Rightarrow> u32 \<Rightarrow> u32 \<Rightarrow> mem \<Rightarrow> mem" where
  "memset dst c n m = memset_loop (unat n) dst (ucast c) m"

primrec memcmp_loop :: "mem \<Rightarrow> nat \<Rightarrow> addr \<Rightarrow> addr \<Rightarrow> int" where
  "memcmp_loop m 0 s1 s2 = 0"
| "memcmp_loop m (Suc n) s1 s2 =
     (if m s1 \<noteq> m s2 then uint (m s1) - uint (m s2)
      else memcmp_loop m n (s1 + 1) (s2 + 1))"

definition memcmp :: "mem \<Rightarrow> addr \<Rightarrow> addr \<Rightarrow> u32 \<Rightarrow> int" where
  "memcmp m v1 v2 n = memcmp_loop m (unat n) v1 v2"

primrec copy_up :: "nat \<Rightarrow> addr \<Rightarrow> addr \<Rightarrow> mem \<Rightarrow> mem" where
  "copy_up 0 d s m = m"
| "copy_up (Suc n) d s m = copy_up n (d + 1) (s + 1) (m(d := m s))"

primrec copy_down :: "nat \<Rightarrow> addr \<Rightarrow> addr \<Rightarrow> mem \<Rightarrow> mem" where
  "copy_down 0 d s m = m"
| "copy_down (Suc n) d s m = copy_down n (d - 1) (s - 1) (m(d - 1 := m (s - 1)))"

definition memmove :: "addr \<Rightarrow> addr \<Rightarrow> u32 \<Rightarrow> mem \<Rightarrow> mem" where
  "memmove dst src n m =
     (if src < dst \<and> src + n > dst
      then copy_down (unat n) (dst + n) (src + n) m
      else copy_up (unat n) dst src m)"

primrec strncmp_loop :: "mem \<Rightarrow> nat \<Rightarrow> addr \<Rightarrow> addr \<Rightarrow> int" where
  "strncmp_loop m 0 p q = 0"
| "strncmp_loop m (Suc n) p q =
     (if m p \<noteq> 0 \<and> m p = m q then strncmp_loop m n (p + 1) (q + 1)
      else uint (m p) - uint (m q))"

definition strncmp :: "mem \<Rightarrow> addr \<Rightarrow> addr \<Rightarrow> u32 \<Rightarrow> int" where
  "strncmp m p q n = strncmp_loop m (unat n) p q"

primrec strncpy_loop :: "nat \<Rightarrow> addr \<Rightarrow> addr \<Rightarrow> mem \<Rightarrow> mem" where
  "strncpy_loop 0 s t m = m"
| "strncpy_loop (Suc n) s t m =
     (let c = m t; m' = m(s := c)
      in if c \<noteq> 0 then strncpy_loop n (s + 1) (t + 1) m' else memset_loop n (s + 1) 0 m')"

definition strncpy :: "addr \<Rightarrow> addr \<Rightarrow> u32 \<Rightarrow> mem \<Rightarrow> mem" where
  "strncpy s t n m = strncpy_loop (nat (sint n)) s t m"

text \<open>
  In \<^verbatim>\<open>safestrcpy\<close> the loop argument counts the copies that \<^verbatim>\<open>--n > 0\<close> still allows. When
  the loop stops because a NUL was copied, \<^verbatim>\<open>s\<close> has already moved past it, so the final
  store writes a second NUL.
\<close>

primrec safestrcpy_loop :: "nat \<Rightarrow> addr \<Rightarrow> addr \<Rightarrow> mem \<Rightarrow> mem" where
  "safestrcpy_loop 0 s t m = m(s := 0)"
| "safestrcpy_loop (Suc n) s t m =
     (let c = m t; m' = m(s := c)
      in if c \<noteq> 0 then safestrcpy_loop n (s + 1) (t + 1) m' else m'(s + 1 := 0))"

definition safestrcpy :: "addr \<Rightarrow> addr \<Rightarrow> u32 \<Rightarrow> mem \<Rightarrow> mem" where
  "safestrcpy s t n m = (if sint n \<le> 0 then m else safestrcpy_loop (nat (sint n - 1)) s t m)"

partial_function (option) strlen_loop :: "mem \<Rightarrow> addr \<Rightarrow> u32 \<Rightarrow> u32 option" where
  "strlen_loop m s n = (if m (s + n) \<noteq> 0 then strlen_loop m s (n + 1) else Some n)"

definition strlen :: "mem \<Rightarrow> addr \<Rightarrow> u32 option" where
  "strlen m s = strlen_loop m s 0"

subsection \<open>ulib.c\<close>

partial_function (option) strcpy :: "addr \<Rightarrow> addr \<Rightarrow> mem \<Rightarrow> mem option" where
  "strcpy s t m =
     (let c = m t; m' = m(s := c)
      in if c \<noteq> 0 then strcpy (s + 1) (t + 1) m' else Some m')"

partial_function (option) strcmp :: "mem \<Rightarrow> addr \<Rightarrow> addr \<Rightarrow> int option" where
  "strcmp m p q =
     (if m p \<noteq> 0 \<and> m p = m q then strcmp m (p + 1) (q + 1)
      else Some (uint (m p) - uint (m q)))"

partial_function (option) strchr :: "mem \<Rightarrow> addr \<Rightarrow> u8 \<Rightarrow> addr option" where
  "strchr m s c =
     (if m s = 0 then Some 0 else if m s = c then Some s else strchr m (s + 1) c)"

text \<open>\<^verbatim>\<open>atoi\<close> computes in a C \<^verbatim>\<open>int\<close>; the model wraps at 32 bits.\<close>

partial_function (option) atoi_loop :: "mem \<Rightarrow> addr \<Rightarrow> u32 \<Rightarrow> u32 option" where
  "atoi_loop m s n =
     (if 48 \<le> m s \<and> m s \<le> 57 then atoi_loop m (s + 1) (n * 10 + ucast (m s) - 48)
      else Some n)"

definition atoi :: "mem \<Rightarrow> addr \<Rightarrow> u32 option" where
  "atoi m s = atoi_loop m s 0"

text \<open>The user-level \<^verbatim>\<open>memmove\<close> always copies upwards.\<close>

definition ulib_memmove :: "addr \<Rightarrow> addr \<Rightarrow> u32 \<Rightarrow> mem \<Rightarrow> mem" where
  "ulib_memmove vdst vsrc n m = copy_up (nat (sint n)) vdst vsrc m"

section \<open>Specification of strings in memory\<close>

text \<open>The C string at \<open>p\<close>, cut off after \<open>n\<close> bytes.\<close>

primrec cstrn :: "mem \<Rightarrow> nat \<Rightarrow> addr \<Rightarrow> u8 list" where
  "cstrn m 0 p = []"
| "cstrn m (Suc n) p = (if m p = 0 then [] else m p # cstrn m n (p + 1))"

text \<open>The \<open>n\<close> bytes at \<open>p\<close>.\<close>

definition bytes :: "mem \<Rightarrow> nat \<Rightarrow> addr \<Rightarrow> u8 list" where
  "bytes m n p = map (\<lambda>i. m (p + of_nat i)) [0..<n]"

definition in_range :: "addr \<Rightarrow> nat \<Rightarrow> addr \<Rightarrow> bool" where
  "in_range p n a \<longleftrightarrow> unat (a - p) < n"

text \<open>Two regions of \<open>n\<close> bytes have no byte in common.\<close>

definition apart :: "addr \<Rightarrow> addr \<Rightarrow> nat \<Rightarrow> bool" where
  "apart s t n \<longleftrightarrow> (\<forall>i<n. \<forall>j<n. s + of_nat i \<noteq> t + of_nat j)"

section \<open>Ranges of addresses\<close>

lemma in_range_0 [simp]: "\<not> in_range p 0 a"
  by (simp add: in_range_def)

lemma in_range_Suc: "in_range p (Suc n) a \<longleftrightarrow> a = p \<or> in_range (p + 1) n a"
  by (simp add: in_range_def dist_Suc)

lemma not_in_range_pred: "n < 4294967296 \<Longrightarrow> \<not> in_range (p + 1) n p"
  by (simp add: in_range_def)

lemma in_range_iff: "in_range p n a \<longleftrightarrow> (\<exists>i<n. i < 4294967296 \<and> a = p + of_nat i)"
proof
  assume "in_range p n a"
  then show "\<exists>i<n. i < 4294967296 \<and> a = p + of_nat i"
    by (intro exI [of _ "unat (a - p)"]) (simp add: in_range_def unat_lt_2p32)
qed (auto simp: in_range_def)

lemma in_range_no_wrap:
  assumes "unat p + n \<le> 4294967296"
  shows "in_range p n a \<longleftrightarrow> unat p \<le> unat a \<and> unat a < unat p + n"
  using assms unat_lt_2p32 [of a] unfolding in_range_def unat_sub_u32 by auto

section \<open>memset, memmove and memcmp\<close>

lemma memset_loop_apply:
  "memset_loop n d c m a = (if in_range d n a then c else m a)"
  by (induction n arbitrary: d m) (auto simp: in_range_Suc)

text \<open>
  Copying upwards is safe unless the destination starts inside the source; copying downwards
  is safe unless the source starts inside the destination.
\<close>

lemma copy_up_apply:
  assumes "n \<le> unat (d - s) \<or> d = s" and "n \<le> 4294967296"
  shows "copy_up n d s m a = (if in_range d n a then m (a + (s - d)) else m a)"
  using assms
proof (induction n arbitrary: d s m)
  case (Suc n)
  define m' where "m' = m(d := m s)"
  have "copy_up n (d + 1) (s + 1) m' a =
     (if in_range (d + 1) n a then m' (a + (s + 1 - (d + 1))) else m' a)"
    by (rule Suc.IH) (use Suc.prems in auto)
  then have IH: "copy_up n (d + 1) (s + 1) m' a =
     (if in_range (d + 1) n a then m' (a + (s - d)) else m' a)" by simp
  have "m' (a + (s - d)) = m (a + (s - d))" if r: "in_range (d + 1) n a"
  proof (cases "a + (s - d) = d")
    case True
    then have "a - d = d - s" by (simp add: algebra_simps)
    moreover have "unat (a - d) < Suc n" using r by (simp add: dist_Suc in_range_def)
    ultimately have "d = s" using Suc.prems by auto
    then show ?thesis by (simp add: m'_def)
  qed (simp add: m'_def)
  then show ?case using IH not_in_range_pred [of n d] Suc.prems
    by (auto simp: in_range_Suc m'_def)
qed simp

lemma copy_down_apply:
  assumes "n \<le> unat (s - d) \<or> d = s" and "n \<le> 4294967296"
  shows "copy_down n d s m a = (if unat (d - 1 - a) < n then m (a + (s - d)) else m a)"
  using assms
proof (induction n arbitrary: d s m)
  case (Suc n)
  define m' where "m' = m(d - 1 := m (s - 1))"
  have "copy_down n (d - 1) (s - 1) m' a =
     (if unat (d - 1 - 1 - a) < n then m' (a + (s - 1 - (d - 1))) else m' a)"
    by (rule Suc.IH) (use Suc.prems in auto)
  then have IH: "copy_down n (d - 1) (s - 1) m' a =
     (if unat (d - 1 - 1 - a) < n then m' (a + (s - d)) else m' a)" by simp
  have S: "unat (d - 1 - a) < Suc n \<longleftrightarrow> a = d - 1 \<or> unat (d - 1 - 1 - a) < n"
    using dist_Suc [of "d - 1" a n] by (auto simp: algebra_simps)
  have "m' (a + (s - d)) = m (a + (s - d))" if r: "unat (d - 1 - 1 - a) < n"
  proof (cases "a + (s - d) = d - 1")
    case True
    then have "d - 1 - a = s - d" by (simp add: algebra_simps)
    moreover have "unat (d - 1 - a) < Suc n" using r S by simp
    ultimately have "unat (s - d) < Suc n" by (simp only:)
    then have "d = s" using Suc.prems by auto
    then show ?thesis by (simp add: m'_def)
  qed (simp add: m'_def)
  moreover have "unat (d - 1 - 1 - (d - 1)) \<ge> n" using Suc.prems(2) by simp
  ultimately show ?case using IH S
    by (auto simp: m'_def algebra_simps)
qed simp

lemma in_range_from_end:
  assumes "n < 4294967296"
  shows "unat (d + of_nat n - 1 - a) < n \<longleftrightarrow> in_range d n a"
proof (cases n)
  case (Suc k)
  define y where "y = a - d"
  have e: "d + of_nat n - 1 - a = of_nat k - y" by (simp add: y_def Suc algebra_simps)
  have "unat (of_nat k - y) < n \<longleftrightarrow> unat y < n"
    using assms Suc unat_lt_2p32 [of y] by (auto simp: unat_sub_u32)
  then show ?thesis unfolding e by (simp add: in_range_def y_def)
qed simp

lemma memmove_apply:
  assumes "unat src + unat n < 4294967296" and "unat dst + unat n \<le> 4294967296"
  shows "memmove dst src n m a = (if in_range dst (unat n) a then m (a + (src - dst)) else m a)"
proof -
  have sn: "unat (src + n) = unat src + unat n" using assms(1) by (rule unat_add_u32)
  show ?thesis
  proof (cases "src < dst \<and> src + n > dst")
    case True
    then have "unat n \<le> unat (src - dst)"
      using assms(2) by (auto simp: unat_sub_u32 word_less_nat_alt)
    then have "copy_down (unat n) (dst + n) (src + n) m a =
      (if unat (dst + n - 1 - a) < unat n then m (a + (src - dst)) else m a)"
      by (subst copy_down_apply) (auto simp: less_imp_le unat_lt_2p32)
    then show ?thesis
      using True in_range_from_end [of "unat n" dst a] by (simp add: memmove_def unat_lt_2p32)
  next
    case False
    then have "unat n \<le> unat (dst - src) \<or> dst = src"
      using assms(1) unat_lt_2p32 [of dst] by (auto simp: unat_sub_u32 word_less_nat_alt sn not_less unat_inject_u32)
    then show ?thesis
      using False by (subst memmove_def, subst if_not_P) (auto simp: copy_up_apply less_imp_le unat_lt_2p32)
  qed
qed

lemma bytes_Suc: "bytes m (Suc n) p = m p # bytes m n (p + 1)"
proof -
  have "[0..<Suc n] = 0 # map Suc [0..<n]" by (simp add: map_Suc_upt upt_conv_Cons del: upt_Suc)
  then show ?thesis by (simp add: bytes_def algebra_simps del: upt_Suc)
qed

lemma bytes_0 [simp]: "bytes m 0 p = []"
  by (simp add: bytes_def)

lemma memcmp_loop_eq_0: "memcmp_loop m n p q = 0 \<longleftrightarrow> bytes m n p = bytes m n q"
  by (induction n arbitrary: p q) (auto simp: bytes_Suc simp flip: word_uint_eq_iff)

section \<open>Strings\<close>

lemma cstrn_cong:
  "(\<And>i. i < n \<Longrightarrow> m (p + of_nat i) = m' (p + of_nat i)) \<Longrightarrow> cstrn m n p = cstrn m' n p"
proof (induction n arbitrary: p)
  case (Suc n)
  from Suc.prems [of 0] have "m p = m' p" by simp
  moreover have "cstrn m n (p + 1) = cstrn m' n (p + 1)"
  proof (rule Suc.IH)
    fix i assume "i < n"
    then show "m (p + 1 + of_nat i) = m' (p + 1 + of_nat i)"
      using Suc.prems [of "Suc i"] by (simp add: algebra_simps)
  qed
  ultimately show ?case by simp
qed simp

lemma length_cstrn: "length (cstrn m n p) \<le> n"
  by (induction n arbitrary: p) auto

lemma cstrn_eq_takeWhile: "cstrn m n p = takeWhile (\<lambda>b. b \<noteq> 0) (bytes m n p)"
  by (induction n arbitrary: p) (simp_all add: bytes_Suc)

lemma strncmp_loop_eq_0: "strncmp_loop m n p q = 0 \<longleftrightarrow> cstrn m n p = cstrn m n q"
  by (induction n arbitrary: p q) (auto simp: uint_0_iff simp flip: word_uint_eq_iff)

lemma apart_Suc: "apart s t (Suc n) \<Longrightarrow> apart (s + 1) (t + 1) n"
  unfolding apart_def
proof (intro allI impI)
  fix i j assume h: "\<forall>i<Suc n. \<forall>j<Suc n. s + word_of_nat i \<noteq> t + word_of_nat j" "i < n" "j < n"
  then show "s + 1 + word_of_nat i \<noteq> t + 1 + word_of_nat j"
    using h(1)[rule_format, of "Suc i" "Suc j"] by (simp add: algebra_simps)
qed

lemma apart_below:
  assumes "unat s + n \<le> unat t" and "unat t + n \<le> 4294967296"
  shows "apart s t n"
proof -
  have "unat (s + of_nat i) < unat (t + of_nat j)" if "i < n" "j < n" for i j
    using that assms by (simp add: unat_add_u32)
  then show ?thesis unfolding apart_def by (metis nless_le)
qed

lemma apartD: "apart s t n \<Longrightarrow> i < n \<Longrightarrow> j < n \<Longrightarrow> s + of_nat i \<noteq> t + of_nat j"
  by (simp add: apart_def)

lemma strncpy_loop_outside:
  "\<not> in_range s n a \<Longrightarrow> strncpy_loop n s t m a = m a"
  by (induction n arbitrary: s t m) (auto simp: in_range_Suc Let_def memset_loop_apply)

lemma safestrcpy_loop_outside:
  "\<not> in_range s (Suc n) a \<Longrightarrow> safestrcpy_loop n s t m a = m a"
  by (induction n arbitrary: s t m) (auto simp: in_range_Suc Let_def)

lemma strncpy_loop_string:
  assumes "apart s t n" and "n < 4294967296"
  shows "bytes (strncpy_loop n s t m) n s = cstrn m n t @ replicate (n - length (cstrn m n t)) 0"
  using assms
proof (induction n arbitrary: s t m)
  case (Suc n)
  define m' where "m' = m(s := m t)"
  have ap: "apart (s + 1) (t + 1) n" using Suc.prems(1) by (rule apart_Suc)
  have s_out: "\<not> in_range (s + 1) n s" using Suc.prems by (intro not_in_range_pred) simp
  have "m (t + 1 + of_nat i) = m' (t + 1 + of_nat i)" if "i < n" for i
    using apartD [OF Suc.prems(1), of 0 "Suc i"] that by (simp add: m'_def algebra_simps)
  then have tail: "cstrn m' n (t + 1) = cstrn m n (t + 1)" by (intro cstrn_cong) simp
  show ?case
  proof (cases "m t = 0")
    case True
    have "bytes (memset_loop n (s + 1) 0 m') n (s + 1) = replicate n 0"
      using Suc.prems(2) by (auto simp: bytes_def memset_loop_apply in_range_def intro: nth_equalityI)
    moreover have "memset_loop n (s + 1) 0 m' s = 0"
      using True s_out by (simp add: memset_loop_apply m'_def)
    moreover have "m' = m(s := 0)" using True by (simp add: m'_def)
    ultimately show ?thesis using True by (simp add: bytes_Suc Let_def)
  next
    case False
    have "bytes (strncpy_loop n (s + 1) (t + 1) m') n (s + 1) =
        cstrn m n (t + 1) @ replicate (n - length (cstrn m n (t + 1))) 0"
      using Suc.IH [OF ap, of m'] Suc.prems(2) tail by simp
    then show ?thesis using False s_out strncpy_loop_outside [OF s_out, of "t + 1" m']
      by (simp add: bytes_Suc Let_def m'_def)
  qed
qed simp

lemma strncpy_string:
  assumes "apart s t (nat (sint n))" and "0 \<le> sint n"
  shows "bytes (strncpy s t n m) (nat (sint n)) s =
     cstrn m (nat (sint n)) t @ replicate (nat (sint n) - length (cstrn m (nat (sint n)) t)) 0"
proof -
  have "sint n < 2147483648" using sint_lt [of n] by simp
  then show ?thesis using assms by (simp add: strncpy_def strncpy_loop_string)
qed

lemma safestrcpy_loop_string:
  assumes "apart s t (Suc n)" and "n < 4294967295"
  shows "cstrn (safestrcpy_loop n s t m) (Suc n) s = cstrn m n t"
  using assms
proof (induction n arbitrary: s t m)
  case (Suc n)
  define m' where "m' = m(s := m t)"
  have ap: "apart (s + 1) (t + 1) (Suc n)" using Suc.prems(1) by (rule apart_Suc)
  have s_out: "\<not> in_range (s + 1) (Suc n) s" using Suc.prems by (intro not_in_range_pred) simp
  have "m (t + 1 + of_nat i) = m' (t + 1 + of_nat i)" if "i < n" for i
    using apartD [OF Suc.prems(1), of 0 "Suc i"] that by (simp add: m'_def algebra_simps)
  then have tail: "cstrn m' n (t + 1) = cstrn m n (t + 1)" by (intro cstrn_cong) simp
  show ?case
  proof (cases "m t = 0")
    case False
    have "cstrn (safestrcpy_loop n (s + 1) (t + 1) m') (Suc n) (s + 1) = cstrn m n (t + 1)"
      using Suc.IH [OF ap, of m'] Suc.prems(2) tail by simp
    then show ?thesis using False safestrcpy_loop_outside [OF s_out, of "t + 1" m']
      by (simp add: Let_def m'_def del: cstrn.simps(2)) (subst cstrn.simps(2), simp add: m'_def)
  qed (simp add: Let_def)
qed simp


lemma strlen_loop_Some:
  assumes "\<forall>i<k. m (s + n + of_nat i) \<noteq> 0" and "m (s + n + of_nat k) = 0"
  shows "strlen_loop m s n = Some (n + of_nat k)"
  using assms
proof (induction k arbitrary: n)
  case 0
  then show ?case by (subst strlen_loop.simps) simp
next
  case (Suc k)
  have "strlen_loop m s (n + 1) = Some (n + 1 + of_nat k)"
  proof (rule Suc.IH)
    have "m (s + n + of_nat (Suc i)) \<noteq> 0" if "i < k" for i using Suc.prems(1) that by blast
    then show "\<forall>i<k. m (s + (n + 1) + of_nat i) \<noteq> 0" by (simp add: algebra_simps)
    show "m (s + (n + 1) + of_nat k) = 0" using Suc.prems(2) by (simp add: algebra_simps)
  qed
  moreover have "m (s + n) \<noteq> 0" using Suc.prems(1) by auto
  ultimately show ?case by (subst strlen_loop.simps) (simp add: algebra_simps)
qed

lemma strlen_Some:
  assumes "\<forall>i<k. m (s + of_nat i) \<noteq> 0" and "m (s + of_nat k) = 0"
  shows "strlen m s = Some (of_nat k)"
  using strlen_loop_Some [of k m s 0] assms by (simp add: strlen_def)


section \<open>Properties\<close>

text \<open>
  \<^bold>\<open>C35.\<close> \<^verbatim>\<open>memmove\<close> is correct for every overlap: when neither region passes the end of
  the address space, every byte of the destination afterwards holds the byte that its
  source location held before the call, and no other byte changes.
\<close>

theorem memmove_correct:
  assumes "unat src + unat n < 2 ^ 32" and "unat dst + unat n \<le> 2 ^ 32"
  shows "bytes (memmove dst src n m) (unat n) dst = bytes m (unat n) src \<and>
    (\<forall>a. \<not> in_range dst (unat n) a \<longrightarrow> memmove dst src n m a = m a)"
proof -
  have *: "memmove dst src n m b = (if in_range dst (unat n) b then m (b + (src - dst)) else m b)" for b
    using assms by (intro memmove_apply) simp_all
  have "in_range dst (unat n) (dst + of_nat i)" if "i < unat n" for i
    using that unat_lt_2p32 [of n] by (simp add: in_range_def)
  then show ?thesis by (simp add: bytes_def * add.commute)
qed

theorem memmove_correct_witness:
  "bytes (memmove 0x1002 0x1000 4 (\<lambda>a. ucast a)) 4 0x1002 = [0, 1, 2, 3]"
  using memmove_correct [of "0x1000" 4 "0x1002" "\<lambda>a. ucast a"]
  by (simp add: bytes_def upt_rec)

text \<open>
  \<^verbatim>\<open>strncmp\<close> returns zero exactly when the two C strings, cut off after
  \<^verbatim>\<open>n\<close> bytes, are equal. Directory lookup relies on this through \<^verbatim>\<open>namecmp\<close>.
\<close>

lemma strncmp_eq_0_iff:
  "strncmp m p q n = 0 \<longleftrightarrow> cstrn m (unat n) p = cstrn m (unat n) q"
  by (simp add: strncmp_def strncmp_loop_eq_0)

text \<open>
  \<^verbatim>\<open>safestrcpy\<close> always leaves a NUL-terminated copy inside the \<^verbatim>\<open>n\<close> bytes of the
  destination: the string read back is the source cut off after \<^verbatim>\<open>n - 1\<close> bytes, its length
  is less than \<^verbatim>\<open>n\<close>, and no byte outside the destination changes.
\<close>

lemma safestrcpy_terminates_copy:
  assumes "0 < sint n" and "apart s t (nat (sint n))"
  shows "cstrn (safestrcpy s t n m) (nat (sint n)) s = cstrn m (nat (sint n) - 1) t \<and>
    length (cstrn (safestrcpy s t n m) (nat (sint n)) s) < nat (sint n) \<and>
    (\<forall>a. \<not> in_range s (nat (sint n)) a \<longrightarrow> safestrcpy s t n m a = m a)"
proof -
  define k where "k = nat (sint n - 1)"
  have k: "nat (sint n) = Suc k" "k < 4294967295"
    using assms(1) sint_lt [of n] by (simp_all add: k_def)
  have def: "safestrcpy s t n m = safestrcpy_loop k s t m"
    using assms(1) by (simp add: safestrcpy_def k_def)
  have "cstrn (safestrcpy_loop k s t m) (Suc k) s = cstrn m k t"
    using safestrcpy_loop_string [of s t k m] assms(2) k by simp
  moreover have "\<forall>a. \<not> in_range s (Suc k) a \<longrightarrow> safestrcpy_loop k s t m a = m a"
    using safestrcpy_loop_outside [of s k _ t m] by blast
  ultimately show ?thesis
    using length_cstrn [of m k t] unfolding def k(1) by simp
qed

end
