(* ===== verification/Spinlock.thy ===== *)
theory Spinlock
  imports Xv6_Prelude
begin

text \<open>
  The spin locks of \<^verbatim>\<open>spinlock.c\<close>, twice. First the routines as functions of the state of
  the calling CPU and the lock, as they run when nobody interferes. Then as a step relation
  in which any number of CPUs execute \<^verbatim>\<open>acquire\<close> and \<^verbatim>\<open>release\<close> on one lock with their
  memory accesses interleaved; mutual exclusion is proved for that relation. The number of
  the calling CPU (the function \<^verbatim>\<open>cpu()\<close> of \<^verbatim>\<open>lapic.c\<close>) is an argument.
\<close>

section \<open>Interrupt flag and CPU state\<close>

definition FL_IF :: u32 where "FL_IF = 0x00000200"

text \<open>
  The fields of \<^verbatim>\<open>struct cpu\<close> the locks use, with the flags register of the CPU.
\<close>

record cpu =
  eflags :: u32
  ncli :: int
  intena :: u32

definition cli :: "cpu \<Rightarrow> cpu" where
  "cli c = c\<lparr>eflags := eflags c AND NOT FL_IF\<rparr>"

definition sti :: "cpu \<Rightarrow> cpu" where
  "sti c = c\<lparr>eflags := eflags c OR FL_IF\<rparr>"

definition pushcli :: "cpu \<Rightarrow> cpu" where
  "pushcli c =
     (let f = eflags c; c1 = cli c; c2 = c1\<lparr>ncli := ncli c1 + 1\<rparr>
      in if ncli c1 = 0 then c2\<lparr>intena := f AND FL_IF\<rparr> else c2)"

definition popcli :: "cpu \<Rightarrow> cpu res" where
  "popcli c =
     (if eflags c AND FL_IF \<noteq> 0 then Inl (Panic ''popcli - interruptible'')
      else let c1 = c\<lparr>ncli := ncli c - 1\<rparr> in
        if ncli c1 < 0 then Inl (Panic ''popcli'')
        else if ncli c1 = 0 \<and> intena c1 \<noteq> 0 then Inr (sti c1) else Inr c1)"

section \<open>Locks\<close>

record spinlock =
  locked :: u32
  lname :: string
  lcpu :: u32
  pcs :: "u32 list"

definition initlock :: "spinlock \<Rightarrow> string \<Rightarrow> spinlock" where
  "initlock lk name = lk\<lparr>lname := name, locked := 0, lcpu := 0xffffffff\<rparr>"

definition holding :: "nat \<Rightarrow> spinlock \<Rightarrow> bool" where
  "holding c lk \<longleftrightarrow> locked lk \<noteq> 0 \<and> lcpu lk = of_nat c + 10"

text \<open>
  \<^verbatim>\<open>getcallerpcs\<close> follows the chain of saved frame pointers in memory; the first argument of
  the loop counts the entries of \<^verbatim>\<open>pcs[]\<close> still to fill.
\<close>

primrec getcallerpcs_loop :: "nat \<Rightarrow> mem \<Rightarrow> addr \<Rightarrow> u32 list" where
  "getcallerpcs_loop 0 m ebp = []"
| "getcallerpcs_loop (Suc n) m ebp =
     (if ebp = 0 \<or> ebp = 0xffffffff then replicate (Suc n) 0
      else read32 m (ebp + 4) # getcallerpcs_loop n m (read32 m ebp))"

definition getcallerpcs :: "mem \<Rightarrow> addr \<Rightarrow> u32 list" where
  "getcallerpcs m v = getcallerpcs_loop 10 m (v - 8)"

definition xchg :: "spinlock \<Rightarrow> u32 \<Rightarrow> u32 \<times> spinlock" where
  "xchg lk v = (locked lk, lk\<lparr>locked := v\<rparr>)"

partial_function (option) spin :: "spinlock \<Rightarrow> spinlock option" where
  "spin lk = (case xchg lk 1 of (old, lk1) \<Rightarrow> if old = 1 then spin lk1 else Some lk1)"

definition acquire :: "mem \<Rightarrow> addr \<Rightarrow> nat \<Rightarrow> cpu \<Rightarrow> spinlock \<Rightarrow> (cpu \<times> spinlock) res" where
  "acquire m v n c lk =
     (let c1 = pushcli c in
      if holding n lk then Inl (Panic ''acquire'')
      else case spin lk of None \<Rightarrow> Inl Diverges
        | Some lk1 \<Rightarrow> Inr (c1, lk1\<lparr>lcpu := of_nat n + 10, pcs := getcallerpcs m v\<rparr>))"

definition release :: "nat \<Rightarrow> cpu \<Rightarrow> spinlock \<Rightarrow> (cpu \<times> spinlock) res" where
  "release n c lk =
     (if \<not> holding n lk then Inl (Panic ''release'')
      else let lk1 = lk\<lparr>pcs := (pcs lk)[0 := 0], lcpu := 0xffffffff\<rparr>;
               lk2 = snd (xchg lk1 0)
           in rbind (popcli c) (\<lambda>c1. Inr (c1, lk2)))"

section \<open>Interleaved execution\<close>

text \<open>
  Where a CPU is in \<^verbatim>\<open>acquire\<close> or \<^verbatim>\<open>release\<close>: each constructor is a point between two
  accesses to the shared lock. \<^verbatim>\<open>holding\<close> reads \<^verbatim>\<open>locked\<close> and then \<^verbatim>\<open>cpu\<close>, with a point in
  between.
\<close>

datatype lpc =
    Outside
  | AcqHolding1      \<comment> \<open>about to read \<^verbatim>\<open>locked\<close> in \<^verbatim>\<open>holding\<close>\<close>
  | AcqHolding2      \<comment> \<open>\<^verbatim>\<open>locked\<close> was set; about to read \<^verbatim>\<open>cpu\<close>\<close>
  | AcqSpin          \<comment> \<open>about to execute \<^verbatim>\<open>xchg(&locked, 1)\<close>\<close>
  | AcqMark          \<comment> \<open>about to record \<^verbatim>\<open>cpu\<close>\<close>
  | AcqPcs           \<comment> \<open>about to record the call stack\<close>
  | Inside           \<comment> \<open>in the critical section\<close>
  | RelHolding2
  | RelPcs           \<comment> \<open>about to clear \<^verbatim>\<open>pcs[0]\<close>\<close>
  | RelCpu           \<comment> \<open>about to clear \<^verbatim>\<open>cpu\<close>\<close>
  | RelXchg          \<comment> \<open>about to execute \<^verbatim>\<open>xchg(&locked, 0)\<close>\<close>
  | RelPop           \<comment> \<open>about to call \<^verbatim>\<open>popcli\<close>\<close>
  | Panicked string

definition NCPU :: nat where "NCPU = 8"

record lsys =
  slock :: spinlock
  cpus :: "nat \<Rightarrow> cpu"
  at :: "nat \<Rightarrow> lpc"

definition goto :: "nat \<Rightarrow> lpc \<Rightarrow> lsys \<Rightarrow> lsys" where
  "goto n p s = s\<lparr>at := (at s)(n := p)\<rparr>"

text \<open>One access of CPU \<open>n\<close>, for memory contents \<open>m\<close> and stack position \<open>v\<close>.\<close>

definition cpu_step :: "mem \<Rightarrow> addr \<Rightarrow> nat \<Rightarrow> lsys \<Rightarrow> lsys" where
  "cpu_step m v n s = (let l = slock s; here = of_nat n + 10 in
     case at s n of
       Outside \<Rightarrow> goto n AcqHolding1 (s\<lparr>cpus := (cpus s)(n := pushcli (cpus s n))\<rparr>)
     | AcqHolding1 \<Rightarrow> goto n (if locked l \<noteq> 0 then AcqHolding2 else AcqSpin) s
     | AcqHolding2 \<Rightarrow> goto n (if lcpu l = here then Panicked ''acquire'' else AcqSpin) s
     | AcqSpin \<Rightarrow> (case xchg l 1 of (old, l1) \<Rightarrow>
         goto n (if old = 1 then AcqSpin else AcqMark) (s\<lparr>slock := l1\<rparr>))
     | AcqMark \<Rightarrow> goto n AcqPcs (s\<lparr>slock := l\<lparr>lcpu := here\<rparr>\<rparr>)
     | AcqPcs \<Rightarrow> goto n Inside (s\<lparr>slock := l\<lparr>pcs := getcallerpcs m v\<rparr>\<rparr>)
     | Inside \<Rightarrow> goto n (if locked l \<noteq> 0 then RelHolding2 else Panicked ''release'') s
     | RelHolding2 \<Rightarrow> goto n (if lcpu l = here then RelPcs else Panicked ''release'') s
     | RelPcs \<Rightarrow> goto n RelCpu (s\<lparr>slock := l\<lparr>pcs := (pcs l)[0 := 0]\<rparr>\<rparr>)
     | RelCpu \<Rightarrow> goto n RelXchg (s\<lparr>slock := l\<lparr>lcpu := 0xffffffff\<rparr>\<rparr>)
     | RelXchg \<Rightarrow> goto n RelPop (s\<lparr>slock := snd (xchg l 0)\<rparr>)
     | RelPop \<Rightarrow> (case popcli (cpus s n) of
           Inl (Panic e) \<Rightarrow> goto n (Panicked e) s
         | Inl _ \<Rightarrow> s
         | Inr c \<Rightarrow> goto n Outside (s\<lparr>cpus := (cpus s)(n := c)\<rparr>))
     | Panicked e \<Rightarrow> s)"

inductive lock_step :: "lsys \<Rightarrow> lsys \<Rightarrow> bool" where
  lock_step: "n < NCPU \<Longrightarrow> lock_step s (cpu_step m v n s)"

definition lock_init :: "lsys \<Rightarrow> bool" where
  "lock_init s \<longleftrightarrow> (\<exists>lk0 name. slock s = initlock lk0 name)
     \<and> (\<forall>n. at s n = Outside \<and> ncli (cpus s n) = 0)"

section \<open>Nested pushcli and popcli\<close>

lemma cli_off [simp]: "eflags (cli c) AND FL_IF = 0"
  by (simp add: cli_def and.assoc)

lemma pushcli_simps [simp]:
  "eflags (pushcli c) = eflags c AND NOT FL_IF" "ncli (pushcli c) = ncli c + 1"
  "intena (pushcli c) = (if ncli c = 0 then eflags c AND FL_IF else intena c)"
  by (simp_all add: pushcli_def cli_def Let_def)

definition cli_ok :: "cpu \<Rightarrow> bool" where
  "cli_ok c \<longleftrightarrow> 0 \<le> ncli c \<and> (0 < ncli c \<longrightarrow> eflags c AND FL_IF = 0)"

lemma bit_FL_IF: "bit FL_IF i \<longleftrightarrow> i = 9"
proof -
  have F: "FL_IF = 2 ^ 9" by (simp add: FL_IF_def)
  show ?thesis unfolding F bit_exp_iff by auto
qed

lemma and_FL_IF: "x AND FL_IF = (if bit x 9 then FL_IF else 0)"
  by (rule bit_word_eqI) (auto simp: bit_simps bit_FL_IF)

lemma FL_IF_nonzero [simp]: "FL_IF \<noteq> 0"
  by (simp add: FL_IF_def)

lemma flag_off: "x AND FL_IF = 0 \<Longrightarrow> x AND NOT FL_IF = x"
  by (rule bit_word_eqI) (auto simp: and_FL_IF bit_simps bit_FL_IF split: if_splits)

lemma flag_on: "x AND FL_IF \<noteq> 0 \<Longrightarrow> (x AND NOT FL_IF) OR FL_IF = x"
  by (rule bit_word_eqI) (auto simp: and_FL_IF bit_simps bit_FL_IF split: if_splits)

text \<open>A matching pair undoes itself.\<close>

lemma popcli_pushcli:
  assumes "cli_ok c"
  shows "\<exists>c'. popcli (pushcli c) = Inr c' \<and> eflags c' = eflags c \<and> ncli c' = ncli c
     \<and> (0 < ncli c \<longrightarrow> intena c' = intena c)"
proof (cases "ncli c = 0 \<and> eflags c AND FL_IF \<noteq> 0")
  case True
  then show ?thesis
    by (auto simp: popcli_def Let_def sti_def and.assoc flag_on)
next
  case False
  then have "eflags c AND FL_IF = 0" using assms by (auto simp: cli_ok_def)
  then show ?thesis using assms flag_off
    by (auto simp: popcli_def Let_def and.assoc cli_ok_def)
qed

text \<open>\<open>n\<close> calls of \<^verbatim>\<open>pushcli\<close> followed by as many of \<^verbatim>\<open>popcli\<close>.\<close>

primrec nest :: "nat \<Rightarrow> cpu \<Rightarrow> cpu res" where
  "nest 0 c = Inr c"
| "nest (Suc n) c = rbind (nest n (pushcli c)) popcli"

lemma nest_pair:
  assumes "cli_ok c"
  shows "\<exists>c'. nest n c = Inr c' \<and> eflags c' = eflags c \<and> ncli c' = ncli c
     \<and> (0 < ncli c \<longrightarrow> intena c' = intena c)"
  using assms
proof (induction n arbitrary: c)
  case (Suc n)
  have "cli_ok (pushcli c)" using Suc.prems by (simp add: cli_ok_def and.assoc)
  then obtain c1 where c1: "nest n (pushcli c) = Inr c1" "eflags c1 = eflags (pushcli c)"
    "ncli c1 = ncli (pushcli c)" "intena c1 = intena (pushcli c)"
    using Suc.IH [of "pushcli c"] Suc.prems by (auto simp: cli_ok_def)
  then have "c1 = pushcli c" by simp
  then show ?case using c1(1) popcli_pushcli [OF Suc.prems] by simp
qed simp

section \<open>The lock invariant\<close>

text \<open>The CPUs that own the lock, and those among them whose number it shows.\<close>

definition owner :: "lpc \<Rightarrow> bool" where
  "owner p \<longleftrightarrow> p \<in> {AcqMark, AcqPcs, Inside, RelHolding2, RelPcs, RelCpu, RelXchg}"

definition marked :: "lpc \<Rightarrow> bool" where
  "marked p \<longleftrightarrow> p \<in> {AcqPcs, Inside, RelHolding2, RelPcs, RelCpu}"

definition lock_inv :: "lsys \<Rightarrow> bool" where
  "lock_inv s \<longleftrightarrow>
     (\<forall>n < NCPU. \<forall>m < NCPU. owner (at s n) \<longrightarrow> owner (at s m) \<longrightarrow> n = m)
     \<and> locked (slock s) = (if \<exists>n < NCPU. owner (at s n) then 1 else 0)
     \<and> (\<forall>n < NCPU. marked (at s n) \<longleftrightarrow> lcpu (slock s) = of_nat n + 10)
     \<and> (\<forall>n < NCPU. cli_ok (cpus s n) \<and> ncli (cpus s n) = (if at s n = Outside then 0 else 1))
     \<and> (\<forall>n < NCPU. \<forall>e. at s n \<noteq> Panicked e)"

lemma here_inj: "n < NCPU \<Longrightarrow> m < NCPU \<Longrightarrow> (of_nat n + 10 :: u32) = of_nat m + 10 \<longleftrightarrow> n = m"
  by (simp add: NCPU_def of_nat_eq_u32)

lemma here_valid: "n < NCPU \<Longrightarrow> (of_nat n + 10 :: u32) \<noteq> 0xffffffff"
proof
  assume n: "n < NCPU" and eq: "(of_nat n + 10 :: u32) = 0xffffffff"
  have "unat (of_nat n + 10 :: u32) = n + 10" using n by (simp add: NCPU_def unat_add_u32)
  then show False using n unfolding eq by (simp add: NCPU_def)
qed

lemma lock_init_inv: "lock_init s \<Longrightarrow> lock_inv s"
  by (auto simp: lock_init_def lock_inv_def initlock_def owner_def marked_def cli_ok_def
      dest: here_valid [symmetric])

lemma lock_invD:
  assumes "lock_inv s" and "n < NCPU"
  shows "m < NCPU \<Longrightarrow> owner (at s n) \<Longrightarrow> owner (at s m) \<Longrightarrow> n = m"
    and "locked (slock s) = (if \<exists>n < NCPU. owner (at s n) then 1 else 0)"
    and "marked (at s n) \<longleftrightarrow> lcpu (slock s) = of_nat n + 10"
    and "cli_ok (cpus s n)" and "ncli (cpus s n) = (if at s n = Outside then 0 else 1)"
    and "at s n \<noteq> Panicked e"
  using assms by (auto simp: lock_inv_def)

text \<open>A move that neither takes nor drops the lock.\<close>

lemma inv_move:
  assumes "lock_inv s" and "n < NCPU" and "at s n \<noteq> Outside" and "p \<noteq> Outside"
    and "owner p = owner (at s n)" and "marked p = marked (at s n)" and "\<And>e. p \<noteq> Panicked e"
    and "locked l = locked (slock s)" and "lcpu l = lcpu (slock s)"
  shows "lock_inv (goto n p (s\<lparr>slock := l\<rparr>))"
proof -
  have "owner (((at s)(n := p)) k) = owner (at s k)" "marked (((at s)(n := p)) k) = marked (at s k)"
    "((at s)(n := p)) k = Outside \<longleftrightarrow> at s k = Outside"
    "(\<exists>e. ((at s)(n := p)) k = Panicked e) \<longrightarrow> (\<exists>e. at s k = Panicked e)" for k
    using assms(3-7) by auto
  then show ?thesis
    using assms(1,8,9) by (simp add: lock_inv_def goto_def del: fun_upd_apply) blast
qed

lemma inv_goto:
  assumes "lock_inv s" and "n < NCPU" and "at s n \<noteq> Outside" and "p \<noteq> Outside"
    and "owner p = owner (at s n)" and "marked p = marked (at s n)" and "\<And>e. p \<noteq> Panicked e"
  shows "lock_inv (goto n p s)"
  using inv_move [OF assms, of "slock s"] by simp

text \<open>Entering and leaving: \<^verbatim>\<open>pushcli\<close> and \<^verbatim>\<open>popcli\<close>.\<close>

lemma inv_enter:
  assumes "lock_inv s" and "n < NCPU" and "at s n = Outside"
  shows "lock_inv (goto n AcqHolding1 (s\<lparr>cpus := (cpus s)(n := pushcli (cpus s n))\<rparr>))"
proof -
  have "owner (((at s)(n := AcqHolding1)) k) = owner (at s k)"
    "marked (((at s)(n := AcqHolding1)) k) = marked (at s k)" for k
    using assms(3) by (auto simp: owner_def marked_def)
  moreover have "cli_ok (pushcli (cpus s n))" "ncli (pushcli (cpus s n)) = 1"
    using lock_invD(4,5) [OF assms(1,2)] assms(3) by (auto simp: cli_ok_def and.assoc)
  ultimately show ?thesis using assms by (auto simp: lock_inv_def goto_def)
qed

lemma inv_leave:
  assumes "lock_inv s" and "n < NCPU" and "at s n = RelPop"
  shows "\<exists>c. popcli (cpus s n) = Inr c \<and> lock_inv (goto n Outside (s\<lparr>cpus := (cpus s)(n := c)\<rparr>))"
proof -
  have c: "cli_ok (cpus s n)" "ncli (cpus s n) = 1"
    using lock_invD(4,5) [OF assms(1,2)] assms(3) by auto
  then obtain c where p: "popcli (cpus s n) = Inr c" "ncli c = 0" "cli_ok c"
    by (cases "intena (cpus s n) = 0") (auto simp: popcli_def cli_ok_def sti_def Let_def)
  have "owner (((at s)(n := Outside)) k) = owner (at s k)"
    "marked (((at s)(n := Outside)) k) = marked (at s k)" for k
    using assms(3) by (auto simp: owner_def marked_def)
  then have "lock_inv (goto n Outside (s\<lparr>cpus := (cpus s)(n := c)\<rparr>))"
    using assms(1) p(2,3) by (auto simp: lock_inv_def goto_def)
  then show ?thesis using p(1) by blast
qed

text \<open>Taking the lock, recording the CPU, clearing it and dropping the lock.\<close>

lemma inv_take:
  assumes "lock_inv s" and "n < NCPU" and "at s n = AcqSpin" and "locked (slock s) \<noteq> 1"
  shows "lock_inv (goto n AcqMark (s\<lparr>slock := (slock s)\<lparr>locked := 1\<rparr>\<rparr>))"
proof -
  have none: "\<not> owner (at s k)" if "k < NCPU" for k
    using lock_invD(2) [OF assms(1,2)] assms(4) that by (auto split: if_splits)
  have "marked (((at s)(n := AcqMark)) k) = marked (at s k)" for k
    using assms(3) by (auto simp: marked_def)
  then show ?thesis using assms(1-3) none by (auto simp: lock_inv_def goto_def owner_def [of AcqMark])
qed

lemma inv_mark:
  assumes "lock_inv s" and "n < NCPU" and "at s n = AcqMark"
  shows "lock_inv (goto n AcqPcs (s\<lparr>slock := (slock s)\<lparr>lcpu := of_nat n + 10\<rparr>\<rparr>))"
proof -
  have o: "owner (((at s)(n := AcqPcs)) k) = owner (at s k)" for k
    using assms(3) by (auto simp: owner_def)
  have "\<not> marked (at s k)" if "k < NCPU" "k \<noteq> n" for k
    using lock_invD(1) [OF assms(1) that(1) assms(2)] that(2) assms(3)
    by (auto simp: owner_def marked_def)
  then have "marked (((at s)(n := AcqPcs)) k) \<longleftrightarrow> (of_nat n + 10 :: u32) = of_nat k + 10" if "k < NCPU" for k
    using that assms(2) here_inj [of n k] by (auto simp: marked_def)
  then show ?thesis using assms(1,3) o by (auto simp: lock_inv_def goto_def)
qed

lemma inv_clear:
  assumes "lock_inv s" and "n < NCPU" and "at s n = RelCpu"
  shows "lock_inv (goto n RelXchg (s\<lparr>slock := (slock s)\<lparr>lcpu := 0xffffffff\<rparr>\<rparr>))"
proof -
  have o: "owner (((at s)(n := RelXchg)) k) = owner (at s k)" for k
    using assms(3) by (auto simp: owner_def)
  have "\<not> marked (at s k)" if "k < NCPU" "k \<noteq> n" for k
    using lock_invD(1) [OF assms(1) that(1) assms(2)] that(2) assms(3)
    by (auto simp: owner_def marked_def)
  then have "marked (((at s)(n := RelXchg)) k) \<longleftrightarrow> (0xffffffff :: u32) = of_nat k + 10" if "k < NCPU" for k
    using that here_valid [of k] by (auto simp: marked_def)
  then show ?thesis using assms(1,3) o by (auto simp: lock_inv_def goto_def)
qed

lemma inv_drop:
  assumes "lock_inv s" and "n < NCPU" and "at s n = RelXchg"
  shows "lock_inv (goto n RelPop (s\<lparr>slock := (slock s)\<lparr>locked := 0\<rparr>\<rparr>))"
proof -
  have "\<not> owner (((at s)(n := RelPop)) k)" if "k < NCPU" for k
    using lock_invD(1) [OF assms(1,2) that] assms(3) by (auto simp: owner_def)
  moreover have "marked (((at s)(n := RelPop)) k) = marked (at s k)" for k
    using assms(3) by (auto simp: marked_def)
  ultimately show ?thesis using assms(1,3) by (auto simp: lock_inv_def goto_def)
qed

lemma lock_inv_step:
  assumes "lock_inv s" and n: "n < NCPU" shows "lock_inv (cpu_step m v n s)"
proof -
  note D = lock_invD [OF assms]
  have held: "owner (at s n) \<Longrightarrow> locked (slock s) \<noteq> 0" using D(2) n by auto
  show ?thesis
  proof (cases "at s n")
    case AcqSpin
    show ?thesis
    proof (cases "locked (slock s) = 1")
      case True
      then show ?thesis using AcqSpin inv_move [OF assms, of AcqSpin] by (simp add: cpu_step_def xchg_def)
    next
      case False
      then show ?thesis using AcqSpin inv_take [OF assms] by (simp add: cpu_step_def xchg_def)
    qed
  next
    case RelPop
    then show ?thesis using inv_leave [OF assms] by (auto simp: cpu_step_def)
  next
    case (Panicked e)
    then show ?thesis using D(6) by blast
  next
    case Outside
    then show ?thesis using inv_enter [OF assms] by (simp add: cpu_step_def)
  next
    case AcqMark
    then show ?thesis using inv_mark [OF assms] by (simp add: cpu_step_def)
  next
    case RelCpu
    then show ?thesis using inv_clear [OF assms] by (simp add: cpu_step_def)
  next
    case RelXchg
    then show ?thesis using inv_drop [OF assms] by (simp add: cpu_step_def xchg_def)
  next
    case AcqPcs
    then show ?thesis using inv_move [OF assms, of Inside] by (simp add: cpu_step_def owner_def marked_def)
  next
    case RelPcs
    then show ?thesis using inv_move [OF assms, of RelCpu] by (simp add: cpu_step_def Let_def owner_def marked_def)
  qed (use D(3) held assms in \<open>auto simp: cpu_step_def Let_def owner_def marked_def intro!: inv_goto\<close>)
qed

interpretation lock_sys: inductive_invariant lock_init lock_step lock_inv
  by unfold_locales (auto intro: lock_init_inv lock_inv_step elim: lock_step.cases)

section \<open>One CPU undisturbed\<close>

lemma spin_free: "locked k \<noteq> 1 \<Longrightarrow> spin k = Some (k\<lparr>locked := 1\<rparr>)"
  by (subst spin.simps) (simp add: xchg_def)

lemma spin_held: "locked k = 1 \<Longrightarrow> spin k = None"
proof (rule ccontr)
  assume l: "locked k = 1" and "spin k \<noteq> None"
  then obtain k' where "spin k = Some k'" by blast
  then have "locked k \<noteq> 1"
  proof (rule spin.raw_induct [rotated])
    fix f x y assume IH: "\<And>x y. f x = Some y \<Longrightarrow> locked x \<noteq> 1"
      and eq: "(case xchg x 1 of (old, lk1) \<Rightarrow> if old = 1 then f lk1 else Some lk1) = Some y"
    show "locked x \<noteq> 1" using IH [of "x\<lparr>locked := 1\<rparr>" y] eq by (auto simp: xchg_def)
  qed
  then show False using l by simp
qed

lemma getcallerpcs_loop_length [simp]: "length (getcallerpcs_loop n m ebp) = n"
  by (induction n arbitrary: ebp) auto

lemma acquire_cases:
  "acquire m v n c k = (if holding n k then Inl (Panic ''acquire'')
     else if locked k = 1 then Inl Diverges
     else Inr (pushcli c, k\<lparr>locked := 1, lcpu := of_nat n + 10, pcs := getcallerpcs m v\<rparr>))"
  by (simp add: acquire_def Let_def spin_free spin_held)

section \<open>Properties\<close>

text \<open>
  \<^bold>\<open>C3.\<close> Mutual exclusion. However the CPUs' accesses to the lock are interleaved, at most
  one CPU is between the exchange that took the lock and the one that drops it, and none of the
  checks of \<^verbatim>\<open>acquire\<close>, \<^verbatim>\<open>release\<close> and \<^verbatim>\<open>popcli\<close> ever panics.
\<close>

theorem mutual_exclusion:
  assumes "lock_init s0" and "lock_step\<^sup>*\<^sup>* s0 s" and "n < NCPU" and "m < NCPU"
    and "owner (at s n)" and "owner (at s m)"
  shows "n = m \<and> (\<forall>k e. k < NCPU \<longrightarrow> at s k \<noteq> Panicked e)"
  using lock_sys.reachable_inv [OF assms(1,2)] lock_invD [of s] assms(3-6) by blast

definition two_cpus :: lsys where
  "two_cpus = \<lparr>slock = initlock \<lparr>locked = 7, lname = [], lcpu = 0, pcs = []\<rparr> ''kalloc'',
     cpus = (\<lambda>_. \<lparr>eflags = FL_IF, ncli = 0, intena = 0\<rparr>), at = (\<lambda>_. Outside)\<rparr>"

primrec run_cpus :: "nat list \<Rightarrow> lsys \<Rightarrow> lsys" where
  "run_cpus [] s = s"
| "run_cpus (n # ns) s = run_cpus ns (cpu_step (\<lambda>_. 0) 0 n s)"

lemma run_cpus_reach: "\<forall>n \<in> set ns. n < NCPU \<Longrightarrow> lock_step\<^sup>*\<^sup>* s (run_cpus ns s)"
  by (induction ns arbitrary: s) (auto intro: converse_rtranclp_into_rtranclp lock_step)

theorem mutual_exclusion_witness:
  "at (run_cpus [0, 1, 0, 1, 1, 0, 1, 0] two_cpus) 1 = AcqPcs
   \<and> {n. n < NCPU \<and> owner (at (run_cpus [0, 1, 0, 1, 1, 0, 1, 0] two_cpus) n)} = {1}"
proof -
  let ?s = "run_cpus [0, 1, 0, 1, 1, 0, 1, 0] two_cpus"
  have at1: "at ?s 1 = AcqPcs" by code_simp
  have "lock_init two_cpus" by (auto simp: lock_init_def two_cpus_def)
  moreover have "lock_step\<^sup>*\<^sup>* two_cpus ?s" by (rule run_cpus_reach) (simp add: NCPU_def)
  moreover have "owner (at ?s 1)" "1 < NCPU" by (simp_all only: at1) (simp_all add: owner_def NCPU_def)
  ultimately show ?thesis using mutual_exclusion [of two_cpus ?s _ 1] at1 by blast
qed

text \<open>
  A routine that acquires a free lock and releases it again leaves the lock free and
  its CPU as it was: same flags register, same nesting depth. Acquiring a lock the CPU already
  holds panics, and so does releasing one it does not hold.
\<close>

lemma acquire_release:
  assumes "cli_ok c" and "locked k = 0"
  shows "\<exists>c1 k1 c2 k2. acquire m v n c k = Inr (c1, k1) \<and> holding n k1 \<and> eflags c1 AND FL_IF = 0
    \<and> acquire m v n c1 k1 = Inl (Panic ''acquire'')
    \<and> release n c1 k1 = Inr (c2, k2) \<and> locked k2 = 0 \<and> \<not> holding n k2
    \<and> eflags c2 = eflags c \<and> ncli c2 = ncli c
    \<and> release n c2 k2 = Inl (Panic ''release'')"
proof -
  let ?k1 = "k\<lparr>locked := 1, lcpu := of_nat n + 10, pcs := getcallerpcs m v\<rparr>"
  let ?k2 = "?k1\<lparr>pcs := (getcallerpcs m v)[0 := 0], lcpu := 0xffffffff, locked := 0\<rparr>"
  obtain c' where c': "popcli (pushcli c) = Inr c'" "eflags c' = eflags c" "ncli c' = ncli c"
    using popcli_pushcli [OF assms(1)] by blast
  have "acquire m v n c k = Inr (pushcli c, ?k1)" "holding n ?k1" "\<not> holding n ?k2"
    using assms(2) by (simp_all add: acquire_cases holding_def)
  moreover have "release n (pushcli c) ?k1 = Inr (c', ?k2)"
    using c'(1) by (simp add: release_def holding_def xchg_def Let_def)
  ultimately show ?thesis
    using c'(2,3)
    by (intro exI [of _ "pushcli c"] exI [of _ ?k1] exI [of _ c'] exI [of _ ?k2])
       (simp add: acquire_cases release_def and.assoc)
qed

text \<open>
  \<^verbatim>\<open>pushcli\<close> and \<^verbatim>\<open>popcli\<close> nest: \<open>n\<close> calls of the one followed by \<open>n\<close> of the other
  never panic and restore the flags register, so that interrupts are on afterwards exactly if
  they were on before; in between they are off.
\<close>

lemma pushcli_popcli_nest:
  assumes "cli_ok c"
  shows "(\<exists>c'. nest n c = Inr c' \<and> eflags c' = eflags c \<and> ncli c' = ncli c)
    \<and> eflags ((pushcli ^^ Suc n) c) AND FL_IF = 0"
  using nest_pair [OF assms, of n] by (auto simp: and.assoc)

end
