(* ===== verification/Sched.thy ===== *)
theory Sched
  imports Spinlock
begin

text \<open>
  The process table of \<^verbatim>\<open>proc.c\<close>: allocation of entries, the scheduler, sleep and wakeup,
  kill, and the parts of \<^verbatim>\<open>exit\<close> and \<^verbatim>\<open>wait\<close> that work on the table. A \<^verbatim>\<open>struct proc *\<close>
  is the index of the entry, the null pointer is \<open>None\<close>. Everything here runs with
  \<^verbatim>\<open>proc_table_lock\<close> held. The record is extended by the theories that add the other
  tables of the kernel.
\<close>

section \<open>The process table\<close>

definition NPROC :: nat where "NPROC = 64"
definition NOFILE :: nat where "NOFILE = 16"

datatype proc_state = UNUSED | EMBRYO | SLEEPING | RUNNABLE | RUNNING | ZOMBIE

record kcontext =
  ctx_eip :: u32
  ctx_esp :: u32
  ctx_ebx :: u32
  ctx_ecx :: u32
  ctx_edx :: u32
  ctx_esi :: u32
  ctx_edi :: u32
  ctx_ebp :: u32

record trapframe =
  tf_edi :: u32
  tf_esi :: u32
  tf_ebp :: u32
  tf_oesp :: u32
  tf_ebx :: u32
  tf_edx :: u32
  tf_ecx :: u32
  tf_eax :: u32
  tf_es :: u16
  tf_ds :: u16
  tf_trapno :: u32
  tf_err :: u32
  tf_eip :: u32
  tf_cs :: u16
  tf_eflags :: u32
  tf_esp :: u32
  tf_ss :: u16

record proc =
  p_mem :: addr
  p_sz :: u32
  p_kstack :: addr
  p_state :: proc_state
  p_pid :: u32
  p_parent :: "nat option"
  p_chan :: "chan option"
  p_killed :: bool
  p_ofile :: "nat option list"
  p_cwd :: "nat option"
  p_context :: kcontext
  p_tf :: trapframe
  p_name :: "u8 list"

record ptable =
  procs :: "proc list"
  nextpid :: u32
  initproc :: "nat option"

definition proc_at :: "nat \<Rightarrow> 'a ptable_scheme \<Rightarrow> proc" where
  "proc_at i s = procs s ! i"

definition upd_proc :: "nat \<Rightarrow> (proc \<Rightarrow> proc) \<Rightarrow> 'a ptable_scheme \<Rightarrow> 'a ptable_scheme" where
  "upd_proc i f s = s\<lparr>procs := (procs s)[i := f (procs s ! i)]\<rparr>"

definition set_state :: "nat \<Rightarrow> proc_state \<Rightarrow> 'a ptable_scheme \<Rightarrow> 'a ptable_scheme" where
  "set_state i st = upd_proc i (\<lambda>p. p\<lparr>p_state := st\<rparr>)"

definition allocproc :: "'a ptable_scheme \<Rightarrow> nat option \<times> 'a ptable_scheme" where
  "allocproc s =
     (case first_idx (\<lambda>p. p_state p = UNUSED) (procs s) of
        None \<Rightarrow> (None, s)
      | Some i \<Rightarrow>
         (Some i, (upd_proc i (\<lambda>p. p\<lparr>p_state := EMBRYO, p_pid := nextpid s\<rparr>) s)
                    \<lparr>nextpid := nextpid s + 1\<rparr>))"

definition wakeup1 :: "chan option \<Rightarrow> 'a ptable_scheme \<Rightarrow> 'a ptable_scheme" where
  "wakeup1 ch s = s\<lparr>procs := map (\<lambda>p.
     if p_state p = SLEEPING \<and> p_chan p = ch then p\<lparr>p_state := RUNNABLE\<rparr> else p) (procs s)\<rparr>"

definition wakeup :: "chan \<Rightarrow> 'a ptable_scheme \<Rightarrow> 'a ptable_scheme" where
  "wakeup ch s = wakeup1 (Some ch) s"

text \<open>Result 0 for success and -1 for failure, as in the code.\<close>

definition kill :: "u32 \<Rightarrow> 'a ptable_scheme \<Rightarrow> u32 \<times> 'a ptable_scheme" where
  "kill pid s =
     (case first_idx (\<lambda>p. p_pid p = pid) (procs s) of
        None \<Rightarrow> (-1, s)
      | Some i \<Rightarrow> (0, upd_proc i (\<lambda>p. let p1 = p\<lparr>p_killed := True\<rparr> in
           if p_state p1 = SLEEPING then p1\<lparr>p_state := RUNNABLE\<rparr> else p1) s))"

section \<open>Switching\<close>

text \<open>
  The scheduler loop of a CPU scans the table from some index for the next runnable entry,
  marks it running and switches to it.
\<close>

definition scheduler_next :: "nat \<Rightarrow> 'a ptable_scheme \<Rightarrow> nat option" where
  "scheduler_next i s =
     map_option ((+) i) (first_idx (\<lambda>p. p_state p = RUNNABLE) (drop i (procs s)))"

text \<open>The checks of \<^verbatim>\<open>sched\<close> before it switches to the scheduler.\<close>

definition sched :: "nat \<Rightarrow> cpu \<Rightarrow> spinlock \<Rightarrow> proc \<Rightarrow> unit res" where
  "sched n c ptl p =
     (if eflags c AND FL_IF \<noteq> 0 then Inl (Panic ''sched interruptible'')
      else if p_state p = RUNNING then Inl (Panic ''sched running'')
      else if \<not> holding n ptl then Inl (Panic ''sched proc_table_lock'')
      else if ncli c \<noteq> 1 then Inl (Panic ''sched locks'')
      else Inr ())"

text \<open>
  \<^verbatim>\<open>yield\<close> and \<^verbatim>\<open>sleep\<close> up to the switch to the scheduler, and from the moment the process
  runs again. The arguments are the CPU's number and state, the lock words involved, and the
  current process.
\<close>

definition yield_enter ::
    "mem \<Rightarrow> addr \<Rightarrow> nat \<Rightarrow> cpu \<Rightarrow> spinlock \<Rightarrow> nat \<Rightarrow> 'a ptable_scheme \<Rightarrow> (cpu \<times> spinlock \<times> 'a ptable_scheme) res" where
  "yield_enter m v n c ptl cp s =
     rbind (acquire m v n c ptl) (\<lambda>(c1, ptl1).
     let s1 = set_state cp RUNNABLE s in
     rbind (sched n c1 ptl1 (proc_at cp s1)) (\<lambda>_. Inr (c1, ptl1, s1)))"

definition yield_return :: "nat \<Rightarrow> cpu \<Rightarrow> spinlock \<Rightarrow> (cpu \<times> spinlock) res" where
  "yield_return n c ptl = release n c ptl"

text \<open>The lock argument of \<^verbatim>\<open>sleep\<close>: null, \<^verbatim>\<open>&proc_table_lock\<close> itself, or another lock.\<close>

datatype lock_arg = NullLock | ProcTableLock | Lock spinlock

definition sleep_enter ::
    "mem \<Rightarrow> addr \<Rightarrow> nat \<Rightarrow> cpu \<Rightarrow> spinlock \<Rightarrow> lock_arg \<Rightarrow> chan \<Rightarrow> nat option \<Rightarrow> 'a ptable_scheme
     \<Rightarrow> (cpu \<times> spinlock \<times> lock_arg \<times> 'a ptable_scheme) res" where
  "sleep_enter m v n c ptl lk ch cpr s =
     (case cpr of None \<Rightarrow> Inl (Panic ''sleep'') | Some cp \<Rightarrow>
      if lk = NullLock then Inl (Panic ''sleep without lk'') else
      rbind (case lk of
               Lock l \<Rightarrow> rbind (acquire m v n c ptl) (\<lambda>(c1, ptl1).
                         rbind (release n c1 l) (\<lambda>(c2, l1). Inr (c2, ptl1, Lock l1)))
             | _ \<Rightarrow> Inr (c, ptl, lk))
        (\<lambda>(c2, ptl1, lk1).
         let s1 = upd_proc cp (\<lambda>p. p\<lparr>p_chan := Some ch, p_state := SLEEPING\<rparr>) s in
         rbind (sched n c2 ptl1 (proc_at cp s1)) (\<lambda>_. Inr (c2, ptl1, lk1, s1))))"

definition sleep_return ::
    "mem \<Rightarrow> addr \<Rightarrow> nat \<Rightarrow> cpu \<Rightarrow> spinlock \<Rightarrow> lock_arg \<Rightarrow> nat \<Rightarrow> 'a ptable_scheme
     \<Rightarrow> (cpu \<times> spinlock \<times> lock_arg \<times> 'a ptable_scheme) res" where
  "sleep_return m v n c ptl lk cp s =
     (let s1 = upd_proc cp (\<lambda>p. p\<lparr>p_chan := None\<rparr>) s in
      case lk of
        Lock l \<Rightarrow>
          rbind (release n c ptl) (\<lambda>(c1, ptl1).
          rbind (acquire m v n c1 l) (\<lambda>(c2, l1). Inr (c2, ptl1, Lock l1, s1)))
      | _ \<Rightarrow> Inr (c, ptl, lk, s1))"

section \<open>The table part of exit and wait\<close>

text \<open>\<^verbatim>\<open>exit\<close> from the acquisition of \<^verbatim>\<open>proc_table_lock\<close> to the call of \<^verbatim>\<open>sched\<close>.\<close>

definition reparent :: "nat \<Rightarrow> nat \<Rightarrow> 'a ptable_scheme \<Rightarrow> 'a ptable_scheme" where
  "reparent cp i s =
     (if p_parent (proc_at i s) = Some cp then
        (let s1 = upd_proc i (\<lambda>p. p\<lparr>p_parent := initproc s\<rparr>) s in
         if p_state (proc_at i s1) = ZOMBIE then wakeup1 (map_option ChanProc (initproc s1)) s1 else s1)
      else s)"

definition exit_table :: "nat \<Rightarrow> 'a ptable_scheme \<Rightarrow> 'a ptable_scheme" where
  "exit_table cp s =
     (let s1 = wakeup1 (map_option ChanProc (p_parent (proc_at cp s))) s;
          s2 = fold (reparent cp) [0..<NPROC] s1
      in upd_proc cp (\<lambda>p. p\<lparr>p_killed := False, p_state := ZOMBIE\<rparr>) s2)"

text \<open>
  One scan of \<^verbatim>\<open>wait\<close>: the first zombie child if there is one, otherwise whether there is any
  child.
\<close>

datatype scan = Zombie nat | Kids bool

primrec wait_scan :: "nat \<Rightarrow> nat \<Rightarrow> bool \<Rightarrow> proc list \<Rightarrow> scan" where
  "wait_scan cp i havekids [] = Kids havekids"
| "wait_scan cp i havekids (p # ps) =
     (if p_state p = UNUSED then wait_scan cp (Suc i) havekids ps
      else if p_parent p = Some cp then
        (if p_state p = ZOMBIE then Zombie i else wait_scan cp (Suc i) True ps)
      else wait_scan cp (Suc i) havekids ps)"

definition wait_reap :: "nat \<Rightarrow> 'a ptable_scheme \<Rightarrow> 'a ptable_scheme" where
  "wait_reap i = upd_proc i (\<lambda>p. p\<lparr>p_state := UNUSED, p_pid := 0, p_parent := None,
     p_name := (p_name p)[0 := 0]\<rparr>)"

section \<open>All CPUs and processes\<close>

text \<open>
  The table with the \<^verbatim>\<open>curproc\<close> field of every CPU, and every change the kernel makes to it: the
  scheduler and the processes switching to it, \<^verbatim>\<open>sleep\<close>, \<^verbatim>\<open>wakeup\<close> and \<^verbatim>\<open>kill\<close>, the creation
  of a process by \<^verbatim>\<open>copyproc\<close> with \<^verbatim>\<open>sys_fork\<close> or \<^verbatim>\<open>userinit\<close>, \<^verbatim>\<open>exit\<close> and \<^verbatim>\<open>wait\<close>. Process
  numbers are a C \<^verbatim>\<open>int\<close>; a step that would run out of them is left out.
\<close>

record psys = ptable +
  running :: "nat \<Rightarrow> nat option"

definition set_curproc :: "nat \<Rightarrow> nat option \<Rightarrow> psys \<Rightarrow> psys" where
  "set_curproc n p s = s\<lparr>running := (running s)(n := p)\<rparr>"

text \<open>The scheduler of CPU \<open>n\<close> switches to entry \<open>j\<close>.\<close>

definition dispatch :: "nat \<Rightarrow> nat \<Rightarrow> psys \<Rightarrow> psys" where
  "dispatch n j s = set_state j RUNNING (set_curproc n (Some j) s)"

text \<open>
  What the creator of a process writes into the entry that \<^verbatim>\<open>allocproc\<close> gave it: the parent; the
  way back if there is no memory for the child; and the end of \<^verbatim>\<open>userinit\<close>.
\<close>

definition copy_parent :: "nat \<Rightarrow> nat \<Rightarrow> 'a ptable_scheme \<Rightarrow> 'a ptable_scheme" where
  "copy_parent j c = upd_proc j (\<lambda>q. q\<lparr>p_parent := Some c\<rparr>)"

definition copy_fail :: "nat \<Rightarrow> 'a ptable_scheme \<Rightarrow> 'a ptable_scheme" where
  "copy_fail j = upd_proc j (\<lambda>q. q\<lparr>p_kstack := 0, p_state := UNUSED, p_parent := None\<rparr>)"

definition first_user :: "nat \<Rightarrow> 'a ptable_scheme \<Rightarrow> 'a ptable_scheme" where
  "first_user j s = (set_state j RUNNABLE s)\<lparr>initproc := Some j\<rparr>"

text \<open>
  Two entries that differ only in fields without a meaning for scheduling: memory, stack, files,
  directory, frames, name and the killed flag.
\<close>

definition same_role :: "proc \<Rightarrow> proc \<Rightarrow> bool" where
  "same_role p q \<longleftrightarrow> p_state q = p_state p \<and> p_pid q = p_pid p \<and> p_parent q = p_parent p \<and> p_chan q = p_chan p"

inductive sched_step :: "psys \<Rightarrow> psys \<Rightarrow> bool" where
  dispatch: "n < NCPU \<Longrightarrow> running s n = None \<Longrightarrow> scheduler_next i s = Some j \<Longrightarrow> sched_step s (dispatch n j s)"
| yield: "n < NCPU \<Longrightarrow> running s n = Some j \<Longrightarrow>
    sched_step s (set_curproc n None (set_state j RUNNABLE s))"
| sleep: "n < NCPU \<Longrightarrow> running s n = Some j \<Longrightarrow>
    sched_step s (set_curproc n None
      (upd_proc j (\<lambda>p. p\<lparr>p_chan := Some ch, p_state := SLEEPING\<rparr>) s))"
| awake: "n < NCPU \<Longrightarrow> running s n = Some j \<Longrightarrow>
    sched_step s (upd_proc j (\<lambda>p. p\<lparr>p_chan := None\<rparr>) s)"
| wakeup: "sched_step s (wakeup ch s)"
| kill: "sched_step s (snd (kill pid s))"
| own: "j < NPROC \<Longrightarrow> p_state (proc_at j s) = EMBRYO \<or> (\<exists>n < NCPU. running s n = Some j) \<Longrightarrow>
    same_role (proc_at j s) q \<Longrightarrow> sched_step s (upd_proc j (\<lambda>_. q) s)"
| alloc: "unat (nextpid s) < 2147483647 \<Longrightarrow> sched_step s (snd (allocproc s))"
| copy: "j < NPROC \<Longrightarrow> p_state (proc_at j s) = EMBRYO \<Longrightarrow> n < NCPU \<Longrightarrow> running s n = Some c \<Longrightarrow>
    sched_step s (copy_parent j c s)"
| no_stack: "j < NPROC \<Longrightarrow> p_state (proc_at j s) = EMBRYO \<Longrightarrow> p_parent (proc_at j s) = None \<Longrightarrow>
    sched_step s (set_state j UNUSED s)"
| no_memory: "j < NPROC \<Longrightarrow> p_state (proc_at j s) = EMBRYO \<Longrightarrow> sched_step s (copy_fail j s)"
| fork: "j < NPROC \<Longrightarrow> p_state (proc_at j s) = EMBRYO \<Longrightarrow> p_parent (proc_at j s) \<noteq> None \<Longrightarrow>
    sched_step s (set_state j RUNNABLE s)"
| userinit: "j < NPROC \<Longrightarrow> p_state (proc_at j s) = EMBRYO \<Longrightarrow> initproc s = None \<Longrightarrow> sched_step s (first_user j s)"
| exit: "n < NCPU \<Longrightarrow> running s n = Some j \<Longrightarrow> initproc s \<noteq> Some j \<Longrightarrow>
    sched_step s (set_curproc n None (exit_table j s))"
| reap: "n < NCPU \<Longrightarrow> running s n = Some c \<Longrightarrow> wait_scan c 0 False (procs s) = Zombie i \<Longrightarrow>
    sched_step s (wait_reap i s)"

text \<open>The table at boot, all zero but for \<^verbatim>\<open>nextpid\<close>.\<close>

definition sched_init :: "psys \<Rightarrow> bool" where
  "sched_init s \<longleftrightarrow> length (procs s) = NPROC \<and> (\<forall>p \<in> set (procs s). p_state p = UNUSED \<and> p_parent p = None)
     \<and> nextpid s = 1 \<and> initproc s = None \<and> running s = (\<lambda>_. None)"

section \<open>Lemmas on the table\<close>

named_theorems ptable_simps \<open>updates of the process table\<close>

lemma upd_proc_more [ptable_simps]:
  "nextpid (upd_proc i f s) = nextpid s" "initproc (upd_proc i f s) = initproc s"
  "length (procs (upd_proc i f s)) = length (procs s)"
  by (simp_all add: upd_proc_def)

lemma proc_at_upd [ptable_simps]:
  "i < length (procs s) \<Longrightarrow> proc_at j (upd_proc i f s) = (if j = i then f (proc_at i s) else proc_at j s)"
  by (simp add: proc_at_def upd_proc_def nth_list_update)

lemma set_state_more [ptable_simps]:
  "nextpid (set_state i st s) = nextpid s" "initproc (set_state i st s) = initproc s"
  "length (procs (set_state i st s)) = length (procs s)"
  by (simp_all add: set_state_def ptable_simps)

lemma proc_at_set_state [ptable_simps]:
  "i < length (procs s) \<Longrightarrow>
     proc_at j (set_state i st s) = (if j = i then (proc_at i s)\<lparr>p_state := st\<rparr> else proc_at j s)"
  by (simp add: set_state_def ptable_simps)

lemma wakeup1_more [ptable_simps]:
  "nextpid (wakeup1 ch s) = nextpid s" "initproc (wakeup1 ch s) = initproc s"
  "length (procs (wakeup1 ch s)) = length (procs s)"
  by (simp_all add: wakeup1_def)

lemma proc_at_wakeup1 [ptable_simps]:
  "j < length (procs s) \<Longrightarrow> proc_at j (wakeup1 ch s) =
     (if p_state (proc_at j s) = SLEEPING \<and> p_chan (proc_at j s) = ch
      then (proc_at j s)\<lparr>p_state := RUNNABLE\<rparr> else proc_at j s)"
  by (simp add: proc_at_def wakeup1_def)

lemma running_more [ptable_simps]:
  "running (upd_proc i f s) = running s" "running (set_state i st s) = running s"
  "running (wakeup1 ch s) = running s"
  by (simp_all add: upd_proc_def set_state_def wakeup1_def)

lemma set_curproc_simps [ptable_simps]:
  "procs (set_curproc n p s) = procs s" "nextpid (set_curproc n p s) = nextpid s"
  "initproc (set_curproc n p s) = initproc s"
  "running (set_curproc n p s) = (running s)(n := p)" "proc_at j (set_curproc n p s) = proc_at j s"
  by (simp_all add: set_curproc_def proc_at_def)

text \<open>
  What \<^verbatim>\<open>wakeup1\<close> may do to an entry: nothing, or turn \<open>SLEEPING\<close> into \<open>RUNNABLE\<close>.
\<close>

definition woken :: "proc \<Rightarrow> proc \<Rightarrow> bool" where
  "woken p q \<longleftrightarrow> q = p \<or> p_state p = SLEEPING \<and> q = p\<lparr>p_state := RUNNABLE\<rparr>"

lemma woken_refl [simp]: "woken p p"
  by (simp add: woken_def)

lemma woken_trans: "woken p q \<Longrightarrow> woken q r \<Longrightarrow> woken p r"
  by (auto simp: woken_def)

lemma wakeup1_woken: "j < length (procs s) \<Longrightarrow> woken (proc_at j s) (proc_at j (wakeup1 ch s))"
  by (simp add: ptable_simps woken_def)

lemma creator_simps [ptable_simps]:
  "nextpid (first_user j s) = nextpid s" "initproc (first_user j s) = Some j"
  "procs (first_user j s) = procs (set_state j RUNNABLE s)" "proc_at i (first_user j s) = proc_at i (set_state j RUNNABLE s)"
  by (simp_all add: first_user_def proc_at_def ptable_simps)

lemma first_user_running [ptable_simps]: "running (first_user j s) = running s"
  by (simp add: first_user_def ptable_simps)

lemmas creator_defs = dispatch_def copy_parent_def copy_fail_def wait_reap_def

subsection \<open>exit\<close>

definition reparented :: "nat \<Rightarrow> nat option \<Rightarrow> proc \<Rightarrow> proc" where
  "reparented cp ini p = (if p_parent p = Some cp then p\<lparr>p_parent := ini\<rparr> else p)"

lemma reparent_more [ptable_simps]:
  "nextpid (reparent cp i s) = nextpid s" "initproc (reparent cp i s) = initproc s"
  "length (procs (reparent cp i s)) = length (procs s)"
  by (simp_all add: reparent_def Let_def ptable_simps)

lemma reparent_running [ptable_simps]: "running (reparent cp i s) = running s"
  by (simp add: reparent_def Let_def ptable_simps)

lemma proc_at_reparent:
  assumes "i < length (procs s)" and "j < length (procs s)"
  shows "woken (if j = i then reparented cp (initproc s) (proc_at j s) else proc_at j s)
           (proc_at j (reparent cp i s))"
  using assms by (auto simp: reparent_def Let_def ptable_simps reparented_def woken_def)

lemma fold_reparent_more [ptable_simps]:
  "nextpid (fold (reparent cp) is s) = nextpid s" "initproc (fold (reparent cp) is s) = initproc s"
  "length (procs (fold (reparent cp) is s)) = length (procs s)"
  by (induction "is" arbitrary: s) (simp_all add: ptable_simps)

lemma fold_reparent_running [ptable_simps]: "running (fold (reparent cp) is s) = running s"
  by (induction "is" arbitrary: s) (simp_all add: ptable_simps)

lemma woken_reparented: "woken p q \<Longrightarrow> woken (reparented cp ini p) (reparented cp ini q)"
  by (auto simp: woken_def reparented_def)

lemma proc_at_fold_reparent:
  assumes "\<forall>i \<in> set is. i < length (procs s)" and "j < length (procs s)" and "distinct is"
  shows "woken (if j \<in> set is then reparented cp (initproc s) (proc_at j s) else proc_at j s)
           (proc_at j (fold (reparent cp) is s))"
  using assms
proof (induction "is" arbitrary: s)
  case (Cons i "is")
  have IH: "woken (if j \<in> set is then reparented cp (initproc s) (proc_at j (reparent cp i s))
      else proc_at j (reparent cp i s)) (proc_at j (fold (reparent cp) is (reparent cp i s)))"
    using Cons.IH [of "reparent cp i s"] Cons.prems by (simp add: ptable_simps cong: if_cong)
  have step: "woken (if j = i then reparented cp (initproc s) (proc_at j s) else proc_at j s)
      (proc_at j (reparent cp i s))"
    using proc_at_reparent [of i s j] Cons.prems by simp
  show ?case
    using woken_trans [OF step, of "proc_at j (fold (reparent cp) is (reparent cp i s))"]
      woken_trans [OF woken_reparented [OF step, of cp "initproc s"]] IH Cons.prems(3)
    by (cases "j = i") auto
qed simp

lemma exit_table_entry:
  assumes "length (procs s) = NPROC" and "cp < NPROC" and "j < NPROC"
  shows "if j = cp then p_state (proc_at j (exit_table cp s)) = ZOMBIE
             \<and> p_pid (proc_at j (exit_table cp s)) = p_pid (proc_at j s)
             \<and> p_parent (proc_at j (exit_table cp s)) = p_parent (reparented cp (initproc s) (proc_at j s))
         else woken (reparented cp (initproc s) (proc_at j s)) (proc_at j (exit_table cp s))"
proof -
  let ?s1 = "wakeup1 (map_option ChanProc (p_parent (proc_at cp s))) s"
  have "woken (reparented cp (initproc s) (proc_at j ?s1)) (proc_at j (fold (reparent cp) [0..<NPROC] ?s1))"
    using proc_at_fold_reparent [of "[0..<NPROC]" ?s1 j cp] assms by (simp add: ptable_simps)
  moreover have "woken (reparented cp (initproc s) (proc_at j s)) (reparented cp (initproc s) (proc_at j ?s1))"
    using assms by (intro woken_reparented wakeup1_woken) simp
  ultimately have "woken (reparented cp (initproc s) (proc_at j s)) (proc_at j (fold (reparent cp) [0..<NPROC] ?s1))"
    by (rule woken_trans [rotated])
  then show ?thesis
    using assms by (auto simp: exit_table_def Let_def ptable_simps woken_def reparented_def)
qed

lemma exit_table_more [ptable_simps]:
  "nextpid (exit_table cp s) = nextpid s" "initproc (exit_table cp s) = initproc s"
  "length (procs (exit_table cp s)) = length (procs s)"
  by (simp_all add: exit_table_def Let_def ptable_simps)

lemma exit_table_running [ptable_simps]: "running (exit_table cp s) = running s"
  by (simp add: exit_table_def Let_def ptable_simps)

subsection \<open>wait\<close>

lemma wait_scan_Zombie:
  "wait_scan cp k h ps = Zombie i \<Longrightarrow>
     k \<le> i \<and> i < k + length ps \<and> p_state (ps ! (i - k)) = ZOMBIE \<and> p_parent (ps ! (i - k)) = Some cp"
proof (induction ps arbitrary: k h)
  case (Cons p ps)
  show ?case
  proof (cases "p_state p = ZOMBIE \<and> p_parent p = Some cp")
    case True
    then show ?thesis using Cons.prems by simp
  next
    case False
    then have "\<exists>h'. wait_scan cp (Suc k) h' ps = Zombie i" using Cons.prems by (auto split: if_splits)
    then show ?thesis using Cons.IH by (fastforce simp: nth_Cons' Suc_diff_le)
  qed
qed simp

lemma wait_scan_Kids:
  "wait_scan cp k h ps = Kids b \<Longrightarrow>
     (\<forall>p \<in> set ps. \<not> (p_state p = ZOMBIE \<and> p_parent p = Some cp))
     \<and> (b \<longleftrightarrow> h \<or> (\<exists>p \<in> set ps. p_state p \<noteq> UNUSED \<and> p_parent p = Some cp))"
  by (induction ps arbitrary: k h) (fastforce split: if_splits)+

end
