(* ===== verification/Sched_Inv.thy ===== *)
theory Sched_Inv
  imports Sched
begin

text \<open>
  What the scheduler and the process table keep true: a process runs on at most one CPU, the
  entries marked \<open>RUNNING\<close> are those some CPU runs, and the process numbers in use are
  distinct. Then the properties of \<^verbatim>\<open>sleep\<close>, \<^verbatim>\<open>kill\<close>, \<^verbatim>\<open>exit\<close> and \<^verbatim>\<open>wait\<close> on the table.
\<close>

section \<open>The scheduling invariant\<close>















lemma exit_table_wakes_parent:
  assumes "length (procs s) = NPROC" and "cp < NPROC" and "j < NPROC" and "j \<noteq> cp"
    and "p_parent (proc_at cp s) = Some j" and "p_state (proc_at j s) = SLEEPING"
    and "p_chan (proc_at j s) = Some (ChanProc j)"
  shows "p_state (proc_at j (exit_table cp s)) = RUNNABLE"
proof -
  let ?s1 = "wakeup1 (Some (ChanProc j)) s"
  have "woken (reparented cp (initproc s) (proc_at j ?s1)) (proc_at j (fold (reparent cp) [0..<NPROC] ?s1))"
    using proc_at_fold_reparent [of "[0..<NPROC]" ?s1 j cp] assms by (simp add: ptable_simps)
  moreover have "p_state (reparented cp (initproc s) (proc_at j ?s1)) = RUNNABLE"
    using assms by (simp add: ptable_simps reparented_def)
  ultimately have "p_state (proc_at j (fold (reparent cp) [0..<NPROC] ?s1)) = RUNNABLE"
    by (auto simp: woken_def)
  then show ?thesis using assms by (simp add: exit_table_def Let_def ptable_simps)
qed



lemma kill_more [ptable_simps]:
  "nextpid (snd (kill pid s)) = nextpid s" "length (procs (snd (kill pid s))) = length (procs s)"
  by (simp_all add: kill_def ptable_simps split: option.splits)

lemma kill_running [ptable_simps]: "running (snd (kill pid s)) = running s"
  by (simp add: kill_def ptable_simps split: option.splits)

lemma allocproc_running [ptable_simps]: "running (snd (allocproc s)) = running s"
  by (simp add: allocproc_def ptable_simps split: option.splits)


lemma woken_inv: "woken p q \<Longrightarrow> p_pid q = p_pid p \<and> (p_state q = UNUSED \<longleftrightarrow> p_state p = UNUSED)
    \<and> (p_state q = RUNNING \<longleftrightarrow> p_state p = RUNNING) \<and> p_parent q = p_parent p"
  by (auto simp: woken_def)










lemma allocproc_initproc [ptable_simps]:
  "initproc (snd (allocproc s)) = initproc s" "length (procs (snd (allocproc s))) = length (procs s)"
  by (simp_all add: allocproc_def ptable_simps split: option.splits)






section \<open>Locks across sleep\<close>

lemma release_nested:
  assumes "holding n k" and "ncli c = 2" and "eflags c AND FL_IF = 0"
  shows "\<exists>c' k'. release n c k = Inr (c', k') \<and> ncli c' = 1 \<and> eflags c' = eflags c \<and> locked k' = 0"
  using assms by (simp add: release_def popcli_def xchg_def Let_def)

lemma acquire_free:
  assumes "locked k = 0"
  shows "\<exists>k'. acquire m v n c k = Inr (pushcli c, k') \<and> holding n k'"
  using assms by (simp add: acquire_cases holding_def)

section \<open>Properties\<close>



definition empty_proc :: proc where
  "empty_proc = \<lparr>p_mem = 0, p_sz = 0, p_kstack = 0, p_state = UNUSED, p_pid = 0, p_parent = None,
     p_chan = None, p_killed = False, p_ofile = replicate NOFILE None, p_cwd = None,
     p_context = \<lparr>ctx_eip = 0, ctx_esp = 0, ctx_ebx = 0, ctx_ecx = 0, ctx_edx = 0, ctx_esi = 0, ctx_edi = 0, ctx_ebp = 0\<rparr>,
     p_tf = \<lparr>tf_edi = 0, tf_esi = 0, tf_ebp = 0, tf_oesp = 0, tf_ebx = 0, tf_edx = 0, tf_ecx = 0,
       tf_eax = 0, tf_es = 0, tf_ds = 0, tf_trapno = 0, tf_err = 0, tf_eip = 0, tf_cs = 0,
       tf_eflags = 0, tf_esp = 0, tf_ss = 0\<rparr>,
     p_name = replicate 16 0\<rparr>"

definition boot_table :: psys where
  "boot_table = \<lparr>procs = replicate NPROC empty_proc, nextpid = 1, initproc = None, running = (\<lambda>_. None)\<rparr>"

definition boot_first :: psys where
  "boot_first = dispatch 3 0 (first_user 0 (snd (allocproc boot_table)))"






text \<open>
  \<^verbatim>\<open>sleep\<close> hands over from the caller's lock to \<^verbatim>\<open>proc_table_lock\<close>: it reaches the
  scheduler without panicking, with the table lock held, the caller's lock released, one level of
  \<^verbatim>\<open>pushcli\<close> and the process marked as sleeping on the channel. When it runs again, on whichever
  CPU, it gives up the table lock, clears the channel and owns its lock again.
\<close>

lemma sleep_handover:
  assumes "cp < length (procs s)" and "locked ptl = 0" and "holding n l"
    and "ncli c = 1" and "eflags c AND FL_IF = 0"
  shows "(\<exists>c2 ptl1 l1 s1. sleep_enter m v n c ptl (Lock l) ch (Some cp) s = Inr (c2, ptl1, Lock l1, s1)
      \<and> holding n ptl1 \<and> locked l1 = 0 \<and> ncli c2 = 1 \<and> eflags c2 AND FL_IF = 0
      \<and> p_state (proc_at cp s1) = SLEEPING \<and> p_chan (proc_at cp s1) = Some ch)
    \<and> (\<forall>n' c' ptl' l'. holding n' ptl' \<and> ncli c' = 1 \<and> eflags c' AND FL_IF = 0 \<and> locked l' = 0 \<longrightarrow>
        (\<exists>c3 ptl2 l2 s2. sleep_return m v n' c' ptl' (Lock l') cp s = Inr (c3, ptl2, Lock l2, s2)
          \<and> locked ptl2 = 0 \<and> holding n' l2 \<and> ncli c3 = 1 \<and> eflags c3 AND FL_IF = 0
          \<and> p_chan (proc_at cp s2) = None))"
proof (intro conjI allI impI)
  obtain ptl1 where ptl1: "acquire m v n c ptl = Inr (pushcli c, ptl1)" "holding n ptl1"
    using acquire_free [OF assms(2)] by blast
  have "eflags (pushcli c) AND FL_IF = 0" "ncli (pushcli c) = 2" using assms(4) by (simp_all add: and.assoc)
  then obtain c2 l1 where c2: "release n (pushcli c) l = Inr (c2, l1)" "ncli c2 = 1" "eflags c2 AND FL_IF = 0" "locked l1 = 0"
    using release_nested [OF assms(3), of "pushcli c"] by auto
  then show "\<exists>c2 ptl1 l1 s1. sleep_enter m v n c ptl (Lock l) ch (Some cp) s = Inr (c2, ptl1, Lock l1, s1)
      \<and> holding n ptl1 \<and> locked l1 = 0 \<and> ncli c2 = 1 \<and> eflags c2 AND FL_IF = 0
      \<and> p_state (proc_at cp s1) = SLEEPING \<and> p_chan (proc_at cp s1) = Some ch"
    using ptl1 assms(1) by (simp add: sleep_enter_def sched_def Let_def ptable_simps)
next
  fix n' and c' :: cpu and ptl' l' :: spinlock
  assume a: "holding n' ptl' \<and> ncli c' = 1 \<and> eflags c' AND FL_IF = 0 \<and> locked l' = 0"
  then obtain c1 ptl2 where r: "release n' c' ptl' = Inr (c1, ptl2)" "locked ptl2 = 0" "ncli c1 = 0"
    by (cases "intena c' = 0") (auto simp: release_def popcli_def xchg_def Let_def sti_def)
  obtain l2 where "acquire m v n' c1 l' = Inr (pushcli c1, l2)" "holding n' l2"
    using acquire_free a by blast
  then show "\<exists>c3 ptl2 l2 s2. sleep_return m v n' c' ptl' (Lock l') cp s = Inr (c3, ptl2, Lock l2, s2)
      \<and> locked ptl2 = 0 \<and> holding n' l2 \<and> ncli c3 = 1 \<and> eflags c3 AND FL_IF = 0
      \<and> p_chan (proc_at cp s2) = None"
    using r assms(1) by (simp add: sleep_return_def Let_def ptable_simps and.assoc)
qed

text \<open>
  \<^bold>\<open>C34.\<close> \<^verbatim>\<open>exit\<close> leaves a zombie for the parent to find, and no orphans: every child of the
  exiting process becomes a child of the initial process, nobody else changes parent, and a
  process sleeping in \<^verbatim>\<open>wait\<close> for the exiting one is made runnable.
\<close>

theorem exit_hands_over_children:
  assumes "length (procs s) = NPROC" and "cp < NPROC" and "initproc s = Some ini" and "ini \<noteq> cp"
  shows "p_state (proc_at cp (exit_table cp s)) = ZOMBIE
    \<and> (\<forall>j < NPROC. j \<noteq> cp \<longrightarrow> p_parent (proc_at j (exit_table cp s))
          = (if p_parent (proc_at j s) = Some cp then Some ini else p_parent (proc_at j s)))
    \<and> (\<forall>j < NPROC. p_parent (proc_at j (exit_table cp s)) \<noteq> Some cp)
    \<and> (\<forall>j < NPROC. j \<noteq> cp \<and> p_parent (proc_at cp s) = Some j \<and> p_state (proc_at j s) = SLEEPING
          \<and> p_chan (proc_at j s) = Some (ChanProc j) \<longrightarrow> p_state (proc_at j (exit_table cp s)) = RUNNABLE)"
proof -
  have z: "p_state (proc_at cp (exit_table cp s)) = ZOMBIE"
    using exit_table_entry [OF assms(1,2,2)] by simp
  have par: "p_parent (proc_at j (exit_table cp s))
      = (if p_parent (proc_at j s) = Some cp then Some ini else p_parent (proc_at j s))" if "j < NPROC" for j
    using exit_table_entry [OF assms(1,2) that]
      woken_inv [of "reparented cp (initproc s) (proc_at j s)" "proc_at j (exit_table cp s)"] assms(3)
    by (cases "j = cp") (auto simp: reparented_def)
  have "p_state (proc_at j (exit_table cp s)) = RUNNABLE"
    if "j < NPROC" "j \<noteq> cp" "p_parent (proc_at cp s) = Some j" "p_state (proc_at j s) = SLEEPING"
      "p_chan (proc_at j s) = Some (ChanProc j)" for j
    using exit_table_wakes_parent [OF assms(1,2) that] .
  then show ?thesis
    using z par assms(4) by auto
qed

theorem exit_hands_over_children_witness:
  "let s = boot_first\<lparr>initproc := Some 0, procs := (procs boot_first)
       [5 := empty_proc\<lparr>p_state := RUNNING, p_parent := Some 0\<rparr>, 6 := empty_proc\<lparr>p_state := ZOMBIE, p_parent := Some 5\<rparr>]\<rparr>
   in p_parent (proc_at 6 (exit_table 5 s)) = Some 0 \<and> p_state (proc_at 5 (exit_table 5 s)) = ZOMBIE"
proof -
  let ?s = "boot_first\<lparr>initproc := Some 0, procs := (procs boot_first)
       [5 := empty_proc\<lparr>p_state := RUNNING, p_parent := Some 0\<rparr>, 6 := empty_proc\<lparr>p_state := ZOMBIE, p_parent := Some 5\<rparr>]\<rparr>"
  have h: "length (procs ?s) = NPROC" "5 < NPROC" "6 < NPROC" "p_parent (proc_at 6 ?s) = Some 5" by code_simp+
  have "p_parent (proc_at 6 (exit_table 5 ?s)) = Some 0 \<and> p_state (proc_at 5 (exit_table 5 ?s)) = ZOMBIE"
    using exit_hands_over_children [OF h(1,2), of 0] h(3,4) by simp
  then show ?thesis by (simp add: Let_def)
qed

end
