(* ===== verification/Sleep_Wakeup.thy ===== *)
theory Sleep_Wakeup
  imports Sched_Inv
begin

text \<open>
  The protocol every sleeping loop of the kernel follows, interleaved at the level of lock
  operations. A waiter runs
  \<^verbatim>\<open>acquire(lk); while(!cond) sleep(chan, lk); <use cond up>; release(lk)\<close> and a waker runs
  \<^verbatim>\<open>acquire(lk); cond = 1; wakeup(chan); release(lk)\<close>, where \<^verbatim>\<open>sleep\<close> and \<^verbatim>\<open>wakeup\<close> are
  those of \<^verbatim>\<open>proc.c\<close> with their uses of \<^verbatim>\<open>proc_table_lock\<close>. Any number of processes take
  either role, again and again.
\<close>

section \<open>Model\<close>

datatype wpc =
    Idle
  | WAcq             \<comment> \<open>about to acquire \<^verbatim>\<open>lk\<close>\<close>
  | WTest            \<comment> \<open>has \<^verbatim>\<open>lk\<close>, about to test the condition\<close>
  | SlpAcq           \<comment> \<open>in \<^verbatim>\<open>sleep\<close>: about to acquire \<^verbatim>\<open>proc_table_lock\<close>\<close>
  | SlpRel           \<comment> \<open>has both locks, about to release \<^verbatim>\<open>lk\<close>\<close>
  | SlpMark          \<comment> \<open>about to set \<^verbatim>\<open>chan\<close> and \<open>SLEEPING\<close>\<close>
  | SlpSwitch        \<comment> \<open>in \<^verbatim>\<open>sched\<close>: the scheduler is about to release \<^verbatim>\<open>proc_table_lock\<close>\<close>
  | SlpAsleep        \<comment> \<open>waiting for the scheduler to pick it again\<close>
  | SlpResume        \<comment> \<open>runs again, with \<^verbatim>\<open>proc_table_lock\<close>\<close>
  | WRel             \<comment> \<open>about to release \<^verbatim>\<open>lk\<close>\<close>
  | KAcq
  | KSet             \<comment> \<open>has \<^verbatim>\<open>lk\<close>, about to make the condition true\<close>
  | WakAcq           \<comment> \<open>in \<^verbatim>\<open>wakeup\<close>: about to acquire \<^verbatim>\<open>proc_table_lock\<close>\<close>
  | WakScan          \<comment> \<open>about to run \<^verbatim>\<open>wakeup1\<close>\<close>
  | WakRel           \<comment> \<open>about to release \<^verbatim>\<open>proc_table_lock\<close>\<close>

record csys = ptable +
  lk_owner :: "nat option"
  pt_owner :: "nat option"
  condition :: bool
  wpcs :: "nat \<Rightarrow> wpc"

definition jump :: "nat \<Rightarrow> wpc \<Rightarrow> csys \<Rightarrow> csys" where
  "jump i p s = s\<lparr>wpcs := (wpcs s)(i := p)\<rparr>"

text \<open>Taking a lock that is not free leaves the process where it is.\<close>

definition take_lk :: "nat \<Rightarrow> wpc \<Rightarrow> csys \<Rightarrow> csys" where
  "take_lk i p s = (if lk_owner s = None then jump i p (s\<lparr>lk_owner := Some i\<rparr>) else s)"

definition take_pt :: "nat \<Rightarrow> wpc \<Rightarrow> csys \<Rightarrow> csys" where
  "take_pt i p s = (if pt_owner s = None then jump i p (s\<lparr>pt_owner := Some i\<rparr>) else s)"

definition thread_step :: "chan \<Rightarrow> nat \<Rightarrow> csys \<Rightarrow> csys" where
  "thread_step ch i s = (case wpcs s i of
     Idle \<Rightarrow> s
   | WAcq \<Rightarrow> take_lk i WTest s
   | WTest \<Rightarrow> if condition s then jump i WRel (s\<lparr>condition := False\<rparr>) else jump i SlpAcq s
   | SlpAcq \<Rightarrow> take_pt i SlpRel s
   | SlpRel \<Rightarrow> jump i SlpMark (s\<lparr>lk_owner := None\<rparr>)
   | SlpMark \<Rightarrow> jump i SlpSwitch (upd_proc i (\<lambda>p. p\<lparr>p_chan := Some ch, p_state := SLEEPING\<rparr>) s)
   | SlpSwitch \<Rightarrow> jump i SlpAsleep (s\<lparr>pt_owner := None\<rparr>)
   | SlpAsleep \<Rightarrow>
       if p_state (proc_at i s) = RUNNABLE
       then (if pt_owner s = None
             then jump i SlpResume (set_state i RUNNING (s\<lparr>pt_owner := Some i\<rparr>)) else s)
       else s
   | SlpResume \<Rightarrow> jump i WAcq ((upd_proc i (\<lambda>p. p\<lparr>p_chan := None\<rparr>) s)\<lparr>pt_owner := None\<rparr>)
   | WRel \<Rightarrow> jump i Idle (s\<lparr>lk_owner := None\<rparr>)
   | KAcq \<Rightarrow> take_lk i KSet s
   | KSet \<Rightarrow> jump i WakAcq (s\<lparr>condition := True\<rparr>)
   | WakAcq \<Rightarrow> take_pt i WakScan s
   | WakScan \<Rightarrow> jump i WakRel (wakeup1 (Some ch) s)
   | WakRel \<Rightarrow> jump i WRel (s\<lparr>pt_owner := None\<rparr>))"

inductive protocol_step :: "chan \<Rightarrow> csys \<Rightarrow> csys \<Rightarrow> bool" for ch where
  wait: "i < length (procs s) \<Longrightarrow> wpcs s i = Idle \<Longrightarrow> protocol_step ch s (jump i WAcq s)"
| wake: "i < length (procs s) \<Longrightarrow> wpcs s i = Idle \<Longrightarrow> protocol_step ch s (jump i KAcq s)"
| run: "i < length (procs s) \<Longrightarrow> protocol_step ch s (thread_step ch i s)"

definition protocol_init :: "csys \<Rightarrow> bool" where
  "protocol_init s \<longleftrightarrow> lk_owner s = None \<and> pt_owner s = None \<and> (\<forall>i. wpcs s i = Idle)
     \<and> (\<forall>p \<in> set (procs s). p_state p = RUNNING)"

section \<open>Invariant\<close>

definition has_lk :: "wpc \<Rightarrow> bool" where
  "has_lk p \<longleftrightarrow> p \<in> {WTest, SlpAcq, SlpRel, WRel, KSet, WakAcq, WakScan, WakRel}"

definition has_pt :: "wpc \<Rightarrow> bool" where
  "has_pt p \<longleftrightarrow> p \<in> {SlpRel, SlpMark, SlpSwitch, SlpResume, WakScan, WakRel}"

definition about_to_wake :: "csys \<Rightarrow> bool" where
  "about_to_wake s \<longleftrightarrow> (\<exists>k. wpcs s k \<in> {WakAcq, WakScan})"

definition sleeps :: "nat \<Rightarrow> csys \<Rightarrow> bool" where
  "sleeps i s \<longleftrightarrow> p_state (proc_at i s) = SLEEPING"

definition protocol_inv :: "chan \<Rightarrow> csys \<Rightarrow> bool" where
  "protocol_inv ch s \<longleftrightarrow>
     (\<forall>i. has_lk (wpcs s i) \<longleftrightarrow> lk_owner s = Some i)
     \<and> (\<forall>i. has_pt (wpcs s i) \<longleftrightarrow> pt_owner s = Some i)
     \<and> (\<forall>i. wpcs s i \<in> {SlpAcq, SlpRel} \<longrightarrow> \<not> condition s)
     \<and> (\<forall>i. wpcs s i = SlpMark \<and> condition s \<longrightarrow> about_to_wake s)
     \<and> (\<forall>i < length (procs s). sleeps i s \<longrightarrow> wpcs s i \<in> {SlpSwitch, SlpAsleep} \<and> p_chan (proc_at i s) = Some ch)
     \<and> (\<forall>i < length (procs s). sleeps i s \<and> condition s \<longrightarrow> about_to_wake s)"

lemma protocol_invD:
  assumes "protocol_inv ch s"
  shows "has_lk (wpcs s i) \<longleftrightarrow> lk_owner s = Some i"
    and "has_pt (wpcs s i) \<longleftrightarrow> pt_owner s = Some i"
    and "wpcs s i \<in> {SlpAcq, SlpRel} \<Longrightarrow> \<not> condition s"
    and "wpcs s i = SlpMark \<Longrightarrow> condition s \<Longrightarrow> about_to_wake s"
    and "i < length (procs s) \<Longrightarrow> sleeps i s \<Longrightarrow> wpcs s i \<in> {SlpSwitch, SlpAsleep} \<and> p_chan (proc_at i s) = Some ch"
    and "i < length (procs s) \<Longrightarrow> sleeps i s \<Longrightarrow> condition s \<Longrightarrow> about_to_wake s"
  using assms unfolding protocol_inv_def by blast+

lemma protocol_init_inv: "protocol_init s \<Longrightarrow> protocol_inv ch s"
  by (auto simp: protocol_init_def protocol_inv_def has_lk_def has_pt_def sleeps_def proc_at_def)

text \<open>Updates of the protocol state.\<close>

lemma jump_simps [simp]:
  "wpcs (jump i p s) = (wpcs s)(i := p)" "lk_owner (jump i p s) = lk_owner s"
  "pt_owner (jump i p s) = pt_owner s" "condition (jump i p s) = condition s"
  "procs (jump i p s) = procs s" "proc_at j (jump i p s) = proc_at j s"
  by (simp_all add: jump_def proc_at_def)

lemma ptable_csys [simp]:
  "wpcs (upd_proc i f s) = wpcs s" "lk_owner (upd_proc i f s) = lk_owner s"
  "pt_owner (upd_proc i f s) = pt_owner s" "condition (upd_proc i f s) = condition s"
  "wpcs (set_state i st s) = wpcs s" "lk_owner (set_state i st s) = lk_owner s"
  "pt_owner (set_state i st s) = pt_owner s" "condition (set_state i st s) = condition s"
  "wpcs (wakeup1 c s) = wpcs s" "lk_owner (wakeup1 c s) = lk_owner s"
  "pt_owner (wakeup1 c s) = pt_owner s" "condition (wakeup1 c s) = condition s"
  "proc_at j (s\<lparr>lk_owner := x\<rparr>) = proc_at j s" "proc_at j (s\<lparr>pt_owner := x\<rparr>) = proc_at j s"
  "proc_at j (s\<lparr>condition := b\<rparr>) = proc_at j s"
  by (simp_all add: upd_proc_def set_state_def wakeup1_def proc_at_def)

text \<open>
  A move of process \<open>i\<close> that changes neither the condition nor any process entry, and does not
  complete a wakeup.
\<close>

lemma prot_quiet:
  assumes inv: "protocol_inv ch s" and "wpcs s' = (wpcs s)(i := p)"
    and "procs s' = procs s" and "condition s' = condition s"
    and "\<And>j. has_lk (wpcs s' j) \<longleftrightarrow> lk_owner s' = Some j" and "\<And>j. has_pt (wpcs s' j) \<longleftrightarrow> pt_owner s' = Some j"
    and "p \<in> {SlpAcq, SlpRel} \<Longrightarrow> \<not> condition s" and "p = SlpMark \<Longrightarrow> \<not> condition s"
    and "sleeps i s \<Longrightarrow> p \<in> {SlpSwitch, SlpAsleep}"
    and "wpcs s i \<in> {WakAcq, WakScan} \<Longrightarrow> p \<in> {WakAcq, WakScan}"
  shows "protocol_inv ch s'"
proof -
  note D = protocol_invD [OF inv]
  have sl: "sleeps j s' = sleeps j s" "proc_at j s' = proc_at j s" for j
    using assms(3) by (simp_all add: sleeps_def proc_at_def)
  have wk: "about_to_wake s'" if "about_to_wake s"
    using that assms(2,10) unfolding about_to_wake_def by (metis fun_upd_apply)
  show ?thesis unfolding protocol_inv_def sl assms(3,4)
  proof (intro conjI allI impI)
    fix j
    show "has_lk (wpcs s' j) \<longleftrightarrow> lk_owner s' = Some j" "has_pt (wpcs s' j) \<longleftrightarrow> pt_owner s' = Some j"
      using assms(5,6) by auto
    show "\<not> condition s" if "wpcs s' j \<in> {SlpAcq, SlpRel}"
      using that assms(2,7) D(3) [of j] by (cases "j = i") auto
    show "about_to_wake s'" if "wpcs s' j = SlpMark \<and> condition s"
      using that assms(2,8) D(4) [of j] wk by (cases "j = i") auto
    assume j: "j < length (procs s)"
    show "wpcs s' j \<in> {SlpSwitch, SlpAsleep}" if "sleeps j s"
      using that j assms(2,9) D(5) [of j] by (cases "j = i") auto
    show "p_chan (proc_at j s) = Some ch" if "sleeps j s" using D(5) [OF j that] by simp
    show "about_to_wake s'" if "sleeps j s \<and> condition s" using D(6) [OF j] that wk by blast
  qed
qed

lemma prot_take_lk:
  assumes "protocol_inv ch s" and "wpcs s i \<in> {WAcq, KAcq}" and "p \<in> {WTest, KSet}" and "i < length (procs s)"
  shows "protocol_inv ch (take_lk i p s)"
proof (cases "lk_owner s = None")
  case True
  note D = protocol_invD [OF assms(1)]
  have ns: "\<not> sleeps i s" using D(5) [OF assms(4)] assms(2) by auto
  show ?thesis
    unfolding take_lk_def if_P [OF True]
  proof (rule prot_quiet [OF assms(1), where i = i and p = p])
    fix j
    show "has_lk (wpcs (jump i p (s\<lparr>lk_owner := Some i\<rparr>)) j) \<longleftrightarrow> lk_owner (jump i p (s\<lparr>lk_owner := Some i\<rparr>)) = Some j"
      using D(1) [of j] True assms(3) by (auto simp: has_lk_def)
    show "has_pt (wpcs (jump i p (s\<lparr>lk_owner := Some i\<rparr>)) j) \<longleftrightarrow> pt_owner (jump i p (s\<lparr>lk_owner := Some i\<rparr>)) = Some j"
      using D(2) [of j] D(2) [of i] assms(2,3) by (auto simp: has_pt_def)
  qed (use assms(2,3) ns in auto)
qed (use assms(1) in \<open>auto simp: take_lk_def\<close>)

lemma prot_take_pt:
  assumes "protocol_inv ch s" and "wpcs s i = SlpAcq \<and> p = SlpRel \<or> wpcs s i = WakAcq \<and> p = WakScan"
    and "i < length (procs s)"
  shows "protocol_inv ch (take_pt i p s)"
proof (cases "pt_owner s = None")
  case True
  note D = protocol_invD [OF assms(1)]
  have ns: "\<not> sleeps i s" using D(5) [OF assms(3)] assms(2) by auto
  show ?thesis
    unfolding take_pt_def if_P [OF True]
  proof (rule prot_quiet [OF assms(1), where i = i and p = p])
    fix j
    show "has_lk (wpcs (jump i p (s\<lparr>pt_owner := Some i\<rparr>)) j) \<longleftrightarrow> lk_owner (jump i p (s\<lparr>pt_owner := Some i\<rparr>)) = Some j"
      using D(1) [of j] D(1) [of i] assms(2) by (auto simp: has_lk_def)
    show "has_pt (wpcs (jump i p (s\<lparr>pt_owner := Some i\<rparr>)) j) \<longleftrightarrow> pt_owner (jump i p (s\<lparr>pt_owner := Some i\<rparr>)) = Some j"
      using D(2) [of j] True assms(2) by (auto simp: has_pt_def)
  qed (use assms(2) ns D(3) [of i] in auto)
qed (use assms(1) in \<open>auto simp: take_pt_def\<close>)

text \<open>Releasing one of the locks.\<close>

lemma prot_rel_lk:
  assumes "protocol_inv ch s" and "wpcs s i = SlpRel \<and> p = SlpMark \<or> wpcs s i = WRel \<and> p = Idle"
    and "i < length (procs s)"
  shows "protocol_inv ch (jump i p (s\<lparr>lk_owner := None\<rparr>))"
proof -
  note D = protocol_invD [OF assms(1)]
  have own: "lk_owner s = Some i" using D(1) [of i] assms(2) by (auto simp: has_lk_def)
  have ns: "\<not> sleeps i s" using D(5) [OF assms(3)] assms(2) by auto
  show ?thesis
  proof (rule prot_quiet [OF assms(1), where i = i and p = p])
    fix j
    show "has_lk (wpcs (jump i p (s\<lparr>lk_owner := None\<rparr>)) j) \<longleftrightarrow> lk_owner (jump i p (s\<lparr>lk_owner := None\<rparr>)) = Some j"
      using D(1) [of j] own assms(2) by (auto simp: has_lk_def)
    show "has_pt (wpcs (jump i p (s\<lparr>lk_owner := None\<rparr>)) j) \<longleftrightarrow> pt_owner (jump i p (s\<lparr>lk_owner := None\<rparr>)) = Some j"
      using D(2) [of j] D(2) [of i] assms(2) by (auto simp: has_pt_def)
  qed (use assms(2) ns D(3) [of i] in auto)
qed

lemma prot_rel_pt:
  assumes "protocol_inv ch s" and "wpcs s i = SlpSwitch \<and> p = SlpAsleep \<or> wpcs s i = WakRel \<and> p = WRel"
    and "i < length (procs s)"
  shows "protocol_inv ch (jump i p (s\<lparr>pt_owner := None\<rparr>))"
proof -
  note D = protocol_invD [OF assms(1)]
  have own: "pt_owner s = Some i" using D(2) [of i] assms(2) by (auto simp: has_pt_def)
  show ?thesis
  proof (rule prot_quiet [OF assms(1), where i = i and p = p])
    fix j
    show "has_lk (wpcs (jump i p (s\<lparr>pt_owner := None\<rparr>)) j) \<longleftrightarrow> lk_owner (jump i p (s\<lparr>pt_owner := None\<rparr>)) = Some j"
      using D(1) [of j] D(1) [of i] assms(2) by (auto simp: has_lk_def)
    show "has_pt (wpcs (jump i p (s\<lparr>pt_owner := None\<rparr>)) j) \<longleftrightarrow> pt_owner (jump i p (s\<lparr>pt_owner := None\<rparr>)) = Some j"
      using D(2) [of j] own assms(2) by (auto simp: has_pt_def)
  qed (use assms(2) D(5) [OF assms(3)] in auto)
qed

text \<open>A move between points that hold the same locks.\<close>

lemma prot_jump:
  assumes "protocol_inv ch s" and "has_lk p = has_lk (wpcs s i)" and "has_pt p = has_pt (wpcs s i)"
    and "p \<in> {SlpAcq, SlpRel} \<Longrightarrow> \<not> condition s" and "p \<noteq> SlpMark"
    and "sleeps i s \<Longrightarrow> p \<in> {SlpSwitch, SlpAsleep}"
    and "wpcs s i \<in> {WakAcq, WakScan} \<Longrightarrow> p \<in> {WakAcq, WakScan}"
  shows "protocol_inv ch (jump i p s)"
proof (rule prot_quiet [OF assms(1), where i = i and p = p])
  note D = protocol_invD [OF assms(1)]
  fix j
  show "has_lk (wpcs (jump i p s) j) \<longleftrightarrow> lk_owner (jump i p s) = Some j"
    using D(1) [of j] assms(2) by auto
  show "has_pt (wpcs (jump i p s) j) \<longleftrightarrow> pt_owner (jump i p s) = Some j"
    using D(2) [of j] assms(3) by auto
qed (use assms in auto)

text \<open>The steps that change the condition or a process entry.\<close>

lemma prot_consume:
  assumes "protocol_inv ch s" and "wpcs s i = WTest" and "i < length (procs s)"
  shows "protocol_inv ch (jump i WRel (s\<lparr>condition := False\<rparr>))"
proof -
  note D = protocol_invD [OF assms(1)]
  have ns: "\<not> sleeps i s" using D(5) [OF assms(3)] assms(2) by auto
  have "has_lk (((wpcs s)(i := WRel)) j) \<longleftrightarrow> lk_owner s = Some j"
    "has_pt (((wpcs s)(i := WRel)) j) \<longleftrightarrow> pt_owner s = Some j" for j
    using D(1,2) [of j] assms(2) by (auto simp: has_lk_def has_pt_def)
  then show ?thesis
    using D(5) ns by (auto simp: protocol_inv_def sleeps_def)
qed

lemma prot_set:
  assumes "protocol_inv ch s" and "wpcs s i = KSet" and "i < length (procs s)"
  shows "protocol_inv ch (jump i WakAcq (s\<lparr>condition := True\<rparr>))"
proof -
  note D = protocol_invD [OF assms(1)]
  have ns: "\<not> sleeps i s" using D(5) [OF assms(3)] assms(2) by auto
  have own: "lk_owner s = Some i" using D(1) [of i] assms(2) by (simp add: has_lk_def)
  have "has_lk (((wpcs s)(i := WakAcq)) j) \<longleftrightarrow> lk_owner s = Some j"
    "has_pt (((wpcs s)(i := WakAcq)) j) \<longleftrightarrow> pt_owner s = Some j" for j
    using D(1,2) [of j] assms(2) by (auto simp: has_lk_def has_pt_def)
  moreover have "about_to_wake (jump i WakAcq (s\<lparr>condition := True\<rparr>))"
    by (auto simp: about_to_wake_def)
  moreover have "((wpcs s)(i := WakAcq)) j \<notin> {SlpAcq, SlpRel}" for j
    using D(1) [of j] own by (auto simp: has_lk_def)
  ultimately show ?thesis
    using D(5) ns by (auto simp: protocol_inv_def sleeps_def)
qed

lemma prot_mark:
  assumes "protocol_inv ch s" and "wpcs s i = SlpMark" and "i < length (procs s)"
  shows "protocol_inv ch (jump i SlpSwitch (upd_proc i (\<lambda>p. p\<lparr>p_chan := Some ch, p_state := SLEEPING\<rparr>) s))"
proof -
  note D = protocol_invD [OF assms(1)]
  let ?s = "jump i SlpSwitch (upd_proc i (\<lambda>p. p\<lparr>p_chan := Some ch, p_state := SLEEPING\<rparr>) s)"
  have "has_lk (((wpcs s)(i := SlpSwitch)) j) \<longleftrightarrow> lk_owner s = Some j"
    "has_pt (((wpcs s)(i := SlpSwitch)) j) \<longleftrightarrow> pt_owner s = Some j" for j
    using D(1,2) [of j] assms(2) by (auto simp: has_lk_def has_pt_def)
  moreover have "about_to_wake ?s \<longleftrightarrow> about_to_wake s"
    using assms(2) by (force simp: about_to_wake_def)
  ultimately show ?thesis
    using assms(2,3) assms(1) [unfolded protocol_inv_def] by (auto simp: protocol_inv_def sleeps_def ptable_simps split: if_splits)
qed

lemma prot_resume:
  assumes "protocol_inv ch s" and "wpcs s i = SlpAsleep" and "i < length (procs s)"
    and "pt_owner s = None"
  shows "protocol_inv ch (jump i SlpResume (set_state i RUNNING (s\<lparr>pt_owner := Some i\<rparr>)))"
proof -
  note D = protocol_invD [OF assms(1)]
  let ?s = "jump i SlpResume (set_state i RUNNING (s\<lparr>pt_owner := Some i\<rparr>))"
  have "has_lk (((wpcs s)(i := SlpResume)) j) \<longleftrightarrow> lk_owner s = Some j"
    "has_pt (((wpcs s)(i := SlpResume)) j) \<longleftrightarrow> Some i = Some j" for j
    using D(1,2) [of j] assms(2,4) by (auto simp: has_lk_def has_pt_def)
  moreover have "about_to_wake ?s \<longleftrightarrow> about_to_wake s"
    using assms(2) by (force simp: about_to_wake_def)
  ultimately show ?thesis
    using assms(2,3) assms(1) [unfolded protocol_inv_def] by (auto simp: protocol_inv_def sleeps_def ptable_simps split: if_splits)
qed

lemma prot_retry:
  assumes "protocol_inv ch s" and "wpcs s i = SlpResume" and "i < length (procs s)"
  shows "protocol_inv ch (jump i WAcq ((upd_proc i (\<lambda>p. p\<lparr>p_chan := None\<rparr>) s)\<lparr>pt_owner := None\<rparr>))"
proof -
  note D = protocol_invD [OF assms(1)]
  let ?s = "jump i WAcq ((upd_proc i (\<lambda>p. p\<lparr>p_chan := None\<rparr>) s)\<lparr>pt_owner := None\<rparr>)"
  have own: "pt_owner s = Some i" using D(2) [of i] assms(2) by (simp add: has_pt_def)
  have ns: "\<not> sleeps i s" using D(5) [OF assms(3)] assms(2) by auto
  have "has_lk (((wpcs s)(i := WAcq)) j) \<longleftrightarrow> lk_owner s = Some j" "\<not> has_pt (((wpcs s)(i := WAcq)) j)" for j
    using D(1,2) [of j] assms(2) own by (auto simp: has_lk_def has_pt_def)
  moreover have "about_to_wake ?s \<longleftrightarrow> about_to_wake s"
    using assms(2) by (force simp: about_to_wake_def)
  ultimately show ?thesis
    using ns assms(2,3) assms(1) [unfolded protocol_inv_def] by (auto simp: protocol_inv_def sleeps_def ptable_simps split: if_splits)
qed

lemma prot_scan:
  assumes "protocol_inv ch s" and "wpcs s i = WakScan" and "i < length (procs s)"
  shows "protocol_inv ch (jump i WakRel (wakeup1 (Some ch) s))"
proof -
  note D = protocol_invD [OF assms(1)]
  have own: "pt_owner s = Some i" using D(2) [of i] assms(2) by (simp add: has_pt_def)
  have "has_lk (((wpcs s)(i := WakRel)) j) \<longleftrightarrow> lk_owner s = Some j"
    "has_pt (((wpcs s)(i := WakRel)) j) \<longleftrightarrow> pt_owner s = Some j" for j
    using D(1,2) [of j] assms(2) by (auto simp: has_lk_def has_pt_def)
  moreover have "((wpcs s)(i := WakRel)) j \<noteq> SlpMark" for j
    using D(2) [of j] own assms(2) by (auto simp: has_pt_def)
  moreover have "\<not> sleeps j (wakeup1 (Some ch) s)" if "j < length (procs s)" for j
    using D(5) [OF that] that by (auto simp: sleeps_def ptable_simps)
  ultimately show ?thesis
    using assms(1) [unfolded protocol_inv_def] by (auto simp: protocol_inv_def sleeps_def ptable_simps)
qed

lemma protocol_inv_step:
  assumes "protocol_step ch s s'" and "protocol_inv ch s" shows "protocol_inv ch s'"
  using assms(1)
proof cases
  case (wait i)
  then show ?thesis using protocol_invD(5) [OF assms(2), of i]
    by (auto intro!: prot_jump [OF assms(2)] simp: has_lk_def has_pt_def)
next
  case (wake i)
  then show ?thesis using protocol_invD(5) [OF assms(2), of i]
    by (auto intro!: prot_jump [OF assms(2)] simp: has_lk_def has_pt_def)
next
  case (run i)
  note i = run(2) and D = protocol_invD [OF assms(2)]
  show ?thesis unfolding run(1) thread_step_def
    using D(5) [OF i] i
    by (auto simp: has_lk_def has_pt_def split: wpc.split if_splits
        intro!: assms(2) prot_take_lk [OF assms(2)] prot_take_pt [OF assms(2)] prot_rel_lk [OF assms(2)]
          prot_rel_pt [OF assms(2)] prot_consume [OF assms(2)] prot_set [OF assms(2)] prot_mark [OF assms(2)]
          prot_resume [OF assms(2)] prot_retry [OF assms(2)] prot_scan [OF assms(2)] prot_jump [OF assms(2)])
qed

interpretation protocol: inductive_invariant protocol_init "protocol_step ch" "protocol_inv ch" for ch
  by unfold_locales (auto intro: protocol_init_inv protocol_inv_step)

section \<open>Property\<close>

text \<open>
  \<^bold>\<open>C2.\<close> No wakeup is lost: whenever a process sleeps on the channel although the condition
  holds, some process that made the condition true is still inside \<^verbatim>\<open>wakeup\<close>, before or at
  its scan of the process table, and that scan makes the sleeper runnable.
\<close>

theorem no_lost_wakeup:
  assumes "protocol_init s0" and "(protocol_step ch)\<^sup>*\<^sup>* s0 s"
    and "i < length (procs s)" and "p_state (proc_at i s) = SLEEPING" and "condition s"
  shows "(\<exists>k. wpcs s k \<in> {WakAcq, WakScan})
    \<and> (\<forall>k. wpcs s k = WakScan \<longrightarrow> p_state (proc_at i (thread_step ch k s)) = RUNNABLE)"
proof -
  have inv: "protocol_inv ch s" using protocol.reachable_inv [OF assms(1,2)] .
  have sl: "sleeps i s" using assms(4) by (simp add: sleeps_def)
  have "about_to_wake s" using protocol_invD(6) [OF inv assms(3) sl assms(5)] .
  moreover have "p_chan (proc_at i s) = Some ch" using protocol_invD(5) [OF inv assms(3) sl] by simp
  ultimately show ?thesis
    using assms(3,4) by (auto simp: about_to_wake_def thread_step_def ptable_simps)
qed

definition two_procs :: csys where
  "two_procs = \<lparr>procs = replicate 2 (empty_proc\<lparr>p_state := RUNNING\<rparr>), nextpid = 1, initproc = None,
     lk_owner = None, pt_owner = None, condition = False, wpcs = (\<lambda>_. Idle)\<rparr>"

definition run_threads :: "nat list \<Rightarrow> csys \<Rightarrow> csys" where
  "run_threads is s = fold (thread_step ChanTicks) is s"

lemma run_threads_reach:
  "\<forall>i \<in> set is. i < length (procs s) \<Longrightarrow> (protocol_step ch)\<^sup>*\<^sup>* s (fold (thread_step ch) is s)"
proof (induction "is" arbitrary: s)
  case (Cons i "is")
  have "length (procs (thread_step ch i s)) = length (procs s)"
    by (simp add: thread_step_def take_lk_def take_pt_def ptable_simps split: wpc.split)
  then have "(protocol_step ch)\<^sup>*\<^sup>* (thread_step ch i s) (fold (thread_step ch) is (thread_step ch i s))"
    using Cons by simp
  then show ?case
    using Cons.prems by (auto intro: converse_rtranclp_into_rtranclp protocol_step.run)
qed simp

theorem no_lost_wakeup_witness:
  "\<exists>s. p_state (proc_at 0 s) = SLEEPING \<and> condition s \<and> wpcs s 1 = WakScan
     \<and> p_state (proc_at 0 (thread_step ChanTicks 1 s)) = RUNNABLE"
proof -
  let ?s2 = "jump 1 KAcq (jump 0 WAcq two_procs)"
  let ?s = "run_threads [0, 0, 0, 0, 1, 1, 1, 0, 0, 1] ?s2"
  have "protocol_step ChanTicks two_procs (jump 0 WAcq two_procs)"
    by (rule protocol_step.wait) (simp_all add: two_procs_def)
  moreover have "protocol_step ChanTicks (jump 0 WAcq two_procs) ?s2"
    by (rule protocol_step.wake) (simp_all add: two_procs_def)
  moreover have "(protocol_step ChanTicks)\<^sup>*\<^sup>* ?s2 ?s"
    unfolding run_threads_def by (rule run_threads_reach) (simp add: two_procs_def)
  ultimately have r: "(protocol_step ChanTicks)\<^sup>*\<^sup>* two_procs ?s"
    by (meson converse_rtranclp_into_rtranclp)
  have i: "protocol_init two_procs" by (simp add: protocol_init_def two_procs_def)
  have c: "0 < length (procs ?s)" "p_state (proc_at 0 ?s) = SLEEPING" "condition ?s" "wpcs ?s 1 = WakScan"
    by code_simp+
  show ?thesis using no_lost_wakeup [OF i r c(1-3)] c by blast
qed

end
