(* ===== verification/Lru.thy ===== *)
theory Lru
  imports Xv6_Prelude
begin

text \<open>
  The doubly-linked list that keeps the disk buffers in order of use (\<^verbatim>\<open>bio.c\<close>): the
  \<^verbatim>\<open>prev\<close> and \<^verbatim>\<open>next\<close> fields of the buffers and of the list head \<^verbatim>\<open>bufhead\<close>, the loop of
  \<^verbatim>\<open>binit\<close> that builds the list and the pointer assignments of \<^verbatim>\<open>brelse\<close> that move a buffer
  to the front. The list of buffer numbers they represent is what \<^verbatim>\<open>Bio\<close> works with.
\<close>

section \<open>Model\<close>

definition NBUF :: nat where "NBUF = 10"

datatype bnode = Bufhead | Buf nat

record links =
  nextp :: "bnode \<Rightarrow> bnode"
  prevp :: "bnode \<Rightarrow> bnode"

definition set_nextp :: "bnode \<Rightarrow> bnode \<Rightarrow> links \<Rightarrow> links" where
  "set_nextp a b l = l\<lparr>nextp := (nextp l)(a := b)\<rparr>"

definition set_prevp :: "bnode \<Rightarrow> bnode \<Rightarrow> links \<Rightarrow> links" where
  "set_prevp a b l = l\<lparr>prevp := (prevp l)(a := b)\<rparr>"

text \<open>The four assignments that link \<open>b\<close> in behind \<^verbatim>\<open>bufhead\<close>.\<close>

definition link_front :: "bnode \<Rightarrow> links \<Rightarrow> links" where
  "link_front b l =
     (let l1 = set_nextp b (nextp l Bufhead) l;
          l2 = set_prevp b Bufhead l1;
          l3 = set_prevp (nextp l2 Bufhead) b l2
      in set_nextp Bufhead b l3)"

definition unlink :: "bnode \<Rightarrow> links \<Rightarrow> links" where
  "unlink b l =
     (let l1 = set_prevp (nextp l b) (prevp l b) l
      in set_nextp (prevp l1 b) (nextp l1 b) l1)"

definition binit :: "links \<Rightarrow> links" where
  "binit l = fold (\<lambda>i. link_front (Buf i)) [0..<NBUF]
     (set_nextp Bufhead Bufhead (set_prevp Bufhead Bufhead l))"

definition brelse_links :: "nat \<Rightarrow> links \<Rightarrow> links" where
  "brelse_links i l = link_front (Buf i) (unlink (Buf i) l)"

text \<open>
  The loops of \<^verbatim>\<open>bget\<close> over the list, forwards from the most and backwards from the least
  recently used buffer: the first node that satisfies a test, with a bound on the steps.
\<close>

primrec walk :: "nat \<Rightarrow> (bnode \<Rightarrow> bnode) \<Rightarrow> (nat \<Rightarrow> bool) \<Rightarrow> bnode \<Rightarrow> nat option" where
  "walk 0 f P b = None"
| "walk (Suc n) f P b =
     (case b of Bufhead \<Rightarrow> None | Buf i \<Rightarrow> if P i then Some i else walk n f P (f b))"

section \<open>The list a linking represents\<close>

primrec dseg :: "links \<Rightarrow> bnode \<Rightarrow> nat list \<Rightarrow> bnode \<Rightarrow> bool" where
  "dseg l a [] c \<longleftrightarrow> nextp l a = c \<and> prevp l c = a"
| "dseg l a (x # xs) c \<longleftrightarrow> nextp l a = Buf x \<and> prevp l (Buf x) = a \<and> dseg l (Buf x) xs c"

definition lru_list :: "links \<Rightarrow> nat list \<Rightarrow> bool" where
  "lru_list l xs \<longleftrightarrow> distinct xs \<and> dseg l Bufhead xs Bufhead"

lemma dseg_append:
  "dseg l a (xs @ x # ys) c \<longleftrightarrow> dseg l a xs (Buf x) \<and> dseg l (Buf x) ys c"
  by (induction xs arbitrary: a) auto

lemma dseg_last: "dseg l a xs c \<Longrightarrow> prevp l c = (if xs = [] then a else Buf (last xs))"
  by (induction xs arbitrary: a) auto

lemma dseg_hd: "dseg l a xs c \<Longrightarrow> nextp l a = (if xs = [] then c else Buf (hd xs))"
  by (cases xs) auto

text \<open>A segment only depends on the forward links of its start and the backward links of its end.\<close>

lemma dseg_frame:
  assumes "\<And>b. b \<in> insert a (Buf ` set xs) \<Longrightarrow> nextp l' b = nextp l b"
    and "\<And>b. b \<in> insert c (Buf ` set xs) \<Longrightarrow> prevp l' b = prevp l b"
  shows "dseg l' a xs c \<longleftrightarrow> dseg l a xs c"
  using assms by (induction xs arbitrary: a) auto

lemma link_front_list:
  assumes "lru_list l xs" and "b \<notin> set xs"
  shows "lru_list (link_front (Buf b) l) (b # xs)"
proof (cases xs)
  case Nil
  then show ?thesis
    using assms by (simp add: lru_list_def link_front_def set_nextp_def set_prevp_def Let_def)
next
  case (Cons x ys)
  let ?l = "link_front (Buf b) l"
  have hd: "nextp l Bufhead = Buf x" using assms(1) Cons by (simp add: lru_list_def)
  have l: "nextp ?l = (nextp l)(Buf b := Buf x, Bufhead := Buf b)"
    "prevp ?l = (prevp l)(Buf b := Bufhead, Buf x := Buf b)"
    using hd by (simp_all add: link_front_def set_nextp_def set_prevp_def Let_def fun_eq_iff)
  have "dseg ?l (Buf x) ys Bufhead \<longleftrightarrow> dseg l (Buf x) ys Bufhead"
    using assms Cons by (intro dseg_frame) (auto simp: l lru_list_def)
  then show ?thesis using assms Cons by (auto simp: l lru_list_def)
qed

lemma unlink_list:
  assumes "lru_list l (xs @ b # ys)"
  shows "lru_list (unlink (Buf b) l) (xs @ ys)"
proof -
  have dist: "distinct (xs @ b # ys)" and s: "dseg l Bufhead xs (Buf b)" "dseg l (Buf b) ys Bufhead"
    using assms by (auto simp: lru_list_def dseg_append)
  let ?p = "if xs = [] then Bufhead else Buf (last xs)" and ?n = "if ys = [] then Bufhead else Buf (hd ys)"
  have pn: "prevp l (Buf b) = ?p" "nextp l (Buf b) = ?n" using dseg_last [OF s(1)] dseg_hd [OF s(2)] by auto
  have "?n \<noteq> Buf b" using dist by (auto dest: hd_in_set)
  then have l: "nextp (unlink (Buf b) l) = (nextp l)(?p := ?n)" "prevp (unlink (Buf b) l) = (prevp l)(?n := ?p)"
    using pn by (auto simp: unlink_def set_nextp_def set_prevp_def Let_def)
  have dseg_drop: "dseg l' a (zs @ ys) c"
    if "dseg l a zs (Buf b)" "dseg l (Buf b) ys c" "distinct (zs @ ys)" "a \<notin> Buf ` set (zs @ ys)"
      "c \<notin> Buf ` set (zs @ ys)"
      "nextp l' = (nextp l)((if zs = [] then a else Buf (last zs)) := (if ys = [] then c else Buf (hd ys)))"
      "prevp l' = (prevp l)((if ys = [] then c else Buf (hd ys)) := (if zs = [] then a else Buf (last zs)))"
    for a c zs l'
    using that
  proof (induction zs arbitrary: a)
    case Nil
    then show ?case
    proof (cases ys)
      case (Cons y vs)
      have "dseg l' (Buf y) vs c \<longleftrightarrow> dseg l (Buf y) vs c"
        using Nil Cons by (intro dseg_frame) auto
      then show ?thesis using Nil Cons by auto
    qed auto
  next
    case (Cons z zs)
    have "dseg l' (Buf z) (zs @ ys) c"
    proof (rule Cons.IH)
      show "nextp l' = (nextp l)((if zs = [] then Buf z else Buf (last zs)) := (if ys = [] then c else Buf (hd ys)))"
        "prevp l' = (prevp l)((if ys = [] then c else Buf (hd ys)) := (if zs = [] then Buf z else Buf (last zs)))"
        using Cons.prems(6,7) by (auto split: if_splits)
    qed (use Cons.prems in auto)
    moreover have "nextp l' a = Buf z" "prevp l' (Buf z) = a"
      using Cons.prems by (auto split: if_splits dest: hd_in_set)
    ultimately show ?case by simp
  qed
  show ?thesis
    using dseg_drop [OF s, of "unlink (Buf b) l"] dist l by (auto simp: lru_list_def)
qed

lemma binit_list: "lru_list (binit l) (rev [0..<NBUF])"
proof -
  have "lru_list (fold (\<lambda>i. link_front (Buf i)) xs l0) (rev xs @ ys)"
    if "lru_list l0 ys" "distinct (xs @ ys)" for xs ys l0
    using that
  proof (induction xs arbitrary: l0 ys)
    case (Cons x xs)
    then have "lru_list (link_front (Buf x) l0) (x # ys)" by (intro link_front_list) auto
    then show ?case using Cons.IH [of _ "x # ys"] Cons.prems(2) by simp
  qed simp
  from this [of "set_nextp Bufhead Bufhead (set_prevp Bufhead Bufhead l)" "[]" "[0..<NBUF]"]
  show ?thesis by (simp add: binit_def lru_list_def set_nextp_def set_prevp_def)
qed

lemma brelse_links_list:
  assumes "lru_list l xs" and "i \<in> set xs"
  shows "lru_list (brelse_links i l) (i # remove1 i xs)"
proof -
  obtain us vs where xs: "xs = us @ i # vs" and i: "i \<notin> set us" using split_list_first [OF assms(2)] by blast
  have "distinct xs" using assms(1) by (simp add: lru_list_def)
  then have "i \<notin> set (us @ vs)" "remove1 i xs = us @ vs" using xs by (auto simp: remove1_append)
  then show ?thesis
    using unlink_list [of l us i vs] assms(1) xs link_front_list by (auto simp: brelse_links_def)
qed

lemma walk_forward:
  "dseg l a xs Bufhead \<Longrightarrow> length xs < n \<Longrightarrow> walk n (nextp l) P (nextp l a) = List.find P xs"
proof (induction xs arbitrary: a n)
  case Nil
  then show ?case by (cases n) auto
next
  case (Cons x xs)
  then obtain k where "n = Suc k" "length xs < k" by (cases n) auto
  then show ?case using Cons by auto
qed

lemma walk_backward:
  "dseg l Bufhead xs c \<Longrightarrow> length xs < n \<Longrightarrow> walk n (prevp l) P (prevp l c) = List.find P (rev xs)"
proof (induction xs arbitrary: c n rule: rev_induct)
  case Nil
  then show ?case by (cases n) auto
next
  case (snoc x xs)
  then obtain k where "n = Suc k" "length xs < k" by (cases n) auto
  then show ?case using snoc by (auto simp: dseg_append)
qed

section \<open>Property\<close>

text \<open>
  \<^bold>\<open>C29.\<close> The pointer assignments keep a correct list in order of use. \<^verbatim>\<open>binit\<close> links all
  buffers, each exactly once; \<^verbatim>\<open>brelse\<close> moves its buffer to the front and keeps the order of
  the others; and the two loops of \<^verbatim>\<open>bget\<close> find the first match in that order and in the
  reverse order.
\<close>

theorem lru_links_correct:
  assumes "lru_list l xs" and "i \<in> set xs" and "length xs < n"
  shows "lru_list (binit l) (rev [0..<NBUF])
    \<and> lru_list (brelse_links i l) (i # remove1 i xs)
    \<and> walk n (nextp l) P (nextp l Bufhead) = List.find P xs
    \<and> walk n (prevp l) P (prevp l Bufhead) = List.find P (rev xs)"
  using assms binit_list brelse_links_list walk_forward walk_backward by (auto simp: lru_list_def)

theorem lru_links_correct_witness:
  "let l = binit \<lparr>nextp = (\<lambda>_. Bufhead), prevp = (\<lambda>_. Bufhead)\<rparr>
   in lru_list (brelse_links 4 l) (4 # remove1 4 (rev [0..<NBUF]))
      \<and> walk 11 (nextp l) (\<lambda>i. i < 7) (nextp l Bufhead) = Some 6"
proof -
  let ?l = "binit \<lparr>nextp = (\<lambda>_. Bufhead), prevp = (\<lambda>_. Bufhead)\<rparr>"
  have "4 \<in> set (rev [0..<NBUF])" "length (rev [0..<NBUF]) < 11"
    "List.find (\<lambda>i. i < 7) (rev [0..<NBUF]) = Some 6" by code_simp+
  then show ?thesis
    using lru_links_correct [OF binit_list, of 4 11 _ "\<lambda>i. i < 7"] by (simp add: Let_def)
qed

end
