(* ===== verification/Ide.thy ===== *)
theory Ide
  imports Sched Lru
begin

text \<open>
  The disk driver of \<^verbatim>\<open>ide.c\<close>: the queue of buffers waiting for the disk, the start of a
  request, the interrupt handler and the synchronous \<^verbatim>\<open>ide_rw\<close>. The drive itself is the
  hardware the driver talks to: its contents and its status register are fields of the state,
  and the registers the driver writes select the sector.
\<close>

section \<open>Buffers, drive and queue\<close>

text \<open>The bits \<^verbatim>\<open>B_BUSY\<close>, \<^verbatim>\<open>B_VALID\<close> and \<^verbatim>\<open>B_DIRTY\<close> of \<^verbatim>\<open>flags\<close> are three booleans.\<close>

record buf =
  b_busy :: bool
  b_valid :: bool
  b_dirty :: bool
  b_dev :: u32
  b_sector :: u32
  b_data :: "u8 list"

text \<open>
  \<^verbatim>\<open>lru\<close> is the list of buffers from most to least recently used, \<^verbatim>\<open>ide_queue\<close> the disk
  queue linked through \<^verbatim>\<open>qnext\<close>. \<^verbatim>\<open>disk\<close> gives the 512 bytes of each sector of drives 0
  and 1, \<^verbatim>\<open>ide_status\<close> what port 0x1f7 reads.
\<close>

record blk = ptable +
  bufs :: "buf list"
  lru :: "nat list"
  ide_queue :: "nat list"
  disk_1_present :: bool
  ide_status :: u8
  disk :: "bool \<Rightarrow> u32 \<Rightarrow> u8 list"

definition buf_at :: "nat \<Rightarrow> 'a blk_scheme \<Rightarrow> buf" where
  "buf_at i s = bufs s ! i"

definition upd_buf :: "nat \<Rightarrow> (buf \<Rightarrow> buf) \<Rightarrow> 'a blk_scheme \<Rightarrow> 'a blk_scheme" where
  "upd_buf i f s = s\<lparr>bufs := (bufs s)[i := f (bufs s ! i)]\<rparr>"

section \<open>The driver\<close>

definition IDE_BSY :: u8 where "IDE_BSY = 0x80"
definition IDE_DRDY :: u8 where "IDE_DRDY = 0x40"
definition IDE_DF :: u8 where "IDE_DF = 0x20"
definition IDE_ERR :: u8 where "IDE_ERR = 0x01"

text \<open>Polling never ends on a drive that does not become ready.\<close>

definition ide_wait_ready :: "bool \<Rightarrow> 'a blk_scheme \<Rightarrow> int res" where
  "ide_wait_ready check_error s =
     (let r = ide_status s in
      if r AND IDE_BSY \<noteq> 0 \<or> r AND IDE_DRDY = 0 then Inl Diverges
      else if check_error \<and> r AND (IDE_DF OR IDE_ERR) \<noteq> 0 then Inr (-1) else Inr 0)"

text \<open>
  The bytes \<^verbatim>\<open>ide_start_request\<close> sends to ports 0x1f3 to 0x1f6, and the sector an IDE drive
  in LBA mode takes them to mean: bit 4 of the last one selects the drive, its low four bits
  and the other three bytes the sector.
\<close>

definition ide_regs :: "buf \<Rightarrow> u8 \<times> u8 \<times> u8 \<times> u8" where
  "ide_regs b =
     (ucast (b_sector b AND 0xff), ucast (drop_bit 8 (b_sector b) AND 0xff),
      ucast (drop_bit 16 (b_sector b) AND 0xff),
      ucast (0xe0 OR push_bit 4 (b_dev b AND 1) OR (drop_bit 24 (b_sector b) AND 0x0f)))"

definition ide_addr :: "u8 \<times> u8 \<times> u8 \<times> u8 \<Rightarrow> bool \<times> u32" where
  "ide_addr r = (case r of (r3, r4, r5, r6) \<Rightarrow> (bit r6 4, le32 r3 r4 r5 (r6 AND 0x0f)))"

definition sector_of :: "buf \<Rightarrow> bool \<times> u32" where
  "sector_of b = ide_addr (ide_regs b)"

text \<open>A write command transfers the data to the drive at once; a read command leaves them to be fetched.\<close>

definition ide_start_request :: "nat option \<Rightarrow> 'a blk_scheme \<Rightarrow> 'a blk_scheme res" where
  "ide_start_request bo s =
     (case bo of None \<Rightarrow> Inl (Panic ''ide_start_request'') | Some i \<Rightarrow>
      rbind (ide_wait_ready False s) (\<lambda>_.
      let b = buf_at i s; (dr, sec) = sector_of b in
      if b_dirty b then Inr (s\<lparr>disk := (disk s)(dr := (disk s dr)(sec := b_data b))\<rparr>) else Inr s))"

definition ide_intr :: "'a blk_scheme \<Rightarrow> 'a blk_scheme res" where
  "ide_intr s =
     (case ide_queue s of [] \<Rightarrow> Inr s | i # q \<Rightarrow>
      rbind (if \<not> b_dirty (buf_at i s) then ide_wait_ready True s else Inr (-1)) (\<lambda>r.
      let s1 = (if r \<ge> 0 then (let (dr, sec) = sector_of (buf_at i s) in upd_buf i (\<lambda>b. b\<lparr>b_data := disk s dr sec\<rparr>) s) else s);
          s2 = upd_buf i (\<lambda>b. b\<lparr>b_valid := True, b_dirty := False\<rparr>) s1;
          s3 = wakeup (ChanBufp i) s2;
          s4 = s3\<lparr>ide_queue := q\<rparr>
      in if q \<noteq> [] then ide_start_request (Some (hd q)) s4 else Inr s4))"

text \<open>
  The loop that waits for the request: as long as the buffer is not in sync the process sleeps
  and the next thing that happens to the disk is an interrupt. The fuel is the number of
  requests in the queue, since each interrupt completes one.
\<close>

primrec ide_wait :: "nat \<Rightarrow> nat \<Rightarrow> 'a blk_scheme \<Rightarrow> 'a blk_scheme res" where
  "ide_wait 0 i s =
     (if b_valid (buf_at i s) \<and> \<not> b_dirty (buf_at i s) then Inr s else Inl (Blocked (ChanBufp i)))"
| "ide_wait (Suc n) i s =
     (if b_valid (buf_at i s) \<and> \<not> b_dirty (buf_at i s) then Inr s
      else rbind (ide_intr s) (ide_wait n i))"

definition ide_rw :: "nat \<Rightarrow> 'a blk_scheme \<Rightarrow> 'a blk_scheme res" where
  "ide_rw i s =
     (let b = buf_at i s in
      if \<not> b_busy b then Inl (Panic ''ide_rw: buf not busy'')
      else if b_valid b \<and> \<not> b_dirty b then Inl (Panic ''ide_rw: nothing to do'')
      else if b_dev b \<noteq> 0 \<and> \<not> disk_1_present s then Inl (Panic ''ide disk 1 not present'')
      else let s1 = s\<lparr>ide_queue := ide_queue s @ [i]\<rparr> in
        rbind (if hd (ide_queue s1) = i then ide_start_request (Some i) s1 else Inr s1) (\<lambda>s2.
        ide_wait (length (ide_queue s2)) i s2))"

text \<open>
  \<^verbatim>\<open>ide_init\<close>: select drive 1 and poll its status up to 1000 times; \<open>st\<close> are the successive
  values read.
\<close>

definition ide_init :: "(nat \<Rightarrow> u8) \<Rightarrow> 'a blk_scheme \<Rightarrow> 'a blk_scheme res" where
  "ide_init st s =
     rbind (ide_wait_ready False s) (\<lambda>_.
     Inr (if first_idx (\<lambda>i. st i \<noteq> 0) [0..<1000] \<noteq> None then s\<lparr>disk_1_present := True\<rparr> else s))"

section \<open>The sector addressed\<close>

lemma masks: "(0xff :: u32) = mask 8" "(0x0f :: u32) = mask 4" "(0x0f :: u8) = mask 4"
    "(0x0fffffff :: u32) = mask 28" "(1 :: u32) = mask 1"
  by (simp_all add: mask_eq_exp_minus_1)

lemma bit_0xe0: "bit (0xe0 :: 'a :: len word) n \<longleftrightarrow> n < LENGTH('a) \<and> (n = 5 \<or> n = 6 \<or> n = 7)"
proof -
  have e: "(0xe0 :: 'a word) = 2 ^ 5 OR 2 ^ 6 OR 2 ^ 7" by simp
  show ?thesis unfolding e bit_or_iff bit_exp_iff by (auto simp: possible_bit_def)
qed

lemma sector_of_eq: "sector_of b = (bit (b_dev b) 0, b_sector b AND 0x0fffffff)"
proof -
  let ?r = "ide_regs b"
  have "bit (snd (snd (snd ?r))) 4 \<longleftrightarrow> bit (b_dev b) 0"
    unfolding ide_regs_def masks by (simp add: bit_simps bit_0xe0)
  moreover have "le32 (fst ?r) (fst (snd ?r)) (fst (snd (snd ?r))) (snd (snd (snd ?r)) AND 0x0f) = b_sector b AND 0x0fffffff"
  proof (rule bit_word_eqI)
    fix n assume "n < LENGTH(32)"
    then consider "n < 8" | "8 \<le> n" "n < 16" | "16 \<le> n" "n < 24" | "24 \<le> n" "n < 28" | "28 \<le> n" "n < 32" by fastforce
    then show "bit (le32 (fst ?r) (fst (snd ?r)) (fst (snd (snd ?r))) (snd (snd (snd ?r)) AND 0x0f)) n
      \<longleftrightarrow> bit (b_sector b AND 0x0fffffff) n"
    proof cases
      case 1
      then show ?thesis unfolding ide_regs_def masks by (simp add: le32_def bit_simps)
    next
      case 2
      then have "n - 8 < 8" "n - 8 < 32" by arith+
      with 2 show ?thesis unfolding ide_regs_def masks by (simp add: le32_def bit_simps)
    next
      case 3
      then have "n - 16 < 8" "n - 16 < 32" "\<not> n - 8 < 8" by arith+
      with 3 show ?thesis unfolding ide_regs_def masks by (simp add: le32_def bit_simps)
    next
      case 4
      then have "n = 24 \<or> n = 25 \<or> n = 26 \<or> n = 27" by arith
      then show ?thesis unfolding ide_regs_def masks by (elim disjE) (simp_all add: le32_def bit_simps)
    next
      case 5
      then have "\<not> n - 24 < 4" "\<not> n - 8 < 8" "\<not> n - 16 < 8" by arith+
      with 5 show ?thesis unfolding ide_regs_def masks by (simp add: le32_def bit_simps)
    qed
  qed
  ultimately show ?thesis by (cases ?r) (simp add: sector_of_def ide_addr_def)
qed

end
