(* ===== verification/Bio.thy ===== *)
theory Bio
  imports Ide
begin

text \<open>
  The buffer cache of \<^verbatim>\<open>bio.c\<close> on top of the disk driver, and its contract: through
  \<^verbatim>\<open>bread\<close>, \<^verbatim>\<open>bwrite\<close> and \<^verbatim>\<open>brelse\<close> the disk is an array of sectors, with at most one
  buffer per sector. The contract is the locale \<open>block_cache\<close>; the file system uses it through
  its interpretation.
\<close>

section \<open>Model\<close>

definition in_use :: "buf \<Rightarrow> bool" where
  "in_use b \<longleftrightarrow> b_busy b \<or> b_valid b"

definition bget :: "u32 \<Rightarrow> u32 \<Rightarrow> 'a blk_scheme \<Rightarrow> (nat \<times> 'a blk_scheme) res" where
  "bget dev sector s =
     (case List.find (\<lambda>i. let b = buf_at i s in in_use b \<and> b_dev b = dev \<and> b_sector b = sector) (lru s) of
        Some i \<Rightarrow>
          if b_busy (buf_at i s) then Inl (Blocked ChanBuf)
          else Inr (i, upd_buf i (\<lambda>b. b\<lparr>b_busy := True\<rparr>) s)
      | None \<Rightarrow>
          (case List.find (\<lambda>i. \<not> b_busy (buf_at i s)) (rev (lru s)) of
             Some i \<Rightarrow> Inr (i, upd_buf i (\<lambda>b. b\<lparr>b_busy := True, b_valid := False, b_dirty := False,
                                                b_dev := dev, b_sector := sector\<rparr>) s)
           | None \<Rightarrow> Inl (Panic ''bget: no buffers'')))"

definition bread :: "u32 \<Rightarrow> u32 \<Rightarrow> 'a blk_scheme \<Rightarrow> (nat \<times> 'a blk_scheme) res" where
  "bread dev sector s =
     rbind (bget dev sector s) (\<lambda>(i, s1).
     if \<not> b_valid (buf_at i s1) then rbind (ide_rw i s1) (\<lambda>s2. Inr (i, s2)) else Inr (i, s1))"

definition bwrite :: "nat \<Rightarrow> 'a blk_scheme \<Rightarrow> 'a blk_scheme res" where
  "bwrite i s =
     (if \<not> b_busy (buf_at i s) then Inl (Panic ''bwrite'')
      else ide_rw i (upd_buf i (\<lambda>b. b\<lparr>b_dirty := True\<rparr>) s))"

text \<open>\<^verbatim>\<open>brelse\<close> moves the buffer to the front of the list (see \<^verbatim>\<open>Lru\<close>).\<close>

definition brelse :: "nat \<Rightarrow> 'a blk_scheme \<Rightarrow> 'a blk_scheme res" where
  "brelse i s =
     (if \<not> b_busy (buf_at i s) then Inl (Panic ''brelse'')
      else let s1 = s\<lparr>lru := i # remove1 i (lru s)\<rparr>;
               s2 = upd_buf i (\<lambda>b. b\<lparr>b_busy := False\<rparr>) s1
           in Inr (wakeup ChanBuf s2))"

text \<open>Changing the data of a buffer the caller holds, as the file system does in place.\<close>

definition set_data :: "nat \<Rightarrow> u8 list \<Rightarrow> 'a blk_scheme \<Rightarrow> 'a blk_scheme" where
  "set_data i d = upd_buf i (\<lambda>b. b\<lparr>b_data := d\<rparr>)"

section \<open>Updates\<close>

named_theorems blk_simps \<open>updates of the buffer table and the disk\<close>

lemma upd_buf_more [blk_simps]:
  "length (bufs (upd_buf i f s)) = length (bufs s)" "lru (upd_buf i f s) = lru s"
  "ide_queue (upd_buf i f s) = ide_queue s" "disk_1_present (upd_buf i f s) = disk_1_present s"
  "ide_status (upd_buf i f s) = ide_status s" "disk (upd_buf i f s) = disk s"
  "blk.more (upd_buf i f s) = blk.more s"
  "procs (upd_buf i f s) = procs s" "nextpid (upd_buf i f s) = nextpid s" "initproc (upd_buf i f s) = initproc s"
  by (simp_all add: upd_buf_def)

lemma buf_at_upd [blk_simps]:
  "i < length (bufs s) \<Longrightarrow> buf_at j (upd_buf i f s) = (if j = i then f (buf_at i s) else buf_at j s)"
  by (simp add: buf_at_def upd_buf_def nth_list_update)

lemma wakeup_blk [blk_simps]:
  "bufs (wakeup ch s) = bufs s" "lru (wakeup ch s) = lru s"
  "ide_queue (wakeup ch s) = ide_queue s" "disk_1_present (wakeup ch s) = disk_1_present s"
  "ide_status (wakeup ch s) = ide_status s" "disk (wakeup ch s) = disk s"
  "blk.more (wakeup ch s) = blk.more s" "buf_at j (wakeup ch s) = buf_at j s"
  "nextpid (wakeup ch s) = nextpid s" "initproc (wakeup ch s) = initproc s"
  by (simp_all add: wakeup_def wakeup1_def buf_at_def)

lemma buf_at_fields [blk_simps]:
  "buf_at j (s\<lparr>lru := l\<rparr>) = buf_at j s" "buf_at j (s\<lparr>ide_queue := q\<rparr>) = buf_at j s"
  "buf_at j (s\<lparr>disk := d\<rparr>) = buf_at j s"
  by (simp_all add: buf_at_def)

text \<open>
  What the block layer may do to the rest of the kernel state: make sleeping processes
  runnable, nothing else.
\<close>

definition rest :: "'a blk_scheme \<Rightarrow> 'a blk_scheme \<Rightarrow> bool" where
  "rest s s' \<longleftrightarrow> length (procs s') = length (procs s) \<and> nextpid s' = nextpid s \<and> initproc s' = initproc s
     \<and> (\<forall>j < length (procs s). woken (proc_at j s) (proc_at j s')) \<and> blk.more s' = blk.more s"

lemma rest_refl [simp]: "rest s s"
  by (simp add: rest_def)

lemma rest_trans [trans]: "rest s s' \<Longrightarrow> rest s' s'' \<Longrightarrow> rest s s''"
  by (auto simp: rest_def intro: woken_trans)

lemma rest_wakeup: "rest s (wakeup ch s)"
  by (simp add: rest_def wakeup_def ptable_simps woken_def) (simp add: wakeup1_def)

lemma rest_upd_buf: "rest s (upd_buf i f s)"
  by (simp add: rest_def blk_simps proc_at_def)

lemma rest_fields:
  "rest s (s\<lparr>lru := l\<rparr>)" "rest s (s\<lparr>ide_queue := q\<rparr>)" "rest s (s\<lparr>disk := d\<rparr>)"
  by (simp_all add: rest_def proc_at_def)

section \<open>Synchronous transfers\<close>

definition drive_ready :: "'a blk_scheme \<Rightarrow> bool" where
  "drive_ready s \<longleftrightarrow> ide_status s AND IDE_BSY = 0 \<and> ide_status s AND IDE_DRDY \<noteq> 0
     \<and> ide_status s AND (IDE_DF OR IDE_ERR) = 0"

definition block :: "'a blk_scheme \<Rightarrow> u32 \<Rightarrow> u32 \<Rightarrow> u8 list" where
  "block s dev sec = disk s (bit dev 0) (sec AND 0x0fffffff)"

lemma ide_wait_ready_ok: "drive_ready s \<Longrightarrow> ide_wait_ready c s = Inr 0"
  by (simp add: drive_ready_def ide_wait_ready_def Let_def)

text \<open>With an idle disk, \<^verbatim>\<open>ide_rw\<close> starts its request, takes one interrupt and is done.\<close>

lemma ide_rw_write:
  assumes "drive_ready s" and "ide_queue s = []" and "i < length (bufs s)"
    and "b_busy (buf_at i s)" and "b_dirty (buf_at i s)" and "b_dev (buf_at i s) = 0 \<or> disk_1_present s"
    and "sector_of (buf_at i s) = (dr, sec)"
  shows "ide_rw i s = Inr (wakeup (ChanBufp i) (upd_buf i (\<lambda>b. b\<lparr>b_valid := True, b_dirty := False\<rparr>)
     (s\<lparr>disk := (disk s)(dr := (disk s dr)(sec := b_data (buf_at i s)))\<rparr>))\<lparr>ide_queue := []\<rparr>)"
proof -
  have "ide_start_request (Some i) (s\<lparr>ide_queue := [i]\<rparr>) =
      Inr (s\<lparr>ide_queue := [i], disk := (disk s)(dr := (disk s dr)(sec := b_data (buf_at i s)))\<rparr>)"
    using assms by (simp add: ide_start_request_def ide_wait_ready_ok blk_simps drive_ready_def ide_wait_ready_def)
  then show ?thesis
    using assms
    by (simp add: ide_rw_def Let_def ide_intr_def blk_simps) (simp add: upd_buf_def wakeup_def wakeup1_def)
qed

lemma ide_rw_read:
  assumes "drive_ready s" and "ide_queue s = []" and "i < length (bufs s)"
    and "b_busy (buf_at i s)" and "\<not> b_dirty (buf_at i s)" and "\<not> b_valid (buf_at i s)"
    and "b_dev (buf_at i s) = 0 \<or> disk_1_present s" and "sector_of (buf_at i s) = (dr, sec)"
  shows "ide_rw i s = Inr (wakeup (ChanBufp i)
     (upd_buf i (\<lambda>b. b\<lparr>b_data := disk s dr sec, b_valid := True, b_dirty := False\<rparr>) s)\<lparr>ide_queue := []\<rparr>)"
proof -
  have "ide_start_request (Some i) (s\<lparr>ide_queue := [i]\<rparr>) = Inr (s\<lparr>ide_queue := [i]\<rparr>)"
    using assms by (simp add: ide_start_request_def blk_simps drive_ready_def ide_wait_ready_def)
  moreover have "ide_wait_ready True (s\<lparr>ide_queue := [i]\<rparr>) = Inr 0"
    using assms(1) by (simp add: drive_ready_def ide_wait_ready_def Let_def)
  ultimately show ?thesis
    using assms
    by (simp add: ide_rw_def Let_def ide_intr_def blk_simps) (simp add: upd_buf_def wakeup_def wakeup1_def buf_at_def)
qed

section \<open>Coherence of the cache\<close>

text \<open>The sectors that the driver's 28-bit addresses tell apart.\<close>

definition loc_ok :: "u32 \<Rightarrow> u32 \<Rightarrow> bool" where
  "loc_ok dev sec \<longleftrightarrow> unat dev \<le> 1 \<and> unat sec < 268435456"

text \<open>
  No request is outstanding, the buffers held by some process are those in \<open>H\<close>, no two buffers
  are for the same sector, and a valid buffer nobody holds has the contents of its sector.
\<close>

definition bio_ok :: "nat set \<Rightarrow> 'a blk_scheme \<Rightarrow> bool" where
  "bio_ok H s \<longleftrightarrow>
     length (bufs s) = NBUF \<and> distinct (lru s) \<and> set (lru s) = {..<NBUF}
     \<and> ide_queue s = [] \<and> disk_1_present s \<and> drive_ready s \<and> H \<subseteq> {..<NBUF}
     \<and> (\<forall>i < NBUF. (b_busy (buf_at i s) \<longleftrightarrow> i \<in> H) \<and> \<not> b_dirty (buf_at i s) \<and> (i \<in> H \<longrightarrow> b_valid (buf_at i s)))
     \<and> (\<forall>i < NBUF. in_use (buf_at i s) \<longrightarrow> loc_ok (b_dev (buf_at i s)) (b_sector (buf_at i s)))
     \<and> (\<forall>i < NBUF. \<forall>j < NBUF. in_use (buf_at i s) \<longrightarrow> in_use (buf_at j s) \<longrightarrow>
          b_dev (buf_at i s) = b_dev (buf_at j s) \<longrightarrow> b_sector (buf_at i s) = b_sector (buf_at j s) \<longrightarrow> i = j)
     \<and> (\<forall>i < NBUF. b_valid (buf_at i s) \<longrightarrow> i \<notin> H \<longrightarrow>
          b_data (buf_at i s) = block s (b_dev (buf_at i s)) (b_sector (buf_at i s)))"

definition key :: "nat \<Rightarrow> 'a blk_scheme \<Rightarrow> u32 \<times> u32" where
  "key i s = (b_dev (buf_at i s), b_sector (buf_at i s))"

definition data :: "nat \<Rightarrow> 'a blk_scheme \<Rightarrow> u8 list" where
  "data i s = b_data (buf_at i s)"

lemma dev_bit:
  assumes "unat (dev :: u32) \<le> 1" and "unat (dev' :: u32) \<le> 1" and "bit dev 0 = bit dev' 0"
  shows "dev = dev'"
proof -
  have "dev = 0 \<or> dev = 1" "dev' = 0 \<or> dev' = 1"
    using assms(1,2) by (auto simp: word_unat_eq_iff le_Suc_eq)
  then show ?thesis using assms(3) by auto
qed

lemma sec_mask: "unat (sec :: u32) < 268435456 \<Longrightarrow> sec AND 0x0fffffff = sec"
  unfolding masks(4) take_bit_eq_mask [symmetric]
  by (simp add: word_unat_eq_iff unsigned_take_bit_eq take_bit_nat_eq_self_iff)

lemma loc_ok_inj:
  assumes "loc_ok dev sec" and "loc_ok dev' sec'"
    and "bit dev 0 = bit dev' 0" and "sec AND 0x0fffffff = sec' AND 0x0fffffff"
  shows "dev = dev' \<and> sec = sec'"
  using assms dev_bit sec_mask by (auto simp: loc_ok_def)

lemma block_upd:
  assumes "loc_ok dev sec" and "loc_ok dev' sec'"
  shows "block (s\<lparr>disk := (disk s)(bit dev 0 := (disk s (bit dev 0))(sec AND 0x0fffffff := d))\<rparr>) dev' sec'
    = (if dev' = dev \<and> sec' = sec then d else block s dev' sec')"
  using loc_ok_inj [OF assms] by (auto simp: block_def)

lemma find_Some: "List.find P xs = Some x \<Longrightarrow> x \<in> set xs \<and> P x"
  by (induction xs) (auto split: if_splits)

lemma find_None: "List.find P xs = None \<longleftrightarrow> (\<forall>x \<in> set xs. \<not> P x)"
  by (induction xs) auto

lemma bio_okD:
  assumes "bio_ok H s" and "i < NBUF"
  shows "b_busy (buf_at i s) \<longleftrightarrow> i \<in> H" and "\<not> b_dirty (buf_at i s)" and "i \<in> H \<Longrightarrow> b_valid (buf_at i s)"
    and "in_use (buf_at i s) \<Longrightarrow> loc_ok (b_dev (buf_at i s)) (b_sector (buf_at i s))"
    and "j < NBUF \<Longrightarrow> in_use (buf_at i s) \<Longrightarrow> in_use (buf_at j s) \<Longrightarrow> key i s = key j s \<Longrightarrow> i = j"
    and "b_valid (buf_at i s) \<Longrightarrow> i \<notin> H \<Longrightarrow> b_data (buf_at i s) = block s (b_dev (buf_at i s)) (b_sector (buf_at i s))"
  using assms unfolding bio_ok_def key_def by auto

lemma bio_ok_globals:
  assumes "bio_ok H s"
  shows "length (bufs s) = NBUF" "set (lru s) = {..<NBUF}" "distinct (lru s)" "ide_queue s = []" "disk_1_present s"
    "drive_ready s" "H \<subseteq> {..<NBUF}"
  using assms by (simp_all add: bio_ok_def)

text \<open>Replacing one buffer by \<open>b\<close>, held if \<open>h\<close>.\<close>

lemma bio_ok_replace:
  assumes ok: "bio_ok H s" and i: "i < NBUF"
    and g: "length (bufs s') = NBUF" "distinct (lru s')" "set (lru s') = {..<NBUF}" "ide_queue s' = []"
      "disk_1_present s'" "drive_ready s'"
    and b: "\<And>j. j < NBUF \<Longrightarrow> buf_at j s' = (if j = i then b else buf_at j s)"
    and fl: "b_busy b = h" "\<not> b_dirty b" "b_valid b" and loc: "loc_ok (b_dev b) (b_sector b)"
    and uniq: "\<And>j. j < NBUF \<Longrightarrow> j \<noteq> i \<Longrightarrow> in_use (buf_at j s) \<Longrightarrow> key j s \<noteq> (b_dev b, b_sector b)"
    and dat: "\<not> h \<Longrightarrow> b_data b = block s' (b_dev b) (b_sector b)"
    and blk: "\<And>j. j < NBUF \<Longrightarrow> j \<noteq> i \<Longrightarrow> in_use (buf_at j s) \<Longrightarrow>
      block s' (b_dev (buf_at j s)) (b_sector (buf_at j s)) = block s (b_dev (buf_at j s)) (b_sector (buf_at j s))"
  shows "bio_ok (if h then insert i H else H - {i}) s'"
proof -
  let ?H = "if h then insert i H else H - {i}"
  note D = bio_okD [OF ok]
  have H: "H \<subseteq> {..<NBUF}" using bio_ok_globals [OF ok] by simp
  have 1: "(b_busy (buf_at j s') \<longleftrightarrow> j \<in> ?H) \<and> \<not> b_dirty (buf_at j s') \<and> (j \<in> ?H \<longrightarrow> b_valid (buf_at j s'))"
    if "j < NBUF" for j
    using b [OF that] D(1-3) [OF that] fl by (cases "j = i") auto
  have 2: "loc_ok (b_dev (buf_at j s')) (b_sector (buf_at j s'))" if "j < NBUF" "in_use (buf_at j s')" for j
    using b [OF that(1)] D(4) [OF that(1)] loc that(2) by (cases "j = i") auto
  have 3: "j = k" if "j < NBUF" "k < NBUF" "in_use (buf_at j s')" "in_use (buf_at k s')"
    "b_dev (buf_at j s') = b_dev (buf_at k s')" "b_sector (buf_at j s') = b_sector (buf_at k s')" for j k
    using that b [OF that(1)] b [OF that(2)] D(5) [OF that(1,2)] uniq [OF that(1)] uniq [OF that(2)]
    by (cases "j = i"; cases "k = i") (auto simp: key_def)
  have 4: "b_data (buf_at j s') = block s' (b_dev (buf_at j s')) (b_sector (buf_at j s'))"
    if "j < NBUF" "b_valid (buf_at j s')" "j \<notin> ?H" for j
  proof (cases "j = i")
    case True
    then show ?thesis using that dat b [OF i] i by (auto split: if_splits)
  next
    case False
    then show ?thesis
      using that b [OF that(1)] D(6) [OF that(1)] blk [OF that(1)] by (auto simp: in_use_def split: if_splits)
  qed
  show ?thesis
    unfolding bio_ok_def using g H i 1 2 3 4 by auto
qed

lemma bget_spec:
  assumes ok: "bio_ok H s" and "\<exists>j < NBUF. j \<notin> H" and "\<And>j. j \<in> H \<Longrightarrow> key j s \<noteq> (dev, sec)"
  obtains (hit) i where "bget dev sec s = Inr (i, upd_buf i (\<lambda>b. b\<lparr>b_busy := True\<rparr>) s)" "i < NBUF" "i \<notin> H"
      "b_valid (buf_at i s)" "key i s = (dev, sec)"
  | (miss) i where "bget dev sec s = Inr (i, upd_buf i (\<lambda>b. b\<lparr>b_busy := True, b_valid := False, b_dirty := False,
        b_dev := dev, b_sector := sec\<rparr>) s)" "i < NBUF" "i \<notin> H"
      "\<And>j. j < NBUF \<Longrightarrow> in_use (buf_at j s) \<Longrightarrow> key j s \<noteq> (dev, sec)"
proof -
  let ?P = "\<lambda>i. let b = buf_at i s in in_use b \<and> b_dev b = dev \<and> b_sector b = sec"
  note D = bio_okD [OF ok] and G = bio_ok_globals [OF ok]
  show thesis
  proof (cases "List.find ?P (lru s)")
    case (Some i)
    have i: "i < NBUF" "in_use (buf_at i s)" "key i s = (dev, sec)"
      using find_Some [OF Some] G(2) by (auto simp: key_def Let_def)
    then have nH: "i \<notin> H" using assms(3) by auto
    then have "\<not> b_busy (buf_at i s)" using D(1) [OF i(1)] by simp
    then show thesis using Some i nH by (intro hit [of i]) (auto simp: bget_def in_use_def)
  next
    case None
    then have no: "key j s \<noteq> (dev, sec)" if "j < NBUF" "in_use (buf_at j s)" for j
      using that G(2) by (auto simp: find_None Let_def key_def)
    obtain i where f: "List.find (\<lambda>i. \<not> b_busy (buf_at i s)) (rev (lru s)) = Some i"
      using assms(2) D(1) G(2) by (cases "List.find (\<lambda>i. \<not> b_busy (buf_at i s)) (rev (lru s))") (auto simp: find_None)
    then have "i < NBUF" "i \<notin> H" using find_Some [OF f] G(2) D(1) by auto
    then show thesis using None f no by (intro miss [of i]) (auto simp: bget_def)
  qed
qed

lemma bread_law:
  assumes ok: "bio_ok H s" and loc: "loc_ok dev sec" and "\<exists>j < NBUF. j \<notin> H" and "\<And>j. j \<in> H \<Longrightarrow> key j s \<noteq> (dev, sec)"
  shows "\<exists>i s'. bread dev sec s = Inr (i, s') \<and> i \<notin> H \<and> bio_ok (insert i H) s' \<and> key i s' = (dev, sec)
    \<and> data i s' = block s dev sec \<and> block s' = block s
    \<and> (\<forall>j \<in> H. buf_at j s' = buf_at j s) \<and> rest s s'"
proof (rule bget_spec [OF ok assms(3,4)], goal_cases)
  case (1 j)
  then show ?case .
next
  case hit: (2 i)
  note G = bio_ok_globals [OF ok]
  let ?s = "upd_buf i (\<lambda>b. b\<lparr>b_busy := True\<rparr>) s"
  have blk: "block ?s = block s" by (simp add: block_def blk_simps fun_eq_iff)
  have "bio_ok (if True then insert i H else H - {i}) ?s"
    using hit(3,4,5) bio_okD [OF ok] G blk
    by (intro bio_ok_replace [OF ok hit(2), where b = "(buf_at i s)\<lparr>b_busy := True\<rparr>"])
       (auto simp: blk_simps in_use_def key_def drive_ready_def hit(2))
  then show ?case
    using hit G bio_okD(6) [OF ok hit(2)] blk rest_upd_buf [of s i]
    by (auto simp: bread_def blk_simps key_def data_def intro!: exI [of _ i])
next
  case miss: (3 i)
  note G = bio_ok_globals [OF ok]
  let ?f = "\<lambda>b. b\<lparr>b_busy := True, b_valid := False, b_dirty := False, b_dev := dev, b_sector := sec\<rparr>"
  let ?s1 = "upd_buf i ?f s"
  let ?s2 = "wakeup (ChanBufp i) (upd_buf i (\<lambda>b. b\<lparr>b_data := block s dev sec, b_valid := True, b_dirty := False\<rparr>) ?s1)\<lparr>ide_queue := []\<rparr>"
  have i: "i < length (bufs s)" using miss(2) G(1) by simp
  have rw: "ide_rw i ?s1 = Inr ?s2"
    using G i ide_rw_read [of ?s1 i "bit dev 0" "sec AND 0x0fffffff"]
    by (simp add: blk_simps sector_of_eq block_def drive_ready_def)
  have blk: "block ?s2 = block s" by (simp add: block_def blk_simps fun_eq_iff)
  have at: "buf_at j ?s2 = (if j = i then (?f (buf_at i s))\<lparr>b_data := block s dev sec, b_valid := True\<rparr> else buf_at j s)" for j
    using i by (simp add: blk_simps)
  have "bio_ok (if True then insert i H else H - {i}) ?s2"
    using miss(2,4) loc blk G
    by (intro bio_ok_replace [OF ok miss(2) _ _ _ _ _ _ at]) (auto simp: blk_simps drive_ready_def)
  moreover have "rest s ?s2"
    using rest_trans [OF rest_trans [OF rest_upd_buf rest_upd_buf] rest_trans [OF rest_wakeup rest_fields(2)]] .
  moreover have "\<forall>j \<in> H. buf_at j ?s2 = buf_at j s" using miss(3) by (auto simp: at)
  moreover have "\<not> b_valid (buf_at i ?s1)" using i by (simp add: blk_simps)
  ultimately show ?case
    using miss(1,3) rw blk at [of i]
    by (intro exI [of _ i] exI [of _ ?s2]) (simp add: bread_def key_def data_def)
qed

lemma bwrite_law:
  assumes ok: "bio_ok H s" and iH: "i \<in> H" and "key i s = (dev, sec)"
  shows "\<exists>s'. bwrite i s = Inr s' \<and> bio_ok H s' \<and> (\<forall>j < NBUF. buf_at j s' = buf_at j s)
    \<and> (\<forall>d c. loc_ok d c \<longrightarrow> block s' d c = (if (d, c) = (dev, sec) then data i s else block s d c)) \<and> rest s s'"
proof -
  note G = bio_ok_globals [OF ok]
  have i: "i < NBUF" using iH G(7) by auto
  then have il: "i < length (bufs s)" using G(1) by simp
  note D = bio_okD [OF ok i]
  have k: "b_dev (buf_at i s) = dev" "b_sector (buf_at i s) = sec" using assms(3) by (simp_all add: key_def)
  have loc: "loc_ok dev sec" using D(3,4) iH k by (simp add: in_use_def)
  let ?s1 = "upd_buf i (\<lambda>b. b\<lparr>b_dirty := True\<rparr>) s"
  let ?d = "(disk s)(bit dev 0 := (disk s (bit dev 0))(sec AND 0x0fffffff := data i s))"
  let ?s2 = "wakeup (ChanBufp i) (upd_buf i (\<lambda>b. b\<lparr>b_valid := True, b_dirty := False\<rparr>) (?s1\<lparr>disk := ?d\<rparr>))\<lparr>ide_queue := []\<rparr>"
  have rw: "ide_rw i ?s1 = Inr ?s2"
    using G il D(1) iH ide_rw_write [of ?s1 i "bit dev 0" "sec AND 0x0fffffff"] k
    by (simp add: blk_simps sector_of_eq drive_ready_def data_def)
  have at: "buf_at j ?s2 = buf_at j s" for j
    using il D(2,3) iH by (cases "j = i") (simp_all add: blk_simps)
  have blk: "block ?s2 d c = (if (d, c) = (dev, sec) then data i s else block s d c)" if "loc_ok d c" for d c
    using block_upd [OF loc that, of s "data i s"] by (simp add: block_def blk_simps)
  have other: "key j s \<noteq> (dev, sec)" if "j < NBUF" "j \<noteq> i" "in_use (buf_at j s)" for j
    using D(5) [OF that(1)] D(3) iH that assms(3) by (auto simp: in_use_def)
  have "bio_ok (if True then insert i H else H - {i}) ?s2"
    using D iH loc k blk other bio_okD(4) [OF ok] G
    by (intro bio_ok_replace [OF ok i, where b = "buf_at i s"])
       (auto simp: at blk_simps drive_ready_def key_def simp del: fun_upd_apply)
  moreover have "rest s ?s2"
    using rest_trans [OF rest_trans [OF rest_upd_buf rest_fields(3)] rest_trans [OF rest_upd_buf rest_trans [OF rest_wakeup rest_fields(2)]]] .
  ultimately show ?thesis
    using rw D(1) iH at blk by (intro exI [of _ ?s2]) (simp add: bwrite_def insert_absorb)
qed

lemma brelse_law:
  assumes ok: "bio_ok H s" and iH: "i \<in> H" and "key i s = (dev, sec)" and dat: "data i s = block s dev sec"
  shows "\<exists>s'. brelse i s = Inr s' \<and> bio_ok (H - {i}) s' \<and> block s' = block s
    \<and> (\<forall>j \<in> H - {i}. buf_at j s' = buf_at j s) \<and> rest s s'"
proof -
  note G = bio_ok_globals [OF ok]
  have i: "i < NBUF" using iH G(7) by auto
  then have il: "i < length (bufs s)" using G(1) by simp
  note D = bio_okD [OF ok i]
  have k: "b_dev (buf_at i s) = dev" "b_sector (buf_at i s) = sec" using assms(3) by (simp_all add: key_def)
  let ?s1 = "upd_buf i (\<lambda>b. b\<lparr>b_busy := False\<rparr>) (s\<lparr>lru := i # remove1 i (lru s)\<rparr>)"
  let ?s2 = "wakeup ChanBuf ?s1"
  have at: "buf_at j ?s2 = (if j = i then (buf_at i s)\<lparr>b_busy := False\<rparr> else buf_at j s)" for j
    using il by (simp add: blk_simps)
  have blk: "block ?s2 = block s" by (simp add: block_def blk_simps fun_eq_iff)
  have lru: "distinct (i # remove1 i (lru s))" "set (i # remove1 i (lru s)) = {..<NBUF}"
    using G(2,3) i by auto
  have other: "key j s \<noteq> (dev, sec)" if "j < NBUF" "j \<noteq> i" "in_use (buf_at j s)" for j
    using D(5) [OF that(1)] D(3) iH that assms(3) by (auto simp: in_use_def)
  have "bio_ok (if False then insert i H else H - {i}) ?s2"
    using D iH k blk other G lru dat
    by (intro bio_ok_replace [OF ok i _ _ _ _ _ _ at]) (auto simp: blk_simps drive_ready_def data_def in_use_def)
  moreover have "rest s ?s2"
    using rest_trans [OF rest_fields(1) rest_trans [OF rest_upd_buf rest_wakeup]] .
  ultimately show ?thesis
    using D(1) iH at blk by (intro exI [of _ ?s2]) (simp add: brelse_def Let_def)
qed

lemma set_data_law:
  assumes ok: "bio_ok H s" and iH: "i \<in> H"
  shows "bio_ok H (set_data i d s) \<and> block (set_data i d s) = block s \<and> rest s (set_data i d s)
    \<and> key j (set_data i d s) = key j s \<and> data j (set_data i d s) = (if j = i then d else data j s)"
proof -
  note G = bio_ok_globals [OF ok]
  have i: "i < NBUF" using iH G(7) by auto
  then have il: "i < length (bufs s)" using G(1) by simp
  note D = bio_okD [OF ok i]
  have at: "buf_at j (set_data i d s) = (if j = i then (buf_at i s)\<lparr>b_data := d\<rparr> else buf_at j s)" for j
    using il by (simp add: set_data_def blk_simps)
  have blk: "block (set_data i d s) = block s" by (simp add: set_data_def block_def blk_simps fun_eq_iff)
  have "bio_ok (if True then insert i H else H - {i}) (set_data i d s)"
    using D iH G blk bio_okD(5) [OF ok]
    by (intro bio_ok_replace [OF ok i _ _ _ _ _ _ at])
       (auto simp: set_data_def blk_simps drive_ready_def in_use_def key_def)
  then show ?thesis using iH at [of j] blk rest_upd_buf
    by (auto simp: insert_absorb key_def data_def set_data_def)
qed

section \<open>The contract of the block layer\<close>

locale block_cache =
  fixes ok :: "nat set \<Rightarrow> 's \<Rightarrow> bool" and slots :: nat
    and block :: "'s \<Rightarrow> u32 \<Rightarrow> u32 \<Rightarrow> u8 list"
    and key :: "nat \<Rightarrow> 's \<Rightarrow> u32 \<times> u32" and data :: "nat \<Rightarrow> 's \<Rightarrow> u8 list" and frame :: "'s \<Rightarrow> 's \<Rightarrow> bool"
    and rd :: "u32 \<Rightarrow> u32 \<Rightarrow> 's \<Rightarrow> (nat \<times> 's) res" and wr :: "nat \<Rightarrow> 's \<Rightarrow> 's res"
    and rls :: "nat \<Rightarrow> 's \<Rightarrow> 's res" and modify :: "nat \<Rightarrow> u8 list \<Rightarrow> 's \<Rightarrow> 's"
  assumes read_law: "ok H s \<Longrightarrow> loc_ok dev sec \<Longrightarrow> \<exists>j < slots. j \<notin> H \<Longrightarrow> \<forall>j \<in> H. key j s \<noteq> (dev, sec) \<Longrightarrow>
      \<exists>i s'. rd dev sec s = Inr (i, s') \<and> i \<notin> H \<and> ok (insert i H) s' \<and> key i s' = (dev, sec)
        \<and> data i s' = block s dev sec \<and> block s' = block s
        \<and> (\<forall>j \<in> H. key j s' = key j s \<and> data j s' = data j s) \<and> frame s s'"
    and write_law: "ok H s \<Longrightarrow> i \<in> H \<Longrightarrow> key i s = (dev, sec) \<Longrightarrow>
      \<exists>s'. wr i s = Inr s' \<and> ok H s' \<and> (\<forall>j \<in> H. key j s' = key j s \<and> data j s' = data j s)
        \<and> (\<forall>d c. loc_ok d c \<longrightarrow> block s' d c = (if (d, c) = (dev, sec) then data i s else block s d c)) \<and> frame s s'"
    and release_law: "ok H s \<Longrightarrow> i \<in> H \<Longrightarrow> key i s = (dev, sec) \<Longrightarrow> data i s = block s dev sec \<Longrightarrow>
      \<exists>s'. rls i s = Inr s' \<and> ok (H - {i}) s' \<and> block s' = block s
        \<and> (\<forall>j \<in> H - {i}. key j s' = key j s \<and> data j s' = data j s) \<and> frame s s'"
    and modify_law: "ok H s \<Longrightarrow> i \<in> H \<Longrightarrow>
      ok H (modify i d s) \<and> block (modify i d s) = block s \<and> frame s (modify i d s)
        \<and> key j (modify i d s) = key j s \<and> data j (modify i d s) = (if j = i then d else data j s)"
    and frame_trans: "frame s s' \<Longrightarrow> frame s' s'' \<Longrightarrow> frame s s''"
begin

text \<open>The buffers in \<open>H\<close> keep their sector and contents.\<close>

definition keeps :: "nat set \<Rightarrow> 's \<Rightarrow> 's \<Rightarrow> bool" where
  "keeps H s s' \<longleftrightarrow> (\<forall>j \<in> H. key j s' = key j s \<and> data j s' = data j s)"

text \<open>Looking at a sector: read it, release it.\<close>

lemma look:
  assumes "ok H s" and "loc_ok dev sec" and "\<exists>j < slots. j \<notin> H" and "\<forall>j \<in> H. key j s \<noteq> (dev, sec)"
  obtains i s1 s2 where "rd dev sec s = Inr (i, s1)" and "data i s1 = block s dev sec" and "rls i s1 = Inr s2"
    and "ok H s2" and "block s2 = block s" and "keeps H s s2" and "frame s s2"
proof -
  obtain i s1 where r: "rd dev sec s = Inr (i, s1)" "i \<notin> H" "ok (insert i H) s1" "key i s1 = (dev, sec)"
    "data i s1 = block s dev sec" "block s1 = block s" "\<forall>j \<in> H. key j s1 = key j s \<and> data j s1 = data j s" "frame s s1"
    using read_law [OF assms] by blast
  have "data i s1 = block s1 dev sec" using r(5,6) by simp
  from release_law [OF r(3) _ r(4) this] obtain s2 where l: "rls i s1 = Inr s2" "ok (insert i H - {i}) s2"
    "block s2 = block s1" "\<forall>j \<in> insert i H - {i}. key j s2 = key j s1 \<and> data j s2 = data j s1" "frame s1 s2" by blast
  have "insert i H - {i} = H" using r(2) by simp
  then show thesis
    using r l frame_trans [OF r(8) l(5)] by (intro that [of i s1 s2]) (auto simp: keeps_def)
qed

text \<open>
  Changing a sector: read it, change the buffer, write it, release it. The intermediate states
  are given for the code that runs in between.
\<close>

lemma change:
  assumes "ok H s" and "loc_ok dev sec" and "\<exists>j < slots. j \<notin> H" and "\<forall>j \<in> H. key j s \<noteq> (dev, sec)"
  obtains i s1 where "rd dev sec s = Inr (i, s1)" and "data i s1 = block s dev sec"
    and "\<And>d. \<exists>s2 s3. wr i (modify i d s1) = Inr s2 \<and> rls i s2 = Inr s3 \<and> ok H s3
        \<and> (\<forall>d' c. loc_ok d' c \<longrightarrow> block s3 d' c = (if (d', c) = (dev, sec) then d else block s d' c))
        \<and> keeps H s s3 \<and> frame s s3"
    and "\<exists>s2. rls i s1 = Inr s2 \<and> ok H s2 \<and> block s2 = block s \<and> keeps H s s2 \<and> frame s s2"
proof -
  obtain i s1 where r: "rd dev sec s = Inr (i, s1)" "i \<notin> H" "ok (insert i H) s1" "key i s1 = (dev, sec)"
    "data i s1 = block s dev sec" "block s1 = block s" "\<forall>j \<in> H. key j s1 = key j s \<and> data j s1 = data j s" "frame s s1"
    using read_law [OF assms] by blast
  have iH: "i \<in> insert i H" "insert i H - {i} = H" using r(2) by auto
  have "\<exists>s2 s3. wr i (modify i d s1) = Inr s2 \<and> rls i s2 = Inr s3 \<and> ok H s3
        \<and> (\<forall>d' c. loc_ok d' c \<longrightarrow> block s3 d' c = (if (d', c) = (dev, sec) then d else block s d' c))
        \<and> keeps H s s3 \<and> frame s s3" for d
  proof -
    note m = modify_law [OF r(3) iH(1), of d]
    then have km: "key i (modify i d s1) = (dev, sec)" and okm: "ok (insert i H) (modify i d s1)" using r(4) by auto
    obtain s2 where w: "wr i (modify i d s1) = Inr s2" "ok (insert i H) s2"
      "\<forall>j \<in> insert i H. key j s2 = key j (modify i d s1) \<and> data j s2 = data j (modify i d s1)"
      "\<forall>d' c. loc_ok d' c \<longrightarrow> block s2 d' c = (if (d', c) = (dev, sec) then data i (modify i d s1) else block (modify i d s1) d' c)"
      "frame (modify i d s1) s2"
      using write_law [OF okm iH(1) km] by blast
    have k2: "key i s2 = (dev, sec)" and d2: "data i s2 = d" using w(3) m km by auto
    have "data i s2 = block s2 dev sec" using w(4) assms(2) m d2 by simp
    from release_law [OF w(2) iH(1) k2 this] obtain s3 where l: "rls i s2 = Inr s3" "ok H s3"
      "block s3 = block s2" "\<forall>j \<in> H. key j s3 = key j s2 \<and> data j s3 = data j s2" "frame s2 s3"
      unfolding iH(2) by blast
    have "keeps H s s3" using l(4) w(3) m r(2,7) by (auto simp: keeps_def)
    moreover have "frame s s3" using frame_trans [OF r(8)] frame_trans [OF _ frame_trans [OF w(5) l(5)]] m by blast
    ultimately show ?thesis using w(1,4) l(1-3) m r(6) by auto
  qed
  moreover have "\<exists>s2. rls i s1 = Inr s2 \<and> ok H s2 \<and> block s2 = block s \<and> keeps H s s2 \<and> frame s s2"
    using release_law [OF r(3) iH(1) r(4)] r(5,6,7) frame_trans [OF r(8)] iH(2) by (auto simp: keeps_def)
  ultimately show thesis using that r(1,5) by blast
qed

end

interpretation bc: block_cache bio_ok NBUF block key data rest bread bwrite brelse set_data
proof
  fix H s dev sec i and d :: "u8 list" and j and s' s'' :: "'a blk_scheme"
  show "\<exists>i s'. bread dev sec s = Inr (i, s') \<and> i \<notin> H \<and> bio_ok (insert i H) s' \<and> key i s' = (dev, sec)
        \<and> data i s' = block s dev sec \<and> block s' = block s
        \<and> (\<forall>j \<in> H. key j s' = key j s \<and> data j s' = data j s) \<and> rest s s'"
    if "bio_ok H (s :: 'a blk_scheme)" "loc_ok dev sec" "\<exists>j < NBUF. j \<notin> H" "\<forall>j \<in> H. key j s \<noteq> (dev, sec)"
    using bread_law [OF that(1-3)] that(4) by (fastforce simp: key_def data_def)
  show "\<exists>s'. bwrite i s = Inr s' \<and> bio_ok H s' \<and> (\<forall>j \<in> H. key j s' = key j s \<and> data j s' = data j s)
        \<and> (\<forall>d c. loc_ok d c \<longrightarrow> block s' d c = (if (d, c) = (dev, sec) then data i s else block s d c)) \<and> rest s s'"
    if "bio_ok H (s :: 'a blk_scheme)" "i \<in> H" "key i s = (dev, sec)"
    using bwrite_law [OF that] bio_ok_globals(7) [OF that(1)] by (fastforce simp: key_def data_def)
  show "\<exists>s'. brelse i s = Inr s' \<and> bio_ok (H - {i}) s' \<and> block s' = block s
        \<and> (\<forall>j \<in> H - {i}. key j s' = key j s \<and> data j s' = data j s) \<and> rest s s'"
    if "bio_ok H (s :: 'a blk_scheme)" "i \<in> H" "key i s = (dev, sec)" "data i s = block s dev sec"
    using brelse_law [OF that] by (fastforce simp: key_def data_def)
  show "bio_ok H (set_data i d s) \<and> block (set_data i d s) = block s \<and> rest s (set_data i d s)
        \<and> key j (set_data i d s) = key j s \<and> data j (set_data i d s) = (if j = i then d else data j s)"
    if "bio_ok H (s :: 'a blk_scheme)" "i \<in> H"
    using set_data_law [OF that] .
  show "rest s s' \<Longrightarrow> rest s' s'' \<Longrightarrow> rest s s''" for s by (rule rest_trans)
qed

lemma bread_held:
  assumes "bio_ok H s" and "i \<in> H" and "key i s = (dev, sec)"
  shows "bread dev sec s = Inl (Blocked ChanBuf)"
proof -
  note G = bio_ok_globals [OF assms(1)]
  let ?P = "\<lambda>i. let b = buf_at i s in in_use b \<and> b_dev b = dev \<and> b_sector b = sec"
  have i: "i < NBUF" using assms(2) G(7) by auto
  have use: "in_use (buf_at i s)" using bio_okD(3) [OF assms(1) i assms(2)] by (simp add: in_use_def)
  then have "\<exists>x \<in> set (lru s). ?P x" using i G(2) assms(3) by (auto simp: key_def Let_def)
  then obtain k where k: "List.find ?P (lru s) = Some k"
    by (cases "List.find ?P (lru s)") (auto simp: find_None)
  have "k < NBUF" "in_use (buf_at k s)" "key k s = (dev, sec)"
    using find_Some [OF k] G(2) by (auto simp: key_def Let_def)
  then have "k = i" using bio_okD(5) [OF assms(1) i, of k] use assms(3) by simp
  then show ?thesis using k bio_okD(1) [OF assms(1) i] assms(2) by (simp add: bread_def bget_def)
qed

lemma free_buffer: "\<exists>j < NBUF. j \<notin> {}"
  by (rule exI [of _ 0]) (simp add: NBUF_def)

section \<open>Properties\<close>

text \<open>
  \<^bold>\<open>C6.\<close> Through the cache the disk is an array of sectors. Reading a sector yields its
  contents; writing the buffer with new contents and releasing it changes that sector and no
  other, whichever sector is read next, and leaves the cache coherent and all buffers free.
\<close>

theorem bio_sector_array:
  assumes "bio_ok {} s" and "loc_ok dev sec" and "loc_ok d c"
  shows "\<exists>i s1 s2 s3 j s4. bread dev sec s = Inr (i, s1) \<and> data i s1 = block s dev sec
    \<and> bwrite i (set_data i x s1) = Inr s2 \<and> brelse i s2 = Inr s3 \<and> bio_ok {} s3
    \<and> bread d c s3 = Inr (j, s4) \<and> data j s4 = (if (d, c) = (dev, sec) then x else block s d c)"
proof -
  note free = free_buffer
  obtain i s1 where r: "bread dev sec s = Inr (i, s1)" "data i s1 = block s dev sec"
    and ch: "\<And>d. \<exists>s2 s3. bwrite i (set_data i d s1) = Inr s2 \<and> brelse i s2 = Inr s3 \<and> bio_ok {} s3
        \<and> (\<forall>d' c. loc_ok d' c \<longrightarrow> block s3 d' c = (if (d', c) = (dev, sec) then d else block s d' c))
        \<and> bc.keeps {} s s3 \<and> rest s s3"
    by (rule bc.change [OF assms(1,2) free]) auto
  obtain s2 s3 where w: "bwrite i (set_data i x s1) = Inr s2" "brelse i s2 = Inr s3" "bio_ok {} s3"
    "\<forall>d' c. loc_ok d' c \<longrightarrow> block s3 d' c = (if (d', c) = (dev, sec) then x else block s d' c)"
    using ch [of x] by blast
  obtain j s4 where "bread d c s3 = Inr (j, s4)" "data j s4 = block s3 d c"
    using bc.read_law [OF w(3) assms(3) free] by auto
  then show ?thesis using r w assms(3) by auto
qed

definition boot_blk :: blk where
  "boot_blk = \<lparr>procs = [], nextpid = 1, initproc = None,
     bufs = replicate NBUF \<lparr>b_busy = False, b_valid = False, b_dirty = False, b_dev = 0, b_sector = 0, b_data = []\<rparr>,
     lru = rev [0..<NBUF], ide_queue = [], disk_1_present = True, ide_status = 0x40,
     disk = (\<lambda>_ _. replicate 512 0)\<rparr>"

lemma boot_blk_ok: "bio_ok {} boot_blk"
  by (auto simp: bio_ok_def boot_blk_def buf_at_def in_use_def drive_ready_def
      IDE_BSY_def IDE_DRDY_def IDE_DF_def IDE_ERR_def)

theorem bio_sector_array_witness:
  "\<exists>i s1 s2 s3 j s4. bread 1 29 boot_blk = Inr (i, s1) \<and> bwrite i (set_data i (replicate 512 7) s1) = Inr s2
     \<and> brelse i s2 = Inr s3 \<and> bread 1 29 s3 = Inr (j, s4) \<and> data j s4 = replicate 512 7"
proof -
  have "loc_ok 1 29" by (simp add: loc_ok_def)
  from bio_sector_array [OF boot_blk_ok this this, of "replicate 512 7"] show ?thesis by fastforce
qed

text \<open>
  A sector has one buffer, and one user at a time: while a process holds the buffer of a
  sector, \<^verbatim>\<open>bread\<close> of that sector puts the caller to sleep instead of returning a second copy.
\<close>

lemma bread_exclusive:
  assumes "bio_ok H s" and "i \<in> H" and "key i s = (dev, sec)"
  shows "bread dev sec s = Inl (Blocked ChanBuf)
    \<and> (\<forall>j < NBUF. j \<noteq> i \<longrightarrow> in_use (buf_at j s) \<longrightarrow> key j s \<noteq> (dev, sec))"
proof -
  have i: "i < NBUF" using assms(2) bio_ok_globals(7) [OF assms(1)] by auto
  have "in_use (buf_at i s)" using bio_okD(3) [OF assms(1) i assms(2)] by (simp add: in_use_def)
  then show ?thesis
    using bread_held [OF assms] bio_okD(5) [OF assms(1) i] assms(3) by metis
qed

lemma bread_exclusive_witness:
  "\<exists>i s1. bread 1 29 boot_blk = Inr (i, s1) \<and> bread 1 29 s1 = Inl (Blocked ChanBuf)"
proof -
  have "loc_ok 1 29" by (simp add: loc_ok_def)
  then obtain i s1 where r: "bread 1 29 boot_blk = Inr (i, s1)" "bio_ok (insert i {}) s1" "key i s1 = (1, 29)"
    using bc.read_law [OF boot_blk_ok _ free_buffer, of 1 29] by auto
  show ?thesis using bread_exclusive [OF r(2) _ r(3)] r(1) by auto
qed

text \<open>
  A failed read is not noticed: when the drive reports an error for the request at the
  head of the queue, the interrupt handler marks the buffer valid all the same, with the bytes
  that happened to be in it.
\<close>

lemma ide_intr_ignores_error:
  assumes "ide_queue s = [i]" and "i < length (bufs s)" and "\<not> b_dirty (buf_at i s)"
    and "ide_status s AND IDE_BSY = 0" and "ide_status s AND IDE_DRDY \<noteq> 0"
    and "ide_status s AND (IDE_DF OR IDE_ERR) \<noteq> 0"
  shows "\<exists>s'. ide_intr s = Inr s' \<and> b_valid (buf_at i s') \<and> b_data (buf_at i s') = b_data (buf_at i s)"
proof -
  have "ide_wait_ready True s = Inr (-1)" using assms(4-6) by (simp add: ide_wait_ready_def Let_def)
  then show ?thesis using assms(1-3) by (simp add: ide_intr_def Let_def blk_simps)
qed

lemma ide_intr_ignores_error_witness:
  "\<exists>s'. ide_intr (boot_blk\<lparr>ide_queue := [3], ide_status := 0x41\<rparr>) = Inr s' \<and> b_valid (buf_at 3 s')"
  using ide_intr_ignores_error [of "boot_blk\<lparr>ide_queue := [3], ide_status := 0x41\<rparr>" 3]
  by (auto simp: boot_blk_def buf_at_def NBUF_def IDE_BSY_def IDE_DRDY_def IDE_DF_def IDE_ERR_def)

end
