(* ===== verification/Fs.thy ===== *)
theory Fs
  imports Bio
begin

text \<open>
  The file system of \<^verbatim>\<open>fs.c\<close>: block allocation, inodes and the inode cache, the mapping
  from file offsets to disk blocks, reading and writing, directories and path names. Disk
  structures are decoded from the 512 bytes of a sector. A \<^verbatim>\<open>struct inode *\<close> is the index of
  its entry in \<^verbatim>\<open>icache.inode\<close>; a name or path is the list of its bytes without the
  terminating NUL. A call that would have to wait for another process stops with
  \<open>Blocked\<close>.
\<close>

section \<open>On-disk format\<close>

definition BSIZE :: nat where "BSIZE = 512"
definition NDIRECT :: nat where "NDIRECT = 12"
definition INDIRECT :: nat where "INDIRECT = 12"
definition NADDRS :: nat where "NADDRS = NDIRECT + 1"
definition NINDIRECT :: nat where "NINDIRECT = 128"
definition MAXFILE :: nat where "MAXFILE = NDIRECT + NINDIRECT"
definition IPB :: nat where "IPB = 8"
definition BPB :: nat where "BPB = 4096"
definition DIRSIZ :: nat where "DIRSIZ = 14"
definition NINODE :: nat where "NINODE = 50"
definition NDEV :: nat where "NDEV = 10"
definition ROOTDEV :: u32 where "ROOTDEV = 1"

definition T_DIR :: u16 where "T_DIR = 1"
definition T_FILE :: u16 where "T_FILE = 2"
definition T_DEV :: u16 where "T_DEV = 3"

definition IBLOCK :: "u32 \<Rightarrow> u32" where
  "IBLOCK i = i div of_nat IPB + 2"

definition BBLOCK :: "u32 \<Rightarrow> u32 \<Rightarrow> u32" where
  "BBLOCK b ninodes = b div of_nat BPB + ninodes div of_nat IPB + 3"

text \<open>Little-endian fields of a sector.\<close>

definition get16 :: "nat \<Rightarrow> u8 list \<Rightarrow> u16" where
  "get16 pos d = ucast (d ! pos) OR push_bit 8 (ucast (d ! (pos + 1)))"

definition put16 :: "nat \<Rightarrow> u16 \<Rightarrow> u8 list \<Rightarrow> u8 list" where
  "put16 pos v d = d[pos := ucast v, pos + 1 := ucast (drop_bit 8 v)]"

definition get32 :: "nat \<Rightarrow> u8 list \<Rightarrow> u32" where
  "get32 pos d = le32 (d ! pos) (d ! (pos + 1)) (d ! (pos + 2)) (d ! (pos + 3))"

definition put32 :: "nat \<Rightarrow> u32 \<Rightarrow> u8 list \<Rightarrow> u8 list" where
  "put32 pos v d = d[pos := byte_of 0 v, pos + 1 := byte_of 1 v, pos + 2 := byte_of 2 v, pos + 3 := byte_of 3 v]"

record superblock =
  sb_size :: u32
  sb_nblocks :: u32
  sb_ninodes :: u32

record dinode =
  d_type :: u16
  d_major :: u16
  d_minor :: u16
  d_nlink :: u16
  d_size :: u32
  d_addrs :: "u32 list"

text \<open>The inode at byte \<open>pos\<close> of a sector; \<^verbatim>\<open>sizeof(struct dinode)\<close> is 64.\<close>

definition get_dinode :: "nat \<Rightarrow> u8 list \<Rightarrow> dinode" where
  "get_dinode pos d = \<lparr>d_type = get16 pos d, d_major = get16 (pos + 2) d, d_minor = get16 (pos + 4) d,
     d_nlink = get16 (pos + 6) d, d_size = get32 (pos + 8) d,
     d_addrs = map (\<lambda>k. get32 (pos + 12 + 4 * k) d) [0..<NADDRS]\<rparr>"

definition put_addrs :: "nat \<Rightarrow> u32 list \<Rightarrow> u8 list \<Rightarrow> u8 list" where
  "put_addrs pos as d = fold (\<lambda>k. put32 (pos + 4 * k) (as ! k)) [0..<length as] d"

definition put_dinode :: "nat \<Rightarrow> dinode \<Rightarrow> u8 list \<Rightarrow> u8 list" where
  "put_dinode pos di d =
     put_addrs (pos + 12) (d_addrs di)
       (put32 (pos + 8) (d_size di) (put16 (pos + 6) (d_nlink di)
         (put16 (pos + 4) (d_minor di) (put16 (pos + 2) (d_major di) (put16 pos (d_type di) d)))))"

section \<open>The inode cache\<close>

text \<open>
  The bits \<^verbatim>\<open>I_BUSY\<close> and \<^verbatim>\<open>I_VALID\<close> of \<^verbatim>\<open>flags\<close> are two booleans; the count \<^verbatim>\<open>ref\<close> does not wrap.
\<close>

record inode =
  i_dev :: u32
  i_inum :: u32
  i_ref :: int
  i_busy :: bool
  i_valid :: bool
  i_type :: u16
  i_major :: u16
  i_minor :: u16
  i_nlink :: u16
  i_size :: u32
  i_addrs :: "u32 list"

record fs = blk +
  inodes :: "inode list"

definition inode_at :: "nat \<Rightarrow> 'a fs_scheme \<Rightarrow> inode" where
  "inode_at i s = inodes s ! i"

definition upd_inode :: "nat \<Rightarrow> (inode \<Rightarrow> inode) \<Rightarrow> 'a fs_scheme \<Rightarrow> 'a fs_scheme" where
  "upd_inode i f s = s\<lparr>inodes := (inodes s)[i := f (inodes s ! i)]\<rparr>"

section \<open>Blocks\<close>

definition readsb :: "u32 \<Rightarrow> 'a fs_scheme \<Rightarrow> (superblock \<times> 'a fs_scheme) res" where
  "readsb dev s =
     rbind (bread dev 1 s) (\<lambda>(bp, s1).
     let d = data bp s1; sb = \<lparr>sb_size = get32 0 d, sb_nblocks = get32 4 d, sb_ninodes = get32 8 d\<rparr> in
     rbind (brelse bp s1) (\<lambda>s2. Inr (sb, s2)))"

definition bzero :: "u32 \<Rightarrow> u32 \<Rightarrow> 'a fs_scheme \<Rightarrow> 'a fs_scheme res" where
  "bzero dev bno s =
     rbind (bread dev bno s) (\<lambda>(bp, s1).
     rbind (bwrite bp (set_data bp (replicate BSIZE 0) s1)) (\<lambda>s2. brelse bp s2))"

definition bit_mask :: "nat \<Rightarrow> u8" where
  "bit_mask bi = push_bit (bi mod 8) 1"

definition block_free :: "u8 list \<Rightarrow> nat \<Rightarrow> bool" where
  "block_free d bi \<longleftrightarrow> d ! (bi div 8) AND bit_mask bi = 0"

text \<open>The outer loop of \<^verbatim>\<open>balloc\<close> over the bitmap blocks, whose first bits are listed in the argument.\<close>

primrec balloc_loop :: "u32 list \<Rightarrow> u32 \<Rightarrow> superblock \<Rightarrow> 'a fs_scheme \<Rightarrow> (u32 \<times> 'a fs_scheme) res" where
  "balloc_loop [] dev sb s = Inl (Panic ''balloc: out of blocks'')"
| "balloc_loop (b # bs) dev sb s =
     rbind (bread dev (BBLOCK b (sb_ninodes sb)) s) (\<lambda>(bp, s1).
     let d = data bp s1 in
     case first_idx (block_free d) [0..<BPB] of
       Some bi \<Rightarrow>
         rbind (bwrite bp (set_data bp (d[bi div 8 := d ! (bi div 8) OR bit_mask bi]) s1)) (\<lambda>s2.
         rbind (brelse bp s2) (\<lambda>s3. Inr (b + of_nat bi, s3)))
     | None \<Rightarrow> rbind (brelse bp s1) (balloc_loop bs dev sb))"

definition balloc :: "u32 \<Rightarrow> 'a fs_scheme \<Rightarrow> (u32 \<times> 'a fs_scheme) res" where
  "balloc dev s =
     rbind (readsb dev s) (\<lambda>(sb, s1).
     balloc_loop (map (\<lambda>k. of_nat (k * BPB)) [0..<(unat (sb_size sb) + BPB - 1) div BPB]) dev sb s1)"

definition bfree :: "u32 \<Rightarrow> u32 \<Rightarrow> 'a fs_scheme \<Rightarrow> 'a fs_scheme res" where
  "bfree dev b s =
     rbind (bzero dev b s) (\<lambda>s1.
     rbind (readsb dev s1) (\<lambda>(sb, s2).
     rbind (bread dev (BBLOCK b (sb_ninodes sb)) s2) (\<lambda>(bp, s3).
     let bi = unat b mod BPB; d = data bp s3 in
     if block_free d bi then Inl (Panic ''freeing free block'')
     else rbind (bwrite bp (set_data bp (d[bi div 8 := d ! (bi div 8) AND NOT (bit_mask bi)]) s3)) (\<lambda>s4.
          brelse bp s4))))"

section \<open>Inodes\<close>

definition iget :: "u32 \<Rightarrow> u32 \<Rightarrow> 'a fs_scheme \<Rightarrow> (nat \<times> 'a fs_scheme) res" where
  "iget dev inum s =
     (case first_idx (\<lambda>ip. i_ref ip > 0 \<and> i_dev ip = dev \<and> i_inum ip = inum) (inodes s) of
        Some i \<Rightarrow> Inr (i, upd_inode i (\<lambda>ip. ip\<lparr>i_ref := i_ref ip + 1\<rparr>) s)
      | None \<Rightarrow>
          (case first_idx (\<lambda>ip. i_ref ip = 0) (inodes s) of
             None \<Rightarrow> Inl (Panic ''iget: no inodes'')
           | Some i \<Rightarrow> Inr (i, upd_inode i (\<lambda>ip. ip\<lparr>i_dev := dev, i_inum := inum, i_ref := 1,
                                                   i_busy := False, i_valid := False\<rparr>) s)))"

definition idup :: "nat \<Rightarrow> 'a fs_scheme \<Rightarrow> 'a fs_scheme" where
  "idup i s = upd_inode i (\<lambda>ip. ip\<lparr>i_ref := i_ref ip + 1\<rparr>) s"

definition inode_off :: "u32 \<Rightarrow> nat" where
  "inode_off inum = 64 * (unat inum mod IPB)"

definition ilock :: "nat option \<Rightarrow> 'a fs_scheme \<Rightarrow> 'a fs_scheme res" where
  "ilock ipo s =
     (case ipo of None \<Rightarrow> Inl (Panic ''ilock'') | Some i \<Rightarrow>
      if i_ref (inode_at i s) < 1 then Inl (Panic ''ilock'')
      else if i_busy (inode_at i s) then Inl (Blocked (ChanInode i))
      else let s1 = upd_inode i (\<lambda>ip. ip\<lparr>i_busy := True\<rparr>) s; ip = inode_at i s1 in
        if i_valid ip then Inr s1
        else rbind (bread (i_dev ip) (IBLOCK (i_inum ip)) s1) (\<lambda>(bp, s2).
          let di = get_dinode (inode_off (i_inum ip)) (data bp s2);
              s3 = upd_inode i (\<lambda>ip. ip\<lparr>i_type := d_type di, i_major := d_major di, i_minor := d_minor di,
                     i_nlink := d_nlink di, i_size := d_size di, i_addrs := d_addrs di\<rparr>) s2
          in rbind (brelse bp s3) (\<lambda>s4.
             let s5 = upd_inode i (\<lambda>ip. ip\<lparr>i_valid := True\<rparr>) s4
             in if i_type (inode_at i s5) = 0 then Inl (Panic ''ilock: no type'') else Inr s5)))"

definition iunlock :: "nat option \<Rightarrow> 'a fs_scheme \<Rightarrow> 'a fs_scheme res" where
  "iunlock ipo s =
     (case ipo of None \<Rightarrow> Inl (Panic ''iunlock'') | Some i \<Rightarrow>
      if \<not> i_busy (inode_at i s) \<or> i_ref (inode_at i s) < 1 then Inl (Panic ''iunlock'')
      else Inr (wakeup (ChanInode i) (upd_inode i (\<lambda>ip. ip\<lparr>i_busy := False\<rparr>) s)))"

definition to_dinode :: "inode \<Rightarrow> dinode" where
  "to_dinode ip = \<lparr>d_type = i_type ip, d_major = i_major ip, d_minor = i_minor ip,
     d_nlink = i_nlink ip, d_size = i_size ip, d_addrs = i_addrs ip\<rparr>"

definition iupdate :: "nat \<Rightarrow> 'a fs_scheme \<Rightarrow> 'a fs_scheme res" where
  "iupdate i s =
     (let ip = inode_at i s in
      rbind (bread (i_dev ip) (IBLOCK (i_inum ip)) s) (\<lambda>(bp, s1).
      rbind (bwrite bp (set_data bp (put_dinode (inode_off (i_inum ip)) (to_dinode ip) (data bp s1)) s1)) (\<lambda>s2.
      brelse bp s2)))"

text \<open>\<^verbatim>\<open>itrunc\<close>: first the direct blocks, then the blocks listed in the indirect block.\<close>

primrec itrunc_direct :: "nat list \<Rightarrow> nat \<Rightarrow> 'a fs_scheme \<Rightarrow> 'a fs_scheme res" where
  "itrunc_direct [] i s = Inr s"
| "itrunc_direct (k # ks) i s =
     (if i_addrs (inode_at i s) ! k \<noteq> 0 then
        rbind (bfree (i_dev (inode_at i s)) (i_addrs (inode_at i s) ! k) s) (\<lambda>s1.
        itrunc_direct ks i (upd_inode i (\<lambda>ip. ip\<lparr>i_addrs := (i_addrs ip)[k := 0]\<rparr>) s1))
      else itrunc_direct ks i s)"

primrec itrunc_indirect :: "nat list \<Rightarrow> u32 \<Rightarrow> nat \<Rightarrow> 'a fs_scheme \<Rightarrow> 'a fs_scheme res" where
  "itrunc_indirect [] dev bp s = Inr s"
| "itrunc_indirect (j # js) dev bp s =
     (let a = get32 (4 * j) (data bp s) in
      if a \<noteq> 0 then rbind (bfree dev a s) (itrunc_indirect js dev bp) else itrunc_indirect js dev bp s)"

definition itrunc :: "nat \<Rightarrow> 'a fs_scheme \<Rightarrow> 'a fs_scheme res" where
  "itrunc i s =
     rbind (itrunc_direct [0..<NDIRECT] i s) (\<lambda>s1.
     let ip = inode_at i s1 in
     rbind (if i_addrs ip ! INDIRECT \<noteq> 0 then
              rbind (bread (i_dev ip) (i_addrs ip ! INDIRECT) s1) (\<lambda>(bp, s2).
              rbind (itrunc_indirect [0..<NINDIRECT] (i_dev ip) bp s2) (\<lambda>s3.
              rbind (brelse bp s3) (\<lambda>s4.
              Inr (upd_inode i (\<lambda>ip. ip\<lparr>i_addrs := (i_addrs ip)[INDIRECT := 0]\<rparr>) s4))))
            else Inr s1) (\<lambda>s5.
     iupdate i (upd_inode i (\<lambda>ip. ip\<lparr>i_size := 0\<rparr>) s5)))"

definition iput :: "nat \<Rightarrow> 'a fs_scheme \<Rightarrow> 'a fs_scheme res" where
  "iput i s =
     (let ip = inode_at i s in
      rbind (if i_ref ip = 1 \<and> i_valid ip \<and> i_nlink ip = 0 then
               (if i_busy ip then Inl (Panic ''iput busy'')
                else rbind (itrunc i (upd_inode i (\<lambda>ip. ip\<lparr>i_busy := True\<rparr>) s)) (\<lambda>s1.
                     rbind (iupdate i (upd_inode i (\<lambda>ip. ip\<lparr>i_type := 0\<rparr>) s1)) (\<lambda>s2.
                     Inr (wakeup (ChanInode i) (upd_inode i (\<lambda>ip. ip\<lparr>i_busy := False\<rparr>) s2)))))
             else Inr s) (\<lambda>s3.
      Inr (upd_inode i (\<lambda>ip. ip\<lparr>i_ref := i_ref ip - 1\<rparr>) s3)))"

definition iunlockput :: "nat \<Rightarrow> 'a fs_scheme \<Rightarrow> 'a fs_scheme res" where
  "iunlockput i s = rbind (iunlock (Some i) s) (iput i)"

primrec ialloc_loop :: "nat list \<Rightarrow> u32 \<Rightarrow> u16 \<Rightarrow> 'a fs_scheme \<Rightarrow> (nat \<times> 'a fs_scheme) res" where
  "ialloc_loop [] dev type s = Inl (Panic ''ialloc: no inodes'')"
| "ialloc_loop (n # ns) dev type s =
     (let inum = of_nat n in
      rbind (bread dev (IBLOCK inum) s) (\<lambda>(bp, s1).
      let d = data bp s1; pos = inode_off inum in
      if d_type (get_dinode pos d) = 0 then
        rbind (bwrite bp (set_data bp
          (put_dinode pos \<lparr>d_type = type, d_major = 0, d_minor = 0, d_nlink = 0, d_size = 0,
                          d_addrs = replicate NADDRS 0\<rparr> d) s1)) (\<lambda>s2.
        rbind (brelse bp s2) (iget dev inum))
      else rbind (brelse bp s1) (ialloc_loop ns dev type)))"

definition ialloc :: "u32 \<Rightarrow> u16 \<Rightarrow> 'a fs_scheme \<Rightarrow> (nat \<times> 'a fs_scheme) res" where
  "ialloc dev type s =
     rbind (readsb dev s) (\<lambda>(sb, s1). ialloc_loop [1..<unat (sb_ninodes sb)] dev type s1)"

end
