(* ===== verification/Fs_Block.thy ===== *)
theory Fs_Block
  imports Fs
begin

text \<open>
  Block-level correctness of the file system: the little-endian fields and inode slots of a
  sector, the superblock, and the free-block bitmap with \<^verbatim>\<open>balloc\<close> and \<^verbatim>\<open>bfree\<close>. Everything is
  stated over \<open>block\<close>, the array of sectors the block layer provides.
\<close>

section \<open>Fields of a sector\<close>

lemma put16_length [simp]: "length (put16 p v d) = length d"
  by (simp add: put16_def)

lemma put32_length [simp]: "length (put32 p v d) = length d"
  by (simp add: put32_def)

lemma get16_put16_same [simp]: "p + 1 < length d \<Longrightarrow> get16 p (put16 p v d) = v"
proof -
  assume len: "p + 1 < length d"
  have "ucast (ucast v :: u8) OR push_bit 8 (ucast (ucast (drop_bit 8 v) :: u8)) = v"
  proof (rule bit_word_eqI)
    fix n assume "n < LENGTH(16)"
    then consider "n < 8" | "8 \<le> n" "n - 8 < 8" "n < 16" by fastforce
    then show "bit (ucast (ucast v :: u8) OR push_bit 8 (ucast (ucast (drop_bit 8 v) :: u8)) :: u16) n \<longleftrightarrow> bit v n"
      by cases (simp_all add: bit_simps)
  qed
  then show ?thesis using len by (simp add: get16_def put16_def)
qed

lemma get32_put32_same [simp]: "p + 3 < length d \<Longrightarrow> get32 p (put32 p v d) = v"
  by (simp add: get32_def put32_def)

text \<open>Fields that do not overlap.\<close>

lemma put16_nth: "k \<noteq> p \<Longrightarrow> k \<noteq> Suc p \<Longrightarrow> put16 p v d ! k = d ! k"
  by (simp add: put16_def)

lemma put32_nth: "k < p \<or> p + 4 \<le> k \<Longrightarrow> put32 p v d ! k = d ! k"
  by (auto simp: put32_def)

lemma get_put_apart:
  "q + 2 \<le> p \<or> p + 2 \<le> q \<Longrightarrow> get16 q (put16 p v d) = get16 q d"
  "q + 4 \<le> p \<or> p + 2 \<le> q \<Longrightarrow> get32 q (put16 p v d) = get32 q d"
  "q + 2 \<le> p \<or> p + 4 \<le> q \<Longrightarrow> get16 q (put32 p w d) = get16 q d"
  "q + 4 \<le> p \<or> p + 4 \<le> q \<Longrightarrow> get32 q (put32 p w d) = get32 q d"
  by (auto simp: get16_def get32_def put16_nth put32_nth)

lemma put_addrs_length [simp]: "length (put_addrs p as d) = length d"
proof -
  have "length (fold (\<lambda>k. put32 (p + 4 * k) (as ! k)) ks d) = length d" for ks
    by (induction ks arbitrary: d) auto
  then show ?thesis by (simp add: put_addrs_def)
qed

lemma put_addrs_nth: "k < p \<or> p + 4 * length as \<le> k \<Longrightarrow> put_addrs p as d ! k = d ! k"
proof -
  assume k: "k < p \<or> p + 4 * length as \<le> k"
  have "fold (\<lambda>i. put32 (p + 4 * i) (as ! i)) ks d ! k = d ! k" if "\<forall>i \<in> set ks. i < length as" for ks
    using that
  proof (induction ks arbitrary: d)
    case (Cons i ks)
    then show ?case using k put32_nth [of k "p + 4 * i" "as ! i" d] by auto
  qed simp
  then show ?thesis by (simp add: put_addrs_def)
qed

lemma get32_put_addrs:
  assumes "p + 4 * length as \<le> length d" and "j < length as"
  shows "get32 (p + 4 * j) (put_addrs p as d) = as ! j"
proof -
  have "get32 (p + 4 * j) (fold (\<lambda>i. put32 (p + 4 * i) (as ! i)) ks d') =
      (if j \<in> set ks then as ! j else get32 (p + 4 * j) d')"
    if "length d' = length d" for ks d'
    using that
  proof (induction ks arbitrary: d')
    case (Cons i ks)
    show ?case
    proof (cases "i = j")
      case True
      then show ?thesis using Cons assms by simp
    next
      case False
      then have "get32 (p + 4 * j) (put32 (p + 4 * i) (as ! i) d') = get32 (p + 4 * j) d'"
        by (intro get_put_apart(4)) auto
      then show ?thesis using Cons False by simp
    qed
  qed simp
  then show ?thesis using assms(2) by (simp add: put_addrs_def)
qed

section \<open>Inode slots\<close>

lemma put_dinode_length [simp]: "length (put_dinode p di d) = length d"
  by (simp add: put_dinode_def)

lemma get_put_addrs_apart:
  "q + 2 \<le> p \<Longrightarrow> get16 q (put_addrs p as d) = get16 q d"
  "q + 4 \<le> p \<Longrightarrow> get32 q (put_addrs p as d) = get32 q d"
  by (simp_all add: get16_def get32_def put_addrs_nth)

text \<open>What is written to a slot is what is read back from it.\<close>

lemma get_put_dinode:
  assumes "p + 64 \<le> length d" and "length (d_addrs di) = NADDRS"
  shows "get_dinode p (put_dinode p di d) = di"
proof -
  have as: "map (\<lambda>k. get32 (p + 12 + 4 * k) (put_dinode p di d)) [0..<NADDRS] = d_addrs di"
    using assms by (intro nth_equalityI) (auto simp: put_dinode_def get32_put_addrs NADDRS_def NDIRECT_def)
  have "get16 p (put_dinode p di d) = d_type di" "get16 (p + 2) (put_dinode p di d) = d_major di"
    "get16 (p + 4) (put_dinode p di d) = d_minor di" "get16 (p + 6) (put_dinode p di d) = d_nlink di"
    "get32 (p + 8) (put_dinode p di d) = d_size di"
    using assms(1) by (simp_all add: put_dinode_def get_put_addrs_apart get_put_apart)
  then show ?thesis using as by (simp add: get_dinode_def)
qed

lemma put_dinode_nth:
  assumes "k < p \<or> p + 64 \<le> k" and "length (d_addrs di) = NADDRS" shows "put_dinode p di d ! k = d ! k"
  using assms by (auto simp: put_dinode_def put_addrs_nth put32_nth put16_nth NADDRS_def NDIRECT_def)

text \<open>Writing one slot leaves the other slots of the sector alone.\<close>

lemma get_put_dinode_other:
  assumes "q + 64 \<le> p \<or> p + 64 \<le> q" and "length (d_addrs di) = NADDRS"
  shows "get_dinode q (put_dinode p di d) = get_dinode q d"
proof -
  have n: "put_dinode p di d ! k = d ! k" if "q \<le> k" "k < q + 64" for k
    using assms that by (intro put_dinode_nth) auto
  have "get32 (q + 12 + 4 * k) (put_dinode p di d) = get32 (q + 12 + 4 * k) d" if "k < NADDRS" for k
    using that n by (simp add: get32_def NADDRS_def NDIRECT_def)
  then show ?thesis using n by (simp add: get_dinode_def get16_def get32_def)
qed

section \<open>Routines that look at or change one sector\<close>

definition room :: "nat set \<Rightarrow> bool" where
  "room H \<longleftrightarrow> (\<exists>j < NBUF. j \<notin> H)"

definition unheld :: "nat set \<Rightarrow> 'a blk_scheme \<Rightarrow> u32 \<Rightarrow> u32 \<Rightarrow> bool" where
  "unheld H s dev sec \<longleftrightarrow> (\<forall>j \<in> H. key j s \<noteq> (dev, sec))"

text \<open>The buffer cache stays coherent, the held buffers and the rest of the kernel stay as they are.\<close>

definition stable :: "nat set \<Rightarrow> 'a blk_scheme \<Rightarrow> 'a blk_scheme \<Rightarrow> bool" where
  "stable H s s' \<longleftrightarrow> bio_ok H s' \<and> bc.keeps H s s' \<and> rest s s'"

lemma stableD: "stable H s s' \<Longrightarrow> bio_ok H s'" "stable H s s' \<Longrightarrow> rest s s'"
  by (auto simp: stable_def)

lemma stable_refl: "bio_ok H s \<Longrightarrow> stable H s s"
  by (simp add: stable_def bc.keeps_def)

lemma stable_trans [trans]: "stable H s s' \<Longrightarrow> stable H s' s'' \<Longrightarrow> stable H s s''"
  by (auto simp: stable_def bc.keeps_def intro: rest_trans)

lemma unheld_stable: "stable H s s' \<Longrightarrow> unheld H s' dev sec \<longleftrightarrow> unheld H s dev sec"
  by (auto simp: stable_def bc.keeps_def unheld_def)

text \<open>The disk \<open>block s\<close> with one sector replaced, for the sectors the driver can address.\<close>

definition disk_upd :: "'a blk_scheme \<Rightarrow> u32 \<Rightarrow> u32 \<Rightarrow> u8 list \<Rightarrow> 'a blk_scheme \<Rightarrow> bool" where
  "disk_upd s dev sec x s' \<longleftrightarrow>
     (\<forall>d c. loc_ok d c \<longrightarrow> block s' d c = (if (d, c) = (dev, sec) then x else block s d c))"

lemma blk_look:
  assumes "bio_ok H s" and "loc_ok dev sec" and "room H" and "unheld H s dev sec"
  obtains i s1 s2 where "bread dev sec s = Inr (i, s1)" and "data i s1 = block s dev sec" and "brelse i s1 = Inr s2"
    and "stable H s s2" and "block s2 = block s"
proof (rule bc.look [OF assms(1,2)], goal_cases)
  case 1
  then show ?case using assms(3) by (simp add: room_def)
next
  case 2
  then show ?case using assms(4) by (simp add: unheld_def)
next
  case (3 i s1 s2)
  then show ?case by (intro that [of i s1 s2]) (auto simp: stable_def)
qed

lemma blk_change:
  assumes "bio_ok H s" and "loc_ok dev sec" and "room H" and "unheld H s dev sec"
  obtains i s1 where "bread dev sec s = Inr (i, s1)" and "data i s1 = block s dev sec"
    and "\<And>d. \<exists>s2 s3. bwrite i (set_data i d s1) = Inr s2 \<and> brelse i s2 = Inr s3 \<and> stable H s s3 \<and> disk_upd s dev sec d s3"
    and "\<exists>s2. brelse i s1 = Inr s2 \<and> stable H s s2 \<and> block s2 = block s"
proof (rule bc.change [OF assms(1,2)], goal_cases)
  case 1
  then show ?case using assms(3) by (simp add: room_def)
next
  case 2
  then show ?case using assms(4) by (simp add: unheld_def)
next
  case (3 i s1)
  show ?case
  proof (rule 3(1) [OF 3(2,3)])
    show "\<exists>s2 s3. bwrite i (set_data i d s1) = Inr s2 \<and> brelse i s2 = Inr s3 \<and> stable H s s3 \<and> disk_upd s dev sec d s3" for d
      using 3(4) [of d] unfolding stable_def disk_upd_def by blast
    show "\<exists>s2. brelse i s1 = Inr s2 \<and> stable H s s2 \<and> block s2 = block s"
      using 3(5) unfolding stable_def by blast
  qed
qed

definition the_sb :: "u8 list \<Rightarrow> superblock" where
  "the_sb d = \<lparr>sb_size = get32 0 d, sb_nblocks = get32 4 d, sb_ninodes = get32 8 d\<rparr>"

lemma readsb_ok:
  assumes "bio_ok H s" and "loc_ok dev 1" and "room H" and "unheld H s dev 1"
  shows "\<exists>s'. readsb dev s = Inr (the_sb (block s dev 1), s') \<and> stable H s s' \<and> block s' = block s"
proof -
  obtain i s1 s2 where "bread dev 1 s = Inr (i, s1)" "data i s1 = block s dev 1" "brelse i s1 = Inr s2"
    "stable H s s2" "block s2 = block s"
    using blk_look [OF assms] .
  then show ?thesis by (simp add: readsb_def Let_def the_sb_def)
qed

lemma bzero_ok:
  assumes "bio_ok H s" and "loc_ok dev b" and "room H" and "unheld H s dev b"
  shows "\<exists>s'. bzero dev b s = Inr s' \<and> stable H s s' \<and> disk_upd s dev b (replicate BSIZE 0) s'"
proof -
  obtain i s1 where r: "bread dev b s = Inr (i, s1)"
    and w: "\<And>d. \<exists>s2 s3. bwrite i (set_data i d s1) = Inr s2 \<and> brelse i s2 = Inr s3 \<and> stable H s s3 \<and> disk_upd s dev b d s3"
    using blk_change [OF assms] by metis
  show ?thesis using r w [of "replicate BSIZE 0"] by (auto simp: bzero_def)
qed

section \<open>The free-block bitmap\<close>

lemma and_bit_mask: "x AND bit_mask bi = (if bit x (bi mod 8) then bit_mask bi else 0)"
  by (rule bit_word_eqI) (auto simp: bit_mask_def bit_simps bit_1_iff)

lemma bit_mask_bit: "bit (bit_mask bi) k \<longleftrightarrow> k = bi mod 8"
  by (auto simp: bit_mask_def bit_simps bit_1_iff)

lemma block_free_bit: "block_free d bi \<longleftrightarrow> \<not> bit (d ! (bi div 8)) (bi mod 8)"
proof -
  have "bit_mask bi \<noteq> 0" using bit_mask_bit [of bi "bi mod 8"] by auto
  then show ?thesis by (simp add: block_free_def and_bit_mask)
qed

definition set_bit_used :: "nat \<Rightarrow> u8 list \<Rightarrow> u8 list" where
  "set_bit_used bi d = d[bi div 8 := d ! (bi div 8) OR bit_mask bi]"

definition set_bit_free :: "nat \<Rightarrow> u8 list \<Rightarrow> u8 list" where
  "set_bit_free bi d = d[bi div 8 := d ! (bi div 8) AND NOT (bit_mask bi)]"

lemma div_mod_8: "(a :: nat) div 8 = b div 8 \<Longrightarrow> a mod 8 = b mod 8 \<Longrightarrow> a = b"
  by (metis div_mult_mod_eq)

lemma block_free_used:
  assumes "bi div 8 < length d"
  shows "block_free (set_bit_used bi d) bj \<longleftrightarrow> block_free d bj \<and> bj \<noteq> bi"
  using assms div_mod_8 [of bi bj]
  by (cases "bj div 8 = bi div 8") (auto simp: block_free_bit set_bit_used_def bit_or_iff bit_mask_bit)

lemma bit_cleared: "bit (x AND NOT (bit_mask bi)) k \<longleftrightarrow> bit x k \<and> k \<noteq> bi mod 8"
proof (cases "k < 8")
  case True
  then show ?thesis by (simp only: bit_and_iff bit_not_iff bit_mask_bit possible_bit_word) simp
next
  case False
  then show ?thesis using bit_u8_beyond [of k] by auto
qed

lemma block_free_freed:
  assumes "bi div 8 < length d"
  shows "block_free (set_bit_free bi d) bj \<longleftrightarrow> block_free d bj \<or> bj = bi"
proof (cases "bj div 8 = bi div 8")
  case True
  have "bj = bi \<longleftrightarrow> bj mod 8 = bi mod 8" using div_mod_8 True by blast
  then show ?thesis
    using assms True bit_cleared [of "d ! (bi div 8)" bi "bj mod 8"] by (simp only: block_free_bit set_bit_free_def nth_list_update_eq) blast
next
  case False
  then have "set_bit_free bi d ! (bj div 8) = d ! (bj div 8)" "bj \<noteq> bi" by (auto simp: set_bit_free_def)
  then show ?thesis by (simp only: block_free_bit) blast
qed

lemma bits_length [simp]: "length (set_bit_used bi d) = length d" "length (set_bit_free bi d) = length d"
  by (simp_all add: set_bit_used_def set_bit_free_def)

text \<open>
  A device with a file system whose superblock is sane: all block numbers it implies stay below
  the limit of the driver.
\<close>

definition layout :: "'a blk_scheme \<Rightarrow> u32 \<Rightarrow> bool" where
  "layout s dev \<longleftrightarrow> unat dev \<le> 1
     \<and> unat (sb_size (the_sb (block s dev 1))) \<le> 134217728
     \<and> unat (sb_ninodes (the_sb (block s dev 1))) \<le> 134217728
     \<and> (\<forall>c. loc_ok dev c \<longrightarrow> length (block s dev c) = BSIZE)"

definition nbits :: "'a blk_scheme \<Rightarrow> u32 \<Rightarrow> nat" where
  "nbits s dev = (unat (sb_size (the_sb (block s dev 1))) + BPB - 1) div BPB * BPB"

definition bitmap_of :: "'a blk_scheme \<Rightarrow> u32 \<Rightarrow> nat \<Rightarrow> u32" where
  "bitmap_of s dev b = BBLOCK (of_nat b) (sb_ninodes (the_sb (block s dev 1)))"

definition is_free :: "'a blk_scheme \<Rightarrow> u32 \<Rightarrow> nat \<Rightarrow> bool" where
  "is_free s dev b \<longleftrightarrow> block_free (block s dev (bitmap_of s dev b)) (b mod BPB)"

lemma nbits_bound: "layout s dev \<Longrightarrow> nbits s dev \<le> 134217728 + 4096"
  by (simp add: layout_def nbits_def BPB_def) linarith

lemma unat_BBLOCK:
  assumes "unat b \<le> 134221824" and "unat nin \<le> 134217728"
  shows "unat (BBLOCK b nin) = unat b div BPB + unat nin div IPB + 3"
proof -
  have d: "unat (b div of_nat BPB) = unat b div 4096" "unat (nin div of_nat IPB) = unat nin div 8"
    by (simp_all add: unat_div BPB_def IPB_def)
  have "unat b div 4096 \<le> 32769" "unat nin div 8 \<le> 16777216" using assms by linarith+
  then show ?thesis using d by (simp add: BBLOCK_def unat_add_u32 BPB_def IPB_def)
qed

lemma bitmap_of_eq:
  assumes "layout s dev" and "b < nbits s dev"
  shows "unat (bitmap_of s dev b) = b div BPB + unat (sb_ninodes (the_sb (block s dev 1))) div IPB + 3"
    and "loc_ok dev (bitmap_of s dev b)" and "bitmap_of s dev b \<noteq> 1"
proof -
  have b: "b \<le> 134221824" using nbits_bound [OF assms(1)] assms(2) by simp
  then have u: "unat (of_nat b :: u32) = b" by simp
  let ?n = "unat (sb_ninodes (the_sb (block s dev 1)))"
  have n: "?n \<le> 134217728" "unat dev \<le> 1" using assms(1) by (auto simp: layout_def)
  show eq: "unat (bitmap_of s dev b) = b div BPB + ?n div IPB + 3"
    using unat_BBLOCK [of "of_nat b" "sb_ninodes (the_sb (block s dev 1))"] u b n by (simp add: bitmap_of_def)
  have "b div BPB \<le> 32769" "?n div IPB \<le> 16777216" using b n by (auto simp: BPB_def IPB_def)
  then show "loc_ok dev (bitmap_of s dev b)" using eq n by (simp add: loc_ok_def)
  show "bitmap_of s dev b \<noteq> 1" using eq by auto
qed

lemma same_bitmap:
  assumes "layout s dev" and "b < nbits s dev" and "c < nbits s dev"
  shows "bitmap_of s dev b = bitmap_of s dev c \<longleftrightarrow> b div BPB = c div BPB"
  using bitmap_of_eq(1) [OF assms(1,2)] bitmap_of_eq(1) [OF assms(1,3)] by (auto simp: word_unat_eq_iff)

text \<open>Effect on the bitmap of replacing the bitmap block of \<open>b\<close>.\<close>

lemma is_free_upd:
  assumes "layout s dev" and "b < nbits s dev" and "c < nbits s dev"
    and "disk_upd s dev (bitmap_of s dev b) d s'"
  shows "is_free s' dev c \<longleftrightarrow>
    (if c div BPB = b div BPB then block_free d (c mod BPB) else is_free s dev c)"
proof -
  have "block s' dev 1 = block s dev 1"
    using assms(1,4) bitmap_of_eq(3) [OF assms(1,2)] by (auto simp: disk_upd_def layout_def loc_ok_def)
  then have bm: "bitmap_of s' dev c = bitmap_of s dev c" by (simp add: bitmap_of_def)
  have "block s' dev (bitmap_of s dev c) = (if c div BPB = b div BPB then d else block s dev (bitmap_of s dev c))"
    using assms(4) bitmap_of_eq(2) [OF assms(1,3)] same_bitmap [OF assms(1,3,2)] by (auto simp: disk_upd_def)
  then show ?thesis by (simp add: is_free_def bm)
qed

text \<open>The metadata a bitmap change keeps.\<close>

lemma layout_upd:
  assumes "layout s dev" and "disk_upd s dev c d s'" and "length d = BSIZE" and "c \<noteq> 1"
  shows "layout s' dev" and "block s' dev 1 = block s dev 1" and "nbits s' dev = nbits s dev"
proof -
  show b1: "block s' dev 1 = block s dev 1" using assms(1,2,4) by (auto simp: disk_upd_def layout_def loc_ok_def)
  have "length (block s' dev k) = BSIZE" if "loc_ok dev k" for k
    using assms(1,2,3) that by (auto simp: disk_upd_def layout_def)
  then show "layout s' dev" using assms(1) b1 by (simp add: layout_def)
  show "nbits s' dev = nbits s dev" using b1 by (simp add: nbits_def)
qed

subsection \<open>balloc\<close>

lemma balloc_loop_full:
  assumes "bio_ok H s" and "room H" and "\<forall>b \<in> set bs. loc_ok dev (BBLOCK b (sb_ninodes sb)) \<and> unheld H s dev (BBLOCK b (sb_ninodes sb))"
    and "\<forall>b \<in> set bs. first_idx (block_free (block s dev (BBLOCK b (sb_ninodes sb)))) [0..<BPB] = None"
  shows "balloc_loop bs dev sb s = Inl (Panic ''balloc: out of blocks'')"
  using assms
proof (induction bs arbitrary: s)
  case (Cons b bs)
  have loc: "loc_ok dev (BBLOCK b (sb_ninodes sb))" "unheld H s dev (BBLOCK b (sb_ninodes sb))" using Cons.prems(3) by auto
  obtain i s1 s2 where r: "bread dev (BBLOCK b (sb_ninodes sb)) s = Inr (i, s1)"
    "data i s1 = block s dev (BBLOCK b (sb_ninodes sb))" "brelse i s1 = Inr s2" "stable H s s2" "block s2 = block s"
    using blk_look [OF Cons.prems(1) loc(1) Cons.prems(2) loc(2)] .
  have "balloc_loop bs dev sb s2 = Inl (Panic ''balloc: out of blocks'')"
    using Cons.prems r(4,5) by (intro Cons.IH) (auto simp: unheld_stable [OF r(4)] dest: stableD)
  then show ?case using r Cons.prems(4) by (simp add: Let_def)
qed simp

lemma balloc_loop_found:
  assumes "bio_ok H s" and "room H" and "\<forall>b \<in> set bs. loc_ok dev (BBLOCK b (sb_ninodes sb)) \<and> unheld H s dev (BBLOCK b (sb_ninodes sb))"
    and "bs = pre @ b # post"
    and "\<forall>c \<in> set pre. first_idx (block_free (block s dev (BBLOCK c (sb_ninodes sb)))) [0..<BPB] = None"
    and "first_idx (block_free (block s dev (BBLOCK b (sb_ninodes sb)))) [0..<BPB] = Some bi"
  shows "\<exists>s'. balloc_loop bs dev sb s = Inr (b + of_nat bi, s') \<and> stable H s s'
    \<and> disk_upd s dev (BBLOCK b (sb_ninodes sb)) (set_bit_used bi (block s dev (BBLOCK b (sb_ninodes sb)))) s'"
  using assms
proof (induction pre arbitrary: s bs)
  case Nil
  have loc: "loc_ok dev (BBLOCK b (sb_ninodes sb))" "unheld H s dev (BBLOCK b (sb_ninodes sb))" using Nil.prems(3,4) by auto
  obtain i s1 where r: "bread dev (BBLOCK b (sb_ninodes sb)) s = Inr (i, s1)" "data i s1 = block s dev (BBLOCK b (sb_ninodes sb))"
    and w: "\<And>d. \<exists>s2 s3. bwrite i (set_data i d s1) = Inr s2 \<and> brelse i s2 = Inr s3 \<and> stable H s s3
      \<and> disk_upd s dev (BBLOCK b (sb_ninodes sb)) d s3"
    using blk_change [OF Nil.prems(1) loc(1) Nil.prems(2) loc(2)] by metis
  show ?case
    using r w [of "set_bit_used bi (data i s1)"] Nil.prems(4,6) by (auto simp: Let_def set_bit_used_def)
next
  case (Cons c pre)
  have loc: "loc_ok dev (BBLOCK c (sb_ninodes sb))" "unheld H s dev (BBLOCK c (sb_ninodes sb))" using Cons.prems(3,4) by auto
  obtain i s1 s2 where r: "bread dev (BBLOCK c (sb_ninodes sb)) s = Inr (i, s1)"
    "data i s1 = block s dev (BBLOCK c (sb_ninodes sb))" "brelse i s1 = Inr s2" "stable H s s2" "block s2 = block s"
    using blk_look [OF Cons.prems(1) loc(1) Cons.prems(2) loc(2)] .
  have "\<exists>s'. balloc_loop (pre @ b # post) dev sb s2 = Inr (b + of_nat bi, s') \<and> stable H s2 s'
    \<and> disk_upd s2 dev (BBLOCK b (sb_ninodes sb)) (set_bit_used bi (block s2 dev (BBLOCK b (sb_ninodes sb)))) s'"
    using Cons.prems r(4,5) by (intro Cons.IH) (auto simp: unheld_stable [OF r(4)] dest: stableD)
  then show ?case
    using r Cons.prems(4,5) by (auto simp: Let_def disk_upd_def intro: stable_trans)
qed

lemma first_idx_upt:
  "first_idx P [0..<n] = (if \<exists>k < n. P k then Some (LEAST k. P k) else None)"
proof (cases "\<exists>k < n. P k")
  case True
  then have "P (LEAST k. P k)" "(LEAST k. P k) < n" by (auto intro: LeastI Least_le le_less_trans)
  then show ?thesis using True by (auto simp: first_idx_Some dest: not_less_Least)
next
  case False
  then show ?thesis by (auto simp: first_idx_None)
qed

text \<open>The first bits of the bitmap blocks.\<close>

definition bitmap_starts :: "nat \<Rightarrow> u32 list" where
  "bitmap_starts n = map (\<lambda>k. of_nat (k * BPB)) [0..<n]"

text \<open>A block number, from the bitmap block and the bit in it.\<close>

lemma bit_number:
  assumes "layout s dev" and "k * BPB < nbits s dev" and "bi < BPB"
  shows "k * BPB + bi < nbits s dev" and "bitmap_of s dev (k * BPB + bi) = BBLOCK (of_nat (k * BPB)) (sb_ninodes (the_sb (block s dev 1)))"
    and "(k * BPB + bi) mod BPB = bi"
proof -
  obtain n where n: "nbits s dev = n * BPB" unfolding nbits_def by blast
  then have "k < n" using assms(2) by simp
  then have "(k + 1) * BPB \<le> n * BPB" by (intro mult_le_mono1) simp
  then show lt: "k * BPB + bi < nbits s dev" using n assms(3) by simp
  show "bitmap_of s dev (k * BPB + bi) = BBLOCK (of_nat (k * BPB)) (sb_ninodes (the_sb (block s dev 1)))"
    using same_bitmap [OF assms(1) lt assms(2)] assms(3) by (simp add: bitmap_of_def BPB_def)
  show "(k * BPB + bi) mod BPB = bi" using assms(3) by simp
qed

lemma bitmap_starts_ok:
  assumes "layout s dev" and "\<And>b. b < nbits s dev \<Longrightarrow> unheld H s dev (bitmap_of s dev b)"
    and "c \<in> set (bitmap_starts ((unat (sb_size (the_sb (block s dev 1))) + BPB - 1) div BPB))"
  shows "loc_ok dev (BBLOCK c (sb_ninodes (the_sb (block s dev 1))))
    \<and> unheld H s dev (BBLOCK c (sb_ninodes (the_sb (block s dev 1))))"
proof -
  obtain j where j: "j < (unat (sb_size (the_sb (block s dev 1))) + BPB - 1) div BPB" "c = of_nat (j * BPB)"
    using assms(3) by (auto simp: bitmap_starts_def simp del: of_nat_mult)
  then have lt: "j * BPB < nbits s dev" by (simp add: nbits_def BPB_def)
  show ?thesis
    using bitmap_of_eq(2) [OF assms(1) lt] assms(2) [OF lt] j(2) by (simp add: bitmap_of_def)
qed

lemma balloc_ok:
  assumes "bio_ok H s" and "room H" and "layout s dev" and "unheld H s dev 1"
    and "\<And>b. b < nbits s dev \<Longrightarrow> unheld H s dev (bitmap_of s dev b)"
    and "b < nbits s dev" and "is_free s dev b" and "\<And>c. c < b \<Longrightarrow> \<not> is_free s dev c"
  shows "\<exists>s'. balloc dev s = Inr (of_nat b, s') \<and> stable H s s'
    \<and> disk_upd s dev (bitmap_of s dev b) (set_bit_used (b mod BPB) (block s dev (bitmap_of s dev b))) s'"
proof -
  let ?sb = "the_sb (block s dev 1)" and ?B = "\<lambda>c. BBLOCK c (sb_ninodes (the_sb (block s dev 1)))"
  let ?n = "(unat (sb_size ?sb) + BPB - 1) div BPB"
  have nb: "nbits s dev = ?n * BPB" by (simp add: nbits_def)
  have loc1: "loc_ok dev 1" using assms(3) by (simp add: layout_def loc_ok_def)
  obtain s1 where s1: "readsb dev s = Inr (?sb, s1)" "stable H s s1" "block s1 = block s"
    using readsb_ok [OF assms(1) loc1 assms(2,4)] by blast
  define k where "k = b div BPB"
  have k: "k < ?n" "k * BPB \<le> b" "b = k * BPB + b mod BPB" "b mod BPB < BPB"
    using assms(6) nb by (auto simp: k_def BPB_def less_mult_imp_div_less)
  have start: "j * BPB < nbits s dev" if "j < ?n" for j using that nb by (simp add: BPB_def)
  have bits: "bitmap_of s dev (j * BPB + bi) = ?B (of_nat (j * BPB))" "(j * BPB + bi) mod BPB = bi"
    "is_free s dev (j * BPB + bi) \<longleftrightarrow> block_free (block s dev (?B (of_nat (j * BPB)))) bi"
    if "j < ?n" "bi < BPB" for j bi
    using bit_number [OF assms(3) start [OF that(1)] that(2)] by (auto simp: is_free_def)
  have split: "bitmap_starts ?n = bitmap_starts k @ of_nat (k * BPB) # map (\<lambda>k. of_nat (k * BPB)) [Suc k..<?n]"
    using k(1) upt_add_eq_append [of 0 k "?n - k"] by (simp add: bitmap_starts_def upt_conv_Cons)
  have full: "first_idx (block_free (block s1 dev (?B c))) [0..<BPB] = None" if c: "c \<in> set (bitmap_starts k)" for c
  proof -
    obtain j where j: "j < k" "c = of_nat (j * BPB)" using c by (auto simp: bitmap_starts_def)
    have "j * BPB + bi < b" if "bi < BPB" for bi using that j(1) k(2) mult_le_mono1 [of "Suc j" k BPB] by simp
    then have "\<not> block_free (block s dev (?B c)) bi" if "bi < BPB" for bi
      using assms(8) bits(3) [of j bi] that j k(1) by simp
    then show ?thesis using s1(3) by (auto simp: first_idx_None)
  qed
  have "\<not> block_free (block s dev (?B (of_nat (k * BPB)))) bi" if "bi < b mod BPB" for bi
    using assms(8) [of "k * BPB + bi"] bits(3) [OF k(1), of bi] that k(3,4) by simp
  then have found: "first_idx (block_free (block s1 dev (?B (of_nat (k * BPB))))) [0..<BPB] = Some (b mod BPB)"
    using bits(3) [OF k(1,4)] k(3,4) assms(7) s1(3) by (simp add: first_idx_Some)
  have ok: "\<forall>c \<in> set (bitmap_starts ?n). loc_ok dev (?B c) \<and> unheld H s1 dev (?B c)"
    using bitmap_starts_ok [OF assms(3,5)] unheld_stable [OF s1(2)] by blast
  have "of_nat (k * BPB) + of_nat (b mod BPB) = (of_nat b :: u32)" using k(3) by (metis of_nat_add)
  then show ?thesis
    using balloc_loop_found [OF stableD(1) [OF s1(2)] assms(2) ok split _ found] full s1 bits(1) [OF k(1,4)] k(3)
    by (auto simp: balloc_def bitmap_starts_def disk_upd_def intro: stable_trans)
qed

lemma balloc_full:
  assumes "bio_ok H s" and "room H" and "layout s dev" and "unheld H s dev 1"
    and "\<And>b. b < nbits s dev \<Longrightarrow> unheld H s dev (bitmap_of s dev b)"
    and "\<And>c. c < nbits s dev \<Longrightarrow> \<not> is_free s dev c"
  shows "balloc dev s = Inl (Panic ''balloc: out of blocks'')"
proof -
  let ?sb = "the_sb (block s dev 1)" and ?B = "\<lambda>c. BBLOCK c (sb_ninodes (the_sb (block s dev 1)))"
  let ?n = "(unat (sb_size ?sb) + BPB - 1) div BPB"
  have loc1: "loc_ok dev 1" using assms(3) by (simp add: layout_def loc_ok_def)
  obtain s1 where s1: "readsb dev s = Inr (?sb, s1)" "stable H s s1" "block s1 = block s"
    using readsb_ok [OF assms(1) loc1 assms(2,4)] by blast
  have start: "j * BPB < nbits s dev" if "j < ?n" for j using that by (simp add: nbits_def BPB_def)
  have "\<not> block_free (block s dev (?B (of_nat (j * BPB)))) bi" if "j < ?n" "bi < BPB" for j bi
    using bit_number [OF assms(3) start [OF that(1)] that(2)] assms(6) [of "j * BPB + bi"] by (auto simp: is_free_def)
  then have "\<forall>c \<in> set (bitmap_starts ?n). first_idx (block_free (block s1 dev (?B c))) [0..<BPB] = None"
    using s1(3) by (auto simp: bitmap_starts_def first_idx_None)
  moreover have "\<forall>c \<in> set (bitmap_starts ?n). loc_ok dev (?B c) \<and> unheld H s1 dev (?B c)"
    using bitmap_starts_ok [OF assms(3,5)] unheld_stable [OF s1(2)] by blast
  ultimately have "balloc_loop (bitmap_starts ?n) dev ?sb s1 = Inl (Panic ''balloc: out of blocks'')"
    using balloc_loop_full [OF stableD(1) [OF s1(2)] assms(2)] by blast
  then show ?thesis using s1(1) by (simp add: balloc_def bitmap_starts_def)
qed

subsection \<open>bfree\<close>

lemma bfree_ok:
  assumes "bio_ok H s" and "room H" and "layout s dev" and "unheld H s dev 1" and "unheld H s dev (of_nat b)"
    and "unheld H s dev (bitmap_of s dev b)" and "b < nbits s dev"
    and "b \<noteq> 1" and "of_nat b \<noteq> bitmap_of s dev b"
  shows "if is_free s dev b then bfree dev (of_nat b) s = Inl (Panic ''freeing free block'')
    else \<exists>s'. bfree dev (of_nat b) s = Inr s' \<and> stable H s s'
      \<and> (\<forall>d c. loc_ok d c \<longrightarrow> block s' d c =
            (if (d, c) = (dev, bitmap_of s dev b) then set_bit_free (b mod BPB) (block s dev (bitmap_of s dev b))
             else if (d, c) = (dev, of_nat b) then replicate BSIZE 0 else block s d c))"
proof -
  have b: "b \<le> 134221824" using nbits_bound [OF assms(3)] assms(7) by simp
  then have ub: "unat (of_nat b :: u32) = b" by simp
  have b1: "(of_nat b :: u32) \<noteq> 1" using assms(8) b by (simp add: word_unat_eq_iff)
  have dev: "unat dev \<le> 1" using assms(3) by (simp add: layout_def)
  then have loc: "loc_ok dev (of_nat b)" "loc_ok dev 1" using b ub by (simp_all add: loc_ok_def)
  let ?bm = "bitmap_of s dev b" and ?d = "block s dev (bitmap_of s dev b)"
  obtain s1 where s1: "bzero dev (of_nat b) s = Inr s1" "stable H s s1" "disk_upd s dev (of_nat b) (replicate BSIZE 0) s1"
    using bzero_ok [OF assms(1) loc(1) assms(2,5)] by blast
  have sb1: "block s1 dev 1 = block s dev 1" using s1(3) loc(2) b1 by (auto simp: disk_upd_def)
  obtain s2 where s2: "readsb dev s1 = Inr (the_sb (block s dev 1), s2)" "stable H s1 s2" "block s2 = block s1"
    using readsb_ok [OF stableD(1) [OF s1(2)] loc(2) assms(2)] unheld_stable [OF s1(2)] assms(4) sb1 by auto
  have st2: "stable H s s2" using stable_trans [OF s1(2) s2(2)] .
  have locbm: "loc_ok dev ?bm" using bitmap_of_eq(2) [OF assms(3,7)] .
  have d2: "block s2 dev ?bm = ?d" using s1(3) s2(3) locbm assms(9) by (auto simp: disk_upd_def)
  have bb: "BBLOCK (of_nat b) (sb_ninodes (the_sb (block s dev 1))) = ?bm" by (simp add: bitmap_of_def)
  have "unheld H s2 dev ?bm" using unheld_stable [OF st2] assms(6) by simp
  then obtain i s3 where r: "bread dev ?bm s2 = Inr (i, s3)" "data i s3 = ?d"
    and w: "\<And>d. \<exists>s4 s5. bwrite i (set_data i d s3) = Inr s4 \<and> brelse i s4 = Inr s5 \<and> stable H s2 s5 \<and> disk_upd s2 dev ?bm d s5"
    using blk_change [OF stableD(1) [OF st2] locbm assms(2)] d2 by metis
  obtain s4 s5 where s5: "bwrite i (set_data i (set_bit_free (b mod BPB) ?d) s3) = Inr s4" "brelse i s4 = Inr s5"
    "stable H s2 s5" "disk_upd s2 dev ?bm (set_bit_free (b mod BPB) ?d) s5"
    using w by blast
  have "\<forall>d c. loc_ok d c \<longrightarrow> block s5 d c =
      (if (d, c) = (dev, ?bm) then set_bit_free (b mod BPB) ?d
       else if (d, c) = (dev, of_nat b) then replicate BSIZE 0 else block s d c)"
    using s5(4) s2(3) s1(3) by (auto simp: disk_upd_def)
  then show ?thesis
    using s1(1) s2(1) r s5 stable_trans [OF st2 s5(3)] ub
    by (auto simp: bfree_def bb Let_def is_free_def set_bit_free_def)
qed

section \<open>Properties\<close>

definition formatted :: fs where
  "formatted = \<lparr>procs = [], nextpid = 1, initproc = None,
     bufs = replicate NBUF \<lparr>b_busy = False, b_valid = False, b_dirty = False, b_dev = 0, b_sector = 0, b_data = []\<rparr>,
     lru = rev [0..<NBUF], ide_queue = [], disk_1_present = True, ide_status = 0x40,
     disk = (\<lambda>_ sec. if sec = 1 then put32 0 1024 (put32 4 995 (put32 8 200 (replicate 512 0))) else replicate 512 0),
     inodes = []\<rparr>"

lemma formatted_ok: "bio_ok {} formatted"
  by (auto simp: bio_ok_def formatted_def buf_at_def in_use_def drive_ready_def
      IDE_BSY_def IDE_DRDY_def IDE_DF_def IDE_ERR_def)

lemma formatted_sb: "the_sb (block formatted 1 1) = \<lparr>sb_size = 1024, sb_nblocks = 995, sb_ninodes = 200\<rparr>"
  by code_simp

lemma formatted_layout: "layout formatted 1" "nbits formatted 1 = 4096"
proof -
  show "layout formatted 1" unfolding layout_def formatted_sb by (simp add: block_def formatted_def BSIZE_def)
  show "nbits formatted 1 = 4096" unfolding nbits_def formatted_sb by (simp add: BPB_def)
qed

lemma formatted_free: "b < 4096 \<Longrightarrow> is_free formatted 1 b"
proof -
  assume b: "b < 4096"
  have "bitmap_of formatted 1 b \<noteq> 1" using bitmap_of_eq(3) [OF formatted_layout(1)] b formatted_layout(2) by simp
  then have "block formatted 1 (bitmap_of formatted 1 b) = replicate 512 0"
    using bitmap_of_eq(2) [OF formatted_layout(1), of b] b formatted_layout(2)
    by (simp add: block_def formatted_def sec_mask loc_ok_def)
  then show ?thesis using b by (simp add: is_free_def block_free_bit BPB_def nth_replicate less_mult_imp_div_less)
qed

text \<open>
  \<^bold>\<open>C32.\<close> \<^verbatim>\<open>balloc\<close> returns the lowest block number whose bitmap bit is clear, sets that bit and
  changes nothing else on the disk; when every bit is set it panics.
\<close>

theorem balloc_allocates:
  assumes "bio_ok {} s" and "layout s dev"
  shows "if \<exists>b < nbits s dev. is_free s dev b
    then \<exists>b s'. balloc dev s = Inr (of_nat b, s') \<and> b < nbits s dev \<and> is_free s dev b \<and> (\<forall>c < b. \<not> is_free s dev c)
      \<and> bio_ok {} s' \<and> (\<forall>c < nbits s dev. is_free s' dev c \<longleftrightarrow> is_free s dev c \<and> c \<noteq> b)
      \<and> (\<forall>d c. loc_ok d c \<and> (d, c) \<noteq> (dev, bitmap_of s dev b) \<longrightarrow> block s' d c = block s d c)
    else balloc dev s = Inl (Panic ''balloc: out of blocks'')"
proof (cases "\<exists>b < nbits s dev. is_free s dev b")
  case True
  define b where "b = (LEAST b. is_free s dev b)"
  have b: "is_free s dev b" "b < nbits s dev" "\<And>c. c < b \<Longrightarrow> \<not> is_free s dev c"
    using True by (auto simp: b_def intro: LeastI Least_le le_less_trans dest: not_less_Least)
  obtain s' where s': "balloc dev s = Inr (of_nat b, s')" "stable {} s s'"
    "disk_upd s dev (bitmap_of s dev b) (set_bit_used (b mod BPB) (block s dev (bitmap_of s dev b))) s'"
    using balloc_ok [OF assms(1) _ assms(2) _ _ b(2,1,3)] free_buffer by (auto simp: room_def unheld_def)
  have len: "b mod BPB div 8 < length (block s dev (bitmap_of s dev b))"
    using assms(2) bitmap_of_eq(2) [OF assms(2) b(2)] by (auto simp: layout_def BSIZE_def BPB_def less_mult_imp_div_less)
  have "is_free s' dev c \<longleftrightarrow> is_free s dev c \<and> c \<noteq> b" if c: "c < nbits s dev" for c
  proof (cases "c div BPB = b div BPB")
    case True
    then have "bitmap_of s dev c = bitmap_of s dev b" using same_bitmap [OF assms(2) c b(2)] by simp
    moreover have "c mod BPB = b mod BPB \<longleftrightarrow> c = b" using True by (metis div_mult_mod_eq)
    ultimately show ?thesis
      using is_free_upd [OF assms(2) b(2) c s'(3)] True block_free_used [OF len, of "c mod BPB"] by (simp add: is_free_def)
  next
    case False
    then show ?thesis using is_free_upd [OF assms(2) b(2) c s'(3)] by auto
  qed
  then show ?thesis
    using True b s' by (auto simp: disk_upd_def dest: stableD)
next
  case False
  then show ?thesis
    using balloc_full [OF assms(1) _ assms(2)] free_buffer by (auto simp: room_def unheld_def)
qed

theorem balloc_allocates_witness:
  "\<exists>b s'. balloc 1 formatted = Inr (of_nat b, s') \<and> is_free formatted 1 b \<and> \<not> is_free s' 1 b"
proof -
  have "\<exists>b < nbits formatted 1. is_free formatted 1 b"
    using formatted_layout(2) formatted_free [of 0] by (intro exI [of _ 0]) simp
  then show ?thesis using balloc_allocates [OF formatted_ok formatted_layout(1)] by auto
qed

text \<open>
  \<^bold>\<open>C33.\<close> \<^verbatim>\<open>bfree\<close> of an allocated data block zeroes the block, clears its bitmap bit and changes
  nothing else on the disk; of a free block it panics.
\<close>

theorem bfree_frees:
  assumes "bio_ok {} s" and "layout s dev" and "b < nbits s dev" and "b \<noteq> 1" and "of_nat b \<noteq> bitmap_of s dev b"
  shows "if is_free s dev b then bfree dev (of_nat b) s = Inl (Panic ''freeing free block'')
    else \<exists>s'. bfree dev (of_nat b) s = Inr s' \<and> bio_ok {} s' \<and> block s' dev (of_nat b) = replicate BSIZE 0
      \<and> block_free (block s' dev (bitmap_of s dev b)) (b mod BPB)
      \<and> (\<forall>bi < BPB. bi \<noteq> b mod BPB \<longrightarrow>
           block_free (block s' dev (bitmap_of s dev b)) bi = block_free (block s dev (bitmap_of s dev b)) bi)
      \<and> (\<forall>d c. loc_ok d c \<and> (d, c) \<noteq> (dev, bitmap_of s dev b) \<and> (d, c) \<noteq> (dev, of_nat b) \<longrightarrow> block s' d c = block s d c)"
proof -
  let ?bm = "bitmap_of s dev b"
  have len: "b mod BPB div 8 < length (block s dev ?bm)"
    using assms(2) bitmap_of_eq(2) [OF assms(2,3)] by (auto simp: layout_def BSIZE_def BPB_def less_mult_imp_div_less)
  have "unat (of_nat b :: u32) = b" using nbits_bound [OF assms(2)] assms(3) by simp
  then have loc: "loc_ok dev ?bm" "loc_ok dev (of_nat b)"
    using bitmap_of_eq(2) [OF assms(2,3)] assms(2,3) nbits_bound [OF assms(2)] by (auto simp: loc_ok_def layout_def)
  have "room {}" "\<And>c. unheld {} s dev c" using free_buffer by (auto simp: room_def unheld_def)
  note f = bfree_ok [OF assms(1) this(1) assms(2) this(2,2,2) assms(3-5)]
  show ?thesis
  proof (cases "is_free s dev b")
    case True
    then show ?thesis using f by simp
  next
    case False
    then obtain s' where s': "bfree dev (of_nat b) s = Inr s'" "stable {} s s'"
      "\<forall>d c. loc_ok d c \<longrightarrow> block s' d c =
          (if (d, c) = (dev, ?bm) then set_bit_free (b mod BPB) (block s dev ?bm)
           else if (d, c) = (dev, of_nat b) then replicate BSIZE 0 else block s d c)"
      using f by auto
    then have "block s' dev ?bm = set_bit_free (b mod BPB) (block s dev ?bm)" "block s' dev (of_nat b) = replicate BSIZE 0"
      using loc assms(5) by auto
    then show ?thesis
      using False s' block_free_freed [OF len] by (auto dest: stableD)
  qed
qed

theorem bfree_frees_witness:
  "bfree 1 (of_nat 600) formatted = Inl (Panic ''freeing free block'')"
proof -
  have lt: "600 < nbits formatted 1" by (simp add: formatted_layout)
  have "unat (of_nat 600 :: u32) \<noteq> unat (bitmap_of formatted 1 600)"
    unfolding bitmap_of_eq(1) [OF formatted_layout(1) lt] formatted_sb by (simp add: BPB_def IPB_def)
  then have "of_nat 600 \<noteq> bitmap_of formatted 1 600" by metis
  then show ?thesis
    using bfree_frees [OF formatted_ok formatted_layout(1) lt] formatted_free [of 600] by simp
qed

text \<open>
  \<^bold>\<open>C40.\<close> \<^verbatim>\<open>balloc\<close> does not stop at the end of the file system: if every block below the size in
  the superblock is in use and the size is not a multiple of 4096, it hands out the block number
  one past the end whenever that bit of the last bitmap block is clear.
\<close>

theorem balloc_past_end:
  assumes "bio_ok {} s" and "layout s dev" and "sz = unat (sb_size (the_sb (block s dev 1)))"
    and "sz mod BPB \<noteq> 0" and "\<forall>c < sz. \<not> is_free s dev c" and "is_free s dev sz"
  shows "\<exists>s'. balloc dev s = Inr (sb_size (the_sb (block s dev 1)), s')"
proof -
  have "sz < nbits s dev"
  proof -
    define q r where "q = sz div BPB" and "r = sz mod BPB"
    have sz: "sz = q * BPB + r" and r: "0 < r" "r < BPB"
      using assms(4) by (simp_all add: q_def r_def BPB_def)
    have "(sz + BPB - 1) div BPB = (q * BPB + (r + (BPB - 1))) div BPB" using sz r by (simp add: add.assoc)
    also have "\<dots> = q + (r + (BPB - 1)) div BPB" by (rule div_mult_self3) (simp add: BPB_def)
    also have "(r + (BPB - 1)) div BPB = 1" using r by (intro div_nat_eqI) auto
    finally show ?thesis using assms(3) sz r by (simp add: nbits_def)
  qed
  then show ?thesis
    using balloc_ok [OF assms(1) _ assms(2) _ _ _ assms(6)] assms(3,5) free_buffer by (auto simp: room_def unheld_def)
qed

definition formatted_full :: fs where
  "formatted_full = formatted\<lparr>disk := (\<lambda>dr sec. if sec = 28 then replicate 128 255 @ replicate 384 0 else disk formatted dr sec)\<rparr>"

lemma formatted_full_ok: "bio_ok {} formatted_full"
  by (auto simp: bio_ok_def formatted_full_def formatted_def buf_at_def in_use_def drive_ready_def
      IDE_BSY_def IDE_DRDY_def IDE_DF_def IDE_ERR_def)

lemma formatted_full_sb: "the_sb (block formatted_full 1 1) = \<lparr>sb_size = 1024, sb_nblocks = 995, sb_ninodes = 200\<rparr>"
  by code_simp

lemma formatted_full_layout: "layout formatted_full 1" "nbits formatted_full 1 = 4096"
proof -
  show "layout formatted_full 1"
    unfolding layout_def formatted_full_sb by (simp add: block_def formatted_def formatted_full_def BSIZE_def)
  show "nbits formatted_full 1 = 4096" unfolding nbits_def formatted_full_sb by (simp add: BPB_def)
qed

lemma formatted_full_free:
  assumes "b < 4096" shows "is_free formatted_full 1 b \<longleftrightarrow> 1024 \<le> b"
proof -
  have "unat (bitmap_of formatted_full 1 b) = 28"
    unfolding bitmap_of_eq(1) [OF formatted_full_layout(1), unfolded formatted_full_layout(2), OF assms] formatted_full_sb
    using assms by (simp add: BPB_def IPB_def)
  then have "bitmap_of formatted_full 1 b = 28" by (simp add: word_unat_eq_iff)
  then have "block formatted_full 1 (bitmap_of formatted_full 1 b) = replicate 128 255 @ replicate 384 0"
    by (simp add: block_def formatted_full_def)
  moreover have "bit (255 :: u8) (b mod 8)"
  proof -
    have "(255 :: u8) = mask 8" by (simp add: mask_eq_exp_minus_1)
    then show ?thesis by (simp only: bit_mask_iff possible_bit_word) simp
  qed
  ultimately show ?thesis
    using assms by (auto simp: is_free_def block_free_bit BPB_def nth_append less_mult_imp_div_less)
qed

theorem balloc_past_end_witness: "\<exists>s'. balloc 1 formatted_full = Inr (1024, s')"
proof -
  have "1024 = unat (sb_size (the_sb (block formatted_full 1 1)))" unfolding formatted_full_sb by simp
  then show ?thesis
    using balloc_past_end [OF formatted_full_ok formatted_full_layout(1), of 1024] formatted_full_free
    by (simp add: formatted_full_sb BPB_def)
qed

end
