(* ===== verification/Fs_Inode.thy ===== *)
theory Fs_Inode
  imports Fs_Block
begin

text \<open>
  Inodes: what \<^verbatim>\<open>iupdate\<close> puts on the disk is what \<^verbatim>\<open>ilock\<close> reads back, and the inode cache
  keeps one entry per inode, with reference counts.
\<close>

section \<open>The rest of the state\<close>

lemma rest_fs:
  assumes "rest s s'" shows "inodes s' = inodes s" and "fs.more s' = fs.more s"
proof -
  have m: "blk.more s' = blk.more s" using assms by (simp add: rest_def)
  then show "inodes s' = inodes s" by (cases s, cases s') simp
  show "fs.more s' = fs.more s" using m by (cases s, cases s') simp
qed

lemma rest_inode: "rest s s' \<Longrightarrow> inode_at i s' = inode_at i s"
  by (simp add: inode_at_def rest_fs)

named_theorems inode_simps \<open>updates of the inode cache\<close>

lemma upd_inode_blk [inode_simps]:
  "block (upd_inode i f s) = block s" "bio_ok H (upd_inode i f s) \<longleftrightarrow> bio_ok H s"
  "key j (upd_inode i f s) = key j s" "data j (upd_inode i f s) = data j s"
  "length (inodes (upd_inode i f s)) = length (inodes s)" "procs (upd_inode i f s) = procs s"
  by (simp_all add: upd_inode_def block_def bio_ok_def key_def data_def buf_at_def drive_ready_def fun_eq_iff)

lemma inode_at_upd [inode_simps]:
  "i < length (inodes s) \<Longrightarrow> inode_at j (upd_inode i f s) = (if j = i then f (inode_at i s) else inode_at j s)"
  by (simp add: inode_at_def upd_inode_def nth_list_update)

section \<open>Inodes on disk\<close>

definition disk_inode :: "'a blk_scheme \<Rightarrow> u32 \<Rightarrow> u32 \<Rightarrow> dinode" where
  "disk_inode s dev inum = get_dinode (inode_off inum) (block s dev (IBLOCK inum))"

definition inum_ok :: "u32 \<Rightarrow> u32 \<Rightarrow> bool" where
  "inum_ok dev inum \<longleftrightarrow> unat dev \<le> 1 \<and> unat inum < 2147483000"

lemma unat_IBLOCK: "unat (IBLOCK inum) = unat inum div IPB + 2"
proof -
  have "unat (inum div of_nat IPB) = unat inum div 8" by (simp add: unat_div IPB_def)
  moreover have "unat inum div 8 < 536870912" using unat_lt_2p32 [of inum] by linarith
  ultimately show ?thesis by (simp add: IBLOCK_def unat_add_u32 IPB_def)
qed

lemma inum_loc: "inum_ok dev inum \<Longrightarrow> loc_ok dev (IBLOCK inum)"
  using unat_IBLOCK [of inum] unfolding inum_ok_def loc_ok_def IPB_def by linarith

lemma inode_off_bound: "inode_off inum + 64 \<le> BSIZE"
proof -
  have "unat inum mod IPB < 8" by (simp add: IPB_def)
  then show ?thesis by (simp add: inode_off_def BSIZE_def)
qed

lemma inode_slot:
  assumes "inum \<noteq> inum'" and "IBLOCK inum = IBLOCK inum'"
  shows "inode_off inum' + 64 \<le> inode_off inum \<or> inode_off inum + 64 \<le> inode_off inum'"
proof -
  have "unat inum div IPB = unat inum' div IPB" using assms(2) unat_IBLOCK [of inum] unat_IBLOCK [of inum'] by simp
  moreover have "unat inum \<noteq> unat inum'" using assms(1) by (simp add: word_unat_eq_iff)
  ultimately have "unat inum mod IPB \<noteq> unat inum' mod IPB" by (metis div_mult_mod_eq)
  then show ?thesis by (auto simp: inode_off_def)
qed

text \<open>Replacing an inode slot changes that inode and no other.\<close>

lemma disk_inode_upd:
  assumes "disk_upd s dev (IBLOCK inum) (put_dinode (inode_off inum) di (block s dev (IBLOCK inum))) s'"
    and "inum_ok dev inum" and "length (block s dev (IBLOCK inum)) = BSIZE" and "length (d_addrs di) = NADDRS"
    and "inum_ok dev inum'"
  shows "disk_inode s' dev inum' = (if inum' = inum then di else disk_inode s dev inum')"
proof (cases "IBLOCK inum' = IBLOCK inum")
  case True
  then have b: "block s' dev (IBLOCK inum') = put_dinode (inode_off inum) di (block s dev (IBLOCK inum))"
    using assms(1) inum_loc [OF assms(2)] by (simp add: disk_upd_def)
  show ?thesis
  proof (cases "inum' = inum")
    case True
    then show ?thesis using b get_put_dinode [of "inode_off inum"] assms(3,4) inode_off_bound by (simp add: disk_inode_def)
  next
    case False
    then show ?thesis
      using b True get_put_dinode_other [OF inode_slot [of inum inum'] assms(4)] by (simp add: disk_inode_def)
  qed
next
  case False
  then show ?thesis using assms(1) inum_loc [OF assms(5)] by (auto simp: disk_upd_def disk_inode_def)
qed

lemma iupdate_ok:
  assumes "bio_ok H s" and "room H" and "inode_at i s = ip" and "inum_ok (i_dev ip) (i_inum ip)"
    and "unheld H s (i_dev ip) (IBLOCK (i_inum ip))"
  shows "\<exists>s'. iupdate i s = Inr s' \<and> stable H s s'
    \<and> disk_upd s (i_dev ip) (IBLOCK (i_inum ip))
        (put_dinode (inode_off (i_inum ip)) (to_dinode ip) (block s (i_dev ip) (IBLOCK (i_inum ip)))) s'"
proof -
  obtain bp s1 where r: "bread (i_dev ip) (IBLOCK (i_inum ip)) s = Inr (bp, s1)"
    "data bp s1 = block s (i_dev ip) (IBLOCK (i_inum ip))"
    and w: "\<And>d. \<exists>s2 s3. bwrite bp (set_data bp d s1) = Inr s2 \<and> brelse bp s2 = Inr s3 \<and> stable H s s3
      \<and> disk_upd s (i_dev ip) (IBLOCK (i_inum ip)) d s3"
    using blk_change [OF assms(1) inum_loc [OF assms(4)] assms(2,5)] by metis
  show ?thesis
    using r w [of "put_dinode (inode_off (i_inum ip)) (to_dinode ip) (data bp s1)"] assms(3)
    by (auto simp: iupdate_def Let_def)
qed

text \<open>\<^verbatim>\<open>ilock\<close> of an entry that is not yet valid loads the inode from the disk.\<close>

definition load_inode :: "dinode \<Rightarrow> inode \<Rightarrow> inode" where
  "load_inode di ip = ip\<lparr>i_busy := True, i_type := d_type di, i_major := d_major di, i_minor := d_minor di,
     i_nlink := d_nlink di, i_size := d_size di, i_addrs := d_addrs di, i_valid := True\<rparr>"

lemma brelse_upd_inode:
  "brelse bp (upd_inode i f s) = map_sum id (upd_inode i f) (brelse bp s)"
  by (simp add: brelse_def upd_inode_def buf_at_def Let_def upd_buf_def wakeup_def wakeup1_def)

lemma upd_inode_twice: "i < length (inodes s) \<Longrightarrow> upd_inode i g (upd_inode i f s) = upd_inode i (g \<circ> f) s"
  by (simp add: upd_inode_def)

lemma ilock_load:
  assumes "bio_ok H s" and "room H" and "i < length (inodes s)" and "inode_at i s = ip"
    and "1 \<le> i_ref ip" and "\<not> i_busy ip" and "\<not> i_valid ip" and "inum_ok (i_dev ip) (i_inum ip)"
    and "unheld H s (i_dev ip) (IBLOCK (i_inum ip))" and "disk_inode s (i_dev ip) (i_inum ip) = di"
  shows "if d_type di = 0 then ilock (Some i) s = Inl (Panic ''ilock: no type'')
    else \<exists>s'. ilock (Some i) s = Inr s' \<and> bio_ok H s' \<and> block s' = block s \<and> bc.keeps H s s'
      \<and> inodes s' = (inodes s)[i := load_inode di ip]"
proof -
  let ?dev = "i_dev ip" and ?n = "i_inum ip"
  define s1 where "s1 = upd_inode i (\<lambda>ip. ip\<lparr>i_busy := True\<rparr>) s"
  have ip1: "inode_at i s1 = ip\<lparr>i_busy := True\<rparr>" using assms(3,4) by (simp add: s1_def inode_simps)
  have ok1: "bio_ok H s1" "unheld H s1 ?dev (IBLOCK ?n)" "block s1 = block s"
    using assms(1,9) by (simp_all add: s1_def inode_simps unheld_def)
  obtain bp s2 s3 where r: "bread ?dev (IBLOCK ?n) s1 = Inr (bp, s2)" "data bp s2 = block s ?dev (IBLOCK ?n)"
    "brelse bp s2 = Inr s3" "stable H s1 s3" "block s3 = block s"
    using blk_look [OF ok1(1) inum_loc [OF assms(8)] assms(2) ok1(2)] ok1(3) by metis
  have di: "get_dinode (inode_off ?n) (data bp s2) = di" using r(2) assms(10) by (simp add: disk_inode_def)
  define g :: "inode \<Rightarrow> inode" where "g = (\<lambda>ip. ip\<lparr>i_type := d_type di, i_major := d_major di, i_minor := d_minor di,
    i_nlink := d_nlink di, i_size := d_size di, i_addrs := d_addrs di\<rparr>)"
  have rel: "brelse bp (upd_inode i g s2) = Inr (upd_inode i g s3)"
    using r(3) by (simp add: brelse_upd_inode)
  have ino: "inodes s3 = inodes s1" using rest_fs(1) [OF stableD(2) [OF r(4)]] .
  define s5 where "s5 = upd_inode i (\<lambda>ip. ip\<lparr>i_valid := True\<rparr>) (upd_inode i g s3)"
  have len: "i < length (inodes s3)" using ino assms(3) by (simp add: s1_def inode_simps)
  have at: "inode_at i s3 = ip\<lparr>i_busy := True\<rparr>" using ip1 ino by (simp add: inode_at_def)
  then have i5: "inode_at i s5 = load_inode di ip" using len by (simp add: s5_def inode_simps g_def load_inode_def)
  have "ilock (Some i) s = (if i_type (inode_at i s5) = 0 then Inl (Panic ''ilock: no type'') else Inr s5)"
    using assms(4-7) ip1 r(1) di rel by (simp add: ilock_def Let_def s5_def g_def flip: s1_def)
  moreover have "inodes s5 = (inodes s)[i := load_inode di ip]"
    using at len ino by (simp add: s5_def upd_inode_def g_def load_inode_def inode_at_def s1_def)
  moreover have "bio_ok H s5" "block s5 = block s" using r(4,5) by (simp_all add: s5_def inode_simps stableD)
  moreover have "bc.keeps H s s5"
    using r(4) by (auto simp: s5_def s1_def stable_def bc.keeps_def inode_simps)
  ultimately show ?thesis using i5 by (simp add: load_inode_def)
qed

section \<open>The inode cache\<close>

text \<open>No two entries in use are for the same inode.\<close>

definition icache_unique :: "'a fs_scheme \<Rightarrow> bool" where
  "icache_unique s \<longleftrightarrow> (\<forall>i < length (inodes s). \<forall>j < length (inodes s).
     i_ref (inode_at i s) > 0 \<longrightarrow> i_ref (inode_at j s) > 0 \<longrightarrow>
     i_dev (inode_at i s) = i_dev (inode_at j s) \<longrightarrow> i_inum (inode_at i s) = i_inum (inode_at j s) \<longrightarrow> i = j)"

lemma iget_cases [consumes 1]:
  assumes "iget dev inum s = Inr (i, s')"
  obtains (hit) "i < length (inodes s)" and "i_ref (inode_at i s) > 0"
      and "i_dev (inode_at i s) = dev" and "i_inum (inode_at i s) = inum"
      and "s' = upd_inode i (\<lambda>ip. ip\<lparr>i_ref := i_ref ip + 1\<rparr>) s"
  | (fresh) "i < length (inodes s)" and "i_ref (inode_at i s) = 0"
      and "\<And>j. j < length (inodes s) \<Longrightarrow> i_ref (inode_at j s) > 0 \<Longrightarrow>
         i_dev (inode_at j s) = dev \<Longrightarrow> i_inum (inode_at j s) \<noteq> inum"
      and "s' = upd_inode i (\<lambda>ip. ip\<lparr>i_dev := dev, i_inum := inum, i_ref := 1, i_busy := False, i_valid := False\<rparr>) s"
proof (cases "first_idx (\<lambda>ip. i_ref ip > 0 \<and> i_dev ip = dev \<and> i_inum ip = inum) (inodes s)")
  case (Some k)
  then show ?thesis using assms hit first_idx_SomeD [OF Some] by (auto simp: iget_def inode_at_def)
next
  case None
  then have n: "\<And>j. j < length (inodes s) \<Longrightarrow> i_ref (inode_at j s) > 0 \<Longrightarrow>
      i_dev (inode_at j s) = dev \<Longrightarrow> i_inum (inode_at j s) \<noteq> inum"
    by (auto simp: first_idx_None inode_at_def)
  then show ?thesis
    using None assms fresh first_idx_SomeD [of "\<lambda>ip. i_ref ip = 0" "inodes s"]
    by (fastforce simp: iget_def inode_at_def split: option.splits)
qed

lemma iget_icache_unique:
  assumes "icache_unique s" and "iget dev inum s = Inr (i, s')"
  shows "icache_unique s'"
  using assms(2)
proof (cases rule: iget_cases)
  case hit
  have "i_ref (inode_at k s') > 0 \<longleftrightarrow> i_ref (inode_at k s) > 0" "i_dev (inode_at k s') = i_dev (inode_at k s)"
    "i_inum (inode_at k s') = i_inum (inode_at k s)" if "k < length (inodes s)" for k
    using hit by (auto simp: inode_simps)
  then show ?thesis using assms(1) hit by (simp add: icache_unique_def inode_simps)
next
  case fresh
  then show ?thesis using assms(1) by (auto simp: icache_unique_def inode_simps)
qed

lemma iget_fresh:
  assumes "i < length (inodes s)" and "i_ref (inode_at i s) = 0"
    and "\<forall>j < length (inodes s). \<not> (i_ref (inode_at j s) > 0 \<and> i_dev (inode_at j s) = dev \<and> i_inum (inode_at j s) = inum)"
  obtains j where "j < length (inodes s)" and "iget dev inum s =
    Inr (j, upd_inode j (\<lambda>ip. ip\<lparr>i_dev := dev, i_inum := inum, i_ref := 1, i_busy := False, i_valid := False\<rparr>) s)"
proof -
  have "first_idx (\<lambda>ip. i_ref ip > 0 \<and> i_dev ip = dev \<and> i_inum ip = inum) (inodes s) = None"
    using assms(3) by (auto simp: first_idx_None inode_at_def in_set_conv_nth)
  moreover obtain j where "first_idx (\<lambda>ip. i_ref ip = 0) (inodes s) = Some j"
    using assms(1,2) by (cases "first_idx (\<lambda>ip. i_ref ip = 0) (inodes s)") (auto simp: first_idx_None inode_at_def)
  ultimately show ?thesis using that first_idx_SomeD by (fastforce simp: iget_def)
qed

lemma wakeup_fs [inode_simps]:
  "inodes (wakeup ch s) = inodes s" "inode_at i (wakeup ch s) = inode_at i s"
  "block (wakeup ch s) = block s" "bio_ok H (wakeup ch s) \<longleftrightarrow> bio_ok H s"
  "key j (wakeup ch s) = key j s" "data j (wakeup ch s) = data j s"
  by (simp_all add: wakeup_def wakeup1_def inode_at_def block_def bio_ok_def key_def data_def buf_at_def
      drive_ready_def fun_eq_iff)

text \<open>Giving up the last reference to a linked inode writes nothing.\<close>

lemma iunlockput_last:
  assumes "i < length (inodes s)" and "i_busy (inode_at i s)" and "i_ref (inode_at i s) = 1" and "i_nlink (inode_at i s) \<noteq> 0"
  obtains s' where "iunlockput i s = Inr s'" and "length (inodes s') = length (inodes s)"
    and "inode_at i s' = (inode_at i s)\<lparr>i_busy := False, i_ref := 0\<rparr>"
    and "\<And>j. j \<noteq> i \<Longrightarrow> inode_at j s' = inode_at j s"
    and "block s' = block s" and "\<And>H. bio_ok H s' \<longleftrightarrow> bio_ok H s" and "\<And>j. key j s' = key j s"
  using assms by (simp add: iunlockput_def iunlock_def iput_def inode_simps Let_def)

section \<open>Properties\<close>

text \<open>
  \<^verbatim>\<open>iupdate\<close> writes the fields of the in-memory inode into the inode's own slot of the
  inode blocks: reading any inode from the disk afterwards gives the new fields for this inode and
  the old ones for every other inode, including those that share its block.
\<close>

lemma iupdate_one_inode:
  assumes "bio_ok H s" and "room H" and "ip = inode_at i s" and "inum_ok (i_dev ip) (i_inum ip)"
    and "unheld H s (i_dev ip) (IBLOCK (i_inum ip))" and "length (block s (i_dev ip) (IBLOCK (i_inum ip))) = BSIZE"
    and "length (i_addrs ip) = NADDRS" and "inum_ok (i_dev ip) inum"
  shows "\<exists>s'. iupdate i s = Inr s' \<and> inodes s' = inodes s
    \<and> disk_inode s' (i_dev ip) inum = (if inum = i_inum ip then to_dinode ip else disk_inode s (i_dev ip) inum)"
proof -
  obtain s' where s': "iupdate i s = Inr s'" "stable H s s'" "disk_upd s (i_dev ip) (IBLOCK (i_inum ip))
      (put_dinode (inode_off (i_inum ip)) (to_dinode ip) (block s (i_dev ip) (IBLOCK (i_inum ip)))) s'"
    using iupdate_ok [OF assms(1,2) assms(3) [symmetric] assms(4,5)] by blast
  then show ?thesis
    using disk_inode_upd [OF s'(3) assms(4,6) _ assms(8)] assms(7) rest_fs(1) [OF stableD(2) [OF s'(2)]]
    by (simp add: to_dinode_def)
qed

text \<open>
  \<^bold>\<open>C31.\<close> What is saved is what comes back. After \<^verbatim>\<open>iupdate\<close>, when the last reference to the locked,
  linked inode is given up with \<^verbatim>\<open>iunlockput\<close>, a later \<^verbatim>\<open>iget\<close> of the same inode finds no entry,
  recycles a free one, and \<^verbatim>\<open>ilock\<close> loads from the disk the same type, device numbers, link
  count, size and block addresses.
\<close>

theorem inode_roundtrip:
  assumes "bio_ok H s" and "room H" and "i < length (inodes s)" and "ip = inode_at i s" and "icache_unique s"
    and "inum_ok (i_dev ip) (i_inum ip)" and "unheld H s (i_dev ip) (IBLOCK (i_inum ip))"
    and "length (block s (i_dev ip) (IBLOCK (i_inum ip))) = BSIZE" and "length (i_addrs ip) = NADDRS"
    and "i_busy ip" and "i_ref ip = 1" and "i_nlink ip \<noteq> 0" and "i_type ip \<noteq> 0"
  shows "\<exists>s1 s2 j s3 s4. iupdate i s = Inr s1 \<and> iunlockput i s1 = Inr s2
    \<and> iget (i_dev ip) (i_inum ip) s2 = Inr (j, s3) \<and> ilock (Some j) s3 = Inr s4
    \<and> to_dinode (inode_at j s4) = to_dinode ip"
proof -
  let ?d = "i_dev ip" and ?n = "i_inum ip"
  obtain s1 where s1: "iupdate i s = Inr s1" "stable H s s1" "disk_upd s ?d (IBLOCK ?n)
      (put_dinode (inode_off ?n) (to_dinode ip) (block s ?d (IBLOCK ?n))) s1"
    using iupdate_ok [OF assms(1,2) assms(4) [symmetric] assms(6,7)] by blast
  have di1: "disk_inode s1 ?d ?n = to_dinode ip"
    using disk_inode_upd [OF s1(3) assms(6,8) _ assms(6)] assms(9) by (simp add: to_dinode_def)
  have ino1: "inodes s1 = inodes s" using rest_fs(1) [OF stableD(2) [OF s1(2)]] .
  have at1: "inode_at k s1 = inode_at k s" for k using ino1 by (simp add: inode_at_def)
  have un1: "unheld H s1 ?d (IBLOCK ?n)" using s1(2) assms(7) by (auto simp: stable_def bc.keeps_def unheld_def)
  have pre: "i < length (inodes s1)" "i_busy (inode_at i s1)" "i_ref (inode_at i s1) = 1" "i_nlink (inode_at i s1) \<noteq> 0"
    using assms(3,4,10-12) ino1 at1 by simp_all
  obtain s2 where s2: "iunlockput i s1 = Inr s2" "length (inodes s2) = length (inodes s1)"
    "inode_at i s2 = (inode_at i s1)\<lparr>i_busy := False, i_ref := 0\<rparr>" "\<And>j. j \<noteq> i \<Longrightarrow> inode_at j s2 = inode_at j s1"
    "block s2 = block s1" "\<And>H. bio_ok H s2 \<longleftrightarrow> bio_ok H s1" "\<And>j. key j s2 = key j s1"
    by (rule iunlockput_last [OF pre]) metis
  have none: "\<forall>j < length (inodes s2). \<not> (i_ref (inode_at j s2) > 0 \<and> i_dev (inode_at j s2) = ?d \<and> i_inum (inode_at j s2) = ?n)"
  proof (intro allI impI)
    fix j assume "j < length (inodes s2)"
    then show "\<not> (i_ref (inode_at j s2) > 0 \<and> i_dev (inode_at j s2) = ?d \<and> i_inum (inode_at j s2) = ?n)"
      using assms(3,4,5,11) s2(2-4) ino1 at1 by (cases "j = i") (auto simp: icache_unique_def)
  qed
  obtain j where j: "j < length (inodes s2)" "iget ?d ?n s2 = Inr (j, upd_inode j
      (\<lambda>ip. ip\<lparr>i_dev := ?d, i_inum := ?n, i_ref := 1, i_busy := False, i_valid := False\<rparr>) s2)" (is "_ = Inr (_, ?s3)")
    using iget_fresh [OF _ _ none, of i] pre(1) s2(2,3) by auto
  have at3: "inode_at j ?s3 = (inode_at j s2)\<lparr>i_dev := ?d, i_inum := ?n, i_ref := 1, i_busy := False, i_valid := False\<rparr>"
    using j(1) by (simp add: inode_simps)
  have "\<exists>s4. ilock (Some j) ?s3 = Inr s4 \<and> inodes s4 = (inodes ?s3)[j := load_inode (to_dinode ip) (inode_at j ?s3)]"
    using ilock_load [of H ?s3 j, OF _ assms(2) _ refl] stableD(1) [OF s1(2)] s2(5-7) un1 at3 j(1) assms(6,13) di1
    by (auto simp: inode_simps unheld_def disk_inode_def to_dinode_def)
  then obtain s4 where "ilock (Some j) ?s3 = Inr s4" "inode_at j s4 = load_inode (to_dinode ip) (inode_at j ?s3)"
    using j(1) by (auto simp: inode_at_def inode_simps)
  then show ?thesis using s1(1) s2(1) j(2) by (auto simp: load_inode_def to_dinode_def)
qed

text \<open>
  \<^bold>\<open>C30.\<close> The cache never has two entries for one inode: \<^verbatim>\<open>iget\<close> keeps this, and the entry it returns
  is for the inode asked for and has one reference more than before.
\<close>

theorem iget_keeps_unique:
  assumes "icache_unique s" and "iget dev inum s = Inr (i, s')"
  shows "icache_unique s' \<and> i_dev (inode_at i s') = dev \<and> i_inum (inode_at i s') = inum
    \<and> i_ref (inode_at i s') = i_ref (inode_at i s) + 1 \<and> (\<forall>j. j \<noteq> i \<longrightarrow> inode_at j s' = inode_at j s)"
  using iget_icache_unique [OF assms] assms(2)
  by (cases rule: iget_cases [OF assms(2)]) (simp_all add: inode_simps)

text \<open>An inode cache with one locked entry, on an empty disk.\<close>

definition open_file :: inode where
  "open_file = \<lparr>i_dev = 1, i_inum = 5, i_ref = 1, i_busy = True, i_valid = True, i_type = 2, i_major = 0,
     i_minor = 0, i_nlink = 1, i_size = 0, i_addrs = replicate NADDRS 0\<rparr>"

definition one_file :: fs where
  "one_file = formatted\<lparr>inodes := [open_file\<lparr>i_ref := 0\<rparr>, open_file]\<rparr>"

lemma one_file_ok: "bio_ok {} one_file"
  using formatted_ok by (simp add: one_file_def bio_ok_def buf_at_def drive_ready_def block_def)

lemma one_file_block: "length (block one_file 1 (IBLOCK 5)) = BSIZE"
  by (simp add: block_def one_file_def formatted_def BSIZE_def)

lemma one_file_unique: "icache_unique one_file"
  by (auto simp: icache_unique_def one_file_def inode_at_def less_Suc_eq)

lemmas one_file_defs = one_file_def open_file_def inode_at_def inum_ok_def unheld_def room_def

theorem inode_roundtrip_witness:
  "\<exists>s1 s2 j s3 s4. iupdate 1 one_file = Inr s1 \<and> iunlockput 1 s1 = Inr s2 \<and> iget 1 5 s2 = Inr (j, s3)
    \<and> ilock (Some j) s3 = Inr s4 \<and> to_dinode (inode_at j s4) = to_dinode open_file"
  using inode_roundtrip [OF one_file_ok _ _ refl one_file_unique, of 1] one_file_block free_buffer
  by (auto simp: one_file_defs)

theorem iget_keeps_unique_witness: "\<exists>s'. iget 1 7 one_file = Inr (0, s') \<and> icache_unique s'"
  using iget_keeps_unique [OF one_file_unique, of 1 7 0]
  by (simp add: iget_def one_file_defs)

end
