(* ===== verification/Fs_File.thy ===== *)
theory Fs_File
  imports Fs
begin

text \<open>
  The contents of files (\<^verbatim>\<open>fs.c\<close>): from the block number within a file to the disk block
  (\<^verbatim>\<open>bmap\<close>), and reading and writing byte ranges. The data the code copies to and from memory
  are lists of bytes here.
\<close>

definition bmap :: "nat \<Rightarrow> u32 \<Rightarrow> bool \<Rightarrow> 'a fs_scheme \<Rightarrow> (u32 \<times> 'a fs_scheme) res" where
  "bmap i bn alloc s =
     (let ip = inode_at i s in
      if unat bn < NDIRECT then
        (if i_addrs ip ! unat bn \<noteq> 0 then Inr (i_addrs ip ! unat bn, s)
         else if \<not> alloc then Inr (-1, s)
         else rbind (balloc (i_dev ip) s) (\<lambda>(a, s1).
              Inr (a, upd_inode i (\<lambda>ip. ip\<lparr>i_addrs := (i_addrs ip)[unat bn := a]\<rparr>) s1)))
      else let k = unat bn - NDIRECT in
      if k < NINDIRECT then
        rbind (if i_addrs ip ! INDIRECT \<noteq> 0 then Inr (Some (i_addrs ip ! INDIRECT), s)
               else if \<not> alloc then Inr (None, s)
               else rbind (balloc (i_dev ip) s) (\<lambda>(a, s1).
                    Inr (Some a, upd_inode i (\<lambda>ip. ip\<lparr>i_addrs := (i_addrs ip)[INDIRECT := a]\<rparr>) s1)))
          (\<lambda>(ao, s1). case ao of None \<Rightarrow> Inr (-1, s1) | Some addr \<Rightarrow>
          rbind (bread (i_dev ip) addr s1) (\<lambda>(bp, s2).
          let a = get32 (4 * k) (data bp s2) in
          if a \<noteq> 0 then rbind (brelse bp s2) (\<lambda>s3. Inr (a, s3))
          else if \<not> alloc then rbind (brelse bp s2) (\<lambda>s3. Inr (-1, s3))
          else rbind (balloc (i_dev ip) s2) (\<lambda>(a, s3).
               rbind (bwrite bp (set_data bp (put32 (4 * k) a (data bp s3)) s3)) (\<lambda>s4.
               rbind (brelse bp s4) (\<lambda>s5. Inr (a, s5))))))
      else Inl (Panic ''bmap: out of range''))"

record stat =
  st_dev :: u32
  st_ino :: u32
  st_type :: u16
  st_nlink :: u16
  st_size :: u32

definition stati :: "nat \<Rightarrow> 'a fs_scheme \<Rightarrow> stat" where
  "stati i s = (let ip = inode_at i s in
     \<lparr>st_dev = i_dev ip, st_ino = i_inum ip, st_type = i_type ip, st_nlink = i_nlink ip, st_size = i_size ip\<rparr>)"

text \<open>
  The device switch: for a major number, the read and write routines registered for it. A read
  routine yields its result and the bytes it delivers.
\<close>

record 's devsw =
  dev_read :: "(nat \<Rightarrow> u32 \<Rightarrow> 's \<Rightarrow> (u32 \<times> u8 list \<times> 's) res) option"
  dev_write :: "(nat \<Rightarrow> u8 list \<Rightarrow> 's \<Rightarrow> (u32 \<times> 's) res) option"

definition bad_major :: "u16 \<Rightarrow> bool" where
  "bad_major m \<longleftrightarrow> sint m < 0 \<or> sint m \<ge> int NDEV"

text \<open>The copying loop of \<^verbatim>\<open>readi\<close>, with the number of bytes still to be read.\<close>

function readi_loop :: "nat \<Rightarrow> nat \<Rightarrow> u32 \<Rightarrow> 'a fs_scheme \<Rightarrow> (u8 list \<times> 'a fs_scheme) res" where
  "readi_loop left i off s =
     (if left = 0 then Inr ([], s)
      else rbind (bmap i (off div of_nat BSIZE) False s) (\<lambda>(a, s1).
        rbind (bread (i_dev (inode_at i s)) a s1) (\<lambda>(bp, s2).
        let b = unat off mod BSIZE; m = min left (BSIZE - b); chunk = take m (drop b (data bp s2)) in
        rbind (brelse bp s2) (\<lambda>s3.
        rbind (readi_loop (left - min left (BSIZE - unat off mod BSIZE)) i (off + of_nat m) s3) (\<lambda>(bs, s4).
        Inr (chunk @ bs, s4))))))"
  by pat_completeness auto

termination readi_loop
proof (relation "measure fst")
  fix left :: nat and off :: u32
  assume "left \<noteq> 0"
  moreover have "unat off mod BSIZE < BSIZE" by (simp add: BSIZE_def)
  ultimately have "left - min left (BSIZE - unat off mod BSIZE) < left" by simp
  then show "((left - min left (BSIZE - unat off mod BSIZE), i, off', s3), left, i, off, s) \<in> measure fst"
    for i off' s3 s by simp
qed simp

declare readi_loop.simps [simp del]

definition readi ::
    "(u16 \<Rightarrow> 'a fs_scheme devsw) \<Rightarrow> nat \<Rightarrow> u32 \<Rightarrow> u32 \<Rightarrow> 'a fs_scheme \<Rightarrow> (u32 \<times> u8 list \<times> 'a fs_scheme) res" where
  "readi dsw i off n s =
     (let ip = inode_at i s in
      if i_type ip = T_DEV then
        (if bad_major (i_major ip) then Inr (-1, [], s)
         else case dev_read (dsw (i_major ip)) of None \<Rightarrow> Inr (-1, [], s) | Some f \<Rightarrow> f i n s)
      else if off > i_size ip \<or> off + n < off then Inr (-1, [], s)
      else let n1 = (if off + n > i_size ip then i_size ip - off else n) in
        rbind (readi_loop (unat n1) i off s) (\<lambda>(bs, s1). Inr (n1, bs, s1)))"

text \<open>The copying loop of \<^verbatim>\<open>writei\<close>; it yields the final value of \<^verbatim>\<open>off\<close>.\<close>

function writei_loop :: "nat \<Rightarrow> nat \<Rightarrow> u8 list \<Rightarrow> u32 \<Rightarrow> 'a fs_scheme \<Rightarrow> (u32 \<times> 'a fs_scheme) res" where
  "writei_loop left i src off s =
     (if left = 0 then Inr (off, s)
      else rbind (bmap i (off div of_nat BSIZE) True s) (\<lambda>(a, s1).
        rbind (bread (i_dev (inode_at i s)) a s1) (\<lambda>(bp, s2).
        let b = unat off mod BSIZE; m = min left (BSIZE - b); d = data bp s2 in
        rbind (bwrite bp (set_data bp (take b d @ take m src @ drop (b + m) d) s2)) (\<lambda>s3.
        rbind (brelse bp s3) (\<lambda>s4.
        writei_loop (left - min left (BSIZE - unat off mod BSIZE)) i (drop m src) (off + of_nat m) s4)))))"
  by pat_completeness auto

termination writei_loop
proof (relation "measure fst")
  fix left :: nat and off :: u32
  assume "left \<noteq> 0"
  moreover have "unat off mod BSIZE < BSIZE" by (simp add: BSIZE_def)
  ultimately have "left - min left (BSIZE - unat off mod BSIZE) < left" by simp
  then show "((left - min left (BSIZE - unat off mod BSIZE), i, src', off', s3), left, i, src, off, s) \<in> measure fst"
    for i off' s3 s src' src by simp
qed simp

declare writei_loop.simps [simp del]

definition writei ::
    "(u16 \<Rightarrow> 'a fs_scheme devsw) \<Rightarrow> nat \<Rightarrow> u8 list \<Rightarrow> u32 \<Rightarrow> 'a fs_scheme \<Rightarrow> (u32 \<times> 'a fs_scheme) res" where
  "writei dsw i src off s =
     (let ip = inode_at i s; n = of_nat (length src) in
      if i_type ip = T_DEV then
        (if bad_major (i_major ip) then Inr (-1, s)
         else case dev_write (dsw (i_major ip)) of None \<Rightarrow> Inr (-1, s) | Some f \<Rightarrow> f i src s)
      else if off + n < off then Inr (-1, s)
      else let n1 = (if off + n > of_nat (MAXFILE * BSIZE) then of_nat (MAXFILE * BSIZE) - off else n) in
        rbind (writei_loop (unat n1) i src off s) (\<lambda>(off1, s1).
        if n1 > 0 \<and> off1 > i_size (inode_at i s1) then
          rbind (iupdate i (upd_inode i (\<lambda>ip. ip\<lparr>i_size := off1\<rparr>) s1)) (\<lambda>s2. Inr (n1, s2))
        else Inr (n1, s1)))"

end
