(* ===== verification/Fs_Dir.thy ===== *)
theory Fs_Dir
  imports Fs_File Strings
begin

text \<open>
  Directories and path names (\<^verbatim>\<open>fs.c\<close>). A directory is a file of 16-byte entries: a two-byte
  inode number, zero for a free entry, and a name of up to 14 bytes.
\<close>

section \<open>Directories\<close>

text \<open>\<^verbatim>\<open>strncmp\<close> on names given as lists; the NUL that ends a name is implicit.\<close>

definition first_char :: "u8 list \<Rightarrow> u8" where
  "first_char p = (case p of [] \<Rightarrow> 0 | c # _ \<Rightarrow> c)"

primrec strncmp_list :: "nat \<Rightarrow> u8 list \<Rightarrow> u8 list \<Rightarrow> int" where
  "strncmp_list 0 p q = 0"
| "strncmp_list (Suc n) p q =
     (if first_char p \<noteq> 0 \<and> first_char p = first_char q then strncmp_list n (tl p) (tl q)
      else uint (first_char p) - uint (first_char q))"

definition namecmp :: "u8 list \<Rightarrow> u8 list \<Rightarrow> int" where
  "namecmp a b = strncmp_list DIRSIZ a b"

definition de_inum :: "nat \<Rightarrow> u8 list \<Rightarrow> u16" where
  "de_inum k d = get16 (16 * k) d"

definition de_name :: "nat \<Rightarrow> u8 list \<Rightarrow> u8 list" where
  "de_name k d = take DIRSIZ (drop (16 * k + 2) d)"

text \<open>The loop of \<^verbatim>\<open>dirlookup\<close> over the blocks of the directory; the result is the inode and \<^verbatim>\<open>*poff\<close>.\<close>

primrec dirlookup_loop ::
    "u32 list \<Rightarrow> nat \<Rightarrow> u8 list \<Rightarrow> 'a fs_scheme \<Rightarrow> ((nat \<times> u32) option \<times> 'a fs_scheme) res" where
  "dirlookup_loop [] dp name s = Inr (None, s)"
| "dirlookup_loop (off # offs) dp name s =
     (let dev = i_dev (inode_at dp s) in
      rbind (bmap dp (off div of_nat BSIZE) False s) (\<lambda>(a, s1).
      rbind (bread dev a s1) (\<lambda>(bp, s2).
      let d = data bp s2 in
      case first_idx (\<lambda>k. de_inum k d \<noteq> 0 \<and> namecmp name (de_name k d) = 0) [0..<32] of
        Some k \<Rightarrow>
          rbind (brelse bp s2) (\<lambda>s3.
          rbind (iget dev (ucast (de_inum k d)) s3) (\<lambda>(ip, s4). Inr (Some (ip, off + of_nat (16 * k)), s4)))
      | None \<Rightarrow> rbind (brelse bp s2) (dirlookup_loop offs dp name))))"

definition dir_blocks :: "u32 \<Rightarrow> u32 list" where
  "dir_blocks sz = map (\<lambda>k. of_nat (k * BSIZE)) [0..<(unat sz + BSIZE - 1) div BSIZE]"

definition dirlookup :: "nat \<Rightarrow> u8 list \<Rightarrow> 'a fs_scheme \<Rightarrow> ((nat \<times> u32) option \<times> 'a fs_scheme) res" where
  "dirlookup dp name s =
     (if i_type (inode_at dp s) \<noteq> T_DIR then Inl (Panic ''dirlookup not DIR'')
      else dirlookup_loop (dir_blocks (i_size (inode_at dp s))) dp name s)"

text \<open>The search of \<^verbatim>\<open>dirlink\<close> for a free entry, over the offsets still to be tried; \<open>off\<close> is the current one.\<close>

primrec dirlink_scan ::
    "nat \<Rightarrow> u32 \<Rightarrow> (u16 \<Rightarrow> 'a fs_scheme devsw) \<Rightarrow> nat \<Rightarrow> 'a fs_scheme \<Rightarrow> (u32 \<times> 'a fs_scheme) res" where
  "dirlink_scan 0 off dsw dp s = Inr (off, s)"
| "dirlink_scan (Suc k) off dsw dp s =
     rbind (readi dsw dp off 16 s) (\<lambda>(r, de, s1).
     if r \<noteq> 16 then Inl (Panic ''dirlink read'')
     else if de_inum 0 de = 0 then Inr (off, s1)
     else dirlink_scan k (off + 16) dsw dp s1)"

definition make_dirent :: "u8 list \<Rightarrow> u32 \<Rightarrow> u8 list" where
  "make_dirent name ino =
     (let nm = take DIRSIZ name in put16 0 (ucast ino) (replicate 2 0 @ nm @ replicate (DIRSIZ - length nm) 0))"

definition dirlink ::
    "(u16 \<Rightarrow> 'a fs_scheme devsw) \<Rightarrow> nat \<Rightarrow> u8 list \<Rightarrow> u32 \<Rightarrow> 'a fs_scheme \<Rightarrow> (u32 \<times> 'a fs_scheme) res" where
  "dirlink dsw dp name ino s =
     rbind (dirlookup dp name s) (\<lambda>(r, s1).
     case r of
       Some (ip, _) \<Rightarrow> rbind (iput ip s1) (\<lambda>s2. Inr (-1, s2))
     | None \<Rightarrow>
         rbind (dirlink_scan ((unat (i_size (inode_at dp s1)) + 15) div 16) 0 dsw dp s1) (\<lambda>(off, s2).
         rbind (writei dsw dp (make_dirent name ino) off s2) (\<lambda>(n, s3).
         if n \<noteq> 16 then Inl (Panic ''dirlink'') else Inr (0, s3))))"

section \<open>Paths\<close>

definition slash :: u8 where "slash = 47"

text \<open>
  The next element of a path, cut off at 14 bytes, and the rest of the path without leading
  slashes; \<open>None\<close> if there is no element.
\<close>

definition skipelem :: "u8 list \<Rightarrow> (u8 list \<times> u8 list) option" where
  "skipelem path =
     (let p = dropWhile (\<lambda>c. c = slash) path in
      if p = [] then None
      else let s = takeWhile (\<lambda>c. c \<noteq> slash) p; p1 = dropWhile (\<lambda>c. c \<noteq> slash) p;
               name = (if DIRSIZ \<le> length s then take DIRSIZ s else s)
           in Some (name, dropWhile (\<lambda>c. c = slash) p1))"

lemma skipelem_shorter: "skipelem path = Some (name, p) \<Longrightarrow> length p < length path"
proof -
  assume a: "skipelem path = Some (name, p)"
  let ?q = "dropWhile (\<lambda>c. c = slash) path"
  have ne: "?q \<noteq> []" and p: "p = dropWhile (\<lambda>c. c = slash) (dropWhile (\<lambda>c. c \<noteq> slash) ?q)"
    using a by (auto simp: skipelem_def Let_def split: if_splits)
  have "hd ?q \<noteq> slash" using hd_dropWhile [OF ne] by simp
  then have "length (dropWhile (\<lambda>c. c \<noteq> slash) ?q) < length ?q"
    using ne by (cases ?q) (auto simp: le_imp_less_Suc length_dropWhile_le)
  moreover have "length p \<le> length (dropWhile (\<lambda>c. c \<noteq> slash) ?q)" unfolding p by (rule length_dropWhile_le)
  moreover have "length ?q \<le> length path" by (rule length_dropWhile_le)
  ultimately show ?thesis by linarith
qed

function namei_loop ::
    "u8 list \<Rightarrow> bool \<Rightarrow> nat \<Rightarrow> 'a fs_scheme \<Rightarrow> ((nat \<times> u8 list) option \<times> 'a fs_scheme) res" where
  "namei_loop path parent ip s =
     (case skipelem path of
        None \<Rightarrow> if parent then rbind (iput ip s) (\<lambda>s1. Inr (None, s1)) else Inr (Some (ip, []), s)
      | Some (name, p) \<Rightarrow>
          rbind (ilock (Some ip) s) (\<lambda>s1.
          if i_type (inode_at ip s1) \<noteq> T_DIR then rbind (iunlockput ip s1) (\<lambda>s2. Inr (None, s2))
          else if parent \<and> p = [] then rbind (iunlock (Some ip) s1) (\<lambda>s2. Inr (Some (ip, name), s2))
          else rbind (dirlookup ip name s1) (\<lambda>(r, s2).
            case r of None \<Rightarrow> rbind (iunlockput ip s2) (\<lambda>s3. Inr (None, s3))
            | Some (next, _) \<Rightarrow> rbind (iunlockput ip s2) (\<lambda>s3. namei_loop p parent next s3))))"
  by pat_completeness auto

termination namei_loop
  by (relation "measure (\<lambda>(path, _). length path)") (auto dest: skipelem_shorter)

declare namei_loop.simps [simp del]

text \<open>\<^verbatim>\<open>_namei\<close> for the process \<open>cp\<close>.\<close>

definition namei0 ::
    "nat \<Rightarrow> u8 list \<Rightarrow> bool \<Rightarrow> 'a fs_scheme \<Rightarrow> ((nat \<times> u8 list) option \<times> 'a fs_scheme) res" where
  "namei0 cp path parent s =
     (if path \<noteq> [] \<and> hd path = slash then rbind (iget ROOTDEV 1 s) (\<lambda>(ip, s1). namei_loop path parent ip s1)
      else let ip = the (p_cwd (proc_at cp s)) in namei_loop path parent ip (idup ip s))"

definition namei :: "nat \<Rightarrow> u8 list \<Rightarrow> 'a fs_scheme \<Rightarrow> (nat option \<times> 'a fs_scheme) res" where
  "namei cp path s = rbind (namei0 cp path False s) (\<lambda>(r, s1). Inr (map_option fst r, s1))"

definition nameiparent :: "nat \<Rightarrow> u8 list \<Rightarrow> 'a fs_scheme \<Rightarrow> ((nat \<times> u8 list) option \<times> 'a fs_scheme) res" where
  "nameiparent cp path s = namei0 cp path True s"

end
