(* ===== verification/Fs_Content.thy ===== *)
theory Fs_Content
  imports Fs_Inode Fs_Dir
begin

text \<open>
  The contents of files as bytes: what \<^verbatim>\<open>readi\<close> delivers and \<^verbatim>\<open>writei\<close> changes, through the
  direct blocks and the indirect block, and what \<^verbatim>\<open>dirlookup\<close> finds in a directory.
\<close>

section \<open>A file as an array of bytes\<close>

definition file_bn :: "'a blk_scheme \<Rightarrow> inode \<Rightarrow> nat \<Rightarrow> u32" where
  "file_bn s ip k =
     (if k < NDIRECT then i_addrs ip ! k
      else get32 (4 * (k - NDIRECT)) (block s (i_dev ip) (i_addrs ip ! INDIRECT)))"

definition file_block :: "'a blk_scheme \<Rightarrow> inode \<Rightarrow> nat \<Rightarrow> u8 list" where
  "file_block s ip k = block s (i_dev ip) (file_bn s ip k)"

definition file_byte :: "'a blk_scheme \<Rightarrow> inode \<Rightarrow> nat \<Rightarrow> u8" where
  "file_byte s ip pos = file_block s ip (pos div BSIZE) ! (pos mod BSIZE)"

text \<open>A block of the kernel's caller's device that exists and that nobody holds.\<close>

definition usable :: "nat set \<Rightarrow> 'a blk_scheme \<Rightarrow> u32 \<Rightarrow> u32 \<Rightarrow> bool" where
  "usable H s dev a \<longleftrightarrow> a \<noteq> 0 \<and> loc_ok dev a \<and> unheld H s dev a"

definition has_block :: "inode \<Rightarrow> nat \<Rightarrow> bool" where
  "has_block ip k \<longleftrightarrow> k * BSIZE < unat (i_size ip)"

definition file_ok :: "nat set \<Rightarrow> 'a blk_scheme \<Rightarrow> inode \<Rightarrow> bool" where
  "file_ok H s ip \<longleftrightarrow> unat (i_size ip) \<le> MAXFILE * BSIZE
     \<and> (\<forall>k. has_block ip k \<longrightarrow> usable H s (i_dev ip) (file_bn s ip k) \<and> length (file_block s ip k) = BSIZE)
     \<and> (has_block ip NDIRECT \<longrightarrow> usable H s (i_dev ip) (i_addrs ip ! INDIRECT))"

lemma usable_stable: "stable H s s' \<Longrightarrow> usable H s' dev a \<longleftrightarrow> usable H s dev a"
  by (auto simp: usable_def unheld_def stable_def bc.keeps_def)

lemma file_same:
  assumes "block s' = block s"
  shows "file_bn s' ip = file_bn s ip" and "file_block s' ip = file_block s ip" and "file_byte s' ip = file_byte s ip"
  using assms by (simp_all add: file_bn_def file_block_def file_byte_def fun_eq_iff)

lemma file_ok_same:
  assumes "stable H s s'" and "block s' = block s" shows "file_ok H s' ip \<longleftrightarrow> file_ok H s ip"
  unfolding file_ok_def usable_stable [OF assms(1)] file_same [OF assms(2)] ..

lemma has_block_less: "has_block ip k \<Longrightarrow> j \<le> k \<Longrightarrow> has_block ip j"
  unfolding has_block_def by (meson le_less_trans mult_le_mono1)

lemma has_block_div: "pos < unat (i_size ip) \<Longrightarrow> has_block ip (pos div BSIZE)"
  unfolding has_block_def by (meson div_times_less_eq_dividend le_less_trans)

lemma has_block_MAXFILE: "file_ok H s ip \<Longrightarrow> has_block ip k \<Longrightarrow> k < MAXFILE"
  by (simp add: file_ok_def has_block_def BSIZE_def)

lemma bmap_mapped:
  assumes "bio_ok H s" and "room H" and "inode_at i s = ip" and "file_ok H s ip" and "has_block ip k" and "unat bn = k"
  obtains s' where "bmap i bn alloc s = Inr (file_bn s ip k, s')" and "stable H s s'" and "block s' = block s"
proof (cases "k < NDIRECT")
  case True
  moreover have "file_bn s ip k \<noteq> 0" using assms(4,5) by (simp add: file_ok_def usable_def)
  ultimately show ?thesis
    using that [of s] assms(3,6) stable_refl [OF assms(1)] by (simp add: bmap_def file_bn_def)
next
  case False
  let ?a = "i_addrs ip ! INDIRECT"
  have nz: "file_bn s ip k \<noteq> 0" using assms(4,5) by (simp add: file_ok_def usable_def)
  have k: "k - NDIRECT < NINDIRECT" using False has_block_MAXFILE [OF assms(4,5)] by (simp add: MAXFILE_def)
  have "has_block ip NDIRECT" using has_block_less [OF assms(5)] False by simp
  then have u: "?a \<noteq> 0" "loc_ok (i_dev ip) ?a" "unheld H s (i_dev ip) ?a"
    using assms(4) by (simp_all add: file_ok_def usable_def)
  obtain bp s1 s2 where r: "bread (i_dev ip) ?a s = Inr (bp, s1)" "data bp s1 = block s (i_dev ip) ?a"
    "brelse bp s1 = Inr s2" "stable H s s2" "block s2 = block s"
    using blk_look [OF assms(1) u(2) assms(2) u(3)] .
  then show ?thesis
    using that [of s2] False k nz u(1) assms(3,6) by (simp add: bmap_def Let_def file_bn_def)
qed

lemma pos_step:
  assumes "unat (off :: u32) + left \<le> MAXFILE * BSIZE" and "m = min left (BSIZE - unat off mod BSIZE)"
  shows "unat (off + of_nat m) = unat off + m" and "unat (off div of_nat BSIZE) = unat off div BSIZE"
proof -
  have "m < 4294967296" "unat off + m < 4294967296"
    using assms by (simp_all add: MAXFILE_def BSIZE_def NDIRECT_def NINDIRECT_def)
  then show "unat (off + of_nat m) = unat off + m" by (simp add: unat_add_u32)
  show "unat (off div of_nat BSIZE) = unat off div BSIZE" by (simp add: unat_div BSIZE_def)
qed

lemma same_block:
  assumes "p mod B + t < (B :: nat)" shows "(p + t) div B = p div B" and "(p + t) mod B = p mod B + t"
proof -
  have e: "p + t = (p mod B + t) + (p div B) * B" by simp
  have "B \<noteq> 0" using assms by simp
  then show "(p + t) div B = p div B" unfolding e using assms by (subst div_mult_self1) simp_all
  show "(p + t) mod B = p mod B + t" unfolding e using assms by (subst mod_mult_self1) simp
qed

lemma chunk_bytes:
  assumes "length (file_block s ip (p div BSIZE)) = BSIZE" and "p mod BSIZE + m \<le> BSIZE"
  shows "take m (drop (p mod BSIZE) (file_block s ip (p div BSIZE))) = map (file_byte s ip) [p..<p + m]"
proof (rule nth_equalityI)
  show "length (take m (drop (p mod BSIZE) (file_block s ip (p div BSIZE)))) = length (map (file_byte s ip) [p..<p + m])"
    using assms by simp
next
  fix t assume "t < length (take m (drop (p mod BSIZE) (file_block s ip (p div BSIZE))))"
  then have t: "t < m" by simp
  have "(p + t) div BSIZE = p div BSIZE" "(p + t) mod BSIZE = p mod BSIZE + t"
    using same_block [of p BSIZE t] t assms(2) by simp_all
  then show "take m (drop (p mod BSIZE) (file_block s ip (p div BSIZE))) ! t = map (file_byte s ip) [p..<p + m] ! t"
    using t assms by (simp add: file_byte_def)
qed

lemma readi_loop_ok:
  assumes "bio_ok H s" and "room H" and "inode_at i s = ip" and "file_ok H s ip" and "unat off + left \<le> unat (i_size ip)"
  shows "\<exists>s'. readi_loop left i off s = Inr (map (file_byte s ip) [unat off..<unat off + left], s')
    \<and> stable H s s' \<and> block s' = block s"
  using assms(1,3-5)
proof (induction left arbitrary: off s rule: less_induct)
  case (less left)
  show ?case
  proof (cases "left = 0")
    case True
    then show ?thesis using stable_refl [OF less.prems(1)] by (simp add: readi_loop.simps)
  next
    case False
    let ?k = "unat off div BSIZE" and ?b = "unat off mod BSIZE"
    define m where "m = min left (BSIZE - ?b)"
    have b: "?b < BSIZE" by (simp add: BSIZE_def)
    have m: "0 < m" "m \<le> left" "?b + m \<le> BSIZE" using False b by (auto simp: m_def)
    have "unat off + left \<le> MAXFILE * BSIZE" using less.prems(3,4) by (auto simp: file_ok_def)
    note pos = pos_step [OF this m_def]
    have hb: "has_block ip ?k" using less.prems(4) False by (intro has_block_div) simp
    obtain s1 where s1: "bmap i (off div of_nat BSIZE) False s = Inr (file_bn s ip ?k, s1)" "stable H s s1" "block s1 = block s"
      using bmap_mapped [OF less.prems(1) assms(2) less.prems(2,3) hb pos(2)] .
    have u: "usable H s1 (i_dev ip) (file_bn s ip ?k)" "length (file_block s ip ?k) = BSIZE"
      using less.prems(3) hb usable_stable [OF s1(2)] by (simp_all add: file_ok_def)
    obtain bp s2 s3 where r: "bread (i_dev ip) (file_bn s ip ?k) s1 = Inr (bp, s2)" "data bp s2 = file_block s ip ?k"
      "brelse bp s2 = Inr s3" "stable H s1 s3" "block s3 = block s"
      using blk_look [OF stableD(1) [OF s1(2)] _ assms(2), of "i_dev ip" "file_bn s ip ?k"] u(1) s1(3)
      by (auto simp: usable_def file_block_def)
    have st: "stable H s s3" using stable_trans [OF s1(2) r(4)] .
    have "left - m < left" using m False by simp
    moreover have "inode_at i s3 = ip" using rest_inode [OF stableD(2) [OF st]] less.prems(2) by simp
    ultimately obtain s4 where s4: "readi_loop (left - m) i (off + of_nat m) s3
        = Inr (map (file_byte s3 ip) [unat (off + of_nat m)..<unat (off + of_nat m) + (left - m)], s4)"
        "stable H s3 s4" "block s4 = block s3"
      using less.IH [of "left - m" s3 "off + of_nat m"] stableD(1) [OF st] file_ok_same [OF st r(5)] less.prems(3,4) pos(1) m(2)
      by auto
    have "[unat off..<unat off + left] = [unat off..<unat off + m] @ [unat off + m..<unat off + left]"
      using m(2) upt_add_eq_append [of "unat off" "unat off + m" "left - m"] by simp
    then have "map (file_byte s ip) [unat off..<unat off + left]
        = take m (drop ?b (file_block s ip ?k)) @ map (file_byte s3 ip) [unat (off + of_nat m)..<unat (off + of_nat m) + (left - m)]"
      using chunk_bytes [OF u(2) m(3)] pos(1) m(2) file_same(3) [OF r(5), of ip] by simp
    then have "readi_loop left i off s = Inr (map (file_byte s ip) [unat off..<unat off + left], s4)"
      using False s1(1) r(1-3) s4(1) less.prems(2)
      by (subst readi_loop.simps) (simp add: Let_def flip: m_def)
    then show ?thesis using stable_trans [OF st s4(2)] s4(3) r(5) by auto
  qed
qed

section \<open>Overwriting\<close>

text \<open>The data blocks of a file are distinct from each other and from the indirect block.\<close>

definition own_blocks :: "'a blk_scheme \<Rightarrow> inode \<Rightarrow> bool" where
  "own_blocks s ip \<longleftrightarrow>
     (\<forall>j k. has_block ip j \<longrightarrow> has_block ip k \<longrightarrow> file_bn s ip j = file_bn s ip k \<longrightarrow> j = k)
     \<and> (\<forall>k. has_block ip NDIRECT \<longrightarrow> has_block ip k \<longrightarrow> file_bn s ip k \<noteq> i_addrs ip ! INDIRECT)"

lemma file_bn_upd:
  assumes "disk_upd s (i_dev ip) (file_bn s ip k) x s'" and "file_ok H s ip" and "own_blocks s ip"
    and "has_block ip k" and "has_block ip j"
  shows "file_bn s' ip j = file_bn s ip j"
proof (cases "j < NDIRECT")
  case False
  then have n: "has_block ip NDIRECT" using has_block_less [OF assms(5)] by simp
  then have "loc_ok (i_dev ip) (i_addrs ip ! INDIRECT)" "file_bn s ip k \<noteq> i_addrs ip ! INDIRECT"
    using assms(2-4) by (auto simp: file_ok_def usable_def own_blocks_def)
  then show ?thesis using assms(1) by (simp add: file_bn_def disk_upd_def)
qed (simp add: file_bn_def)

lemma file_block_upd:
  assumes "disk_upd s (i_dev ip) (file_bn s ip k) x s'" and "file_ok H s ip" and "own_blocks s ip"
    and "has_block ip k" and "has_block ip j"
  shows "file_block s' ip j = (if j = k then x else file_block s ip j)"
proof -
  have "loc_ok (i_dev ip) (file_bn s ip j)" using assms(2,5) by (simp add: file_ok_def usable_def)
  moreover have "file_bn s ip j = file_bn s ip k \<longleftrightarrow> j = k" using assms(3-5) by (auto simp: own_blocks_def)
  ultimately show ?thesis
    using assms(1) file_bn_upd [OF assms] by (simp add: file_block_def disk_upd_def)
qed

lemma file_ok_upd:
  assumes "disk_upd s (i_dev ip) (file_bn s ip k) x s'" and "file_ok H s ip" and "own_blocks s ip"
    and "has_block ip k" and "stable H s s'" and "length x = BSIZE"
  shows "file_ok H s' ip" and "own_blocks s' ip"
  using assms(2,3,6) file_bn_upd [OF assms(1-4)] file_block_upd [OF assms(1-4)] usable_stable [OF assms(5)]
  by (auto simp: file_ok_def own_blocks_def)

text \<open>What a write of \<open>src\<close> at \<open>p\<close> makes of the bytes of the file.\<close>

definition overwrite :: "nat \<Rightarrow> u8 list \<Rightarrow> (nat \<Rightarrow> u8) \<Rightarrow> nat \<Rightarrow> u8" where
  "overwrite p src f pos = (if p \<le> pos \<and> pos < p + length src then src ! (pos - p) else f pos)"

lemma overwrite_append: "overwrite (p + length xs) ys (overwrite p xs f) = overwrite p (xs @ ys) f"
  by (auto simp: overwrite_def fun_eq_iff nth_append)

lemma file_byte_upd:
  assumes "disk_upd s (i_dev ip) (file_bn s ip (p div BSIZE)) x s'" and "file_ok H s ip" and "own_blocks s ip"
    and "x = take (p mod BSIZE) d @ xs @ drop (p mod BSIZE + length xs) d" and "d = file_block s ip (p div BSIZE)"
    and "p mod BSIZE + length xs \<le> BSIZE" and "p < unat (i_size ip)" and "pos < unat (i_size ip)"
  shows "file_byte s' ip pos = overwrite p xs (file_byte s ip) pos"
proof -
  have hb: "has_block ip (p div BSIZE)" "has_block ip (pos div BSIZE)" using assms(7,8) by (simp_all add: has_block_div)
  have d: "length d = BSIZE" using assms(2,5) hb(1) by (simp add: file_ok_def)
  have fb: "file_block s' ip (pos div BSIZE) = (if pos div BSIZE = p div BSIZE then x else file_block s ip (pos div BSIZE))"
    using file_block_upd [OF assms(1-3) hb] .
  have m: "pos mod BSIZE < BSIZE" by (simp add: BSIZE_def)
  show ?thesis
  proof (cases "pos div BSIZE = p div BSIZE")
    case False
    have "\<not> (p \<le> pos \<and> pos < p + length xs)"
      using same_block(1) [of p BSIZE "pos - p"] assms(6) False by (metis le_add_diff_inverse less_diff_conv2 less_le_trans nat_add_left_cancel_less)
    then show ?thesis using fb False by (auto simp: file_byte_def overwrite_def)
  next
    case True
    have eq: "pos = BSIZE * (p div BSIZE) + pos mod BSIZE" "p = BSIZE * (p div BSIZE) + p mod BSIZE"
      using True by (metis mult_div_mod_eq, simp)
    then have c: "p \<le> pos \<longleftrightarrow> p mod BSIZE \<le> pos mod BSIZE" "pos - p = pos mod BSIZE - p mod BSIZE"
      "pos < p + length xs \<longleftrightarrow> pos mod BSIZE < p mod BSIZE + length xs" by linarith+
    have "x ! (pos mod BSIZE) = (if p mod BSIZE \<le> pos mod BSIZE \<and> pos mod BSIZE < p mod BSIZE + length xs
        then xs ! (pos mod BSIZE - p mod BSIZE) else d ! (pos mod BSIZE))"
      using m d assms(4,6) by (auto simp: nth_append)
    then show ?thesis using fb True c assms(5) by (simp add: file_byte_def overwrite_def)
  qed
qed

lemma writei_loop_ok:
  assumes "bio_ok H s" and "room H" and "inode_at i s = ip" and "file_ok H s ip" and "own_blocks s ip"
    and "unat off + left \<le> unat (i_size ip)" and "length src = left"
  shows "\<exists>s'. writei_loop left i src off s = Inr (off + of_nat left, s') \<and> stable H s s'
    \<and> file_ok H s' ip \<and> own_blocks s' ip
    \<and> (\<forall>pos < unat (i_size ip). file_byte s' ip pos = overwrite (unat off) src (file_byte s ip) pos)
    \<and> (\<forall>d c. loc_ok d c \<longrightarrow> (\<forall>k. has_block ip k \<longrightarrow> (d, c) \<noteq> (i_dev ip, file_bn s ip k)) \<longrightarrow> block s' d c = block s d c)"
  using assms(1,3-7)
proof (induction left arbitrary: off s src rule: less_induct)
  case (less left)
  show ?case
  proof (cases "left = 0")
    case True
    then show ?thesis using stable_refl [OF less.prems(1)] less.prems(3,4,6) by (auto simp: writei_loop.simps overwrite_def)
  next
    case False
    let ?k = "unat off div BSIZE" and ?b = "unat off mod BSIZE"
    define m where "m = min left (BSIZE - ?b)"
    have b: "?b < BSIZE" by (simp add: BSIZE_def)
    have m: "0 < m" "m \<le> left" "?b + m \<le> BSIZE" using False b by (auto simp: m_def)
    have "unat off + left \<le> MAXFILE * BSIZE" using less.prems(3,5) by (auto simp: file_ok_def)
    note pos = pos_step [OF this m_def]
    have hb: "has_block ip ?k" using less.prems(5) False by (intro has_block_div) simp
    obtain s1 where s1: "bmap i (off div of_nat BSIZE) True s = Inr (file_bn s ip ?k, s1)" "stable H s s1" "block s1 = block s"
      using bmap_mapped [OF less.prems(1) assms(2) less.prems(2,3) hb pos(2)] .
    have u: "usable H s1 (i_dev ip) (file_bn s ip ?k)" "length (file_block s ip ?k) = BSIZE"
      using less.prems(3) hb usable_stable [OF s1(2)] by (simp_all add: file_ok_def)
    define x where "x = take ?b (file_block s ip ?k) @ take m src @ drop (?b + length (take m src)) (file_block s ip ?k)"
    have lx: "length (take m src) = m" "length x = BSIZE" using m u(2) less.prems(6) by (simp_all add: x_def)
    obtain bp s2 s3 s4 where r: "bread (i_dev ip) (file_bn s ip ?k) s1 = Inr (bp, s2)" "data bp s2 = file_block s ip ?k"
      "bwrite bp (set_data bp x s2) = Inr s3" "brelse bp s3 = Inr s4" "stable H s1 s4"
      "disk_upd s1 (i_dev ip) (file_bn s ip ?k) x s4"
      using blk_change [OF stableD(1) [OF s1(2)] _ assms(2), of "i_dev ip" "file_bn s ip ?k"] u(1) s1(3)
      unfolding usable_def file_block_def by metis
    have st: "stable H s s4" using stable_trans [OF s1(2) r(5)] .
    have du: "disk_upd s (i_dev ip) (file_bn s ip ?k) x s4" using r(6) s1(3) by (simp add: disk_upd_def)
    note ok4 = file_ok_upd [OF du less.prems(3,4) hb st lx(2)]
    have byte: "file_byte s4 ip p = overwrite (unat off) (take m src) (file_byte s ip) p" if "p < unat (i_size ip)" for p
      using file_byte_upd [OF du less.prems(3,4) x_def refl _ _ that] lx(1) m(3) less.prems(5) False by simp
    have ip4: "inode_at i s4 = ip" using rest_inode [OF stableD(2) [OF st]] less.prems(2) by simp
    obtain s5 where s5: "writei_loop (left - m) i (drop m src) (off + of_nat m) s4 = Inr (off + of_nat m + of_nat (left - m), s5)"
      "stable H s4 s5" "file_ok H s5 ip" "own_blocks s5 ip"
      "\<forall>p < unat (i_size ip). file_byte s5 ip p = overwrite (unat (off + of_nat m)) (drop m src) (file_byte s4 ip) p"
      "\<forall>d c. loc_ok d c \<longrightarrow> (\<forall>k. has_block ip k \<longrightarrow> (d, c) \<noteq> (i_dev ip, file_bn s4 ip k)) \<longrightarrow> block s5 d c = block s4 d c"
      using less.IH [of "left - m" s4 "off + of_nat m" "drop m src"] m(1,2) False stableD(1) [OF st] ip4 ok4 pos(1) less.prems(5,6)
      by auto
    have "off + of_nat m + of_nat (left - m) = off + of_nat left" using m(2) by (simp add: add.assoc flip: of_nat_add)
    moreover have "writei_loop left i src off s = writei_loop (left - m) i (drop m src) (off + of_nat m) s4"
      using False s1(1) r(1-4) less.prems(2) lx(1)
      by (subst writei_loop.simps) (simp add: Let_def x_def flip: m_def)
    moreover have "file_byte s5 ip p = overwrite (unat off) src (file_byte s ip) p" if "p < unat (i_size ip)" for p
      using s5(5) byte that overwrite_append [of "unat off" "take m src" "drop m src" "file_byte s ip"] lx(1) pos(1)
      by (auto simp: overwrite_def fun_eq_iff)
    moreover have "block s5 d c = block s d c" if "loc_ok d c" and "\<forall>k. has_block ip k \<longrightarrow> (d, c) \<noteq> (i_dev ip, file_bn s ip k)" for d c
    proof -
      have "block s5 d c = block s4 d c" using s5(6) that file_bn_upd [OF du less.prems(3,4) hb] by auto
      then show ?thesis using du that hb by (auto simp: disk_upd_def)
    qed
    ultimately show ?thesis using s5(1,3,4) stable_trans [OF st s5(2)] by auto
  qed
qed

lemma readi_ok:
  assumes "bio_ok H s" and "room H" and "ip = inode_at i s" and "file_ok H s ip" and "i_type ip \<noteq> T_DEV"
    and "k = min (unat n) (unat (i_size ip) - unat off)"
  shows "if unat off > unat (i_size ip) \<or> unat off + unat n \<ge> 4294967296 then readi dsw i off n s = Inr (-1, [], s)
    else \<exists>s'. readi dsw i off n s = Inr (of_nat k, map (file_byte s ip) [unat off..<unat off + k], s')
      \<and> block s' = block s \<and> stable H s s'"
proof -
  have wrap: "off + n < off \<longleftrightarrow> unat off + unat n \<ge> 4294967296"
    using unat_lt_2p32 [of off] unat_lt_2p32 [of n] by (auto simp: word_less_nat_alt unat_word_ariths mod_if)
  show ?thesis
  proof (cases "unat off > unat (i_size ip) \<or> unat off + unat n \<ge> 4294967296")
    case True
    then show ?thesis using wrap assms(3,5) by (auto simp: readi_def Let_def word_less_nat_alt)
  next
    case False
    define n1 where "n1 = (if off + n > i_size ip then i_size ip - off else n)"
    have "unat (off + n) = unat off + unat n" using False by (simp add: unat_add_u32)
    then have n1: "unat n1 = k"
      using False assms(6) by (auto simp: n1_def word_less_nat_alt word_le_nat_alt unat_sub)
    have nt: "\<not> off > i_size ip" "\<not> off + n < off" using False wrap by (auto simp: word_less_nat_alt)
    have "unat off + k \<le> unat (i_size ip)" using False assms(6) by auto
    then obtain s' where s': "readi_loop k i off s = Inr (map (file_byte s ip) [unat off..<unat off + k], s')"
        "stable H s s'" "block s' = block s"
      using readi_loop_ok [OF assms(1,2) assms(3) [symmetric] assms(4)] by blast
    have "readi dsw i off n s = Inr (n1, map (file_byte s ip) [unat off..<unat off + k], s')"
      using nt assms(3,5) s'(1) n1 unfolding readi_def Let_def n1_def by (simp split: if_splits)
    moreover have "n1 = of_nat k" using n1 by (simp flip: n1)
    ultimately show ?thesis using False s'(2,3) by auto
  qed
qed

section \<open>Directories\<close>

definition dir_inum :: "'a blk_scheme \<Rightarrow> inode \<Rightarrow> nat \<Rightarrow> u16" where
  "dir_inum s ip k = de_inum (k mod 32) (file_block s ip (k div 32))"

definition dir_name :: "'a blk_scheme \<Rightarrow> inode \<Rightarrow> nat \<Rightarrow> u8 list" where
  "dir_name s ip k = de_name (k mod 32) (file_block s ip (k div 32))"

text \<open>Entry \<open>k\<close> of the directory is in use and has the name.\<close>

definition dir_match :: "'a blk_scheme \<Rightarrow> inode \<Rightarrow> u8 list \<Rightarrow> nat \<Rightarrow> bool" where
  "dir_match s ip name k \<longleftrightarrow> dir_inum s ip k \<noteq> 0 \<and> namecmp name (dir_name s ip k) = 0"

definition dir_nblocks :: "inode \<Rightarrow> nat" where
  "dir_nblocks ip = (unat (i_size ip) + BSIZE - 1) div BSIZE"

lemma has_block_nblocks: "has_block ip k \<longleftrightarrow> k < dir_nblocks ip"
  by (auto simp: has_block_def dir_nblocks_def BSIZE_def)

lemma first_idx_upt_Some: "first_idx P [i..<j] = Some k \<longleftrightarrow> i + k < j \<and> P (i + k) \<and> (\<forall>l < k. \<not> P (i + l))"
  by (auto simp: first_idx_Some)

lemma first_idx_append: "first_idx P (xs @ ys) =
    (case first_idx P xs of Some k \<Rightarrow> Some k | None \<Rightarrow> map_option ((+) (length xs)) (first_idx P ys))"
proof (induction xs)
  case Nil
  then show ?case by (cases "first_idx P ys") simp_all
next
  case (Cons x xs)
  then show ?case by (cases "first_idx P xs"; cases "first_idx P ys") simp_all
qed

lemma first_idx_skip:
  assumes "i + n \<le> j" and "\<forall>k < n. \<not> P (i + k)"
  shows "first_idx P [i..<j] = map_option ((+) n) (first_idx P [i + n..<j])"
proof -
  have "[i..<j] = [i..<i + n] @ [i + n..<j]" using assms(1) upt_add_eq_append [of i "i + n" "j - (i + n)"] by simp
  moreover have "first_idx P [i..<i + n] = None"
    using assms(2) by (auto simp: first_idx_None) (metis le_add_diff_inverse less_diff_conv2 add.commute le_add1 nat_add_left_cancel_less)
  ultimately show ?thesis by (simp add: first_idx_append)
qed

lemma dirlookup_loop_ok:
  assumes "bio_ok H s" and "room H" and "inode_at dp s = ip" and "file_ok H s ip" and "b \<le> dir_nblocks ip"
    and "offs = map (\<lambda>k. of_nat (k * BSIZE)) [b..<dir_nblocks ip]"
  shows "\<exists>s'. stable H s s' \<and> block s' = block s \<and> dirlookup_loop offs dp name s =
    (case first_idx (dir_match s ip name) [b * 32..<dir_nblocks ip * 32] of
       None \<Rightarrow> Inr (None, s')
     | Some k \<Rightarrow> rbind (iget (i_dev ip) (ucast (dir_inum s ip (b * 32 + k))) s')
                  (\<lambda>(j, s2). Inr (Some (j, of_nat (16 * (b * 32 + k))), s2)))"
  using assms(1,3-6)
proof (induction "dir_nblocks ip - b" arbitrary: b s offs)
  case 0
  then show ?case using stable_refl [OF 0(2)] by (intro exI [of _ s]) simp
next
  case (Suc n)
  have lt: "b < dir_nblocks ip" using Suc.hyps(2) by simp
  have offs: "offs = of_nat (b * BSIZE) # map (\<lambda>k. of_nat (k * BSIZE)) [Suc b..<dir_nblocks ip]"
    using lt Suc.prems(5) by (simp add: upt_conv_Cons)
  have hb: "has_block ip b" using lt by (simp add: has_block_nblocks)
  have "b < MAXFILE" using has_block_MAXFILE [OF Suc.prems(3) hb] .
  then have "unat (of_nat (b * BSIZE) div of_nat BSIZE :: u32) = b"
    by (simp add: unat_div BSIZE_def MAXFILE_def NDIRECT_def NINDIRECT_def del: of_nat_mult)
  then obtain s1 where s1: "bmap dp (of_nat (b * BSIZE) div of_nat BSIZE) False s = Inr (file_bn s ip b, s1)" "stable H s s1" "block s1 = block s"
    using bmap_mapped [OF Suc.prems(1) assms(2) Suc.prems(2,3) hb] by metis
  have u: "usable H s1 (i_dev ip) (file_bn s ip b)" using Suc.prems(3) hb usable_stable [OF s1(2)] by (simp add: file_ok_def)
  obtain bp s2 s3 where r: "bread (i_dev ip) (file_bn s ip b) s1 = Inr (bp, s2)" "data bp s2 = file_block s ip b"
    "brelse bp s2 = Inr s3" "stable H s1 s3" "block s3 = block s"
    using blk_look [OF stableD(1) [OF s1(2)] _ assms(2), of "i_dev ip" "file_bn s ip b"] u s1(3)
    by (auto simp: usable_def file_block_def)
  have st: "stable H s s3" using stable_trans [OF s1(2) r(4)] .
  let ?P = "\<lambda>k. de_inum k (file_block s ip b) \<noteq> 0 \<and> namecmp name (de_name k (file_block s ip b)) = 0"
  have P: "?P k \<longleftrightarrow> dir_match s ip name (b * 32 + k)" if "k < 32" for k
    using that by (simp add: dir_match_def dir_inum_def dir_name_def)
  show ?case
  proof (cases "first_idx ?P [0..<32]")
    case (Some k)
    then have k: "k < 32" "?P k" "\<forall>l < k. \<not> ?P l" using first_idx_upt_Some [of ?P 0 32 k] by simp_all
    have "b * 32 + k < dir_nblocks ip * 32" using lt k(1) by linarith
    then have fi: "first_idx (dir_match s ip name) [b * 32..<dir_nblocks ip * 32] = Some k"
      using k P by (auto simp: first_idx_upt_Some)
    have "de_inum k (file_block s ip b) = dir_inum s ip (b * 32 + k)" using k(1) by (simp add: dir_inum_def)
    moreover have "(of_nat (b * BSIZE) + of_nat (16 * k) :: u32) = of_nat (16 * (b * 32 + k))"
      by (simp add: BSIZE_def algebra_simps)
    ultimately have "dirlookup_loop offs dp name s = rbind (iget (i_dev ip) (ucast (dir_inum s ip (b * 32 + k))) s3)
        (\<lambda>(j, s2). Inr (Some (j, of_nat (16 * (b * 32 + k))), s2))"
      unfolding offs using s1(1) r(1-3) Some Suc.prems(2) by (simp add: Let_def)
    then show ?thesis using fi st r(5) by auto
  next
    case None
    then have none: "\<forall>k < 32. \<not> dir_match s ip name (b * 32 + k)" using P by (auto simp: first_idx_None)
    have step: "dirlookup_loop offs dp name s = dirlookup_loop (map (\<lambda>k. of_nat (k * BSIZE)) [Suc b..<dir_nblocks ip]) dp name s3"
      unfolding offs using s1(1) r(1-3) None Suc.prems(2) by (simp add: Let_def)
    have ip3: "inode_at dp s3 = ip" using rest_inode [OF stableD(2) [OF st]] Suc.prems(2) by simp
    have n: "n = dir_nblocks ip - Suc b" using Suc.hyps(2) by simp
    have ok3: "file_ok H s3 ip" using file_ok_same [OF st r(5)] Suc.prems(3) by simp
    have same: "dir_match s3 ip name = dir_match s ip name" "dir_inum s3 ip = dir_inum s ip"
      using file_same(2) [OF r(5), of ip] by (simp_all add: dir_match_def dir_inum_def dir_name_def fun_eq_iff)
    obtain s4 where s4: "stable H s3 s4" "block s4 = block s3" "dirlookup_loop (map (\<lambda>k. of_nat (k * BSIZE)) [Suc b..<dir_nblocks ip]) dp name s3 =
      (case first_idx (dir_match s ip name) [Suc b * 32..<dir_nblocks ip * 32] of None \<Rightarrow> Inr (None, s4)
       | Some k \<Rightarrow> rbind (iget (i_dev ip) (ucast (dir_inum s ip (Suc b * 32 + k))) s4)
           (\<lambda>(j, s2). Inr (Some (j, of_nat (16 * (Suc b * 32 + k))), s2)))"
      using Suc.hyps(1) [OF n stableD(1) [OF st] ip3 ok3 _ refl] lt unfolding same by (auto simp del: of_nat_mult mult_Suc)
    have skip: "first_idx (dir_match s ip name) [b * 32..<dir_nblocks ip * 32]
        = map_option ((+) 32) (first_idx (dir_match s ip name) [Suc b * 32..<dir_nblocks ip * 32])"
      using first_idx_skip [of "b * 32" 32 "dir_nblocks ip * 32" "dir_match s ip name"] lt none
      by (simp add: add.commute)
    show ?thesis
      using s4 stable_trans [OF st s4(1)] r(5) step
      by (intro exI [of _ s4]) (auto simp: skip algebra_simps split: option.splits)
  qed
qed

text \<open>\<^verbatim>\<open>namecmp\<close> compares names up to the first NUL and up to 14 bytes.\<close>

lemma strncmp_list_eq_0:
  "strncmp_list n p q = 0 \<longleftrightarrow> take n (takeWhile (\<lambda>c. c \<noteq> 0) p) = take n (takeWhile (\<lambda>c. c \<noteq> 0) q)"
proof (induction n arbitrary: p q)
  case (Suc n)
  then show ?case by (cases p; cases q) (auto simp: first_char_def word_uint_eq_iff)
qed simp

lemma dirlookup_ok:
  assumes "bio_ok H s" and "room H" and "ip = inode_at dp s" and "file_ok H s ip" and "i_type ip = T_DIR"
  shows "\<exists>s'. stable H s s' \<and> block s' = block s \<and> dirlookup dp name s =
    (case first_idx (dir_match s ip name) [0..<dir_nblocks ip * 32] of
       None \<Rightarrow> Inr (None, s')
     | Some k \<Rightarrow> rbind (iget (i_dev ip) (ucast (dir_inum s ip k)) s') (\<lambda>(j, s2). Inr (Some (j, of_nat (16 * k)), s2)))"
proof -
  have "dirlookup dp name s = dirlookup_loop (map (\<lambda>k. of_nat (k * BSIZE)) [0..<dir_nblocks ip]) dp name s"
    using assms(3,5) by (simp add: dirlookup_def dir_blocks_def dir_nblocks_def)
  then show ?thesis
    using dirlookup_loop_ok [OF assms(1,2) assms(3) [symmetric] assms(4) le0 refl, of name]
    by (simp del: of_nat_mult cong: option.case_cong)
qed

lemma dir_match_same:
  "dir_match s ip name = (\<lambda>k. dir_inum s ip k \<noteq> 0 \<and>
     take DIRSIZ (takeWhile (\<lambda>c. c \<noteq> 0) name) = take DIRSIZ (takeWhile (\<lambda>c. c \<noteq> 0) (dir_name s ip k)))"
  by (simp add: dir_match_def namecmp_def strncmp_list_eq_0 fun_eq_iff)

lemma leading_slashes: "\<exists>i. p = replicate i slash @ dropWhile (\<lambda>c. c = slash) p"
proof (induction p)
  case (Cons c p)
  then obtain i where "p = replicate i slash @ dropWhile (\<lambda>c. c = slash) p" by blast
  then have "c = slash \<Longrightarrow> c # p = replicate (Suc i) slash @ dropWhile (\<lambda>c. c = slash) (c # p)" by simp
  moreover have "c \<noteq> slash \<Longrightarrow> c # p = replicate 0 slash @ dropWhile (\<lambda>c. c = slash) (c # p)" by simp
  ultimately show ?case by blast
qed simp

section \<open>Properties\<close>

text \<open>
  \<^bold>\<open>C9.\<close> \<^verbatim>\<open>readi\<close> reads the file. For an inode whose blocks are all mapped, direct or through the
  indirect block, the bytes delivered are those of the file from the offset on, cut off at the
  end of the file; nothing on the disk and no inode changes. An offset behind the end, or a range
  that wraps around, gives -1.
\<close>

theorem readi_reads_file:
  assumes "bio_ok H s" and "room H" and "ip = inode_at i s" and "file_ok H s ip" and "i_type ip \<noteq> T_DEV"
    and "k = min (unat n) (unat (i_size ip) - unat off)"
  shows "if unat off > unat (i_size ip) \<or> unat off + unat n \<ge> 4294967296 then readi dsw i off n s = Inr (-1, [], s)
    else \<exists>s'. readi dsw i off n s = Inr (of_nat k, map (file_byte s ip) [unat off..<unat off + k], s')
      \<and> block s' = block s \<and> inodes s' = inodes s"
  using readi_ok [OF assms, of dsw] rest_fs(1) [OF stableD(2)] by (metis (no_types, lifting))

text \<open>
  \<^bold>\<open>C39.\<close> \<^verbatim>\<open>writei\<close> inside a file overwrites. If the range lies within the file and the file's
  blocks are its own, the bytes of the range become the bytes written, every other byte of the
  file and every block that is not a data block of the file stays as it was, and so does the
  inode.
\<close>

theorem writei_overwrites:
  assumes "bio_ok H s" and "room H" and "ip = inode_at i s" and "file_ok H s ip" and "own_blocks s ip"
    and "i_type ip \<noteq> T_DEV" and "unat off + length src \<le> unat (i_size ip)"
  shows "\<exists>s'. writei dsw i src off s = Inr (of_nat (length src), s') \<and> inodes s' = inodes s
    \<and> (\<forall>pos < unat (i_size ip). file_byte s' ip pos = overwrite (unat off) src (file_byte s ip) pos)
    \<and> (\<forall>d c. loc_ok d c \<longrightarrow> (\<forall>k. has_block ip k \<longrightarrow> (d, c) \<noteq> (i_dev ip, file_bn s ip k)) \<longrightarrow> block s' d c = block s d c)"
proof -
  obtain s' where s': "writei_loop (length src) i src off s = Inr (off + of_nat (length src), s')" "stable H s s'"
      "\<forall>pos < unat (i_size ip). file_byte s' ip pos = overwrite (unat off) src (file_byte s ip) pos"
      "\<forall>d c. loc_ok d c \<longrightarrow> (\<forall>k. has_block ip k \<longrightarrow> (d, c) \<noteq> (i_dev ip, file_bn s ip k)) \<longrightarrow> block s' d c = block s d c"
    using writei_loop_ok [OF assms(1,2) assms(3) [symmetric] assms(4,5,7) refl] by blast
  have sz: "unat (i_size ip) \<le> 71680" using assms(4) by (simp add: file_ok_def MAXFILE_def BSIZE_def NDIRECT_def NINDIRECT_def)
  then have u: "unat (of_nat (length src) :: u32) = length src" "unat (off + of_nat (length src)) = unat off + length src"
    using assms(7) by (simp_all add: unat_add_u32)
  have ino: "inodes s' = inodes s" using rest_fs(1) [OF stableD(2) [OF s'(2)]] .
  have "\<not> off + of_nat (length src) < off" "\<not> off + of_nat (length src) > of_nat (MAXFILE * BSIZE)"
    "\<not> off + of_nat (length src) > i_size ip"
    using u sz assms(7) by (simp_all add: word_less_nat_alt MAXFILE_def BSIZE_def NDIRECT_def NINDIRECT_def)
  then have "writei dsw i src off s = Inr (of_nat (length src), s')"
    using s'(1) u(1) assms(3,6) ino by (simp add: writei_def Let_def inode_at_def)
  then show ?thesis using s'(3,4) ino by blast
qed

text \<open>
  \<^bold>\<open>C28.\<close> \<^verbatim>\<open>dirlookup\<close> finds the first entry of the directory that is in use and whose name agrees
  with the one looked for up to 14 bytes. It gets the entry's inode from the inode cache and
  reports the byte offset of the entry; without such an entry it returns null.
\<close>

theorem dirlookup_first:
  assumes "bio_ok H s" and "room H" and "ip = inode_at dp s" and "file_ok H s ip" and "i_type ip = T_DIR"
  shows "\<exists>s'. stable H s s' \<and> block s' = block s \<and> dirlookup dp name s =
    (case first_idx (\<lambda>k. dir_inum s ip k \<noteq> 0 \<and>
         take DIRSIZ (takeWhile (\<lambda>c. c \<noteq> 0) name) = take DIRSIZ (takeWhile (\<lambda>c. c \<noteq> 0) (dir_name s ip k)))
       [0..<dir_nblocks ip * 32] of
       None \<Rightarrow> Inr (None, s')
     | Some k \<Rightarrow> rbind (iget (i_dev ip) (ucast (dir_inum s ip k)) s') (\<lambda>(j, s2). Inr (Some (j, of_nat (16 * k)), s2)))"
  using dirlookup_ok [OF assms, of name] unfolding dir_match_same .

text \<open>
  \<^verbatim>\<open>skipelem\<close> splits a path. It returns an element exactly if the path consists of
  slashes, a non-empty run of other characters, and then either nothing but slashes or slashes
  followed by the rest, which does not begin with a slash; the element is cut off at 14 bytes.
\<close>

lemma skipelem_splits:
  "skipelem path = Some (name, p) \<longleftrightarrow>
    (\<exists>i e j. path = replicate i slash @ e @ replicate j slash @ p \<and> e \<noteq> [] \<and> slash \<notin> set e
       \<and> name = take DIRSIZ e \<and> (if p = [] then True else 0 < j \<and> hd p \<noteq> slash))"
proof
  assume a: "skipelem path = Some (name, p)"
  define q where "q = dropWhile (\<lambda>c. c = slash) path"
  define e where "e = takeWhile (\<lambda>c. c \<noteq> slash) q"
  define r where "r = dropWhile (\<lambda>c. c \<noteq> slash) q"
  have q: "q \<noteq> []" and nm: "name = take DIRSIZ e" and p: "p = dropWhile (\<lambda>c. c = slash) r"
    using a by (auto simp: skipelem_def Let_def q_def e_def r_def split: if_splits)
  obtain i where i: "path = replicate i slash @ q" using leading_slashes [of path] unfolding q_def by blast
  obtain j where j: "r = replicate j slash @ p" using leading_slashes [of r] unfolding p by blast
  have "q = e @ r" by (simp add: e_def r_def)
  then have eq: "path = replicate i slash @ e @ replicate j slash @ p" using i j by simp
  have "hd q \<noteq> slash" using hd_dropWhile [of "\<lambda>c. c = slash" path] q by (simp add: q_def)
  then have "e \<noteq> []" using q by (cases q) (simp_all add: e_def)
  moreover have "slash \<notin> set e" by (auto simp: e_def dest: set_takeWhileD)
  moreover have "0 < j \<and> hd p \<noteq> slash" if "p \<noteq> []"
  proof -
    have hp: "hd p \<noteq> slash" using hd_dropWhile [of "\<lambda>c. c = slash" r] that p by simp
    have "r \<noteq> []" using that j by simp
    then have "hd r = slash" using hd_dropWhile [of "\<lambda>c. c \<noteq> slash" q] unfolding r_def by blast
    then show ?thesis using hp j by (cases j) auto
  qed
  ultimately show "\<exists>i e j. path = replicate i slash @ e @ replicate j slash @ p \<and> e \<noteq> [] \<and> slash \<notin> set e
       \<and> name = take DIRSIZ e \<and> (if p = [] then True else 0 < j \<and> hd p \<noteq> slash)"
    using eq nm by auto
next
  assume "\<exists>i e j. path = replicate i slash @ e @ replicate j slash @ p \<and> e \<noteq> [] \<and> slash \<notin> set e
       \<and> name = take DIRSIZ e \<and> (if p = [] then True else 0 < j \<and> hd p \<noteq> slash)"
  then obtain i e j where e: "path = replicate i slash @ e @ replicate j slash @ p" "e \<noteq> []" "slash \<notin> set e"
    "name = take DIRSIZ e" "p \<noteq> [] \<Longrightarrow> 0 < j \<and> hd p \<noteq> slash" by (auto split: if_splits)
  have d1: "dropWhile (\<lambda>c. c = slash) path = e @ replicate j slash @ p"
    using e(1-3) by (cases e) (auto simp: dropWhile_append)
  have tl: "replicate j slash @ p = [] \<or> hd (replicate j slash @ p) = slash" using e(5) by (cases j; cases p) auto
  have d2: "takeWhile (\<lambda>c. c \<noteq> slash) (e @ replicate j slash @ p) = e"
    "dropWhile (\<lambda>c. c \<noteq> slash) (e @ replicate j slash @ p) = replicate j slash @ p"
    using e(3) tl by (cases "replicate j slash @ p"; auto simp: takeWhile_append dropWhile_append)+
  have d3: "dropWhile (\<lambda>c. c = slash) (replicate j slash @ p) = p"
    using e(5) by (cases p) (simp_all add: dropWhile_append)
  show "skipelem path = Some (name, p)" unfolding skipelem_def Let_def d1 d2 d3 using e(2,4) by simp
qed

text \<open>A file of 600 bytes in blocks 40 and 41, and the root directory in block 42.\<close>

definition a_file :: inode where
  "a_file = open_file\<lparr>i_size := 600, i_addrs := [40, 41] @ replicate 11 0\<rparr>"

definition a_dir :: inode where
  "a_dir = open_file\<lparr>i_inum := 1, i_type := T_DIR, i_size := 32, i_addrs := 42 # replicate 12 0\<rparr>"

definition file_fs :: fs where
  "file_fs = formatted\<lparr>inodes := [a_file, a_dir, open_file\<lparr>i_ref := 0\<rparr>],
     disk := (\<lambda>_ sec. if sec = 40 then replicate 512 7 else
       if sec = 42 then [1, 0, 46] @ replicate 13 0 @ [5, 0, 97, 98] @ replicate 492 0 else replicate 512 0)\<rparr>"

lemma file_fs_ok: "bio_ok {} file_fs"
  by (auto simp: bio_ok_def file_fs_def formatted_def buf_at_def in_use_def drive_ready_def
      IDE_BSY_def IDE_DRDY_def IDE_DF_def IDE_ERR_def)

lemma room_empty: "room {}"
  using free_buffer by (simp add: room_def)

lemma a_file_blocks: "has_block a_file k \<longleftrightarrow> k = 0 \<or> k = 1"
  by (auto simp: has_block_def a_file_def open_file_def BSIZE_def)

lemma a_dir_blocks: "has_block a_dir k \<longleftrightarrow> k = 0"
  by (auto simp: has_block_def a_dir_def open_file_def BSIZE_def)

lemmas file_fs_simps = file_bn_def file_block_def file_fs_def block_def usable_def loc_ok_def unheld_def
  open_file_def NDIRECT_def BSIZE_def MAXFILE_def NINDIRECT_def

lemma a_file_ok: "file_ok {} file_fs a_file"
  unfolding file_ok_def a_file_blocks by (auto simp: file_fs_simps a_file_def)

lemma a_dir_ok: "file_ok {} file_fs a_dir"
  unfolding file_ok_def a_dir_blocks by (auto simp: file_fs_simps a_dir_def)

lemma a_file_own: "own_blocks file_fs a_file"
  unfolding own_blocks_def a_file_blocks by (auto simp: file_fs_simps a_file_def)

lemma file_fs_inodes: "inode_at 0 file_fs = a_file" "inode_at 1 file_fs = a_dir"
  by (simp_all add: inode_at_def file_fs_def)

lemma file_fs_types: "i_type a_file \<noteq> T_DEV" "i_type a_dir = T_DIR" "unat (i_size a_file) = 600"
  by (simp_all add: a_file_def a_dir_def open_file_def T_DEV_def T_DIR_def)

theorem readi_reads_file_witness:
  "\<exists>s'. readi (\<lambda>_. \<lparr>dev_read = None, dev_write = None\<rparr>) 0 597 100 file_fs
     = Inr (3, map (file_byte file_fs a_file) [597..<600], s')"
  using readi_reads_file [OF file_fs_ok room_empty file_fs_inodes(1) [symmetric] a_file_ok file_fs_types(1) refl,
      of 597 100 "\<lambda>_. \<lparr>dev_read = None, dev_write = None\<rparr>"]
  by (auto simp: file_fs_types(3))

theorem writei_overwrites_witness:
  "\<exists>s'. writei (\<lambda>_. \<lparr>dev_read = None, dev_write = None\<rparr>) 0 [1, 2, 3, 4] 510 file_fs = Inr (4, s')
     \<and> file_byte s' a_file 512 = 3 \<and> file_byte s' a_file 509 = file_byte file_fs a_file 509"
  using writei_overwrites [OF file_fs_ok room_empty file_fs_inodes(1) [symmetric] a_file_ok a_file_own file_fs_types(1),
      of 510 "[1, 2, 3, 4]" "\<lambda>_. \<lparr>dev_read = None, dev_write = None\<rparr>"]
  by (auto simp: file_fs_types(3) overwrite_def)

lemma a_dir_names:
  "dir_nblocks a_dir = 1" "dir_inum file_fs a_dir 0 = 1" "dir_inum file_fs a_dir 1 = 5"
  "dir_name file_fs a_dir 0 = 46 # replicate 13 0" "dir_name file_fs a_dir 1 = [97, 98] @ replicate 12 0"
  by code_simp+

theorem dirlookup_first_witness:
  "\<exists>s'. dirlookup 1 [97, 98] file_fs = rbind (iget 1 5 s') (\<lambda>(j, s2). Inr (Some (j, 16), s2))
     \<and> block s' = block file_fs"
proof -
  have dev: "i_dev a_dir = 1" by (simp add: a_dir_def open_file_def)
  have "first_idx (\<lambda>k. dir_inum file_fs a_dir k \<noteq> 0 \<and>
         take DIRSIZ (takeWhile (\<lambda>c. c \<noteq> 0) [97, 98]) = take DIRSIZ (takeWhile (\<lambda>c. c \<noteq> 0) (dir_name file_fs a_dir k)))
       [0..<dir_nblocks a_dir * 32] = Some 1"
    by (simp add: first_idx_Some a_dir_names [unfolded One_nat_def] DIRSIZ_def)
  then show ?thesis
    using dirlookup_first [OF file_fs_ok room_empty file_fs_inodes(2) [symmetric] a_dir_ok file_fs_types(2), of "[97, 98]"]
    by (auto simp: a_dir_names(3) [unfolded One_nat_def] dev)
qed

end
