(* ===== verification/Fs_Grow.thy ===== *)
theory Fs_Grow
  imports Fs_Content
begin

text \<open>
  Files that grow: \<^verbatim>\<open>bmap\<close> with allocation and \<^verbatim>\<open>writei\<close> up to and behind the end of a file. A device is consistent
  if its bitmap marks the blocks in front of the data area and if its free blocks are clear; \<^verbatim>\<open>bmap\<close> relies on the
  latter for a new indirect block.
\<close>

section \<open>The device\<close>

definition fsize :: "'a blk_scheme \<Rightarrow> u32 \<Rightarrow> nat" where
  "fsize s dev = unat (sb_size (the_sb (block s dev 1)))"

definition bitmap_start :: "'a blk_scheme \<Rightarrow> u32 \<Rightarrow> nat" where
  "bitmap_start s dev = unat (sb_ninodes (the_sb (block s dev 1))) div IPB + 3"

definition data_start :: "'a blk_scheme \<Rightarrow> u32 \<Rightarrow> nat" where
  "data_start s dev = bitmap_start s dev + nbits s dev div BPB"

definition device_ok :: "'a blk_scheme \<Rightarrow> u32 \<Rightarrow> bool" where
  "device_ok s dev \<longleftrightarrow> layout s dev \<and> (\<forall>b < data_start s dev. b < nbits s dev \<longrightarrow> \<not> is_free s dev b)
     \<and> (\<forall>b < fsize s dev. is_free s dev b \<longrightarrow> block s dev (of_nat b) = replicate BSIZE 0)"

definition free_blocks :: "'a blk_scheme \<Rightarrow> u32 \<Rightarrow> nat set" where
  "free_blocks s dev = {b. b < fsize s dev \<and> is_free s dev b}"

definition is_data :: "'a blk_scheme \<Rightarrow> u32 \<Rightarrow> nat \<Rightarrow> bool" where
  "is_data s dev b \<longleftrightarrow> data_start s dev \<le> b \<and> b < fsize s dev \<and> \<not> is_free s dev b"

lemma free_blocks_finite [simp]: "finite (free_blocks s dev)"
  by (simp add: free_blocks_def)

lemma fsize_bound:
  assumes "layout s dev"
  shows "fsize s dev \<le> 134217728" and "fsize s dev \<le> nbits s dev" and "data_start s dev \<le> 134217728"
proof -
  show s: "fsize s dev \<le> 134217728" using assms by (simp add: layout_def fsize_def)
  show "fsize s dev \<le> nbits s dev"
    using div_mult_mod_eq [of "fsize s dev + 4095" 4096] mod_less_divisor [of 4096 "fsize s dev + 4095"]
    unfolding nbits_def BPB_def fsize_def [symmetric] by linarith
  have "unat (sb_ninodes (the_sb (block s dev 1))) div 8 \<le> 134217728 div 8" "nbits s dev div 4096 \<le> 134221824 div 4096"
    using assms nbits_bound [OF assms] by (intro div_le_mono; simp add: layout_def)+
  then show "data_start s dev \<le> 134217728" by (simp add: data_start_def bitmap_start_def IPB_def BPB_def)
qed

lemma bitmap_of_range:
  assumes "layout s dev" and "b < nbits s dev"
  shows "bitmap_start s dev \<le> unat (bitmap_of s dev b)" and "unat (bitmap_of s dev b) < data_start s dev"
proof -
  have "b div BPB < nbits s dev div BPB"
    using assms(2) by (auto simp: nbits_def BPB_def less_mult_imp_div_less)
  then show "bitmap_start s dev \<le> unat (bitmap_of s dev b)" "unat (bitmap_of s dev b) < data_start s dev"
    using bitmap_of_eq(1) [OF assms] by (simp_all add: bitmap_start_def data_start_def)
qed

text \<open>Small block numbers are within the limits of the driver and of a word.\<close>

lemma small_block:
  assumes "layout s dev" and "b < 134217728"
  shows "loc_ok dev (of_nat b)" and "unat (of_nat b :: u32) = b"
  using assms by (simp_all add: layout_def loc_ok_def)

section \<open>Allocation of a block\<close>

text \<open>Every block but those of the bitmap is the same.\<close>

definition same_but_bitmap :: "u32 \<Rightarrow> 'a blk_scheme \<Rightarrow> 'a blk_scheme \<Rightarrow> bool" where
  "same_but_bitmap dev s s' \<longleftrightarrow> (\<forall>d c. loc_ok d c \<longrightarrow>
     \<not> (d = dev \<and> bitmap_start s dev \<le> unat c \<and> unat c < data_start s dev) \<longrightarrow> block s' d c = block s d c)"

definition meta_unheld :: "nat set \<Rightarrow> 'a blk_scheme \<Rightarrow> u32 \<Rightarrow> bool" where
  "meta_unheld H s dev \<longleftrightarrow> (\<forall>c. unat c < data_start s dev \<longrightarrow> unheld H s dev c)"

lemma meta_unheld_empty [simp]: "meta_unheld {} s dev"
  by (simp add: meta_unheld_def unheld_def)

lemma same_sb:
  assumes "layout s dev" and "block s' dev 1 = block s dev 1"
  shows "fsize s' dev = fsize s dev" and "bitmap_start s' dev = bitmap_start s dev" and "data_start s' dev = data_start s dev"
    and "nbits s' dev = nbits s dev" and "bitmap_of s' dev = bitmap_of s dev"
  using assms(2) by (simp_all add: fsize_def bitmap_start_def data_start_def nbits_def bitmap_of_def fun_eq_iff)

lemma balloc_dev:
  assumes "bio_ok H s" and "room H" and "device_ok s dev" and "meta_unheld H s dev" and "free_blocks s dev \<noteq> {}"
  obtains b s' where "balloc dev s = Inr (of_nat b, s')" and "stable H s s'" and "b \<in> free_blocks s dev"
    and "device_ok s' dev" and "free_blocks s' dev = free_blocks s dev - {b}" and "same_but_bitmap dev s s'"
    and "block s' dev 1 = block s dev 1" and "\<forall>c < nbits s dev. is_free s' dev c \<longleftrightarrow> is_free s dev c \<and> c \<noteq> b"
proof -
  have lay: "layout s dev" using assms(3) by (simp add: device_ok_def)
  note fs = fsize_bound [OF lay]
  define b where "b = (LEAST b. is_free s dev b)"
  obtain b0 where "b0 < fsize s dev" "is_free s dev b0" using assms(5) by (auto simp: free_blocks_def)
  then have b: "is_free s dev b" "b < fsize s dev" "\<And>c. c < b \<Longrightarrow> \<not> is_free s dev c"
    unfolding b_def by (auto intro: LeastI Least_le le_less_trans dest: not_less_Least)
  then have bn: "b < nbits s dev" using fs by simp
  have un: "unheld H s dev (bitmap_of s dev c)" if "c < nbits s dev" for c
    using assms(4) bitmap_of_range(2) [OF lay that] by (simp add: meta_unheld_def)
  have "unheld H s dev 1" using assms(4) by (simp add: meta_unheld_def data_start_def bitmap_start_def)
  then obtain s' where s': "balloc dev s = Inr (of_nat b, s')" "stable H s s'"
    "disk_upd s dev (bitmap_of s dev b) (set_bit_used (b mod BPB) (block s dev (bitmap_of s dev b))) s'"
    using balloc_ok [OF assms(1,2) lay _ un bn b(1,3)] by blast
  note bm = bitmap_of_eq [OF lay bn]
  have len: "length (block s dev (bitmap_of s dev b)) = BSIZE" using lay bm(2) by (simp add: layout_def)
  have lay': "layout s' dev" "block s' dev 1 = block s dev 1" "nbits s' dev = nbits s dev"
    using layout_upd [OF lay s'(3) _ bm(3)] len by simp_all
  note sb = same_sb [OF lay lay'(2)]
  have fr: "is_free s' dev c \<longleftrightarrow> is_free s dev c \<and> c \<noteq> b" if c: "c < nbits s dev" for c
  proof -
    have "b mod BPB div 8 < BSIZE" by (simp add: BPB_def BSIZE_def less_mult_imp_div_less)
    then have "block_free (set_bit_used (b mod BPB) (block s dev (bitmap_of s dev b))) (c mod BPB)
        \<longleftrightarrow> block_free (block s dev (bitmap_of s dev b)) (c mod BPB) \<and> c mod BPB \<noteq> b mod BPB"
      using block_free_used len by metis
    moreover have "c = b \<longleftrightarrow> c div BPB = b div BPB \<and> c mod BPB = b mod BPB" by (metis div_mult_mod_eq)
    ultimately show ?thesis
      using is_free_upd [OF lay bn c s'(3)] same_bitmap [OF lay c bn] by (auto simp: is_free_def)
  qed
  have fb: "free_blocks s' dev = free_blocks s dev - {b}"
    using fr fs(2) unfolding free_blocks_def sb by auto
  have same: "same_but_bitmap dev s s'"
    using s'(3) bitmap_of_range [OF lay bn] by (auto simp: same_but_bitmap_def disk_upd_def)
  have clear: "block s' dev (of_nat c) = replicate BSIZE 0" if c: "c < fsize s dev" "is_free s dev c" for c
  proof -
    have "c < 134217728" "\<not> c < data_start s dev" using c fs assms(3) by (auto simp: device_ok_def)
    then show ?thesis using same small_block [OF lay, of c] c assms(3) by (auto simp: same_but_bitmap_def device_ok_def)
  qed
  have "device_ok s' dev" using lay' fr assms(3) fs(2) clear unfolding device_ok_def sb by auto
  then show thesis using that s' b fb same lay'(2) fr by (auto simp: free_blocks_def)
qed

section \<open>The blocks of a file\<close>

text \<open>The data blocks and the indirect block, 0 if there is none.\<close>

definition own_list :: "nat list \<Rightarrow> nat \<Rightarrow> nat list" where
  "own_list ds ind = ds @ (if ind = 0 then [] else [ind])"

lemma own_list_Nil [simp]: "own_list ds 0 = ds"
  by (simp add: own_list_def)

text \<open>Data blocks for \<open>n\<close> bytes.\<close>

definition nblk :: "nat \<Rightarrow> nat" where
  "nblk n = (n + 511) div 512"

text \<open>Blocks for \<open>n\<close> bytes, the indirect block included.\<close>

definition need :: "nat \<Rightarrow> nat" where
  "need n = nblk n + (if NDIRECT < nblk n then 1 else 0)"

text \<open>What it takes to give block \<open>fbn\<close> to a file of \<open>n\<close> blocks.\<close>

definition new_blocks :: "nat \<Rightarrow> nat \<Rightarrow> nat" where
  "new_blocks n fbn = (if fbn < n then 0 else if fbn = NDIRECT then 2 else 1)"

lemma nblk_step:
  assumes "0 < k" and "n mod 512 + k \<le> 512"
  shows "nblk (n + k) = n div 512 + 1" and "nblk n = (if n mod 512 = 0 then n div 512 else n div 512 + 1)"
proof -
  define a r where "a = n div 512" and "r = n mod 512"
  have n: "n = 512 * a + r" "r < 512" "r + k \<le> 512" using assms(2) by (simp_all add: a_def r_def)
  have "(512 * a + t) div 512 = a + t div 512" for t by simp
  from this [of "r + k + 511"] this [of "r + 511"]
  have q: "nblk (n + k) = a + (r + k + 511) div 512" "nblk n = a + (r + 511) div 512" using n(1) by (simp_all add: nblk_def add.assoc)
  have "(r + k + 511) div 512 = 1" "(r + 511) div 512 = (if r = 0 then 0 else 1)"
    using n assms(1) by (auto simp: div_nat_eqI)
  then show "nblk (n + k) = n div 512 + 1" "nblk n = (if n mod 512 = 0 then n div 512 else n div 512 + 1)"
    using q by (auto simp: a_def [symmetric] r_def [symmetric])
qed

lemma need_step:
  assumes "0 < k" and "n mod 512 + k \<le> 512"
  shows "need n + new_blocks (nblk n) (n div 512) = need (n + k)"
  unfolding need_def new_blocks_def nblk_step [OF assms] by auto

lemma need_0 [simp]: "need 0 = 0"
  by (simp add: need_def nblk_def)

lemma need_mono: "m \<le> n \<Longrightarrow> need m \<le> need n"
proof -
  assume "m \<le> n"
  then have "nblk m \<le> nblk n" by (simp add: nblk_def div_le_mono)
  then show ?thesis by (auto simp: need_def)
qed

lemma get32_zero: "p + 3 < n \<Longrightarrow> get32 p (replicate n 0) = 0"
  by (simp add: get32_def le32_def)


text \<open>The inode maps its blocks to \<open>ds\<close>, and nothing behind them.\<close>

definition fmapped :: "'a blk_scheme \<Rightarrow> inode \<Rightarrow> nat list \<Rightarrow> nat \<Rightarrow> bool" where
  "fmapped s ip ds ind \<longleftrightarrow> length (i_addrs ip) = NADDRS \<and> length ds \<le> MAXFILE \<and> distinct (own_list ds ind)
     \<and> (\<forall>k < NDIRECT. i_addrs ip ! k = (if k < length ds then of_nat (ds ! k) else 0))
     \<and> i_addrs ip ! INDIRECT = of_nat ind \<and> (ind \<noteq> 0 \<longleftrightarrow> NDIRECT < length ds)
     \<and> (ind \<noteq> 0 \<longrightarrow> (\<forall>j < NINDIRECT. get32 (4 * j) (block s (i_dev ip) (of_nat ind))
          = (if NDIRECT + j < length ds then of_nat (ds ! (NDIRECT + j)) else 0)))
     \<and> (\<forall>b \<in> set (own_list ds ind). is_data s (i_dev ip) b)"

lemma fmapped_addrs:
  assumes "i_addrs ip' = i_addrs ip" and "i_dev ip' = i_dev ip"
  shows "fmapped s ip' ds ind = fmapped s ip ds ind"
  unfolding fmapped_def assms ..

lemma is_data_block:
  assumes "device_ok s dev" and "is_data s dev b"
  shows "loc_ok dev (of_nat b)" and "unat (of_nat b :: u32) = b" and "(of_nat b :: u32) \<noteq> 0" and "b \<noteq> 0"
    and "b < nbits s dev" and "length (block s dev (of_nat b)) = BSIZE"
proof -
  have lay: "layout s dev" using assms(1) by (simp add: device_ok_def)
  have b: "b < 134217728" "0 < b" "b < nbits s dev"
    using assms(2) fsize_bound [OF lay] by (auto simp: is_data_def data_start_def bitmap_start_def)
  show l: "loc_ok dev (of_nat b)" "unat (of_nat b :: u32) = b" using small_block [OF lay b(1)] by auto
  then show "(of_nat b :: u32) \<noteq> 0" using b(2) by (metis unat_0 less_irrefl)
  show "b \<noteq> 0" "b < nbits s dev" using b by auto
  show "length (block s dev (of_nat b)) = BSIZE" using lay l by (simp add: layout_def)
qed

lemma bmap_there:
  assumes "bio_ok {} s" and "device_ok s (i_dev ip)" and "fmapped s ip ds ind" and "inode_at i s = ip"
    and "k < length ds" and "unat bn = k"
  obtains s' where "bmap i bn alloc s = Inr (of_nat (ds ! k), s')" and "stable {} s s'" and "block s' = block s"
proof -
  have "is_data s (i_dev ip) (ds ! k)" using assms(3,5) by (simp add: fmapped_def own_list_def)
  then have nz: "(of_nat (ds ! k) :: u32) \<noteq> 0" using is_data_block [OF assms(2)] by blast
  show thesis
  proof (cases "k < NDIRECT")
    case True
    then show thesis
      using that [of s] assms(3-6) nz stable_refl [OF assms(1)] by (simp add: bmap_def fmapped_def)
  next
    case False
    then have ind: "ind \<noteq> 0" "is_data s (i_dev ip) ind" "i_addrs ip ! INDIRECT = of_nat ind" "k - NDIRECT < NINDIRECT"
      "get32 (4 * (k - NDIRECT)) (block s (i_dev ip) (of_nat ind)) = of_nat (ds ! k)"
      using assms(3,5) by (auto simp: fmapped_def own_list_def MAXFILE_def)
    note d = is_data_block [OF assms(2) ind(2)]
    obtain bp s1 s2 where r: "bread (i_dev ip) (of_nat ind) s = Inr (bp, s1)" "data bp s1 = block s (i_dev ip) (of_nat ind)"
      "brelse bp s1 = Inr s2" "stable {} s s2" "block s2 = block s"
      using blk_look [OF assms(1) d(1) room_empty, of thesis] by (auto simp: unheld_def)
    show thesis
      using that [of s2] r assms(4,6) False ind nz d(3) by (simp add: bmap_def Let_def)
  qed
qed

section \<open>Changing a data block\<close>

lemma device_upd_block:
  assumes "device_ok s dev" and "disk_upd s dev a x s'" and "length x = BSIZE" and "a \<noteq> 1"
    and "\<not> (bitmap_start s dev \<le> unat a \<and> unat a < data_start s dev)" and "unat a \<notin> free_blocks s dev"
  shows "device_ok s' dev" and "block s' dev 1 = block s dev 1" and "\<And>c. c < nbits s dev \<Longrightarrow> is_free s' dev c \<longleftrightarrow> is_free s dev c"
    and "free_blocks s' dev = free_blocks s dev"
proof -
  have lay: "layout s dev" using assms(1) by (simp add: device_ok_def)
  have l': "layout s' dev" using layout_upd [OF lay assms(2-4)] by simp
  show lay': "block s' dev 1 = block s dev 1" using layout_upd [OF lay assms(2-4)] by simp
  note sb = same_sb [OF lay lay']
  show fr: "is_free s' dev c \<longleftrightarrow> is_free s dev c" if c: "c < nbits s dev" for c
  proof -
    have "bitmap_of s dev c \<noteq> a" using bitmap_of_range [OF lay c] assms(5) by auto
    then show ?thesis using assms(2) bitmap_of_eq(2) [OF lay c] by (simp add: is_free_def sb disk_upd_def)
  qed
  show "free_blocks s' dev = free_blocks s dev" using fr fsize_bound(2) [OF lay] by (auto simp: free_blocks_def sb)
  have "block s' dev (of_nat c) = replicate BSIZE 0" if c: "c < fsize s dev" "is_free s dev c" for c
  proof -
    have "c < 134217728" "c \<noteq> unat a" using c fsize_bound(1) [OF lay] assms(6) by (auto simp: free_blocks_def)
    then have "loc_ok dev (of_nat c)" "of_nat c \<noteq> a" using small_block [OF lay, of c] by auto
    then show ?thesis using assms(1,2) c by (simp add: device_ok_def disk_upd_def)
  qed
  then show "device_ok s' dev" using l' fr assms(1) fsize_bound(2) [OF lay] unfolding device_ok_def sb by auto
qed

lemma device_upd:
  assumes "device_ok s dev" and "disk_upd s dev (of_nat b) x s'" and "is_data s dev b" and "length x = BSIZE"
  shows "device_ok s' dev" and "block s' dev 1 = block s dev 1" and "\<And>c. c < nbits s dev \<Longrightarrow> is_free s' dev c \<longleftrightarrow> is_free s dev c"
    and "free_blocks s' dev = free_blocks s dev"
proof -
  note d = is_data_block [OF assms(1,3)]
  have ge: "data_start s dev \<le> b" "b \<notin> free_blocks s dev" using assms(3) by (simp_all add: is_data_def free_blocks_def)
  then have "(of_nat b :: u32) \<noteq> 1" using d(2) by (auto simp: data_start_def bitmap_start_def)
  note u = device_upd_block [OF assms(1,2,4) this]
  show "device_ok s' dev" "block s' dev 1 = block s dev 1" "\<And>c. c < nbits s dev \<Longrightarrow> is_free s' dev c \<longleftrightarrow> is_free s dev c"
    "free_blocks s' dev = free_blocks s dev" using u ge d(2) by simp_all
qed

text \<open>Holding a block while another one is allocated.\<close>

lemma blk_hold:
  assumes "bio_ok {} s" and "loc_ok dev sec"
  obtains bp s1 where "bread dev sec s = Inr (bp, s1)" and "bio_ok {bp} s1" and "key bp s1 = (dev, sec)"
    and "data bp s1 = block s dev sec" and "block s1 = block s" and "rest s s1"
  using bc.read_law [OF assms] room_empty by (auto simp: room_def)

lemma blk_put:
  assumes "bio_ok {bp} s" and "key bp s = (dev, sec)" and "loc_ok dev sec"
  obtains s1 s2 where "bwrite bp (set_data bp d s) = Inr s1" and "brelse bp s1 = Inr s2" and "bio_ok {} s2"
    and "rest s s2" and "disk_upd s dev sec d s2"
proof -
  have m: "bio_ok {bp} (set_data bp d s)" "block (set_data bp d s) = block s" "rest s (set_data bp d s)"
    "key bp (set_data bp d s) = (dev, sec)" "data bp (set_data bp d s) = d"
    using set_data_law [OF assms(1), of bp d bp] assms(2) by auto
  obtain s1 where w: "bwrite bp (set_data bp d s) = Inr s1" "bio_ok {bp} s1" "key bp s1 = (dev, sec)" "data bp s1 = d"
    "\<forall>e c. loc_ok e c \<longrightarrow> block s1 e c = (if (e, c) = (dev, sec) then d else block s e c)" "rest (set_data bp d s) s1"
    using bc.write_law [OF m(1) _ m(4)] m(2,4,5) by auto
  have "data bp s1 = block s1 dev sec" using w(4,5) assms(3) by simp
  then obtain s2 where r: "brelse bp s1 = Inr s2" "bio_ok ({bp} - {bp}) s2" "block s2 = block s1" "rest s1 s2"
    using bc.release_law [OF w(2) _ w(3)] by auto
  show thesis
    using that [OF w(1) r(1)] r(2-4) w(5) rest_trans [OF rest_trans [OF m(3) w(6)] r(4)] by (simp add: disk_upd_def)
qed

lemma room_one: "room {bp}"
  unfolding room_def NBUF_def by (rule exI [of _ "if bp = 0 then 1 else 0"]) simp

section \<open>Allocation in bmap\<close>

text \<open>The second half of \<^verbatim>\<open>bmap\<close>: entry \<open>j\<close> of the indirect block \<open>addr\<close>.\<close>

definition bmap_slot :: "u32 \<Rightarrow> nat \<Rightarrow> bool \<Rightarrow> u32 \<Rightarrow> 'a fs_scheme \<Rightarrow> (u32 \<times> 'a fs_scheme) res" where
  "bmap_slot dev j alloc addr s =
     rbind (bread dev addr s) (\<lambda>(bp, s2).
     let a = get32 (4 * j) (data bp s2) in
     if a \<noteq> 0 then rbind (brelse bp s2) (\<lambda>s3. Inr (a, s3))
     else if \<not> alloc then rbind (brelse bp s2) (\<lambda>s3. Inr (-1, s3))
     else rbind (balloc dev s2) (\<lambda>(a, s3).
          rbind (bwrite bp (set_data bp (put32 (4 * j) a (data bp s3)) s3)) (\<lambda>s4.
          rbind (brelse bp s4) (\<lambda>s5. Inr (a, s5)))))"

lemma slot_new:
  assumes "bio_ok {} s" and "device_ok s dev" and "is_data s dev ind" and "j < NINDIRECT"
    and "get32 (4 * j) (block s dev (of_nat ind)) = 0" and "free_blocks s dev \<noteq> {}"
  obtains b s' where "bmap_slot dev j True (of_nat ind) s = Inr (of_nat b, s')" and "bio_ok {} s'" and "inodes s' = inodes s"
    and "b \<in> free_blocks s dev" and "device_ok s' dev" and "free_blocks s' dev = free_blocks s dev - {b}"
    and "block s' dev 1 = block s dev 1" and "\<forall>c < nbits s dev. is_free s' dev c \<longleftrightarrow> is_free s dev c \<and> c \<noteq> b"
    and "\<forall>d c. loc_ok d c \<longrightarrow> \<not> (d = dev \<and> bitmap_start s dev \<le> unat c \<and> unat c < data_start s dev) \<longrightarrow>
      block s' d c = (if (d, c) = (dev, of_nat ind) then put32 (4 * j) (of_nat b) (block s dev (of_nat ind)) else block s d c)"
proof -
  have lay: "layout s dev" using assms(2) by (simp add: device_ok_def)
  note d = is_data_block [OF assms(2,3)]
  obtain bp s1 where r: "bread dev (of_nat ind) s = Inr (bp, s1)" "bio_ok {bp} s1" "key bp s1 = (dev, of_nat ind)"
    "data bp s1 = block s dev (of_nat ind)" "block s1 = block s" "rest s s1"
    using blk_hold [OF assms(1) d(1)] .
  have same: "device_ok s1 dev" "free_blocks s1 dev = free_blocks s dev" "is_free s1 dev = is_free s dev" "nbits s1 dev = nbits s dev"
    "bitmap_start s1 dev = bitmap_start s dev" "data_start s1 dev = data_start s dev" "fsize s1 dev = fsize s dev"
    using r(5) assms(2) by (simp_all add: device_ok_def free_blocks_def is_free_def fsize_def bitmap_start_def data_start_def nbits_def
        bitmap_of_def layout_def fun_eq_iff)
  have "meta_unheld {bp} s1 dev"
    using assms(3) r(3) d(2) same by (auto simp: meta_unheld_def unheld_def is_data_def)
  then obtain b s2 where b: "balloc dev s1 = Inr (of_nat b, s2)" "stable {bp} s1 s2" "b \<in> free_blocks s dev" "device_ok s2 dev"
    "free_blocks s2 dev = free_blocks s dev - {b}" "same_but_bitmap dev s1 s2" "block s2 dev 1 = block s1 dev 1"
    "\<forall>c < nbits s dev. is_free s2 dev c \<longleftrightarrow> is_free s dev c \<and> c \<noteq> b"
    using balloc_dev [OF r(2) room_one same(1)] assms(6) unfolding same by blast
  have k2: "bio_ok {bp} s2" "key bp s2 = (dev, of_nat ind)" "data bp s2 = block s dev (of_nat ind)"
    using b(2) r(3,4) by (auto simp: stable_def bc.keeps_def)
  let ?x = "put32 (4 * j) (of_nat b) (block s dev (of_nat ind))"
  obtain s3 s4 where w: "bwrite bp (set_data bp ?x s2) = Inr s3" "brelse bp s3 = Inr s4" "bio_ok {} s4" "rest s2 s4"
    "disk_upd s2 dev (of_nat ind) ?x s4" using blk_put [OF k2(1,2) d(1)] .
  note sb2 = same_sb [OF _ b(7)]
  have l1: "layout s1 dev" using same(1) by (simp add: device_ok_def)
  have dat: "is_data s2 dev ind"
    using assms(3) b(8) d(5) sb2 [OF l1] same by (simp add: is_data_def)
  note u = device_upd [OF b(4) w(5) dat]
  have len: "length ?x = BSIZE" using d(6) by simp
  have nb: "nbits s2 dev = nbits s dev" using sb2(4) [OF l1] same(4) by simp
  have "bmap_slot dev j True (of_nat ind) s = Inr (of_nat b, s4)"
    using r(1,4) assms(5) b(1) k2(3) w(1,2) by (simp add: bmap_slot_def Let_def)
  moreover have "inodes s4 = inodes s"
    using rest_fs(1) [OF r(6)] rest_fs(1) [OF stableD(2) [OF b(2)]] rest_fs(1) [OF w(4)] by simp
  moreover have "block s4 e c = (if (e, c) = (dev, of_nat ind) then ?x else block s e c)"
    if "loc_ok e c" "\<not> (e = dev \<and> bitmap_start s dev \<le> unat c \<and> unat c < data_start s dev)" for e c
    using that w(5) b(6) r(5) same by (auto simp: disk_upd_def same_but_bitmap_def)
  ultimately show thesis
    using that [OF _ w(3) _ b(3) u(1) [OF len]] u(2-4) [OF len] b(5,7,8) r(5) nb by simp
qed

lemma bmap_direct:
  "unat bn < NDIRECT \<Longrightarrow> i_addrs (inode_at i s) ! unat bn = 0 \<Longrightarrow>
    bmap i bn True s = rbind (balloc (i_dev (inode_at i s)) s) (\<lambda>(a, s1).
      Inr (a, upd_inode i (\<lambda>ip. ip\<lparr>i_addrs := (i_addrs ip)[unat bn := a]\<rparr>) s1))"
  by (simp add: bmap_def)

lemma bmap_indirect:
  assumes "unat bn = NDIRECT + j" and "j < NINDIRECT"
  shows "i_addrs (inode_at i s) ! INDIRECT \<noteq> 0 \<Longrightarrow>
      bmap i bn True s = bmap_slot (i_dev (inode_at i s)) j True (i_addrs (inode_at i s) ! INDIRECT) s"
    and "i_addrs (inode_at i s) ! INDIRECT = 0 \<Longrightarrow>
      bmap i bn True s = rbind (balloc (i_dev (inode_at i s)) s) (\<lambda>(a, s1).
        bmap_slot (i_dev (inode_at i s)) j True a (upd_inode i (\<lambda>ip. ip\<lparr>i_addrs := (i_addrs ip)[INDIRECT := a]\<rparr>) s1))"
proof -
  show "i_addrs (inode_at i s) ! INDIRECT \<noteq> 0 \<Longrightarrow>
      bmap i bn True s = bmap_slot (i_dev (inode_at i s)) j True (i_addrs (inode_at i s) ! INDIRECT) s"
    using assms by (simp add: bmap_def bmap_slot_def Let_def)
  show "i_addrs (inode_at i s) ! INDIRECT = 0 \<Longrightarrow>
      bmap i bn True s = rbind (balloc (i_dev (inode_at i s)) s) (\<lambda>(a, s1).
        bmap_slot (i_dev (inode_at i s)) j True a (upd_inode i (\<lambda>ip. ip\<lparr>i_addrs := (i_addrs ip)[INDIRECT := a]\<rparr>) s1))"
    using assms by (cases "balloc (i_dev (inode_at i s)) s") (simp_all add: bmap_def bmap_slot_def split_beta Let_def)
qed

text \<open>The file in inode \<open>i\<close> has grown: it has taken free blocks, and only its blocks and the bitmap have changed.\<close>

definition grows :: "nat \<Rightarrow> 'a fs_scheme \<Rightarrow> inode \<Rightarrow> nat list \<Rightarrow> nat \<Rightarrow> 'a fs_scheme \<Rightarrow> inode \<Rightarrow> nat list \<Rightarrow> nat \<Rightarrow> bool" where
  "grows i s ip ds ind s' ip' ds' ind' \<longleftrightarrow> bio_ok {} s' \<and> device_ok s' (i_dev ip) \<and> fmapped s' ip' ds' ind'
     \<and> inodes s' = (inodes s)[i := ip'] \<and> (\<exists>as. ip' = ip\<lparr>i_addrs := as\<rparr>)
     \<and> block s' (i_dev ip) 1 = block s (i_dev ip) 1
     \<and> free_blocks s' (i_dev ip) = free_blocks s (i_dev ip) - set (own_list ds' ind')
     \<and> take (length ds) ds' = ds \<and> (ind \<noteq> 0 \<longrightarrow> ind' = ind)
     \<and> set (own_list ds' ind') \<subseteq> set (own_list ds ind) \<union> free_blocks s (i_dev ip)
     \<and> (\<forall>d c. loc_ok d c \<longrightarrow> \<not> (d = i_dev ip \<and> (unat c \<in> set (own_list ds' ind')
          \<or> bitmap_start s (i_dev ip) \<le> unat c \<and> unat c < data_start s (i_dev ip))) \<longrightarrow> block s' d c = block s d c)"

lemma growsI:
  assumes "bio_ok {} s'" and "device_ok s' (i_dev ip)" and "fmapped s' ip' ds' ind'" and "inodes s' = (inodes s)[i := ip']"
    and "ip' = ip\<lparr>i_addrs := as\<rparr>" and "block s' (i_dev ip) 1 = block s (i_dev ip) 1"
    and "free_blocks s' (i_dev ip) = free_blocks s (i_dev ip) - set (own_list ds' ind')"
    and "take (length ds) ds' = ds" and "ind \<noteq> 0 \<Longrightarrow> ind' = ind"
    and "set (own_list ds' ind') \<subseteq> set (own_list ds ind) \<union> free_blocks s (i_dev ip)"
    and "\<And>d c. loc_ok d c \<Longrightarrow> d = i_dev ip \<Longrightarrow> unat c \<notin> set (own_list ds' ind') \<Longrightarrow>
      \<not> (bitmap_start s (i_dev ip) \<le> unat c \<and> unat c < data_start s (i_dev ip)) \<Longrightarrow> block s' d c = block s d c"
    and "\<And>d c. loc_ok d c \<Longrightarrow> d \<noteq> i_dev ip \<Longrightarrow> block s' d c = block s d c"
  shows "grows i s ip ds ind s' ip' ds' ind'"
  unfolding grows_def using assms by blast

lemma taken_blocks:
  assumes "device_ok s dev" and "block s' dev 1 = block s dev 1" and "N \<subseteq> free_blocks s dev"
    and "\<forall>c < nbits s dev. is_free s' dev c \<longleftrightarrow> is_free s dev c \<and> c \<notin> N"
  shows "is_data s dev b \<Longrightarrow> is_data s' dev b" and "b \<in> N \<Longrightarrow> is_data s' dev b" and "free_blocks s' dev = free_blocks s dev - N"
    and "is_data s dev b \<Longrightarrow> b \<notin> free_blocks s dev"
proof -
  have lay: "layout s dev" using assms(1) by (simp add: device_ok_def)
  note sb = same_sb [OF lay assms(2)] and n = fsize_bound(2) [OF lay]
  show "is_data s dev b \<Longrightarrow> is_data s' dev b" using assms(4) n by (auto simp: is_data_def sb)
  have "b \<in> free_blocks s dev \<Longrightarrow> data_start s dev \<le> b"
    using assms(1) n by (auto simp: free_blocks_def device_ok_def not_less)
  then show "b \<in> N \<Longrightarrow> is_data s' dev b" using assms(3) assms(4) n by (auto simp: is_data_def sb free_blocks_def)
  show "free_blocks s' dev = free_blocks s dev - N" using assms(4) n by (auto simp: free_blocks_def sb)
  show "is_data s dev b \<Longrightarrow> b \<notin> free_blocks s dev" by (simp add: is_data_def free_blocks_def)
qed

lemma free_block_loc:
  assumes "device_ok s dev" and "b \<in> free_blocks s dev"
  shows "loc_ok dev (of_nat b)" and "unat (of_nat b :: u32) = b" and "data_start s dev \<le> b" and "b < nbits s dev"
    and "block s dev (of_nat b) = replicate BSIZE 0" and "0 < b"
proof -
  have lay: "layout s dev" using assms(1) by (simp add: device_ok_def)
  have b: "b < 134217728" "b < nbits s dev" using assms(2) fsize_bound [OF lay] by (auto simp: free_blocks_def)
  show "loc_ok dev (of_nat b)" "unat (of_nat b :: u32) = b" using small_block [OF lay b(1)] by auto
  show "b < nbits s dev" "block s dev (of_nat b) = replicate BSIZE 0"
    using assms b by (auto simp: device_ok_def free_blocks_def)
  show d: "data_start s dev \<le> b" using assms b(2) by (auto simp: device_ok_def free_blocks_def not_less)
  then show "0 < b" by (simp add: data_start_def bitmap_start_def)
qed

text \<open>Block \<open>length ds\<close> is among the direct ones.\<close>

lemma bmap_new_direct:
  assumes "bio_ok {} s" and "device_ok s (i_dev ip)" and "fmapped s ip ds ind" and "inode_at i s = ip" and "i < length (inodes s)"
    and "unat bn = length ds" and "length ds < NDIRECT" and "free_blocks s (i_dev ip) \<noteq> {}"
  shows "\<exists>b s' ip'. bmap i bn True s = Inr (of_nat b, s') \<and> grows i s ip ds ind s' ip' (ds @ [b]) 0
    \<and> (\<forall>c \<in> set (ds @ [b]). block s' (i_dev ip) (of_nat c) = block s (i_dev ip) (of_nat c))
    \<and> card (free_blocks s' (i_dev ip)) = card (free_blocks s (i_dev ip)) - 1"
proof -
  let ?dev = "i_dev ip"
  obtain b s1 where b: "balloc ?dev s = Inr (of_nat b, s1)" "stable {} s s1" "b \<in> free_blocks s ?dev" "device_ok s1 ?dev"
    "free_blocks s1 ?dev = free_blocks s ?dev - {b}" "same_but_bitmap ?dev s s1" "block s1 ?dev 1 = block s ?dev 1"
    "\<forall>c < nbits s ?dev. is_free s1 ?dev c \<longleftrightarrow> is_free s ?dev c \<and> c \<noteq> b"
    using balloc_dev [OF assms(1) room_empty assms(2) meta_unheld_empty assms(8)] .
  have ind: "ind = 0" "i_addrs ip ! length ds = 0" using assms(3,7) by (auto simp: fmapped_def)
  define ip' where "ip' = ip\<lparr>i_addrs := (i_addrs ip)[length ds := of_nat b]\<rparr>"
  define s' where "s' = upd_inode i (\<lambda>ip. ip\<lparr>i_addrs := (i_addrs ip)[length ds := of_nat b]\<rparr>) s1"
  have ino: "inodes s1 = inodes s" using rest_fs(1) [OF stableD(2) [OF b(2)]] .
  then have ino': "inodes s' = (inodes s)[i := ip']" using assms(4) by (simp add: s'_def upd_inode_def ip'_def inode_at_def)
  have blk: "block s' = block s1" by (simp add: s'_def inode_simps)
  then have st: "device_ok s' d \<longleftrightarrow> device_ok s1 d" "free_blocks s' d = free_blocks s1 d" "is_data s' d = is_data s1 d" for d
    by (simp_all add: device_ok_def free_blocks_def is_free_def is_data_def fsize_def bitmap_start_def data_start_def nbits_def
        bitmap_of_def layout_def fun_eq_iff)
  have "{b} \<subseteq> free_blocks s ?dev" "\<forall>c < nbits s ?dev. is_free s1 ?dev c \<longleftrightarrow> is_free s ?dev c \<and> c \<notin> {b}" using b(3,8) by simp_all
  note t = taken_blocks [OF assms(2) b(7) this]
  have old: "is_data s ?dev c" if "c \<in> set ds" for c using that assms(3) by (simp add: fmapped_def own_list_def)
  have own: "is_data s1 ?dev c" if "c \<in> set (ds @ [b])" for c using that t(1) [OF old] t(2) by auto
  have nin: "b \<notin> set ds" using t(4) [OF old] b(3) by blast
  have m: "fmapped s' ip' (ds @ [b]) 0"
  proof -
    have l: "length (i_addrs ip) = NADDRS" "NDIRECT < NADDRS" "length ds \<noteq> INDIRECT" "distinct ds" "i_addrs ip ! INDIRECT = 0"
      using assms(3,7) ind by (simp_all add: fmapped_def own_list_def INDIRECT_def NADDRS_def NDIRECT_def)
    have "i_addrs ip' ! k = (if k < length (ds @ [b]) then of_nat ((ds @ [b]) ! k) else 0)" if "k < NDIRECT" for k
      using that assms(3) l by (auto simp: fmapped_def ip'_def nth_append nth_list_update)
    then show ?thesis
      unfolding fmapped_def using l own nin st assms(7) by (simp add: ip'_def MAXFILE_def)
  qed
  have keep: "block s' ?dev (of_nat c) = block s ?dev (of_nat c)" if "c \<in> set (ds @ [b])" for c
  proof (cases "c = b")
    case True
    then show ?thesis using free_block_loc [OF assms(2) b(3)] b(6) blk by (simp add: same_but_bitmap_def)
  next
    case False
    then have "is_data s ?dev c" using that old by simp
    then show ?thesis using is_data_block(1,2) [OF assms(2)] b(6) blk by (simp add: same_but_bitmap_def is_data_def)
  qed
  have "free_blocks s ?dev - {b} = free_blocks s ?dev - set (ds @ [b])" using t(4) [OF old] by auto
  moreover have "bio_ok {} s'" using stableD(1) [OF b(2)] by (simp add: s'_def inode_simps)
  ultimately have "grows i s ip ds ind s' ip' (ds @ [b]) 0"
    using b(3-7) by (intro growsI [OF _ _ m ino' ip'_def]) (auto simp: st blk ind same_but_bitmap_def own_list_def)
  moreover have "bmap i bn True s = Inr (of_nat b, s')"
    using bmap_direct [of bn i s] assms(4,6,7) ind b(1) by (simp add: s'_def)
  moreover have "card (free_blocks s' ?dev) = card (free_blocks s ?dev) - 1" using st(2) b(3,5) by simp
  ultimately show ?thesis using keep by blast
qed

text \<open>There is an indirect block with a free entry.\<close>

lemma bmap_new_slot:
  assumes "bio_ok {} s" and "device_ok s (i_dev ip)" and "fmapped s ip ds ind" and "inode_at i s = ip" and "i < length (inodes s)"
    and "unat bn = length ds" and "NDIRECT < length ds" and "length ds < MAXFILE" and "free_blocks s (i_dev ip) \<noteq> {}"
  shows "\<exists>b s'. bmap i bn True s = Inr (of_nat b, s') \<and> grows i s ip ds ind s' ip (ds @ [b]) ind
    \<and> (\<forall>c \<in> set (ds @ [b]). block s' (i_dev ip) (of_nat c) = block s (i_dev ip) (of_nat c))
    \<and> card (free_blocks s' (i_dev ip)) = card (free_blocks s (i_dev ip)) - 1"
proof -
  let ?dev = "i_dev ip"
  define j where "j = length ds - NDIRECT"
  have j: "unat bn = NDIRECT + j" "j < NINDIRECT" "length ds = NDIRECT + j" using assms(6-8) by (simp_all add: j_def MAXFILE_def)
  have ind: "ind \<noteq> 0" "is_data s ?dev ind" "i_addrs ip ! INDIRECT = of_nat ind" "get32 (4 * j) (block s ?dev (of_nat ind)) = 0" "ind \<notin> set ds"
    using assms(3,7) j by (auto simp: fmapped_def own_list_def)
  note d = is_data_block [OF assms(2) ind(2)]
  obtain b s' where b: "bmap_slot ?dev j True (of_nat ind) s = Inr (of_nat b, s')" "bio_ok {} s'" "inodes s' = inodes s"
    "b \<in> free_blocks s ?dev" "device_ok s' ?dev" "free_blocks s' ?dev = free_blocks s ?dev - {b}" "block s' ?dev 1 = block s ?dev 1"
    "\<forall>c < nbits s ?dev. is_free s' ?dev c \<longleftrightarrow> is_free s ?dev c \<and> c \<noteq> b"
    and blk: "\<forall>e c. loc_ok e c \<longrightarrow> \<not> (e = ?dev \<and> bitmap_start s ?dev \<le> unat c \<and> unat c < data_start s ?dev) \<longrightarrow>
      block s' e c = (if (e, c) = (?dev, of_nat ind) then put32 (4 * j) (of_nat b) (block s ?dev (of_nat ind)) else block s e c)"
    using slot_new [OF assms(1,2) ind(2) j(2) ind(4) assms(9)] .
  have "{b} \<subseteq> free_blocks s ?dev" "\<forall>c < nbits s ?dev. is_free s' ?dev c \<longleftrightarrow> is_free s ?dev c \<and> c \<notin> {b}" using b(4,8) by simp_all
  note t = taken_blocks [OF assms(2) b(7) this]
  have old: "is_data s ?dev c" if "c \<in> set (own_list ds ind)" for c using that assms(3) by (simp add: fmapped_def)
  have own: "is_data s' ?dev c" if "c \<in> set (own_list (ds @ [b]) ind)" for c using that t(1) [OF old] t(2) by (auto simp: own_list_def)
  have nin: "b \<notin> set (own_list ds ind)" using t(4) [OF old] b(4) by blast
  have bi: "block s' ?dev (of_nat ind) = put32 (4 * j) (of_nat b) (block s ?dev (of_nat ind))"
    using blk d(1,2) ind(2) by (simp add: is_data_def)
  have keep: "block s' ?dev (of_nat c) = block s ?dev (of_nat c)" if c: "c \<in> set (ds @ [b])" for c
  proof -
    have l: "loc_ok ?dev (of_nat c)" "unat (of_nat c :: u32) = c" "data_start s ?dev \<le> c"
      using c is_data_block(1,2) [OF assms(2) old] free_block_loc(1-3) [OF assms(2) b(4)] old by (auto simp: own_list_def is_data_def)
    have "c \<noteq> ind" using c ind(5) nin by (auto simp: own_list_def ind(1))
    then have "(of_nat c :: u32) \<noteq> of_nat ind" using l(2) d(2) by metis
    then show ?thesis using blk l by simp
  qed
  have m: "fmapped s' ip (ds @ [b]) ind"
  proof -
    have "get32 (4 * k) (block s' ?dev (of_nat ind)) = (if NDIRECT + k < length (ds @ [b]) then of_nat ((ds @ [b]) ! (NDIRECT + k)) else 0)"
      if k: "k < NINDIRECT" for k
    proof (cases "k = j")
      case True
      then show ?thesis using bi d(6) j by (simp add: nth_append BSIZE_def NINDIRECT_def)
    next
      case False
      then have "get32 (4 * k) (block s' ?dev (of_nat ind)) = get32 (4 * k) (block s ?dev (of_nat ind))"
        unfolding bi by (intro get_put_apart(4)) auto
      then show ?thesis using False k j(3) assms(3) ind(1) by (auto simp: fmapped_def nth_append)
    qed
    moreover have "\<forall>k < NDIRECT. i_addrs ip ! k = (if k < length (ds @ [b]) then of_nat ((ds @ [b]) ! k) else 0)"
      using assms(3,7) by (auto simp: fmapped_def nth_append)
    moreover have "distinct (own_list (ds @ [b]) ind)" using assms(3) nin by (auto simp: fmapped_def own_list_def)
    ultimately show ?thesis unfolding fmapped_def using own assms(3,7,8) ind(1) by (simp add: fmapped_def)
  qed
  have "free_blocks s ?dev - {b} = free_blocks s ?dev - set (own_list (ds @ [b]) ind)" using t(4) [OF old] by (auto simp: own_list_def)
  then have "grows i s ip ds ind s' ip (ds @ [b]) ind"
    using b(2-7) assms(4,5) blk d(2)
    by (intro growsI [OF b(2,5) m, where as = "i_addrs ip"]) (auto simp: own_list_def ind(1) inode_at_def list_update_same_conv)
  moreover have "bmap i bn True s = Inr (of_nat b, s')" using bmap_indirect(1) [OF j(1,2), of i s] assms(4) ind(3) d(3) b(1) by simp
  moreover have "card (free_blocks s' ?dev) = card (free_blocks s ?dev) - 1" using b(4,6) by simp
  ultimately show ?thesis using keep by blast
qed

text \<open>The first block behind the direct ones: two blocks are taken.\<close>

lemma device_same:
  assumes "block s' = block s"
  shows "device_ok s' = device_ok s" and "free_blocks s' = free_blocks s" and "is_data s' = is_data s" and "is_free s' = is_free s"
    and "nbits s' = nbits s" and "bitmap_start s' = bitmap_start s" and "data_start s' = data_start s"
  using assms by (simp_all add: device_ok_def free_blocks_def is_free_def is_data_def fsize_def bitmap_start_def data_start_def
      nbits_def bitmap_of_def layout_def fun_eq_iff)

lemma bmap_new_first:
  assumes "bio_ok {} s" and "device_ok s (i_dev ip)" and "fmapped s ip ds ind" and "inode_at i s = ip" and "i < length (inodes s)"
    and "unat bn = NDIRECT" and "length ds = NDIRECT" and "2 \<le> card (free_blocks s (i_dev ip))"
  shows "\<exists>a b s' ip'. bmap i bn True s = Inr (of_nat b, s') \<and> grows i s ip ds ind s' ip' (ds @ [b]) a
    \<and> (\<forall>c \<in> set (ds @ [b]). block s' (i_dev ip) (of_nat c) = block s (i_dev ip) (of_nat c))
    \<and> card (free_blocks s' (i_dev ip)) = card (free_blocks s (i_dev ip)) - 2"
proof -
  let ?dev = "i_dev ip"
  have j: "unat bn = NDIRECT + 0" "0 < NINDIRECT" using assms(6) by (simp_all add: NINDIRECT_def)
  have i0: "ind = 0" "i_addrs ip ! INDIRECT = 0" "length (i_addrs ip) = NADDRS" "INDIRECT < NADDRS" "distinct ds"
    using assms(3,7) by (auto simp: fmapped_def own_list_def INDIRECT_def NADDRS_def NDIRECT_def)
  have ne0: "free_blocks s ?dev \<noteq> {}" using assms(8) by auto
  obtain a s1 where a: "balloc ?dev s = Inr (of_nat a, s1)" "stable {} s s1" "a \<in> free_blocks s ?dev" "device_ok s1 ?dev"
    "free_blocks s1 ?dev = free_blocks s ?dev - {a}" "same_but_bitmap ?dev s s1" "block s1 ?dev 1 = block s ?dev 1"
    "\<forall>c < nbits s ?dev. is_free s1 ?dev c \<longleftrightarrow> is_free s ?dev c \<and> c \<noteq> a"
    using balloc_dev [OF assms(1) room_empty assms(2) meta_unheld_empty ne0] .
  define f where "f = (\<lambda>ip :: inode. ip\<lparr>i_addrs := (i_addrs ip)[INDIRECT := of_nat a]\<rparr>)"
  define s2 where "s2 = upd_inode i f s1"
  have ino: "inodes s1 = inodes s" using rest_fs(1) [OF stableD(2) [OF a(2)]] .
  have ino2: "inodes s2 = (inodes s)[i := f ip]" using ino assms(4) by (simp add: s2_def upd_inode_def inode_at_def)
  have blk2: "block s2 = block s1" by (simp add: s2_def inode_simps)
  note same = device_same [OF blk2]
  have ok2: "bio_ok {} s2" using stableD(1) [OF a(2)] by (simp add: s2_def inode_simps)
  have "{a} \<subseteq> free_blocks s ?dev" "\<forall>c < nbits s ?dev. is_free s1 ?dev c \<longleftrightarrow> is_free s ?dev c \<and> c \<notin> {a}" using a(3,8) by simp_all
  note ta = taken_blocks [OF assms(2) a(7) this]
  note la = free_block_loc [OF assms(2) a(3)]
  have da: "is_data s2 ?dev a" using ta(2) same by simp
  have za: "block s2 ?dev (of_nat a) = replicate BSIZE 0" using la a(6) blk2 by (simp add: same_but_bitmap_def)
  then have z: "get32 (4 * 0) (block s2 ?dev (of_nat a)) = 0" by (simp add: get32_zero BSIZE_def)
  have "card (free_blocks s2 ?dev) \<noteq> 0" using assms(8) a(3,5) same(2) by simp
  then have ne: "free_blocks s2 ?dev \<noteq> {}" by auto
  have dv: "device_ok s2 ?dev" using a(4) same(1) by simp
  obtain b s' where b: "bmap_slot ?dev 0 True (of_nat a) s2 = Inr (of_nat b, s')" "bio_ok {} s'" "inodes s' = inodes s2"
    "b \<in> free_blocks s2 ?dev" "device_ok s' ?dev" "free_blocks s' ?dev = free_blocks s2 ?dev - {b}" "block s' ?dev 1 = block s2 ?dev 1"
    "\<forall>c < nbits s2 ?dev. is_free s' ?dev c \<longleftrightarrow> is_free s2 ?dev c \<and> c \<noteq> b"
    and blk: "\<forall>e c. loc_ok e c \<longrightarrow> \<not> (e = ?dev \<and> bitmap_start s2 ?dev \<le> unat c \<and> unat c < data_start s2 ?dev) \<longrightarrow>
      block s' e c = (if (e, c) = (?dev, of_nat a) then put32 (4 * 0) (of_nat b) (block s2 ?dev (of_nat a)) else block s2 e c)"
    using slot_new [OF ok2 dv da j(2) z ne] .
  have sb: "nbits s2 ?dev = nbits s ?dev" "bitmap_start s2 ?dev = bitmap_start s ?dev" "data_start s2 ?dev = data_start s ?dev"
    using same_sb [OF _ a(7)] assms(2) same by (simp_all add: device_ok_def)
  have bf: "b \<in> free_blocks s ?dev" "b \<noteq> a" using b(4) same(2) a(5) by auto
  note lb = free_block_loc [OF assms(2) bf(1)]
  have N: "{a, b} \<subseteq> free_blocks s ?dev" "\<forall>c < nbits s ?dev. is_free s' ?dev c \<longleftrightarrow> is_free s ?dev c \<and> c \<notin> {a, b}"
    using a(3,8) bf b(8) sb(1) same(4) by auto
  have one: "block s' ?dev 1 = block s ?dev 1" using b(7) blk2 a(7) by simp
  note t = taken_blocks [OF assms(2) one N]
  have old: "is_data s ?dev c" if "c \<in> set ds" for c using that assms(3) by (simp add: fmapped_def own_list_def)
  have own: "is_data s' ?dev c" if "c \<in> set (own_list (ds @ [b]) a)" for c
    using that t(1) [OF old] t(2) by (auto simp: own_list_def split: if_splits)
  have nin: "a \<notin> set ds" "b \<notin> set ds" using t(4) [OF old] a(3) bf(1) by blast+
  have blk': "block s' e c = (if (e, c) = (?dev, of_nat a) then put32 0 (of_nat b) (replicate BSIZE 0) else block s e c)"
    if "loc_ok e c" "\<not> (e = ?dev \<and> bitmap_start s ?dev \<le> unat c \<and> unat c < data_start s ?dev)" for e c
    using that blk a(6) za sb blk2 by (auto simp: same_but_bitmap_def)
  have keep: "block s' ?dev (of_nat c) = block s ?dev (of_nat c)" if c: "c \<in> set (ds @ [b])" for c
  proof -
    have l: "loc_ok ?dev (of_nat c)" "unat (of_nat c :: u32) = c" "data_start s ?dev \<le> c"
      using c is_data_block(1,2) [OF assms(2) old] lb old by (auto simp: is_data_def)
    have "c \<noteq> a" using c nin bf(2) by auto
    then have "(of_nat c :: u32) \<noteq> of_nat a" using l(2) la(2) by metis
    then show ?thesis using blk' [OF l(1)] l by simp
  qed
  have m: "fmapped s' (f ip) (ds @ [b]) a"
  proof -
    have "get32 (4 * k) (block s' ?dev (of_nat a)) = (if NDIRECT + k < length (ds @ [b]) then of_nat ((ds @ [b]) ! (NDIRECT + k)) else 0)"
      if k: "k < NINDIRECT" for k
    proof -
      have "block s' ?dev (of_nat a) = put32 0 (of_nat b) (replicate BSIZE 0)" using blk' [OF la(1)] la(2,3) by simp
      moreover have "k \<noteq> 0 \<Longrightarrow> get32 (4 * k) (put32 0 (of_nat b) (replicate BSIZE 0)) = get32 (4 * k) (replicate BSIZE 0)"
        by (intro get_put_apart(4)) auto
      ultimately show ?thesis
        using k assms(7) by (cases "k = 0") (simp_all add: nth_append get32_zero BSIZE_def NINDIRECT_def)
    qed
    moreover have "i_addrs (f ip) ! k = (if k < length (ds @ [b]) then of_nat ((ds @ [b]) ! k) else 0)" if "k < NDIRECT" for k
      using that assms(3,7) by (simp add: fmapped_def f_def nth_append INDIRECT_def NDIRECT_def)
    moreover have "distinct (own_list (ds @ [b]) a)" using i0 nin bf(2) la(6) by (auto simp: own_list_def)
    ultimately show ?thesis
      unfolding fmapped_def using own i0 assms(7) la(6) by (simp add: f_def MAXFILE_def NINDIRECT_def)
  qed
  have "free_blocks s' ?dev = free_blocks s ?dev - set (own_list (ds @ [b]) a)"
    using t(3) t(4) [OF old] la(6) by (auto simp: own_list_def)
  moreover have "unat c \<notin> set (own_list (ds @ [b]) a) \<Longrightarrow> (c :: u32) \<noteq> of_nat a" for c
    using la(2,6) by (auto simp: own_list_def)
  moreover have "inodes s' = (inodes s)[i := f ip]" using b(3) ino2 by simp
  ultimately have "grows i s ip ds ind s' (f ip) (ds @ [b]) a"
    using a(3) bf(1) i0(1) by (intro growsI [OF b(2,5) m _ _ one]) (auto simp: blk' own_list_def f_def)
  moreover have "inode_at i s2 = f ip" using ino2 assms(5) by (simp add: inode_at_def)
  then have "bmap i bn True s = Inr (of_nat b, s')"
    using bmap_indirect(2) [OF j, of i s] assms(4) i0(2) a(1) b(1) by (simp add: s2_def f_def)
  moreover have "card (free_blocks s' ?dev) = card (free_blocks s ?dev) - 2"
    using b(4,6) same(2) a(3,5) by simp
  ultimately show ?thesis using keep by blast
qed

text \<open>Together: \<^verbatim>\<open>bmap\<close> finds block \<open>fbn\<close> of the file or gives it a new one.\<close>

lemma grows_refl:
  assumes "device_ok s (i_dev ip)" and "fmapped s ip ds ind" and "inode_at i s = ip" and "i < length (inodes s)"
    and "stable {} s s'" and "block s' = block s"
  shows "grows i s ip ds ind s' ip ds ind"
proof -
  note d = device_same [OF assms(6)]
  have "fmapped s' ip ds ind" using assms(2) d(3) assms(6) by (simp add: fmapped_def)
  moreover have "free_blocks s (i_dev ip) \<inter> set (own_list ds ind) = {}"
    using assms(2) by (auto simp: fmapped_def is_data_def free_blocks_def)
  ultimately show ?thesis
    using assms(1,3,4,6) d stableD(1) [OF assms(5)] rest_fs(1) [OF stableD(2) [OF assms(5)]]
    by (intro growsI [where as = "i_addrs ip"]) (auto simp: inode_at_def list_update_same_conv)
qed

lemma bmap_grow:
  assumes "bio_ok {} s" and "device_ok s (i_dev ip)" and "fmapped s ip ds ind" and "inode_at i s = ip" and "i < length (inodes s)"
    and "unat bn = fbn" and "fbn \<le> length ds" and "fbn < MAXFILE" and "new_blocks (length ds) fbn \<le> card (free_blocks s (i_dev ip))"
  shows "\<exists>s' ip' ds' ind'. bmap i bn True s = Inr (of_nat (ds' ! fbn), s') \<and> grows i s ip ds ind s' ip' ds' ind'
    \<and> length ds' = max (length ds) (Suc fbn)
    \<and> (\<forall>c \<in> set ds'. block s' (i_dev ip) (of_nat c) = block s (i_dev ip) (of_nat c))
    \<and> card (free_blocks s' (i_dev ip)) + new_blocks (length ds) fbn = card (free_blocks s (i_dev ip))"
proof -
  consider "fbn < length ds" | "fbn = length ds" "fbn < NDIRECT" | "fbn = length ds" "NDIRECT < fbn" | "fbn = length ds" "fbn = NDIRECT"
    using assms(7) by linarith
  then show ?thesis
  proof cases
    case 1
    obtain s' where s': "bmap i bn True s = Inr (of_nat (ds ! fbn), s')" "stable {} s s'" "block s' = block s"
      using bmap_there [OF assms(1-4) 1 assms(6)] .
    have "grows i s ip ds ind s' ip ds ind" using grows_refl [OF assms(2-5) s'(2,3)] .
    then show ?thesis using s' 1 device_same(2) [OF s'(3)] by (intro exI [of _ s'] exI [of _ ip] exI [of _ ds] exI [of _ ind]) (simp add: new_blocks_def)
  next
    case 2
    then have "free_blocks s (i_dev ip) \<noteq> {}" "unat bn = length ds" "length ds < NDIRECT" using assms(6,9) by (auto simp: new_blocks_def)
    from bmap_new_direct [OF assms(1-5) this(2,3,1)] obtain b s' ip' where
      r: "bmap i bn True s = Inr (of_nat b, s')" "grows i s ip ds ind s' ip' (ds @ [b]) 0"
        "\<forall>c \<in> set (ds @ [b]). block s' (i_dev ip) (of_nat c) = block s (i_dev ip) (of_nat c)"
        "card (free_blocks s' (i_dev ip)) = card (free_blocks s (i_dev ip)) - 1" by blast
    then show ?thesis
      using 2 assms(9) by (intro exI [of _ s'] exI [of _ ip'] exI [of _ "ds @ [b]"] exI [of _ 0]) (simp add: new_blocks_def)
  next
    case 3
    then have "free_blocks s (i_dev ip) \<noteq> {}" "unat bn = length ds" "NDIRECT < length ds" "length ds < MAXFILE"
      using assms(6,8,9) by (auto simp: new_blocks_def)
    from bmap_new_slot [OF assms(1-5) this(2-4,1)] obtain b s' where
      r: "bmap i bn True s = Inr (of_nat b, s')" "grows i s ip ds ind s' ip (ds @ [b]) ind"
        "\<forall>c \<in> set (ds @ [b]). block s' (i_dev ip) (of_nat c) = block s (i_dev ip) (of_nat c)"
        "card (free_blocks s' (i_dev ip)) = card (free_blocks s (i_dev ip)) - 1" by blast
    then show ?thesis
      using 3 assms(9) by (intro exI [of _ s'] exI [of _ ip] exI [of _ "ds @ [b]"] exI [of _ ind]) (simp add: new_blocks_def)
  next
    case 4
    then have "2 \<le> card (free_blocks s (i_dev ip))" "unat bn = NDIRECT" "length ds = NDIRECT" using assms(6,9) by (auto simp: new_blocks_def)
    from bmap_new_first [OF assms(1-5) this(2,3,1)] obtain a b s' ip' where
      r: "bmap i bn True s = Inr (of_nat b, s')" "grows i s ip ds ind s' ip' (ds @ [b]) a"
        "\<forall>c \<in> set (ds @ [b]). block s' (i_dev ip) (of_nat c) = block s (i_dev ip) (of_nat c)"
        "card (free_blocks s' (i_dev ip)) = card (free_blocks s (i_dev ip)) - 2" by blast
    have "(ds @ [b]) ! NDIRECT = b" using 4 by (metis nth_append_length)
    then show ?thesis
      using r 4 assms(9) by (intro exI [of _ s'] exI [of _ ip'] exI [of _ "ds @ [b]"] exI [of _ a]) (simp add: new_blocks_def)
  qed
qed

section \<open>Writing\<close>

definition patch :: "nat \<Rightarrow> u8 list \<Rightarrow> u8 list \<Rightarrow> u8 list" where
  "patch p xs c = take p c @ xs @ drop (p + length xs) c"

lemma patch_length: "p \<le> length c \<Longrightarrow> length (patch p xs c) = max (length c) (p + length xs)"
  by (simp add: patch_def)

text \<open>The contents of a file, continued with zeros behind its end.\<close>

definition cbyte :: "u8 list \<Rightarrow> nat \<Rightarrow> u8" where
  "cbyte c pos = (if pos < length c then c ! pos else 0)"

lemma patch_byte: "p \<le> length c \<Longrightarrow> cbyte (patch p xs c) pos = overwrite p xs (cbyte c) pos"
  by (auto simp: patch_def cbyte_def overwrite_def nth_append)

lemma patch_append: "p \<le> length c \<Longrightarrow> patch (p + length xs) ys (patch p xs c) = patch p (xs @ ys) c"
  by (simp add: patch_def ac_simps)

lemma patch_Nil [simp]: "patch p [] c = c"
  by (simp add: patch_def)

text \<open>
  The blocks \<open>ds\<close> hold the bytes \<open>c\<close>. The rest of the last block is zero: a block is taken from
  the bitmap zeroed, and \<^verbatim>\<open>writei\<close> changes no byte behind the last one it writes.
\<close>

definition holds_bytes :: "'a blk_scheme \<Rightarrow> u32 \<Rightarrow> nat list \<Rightarrow> u8 list \<Rightarrow> bool" where
  "holds_bytes s dev ds c \<longleftrightarrow> length ds = nblk (length c)
     \<and> (\<forall>pos < length ds * BSIZE. block s dev (of_nat (ds ! (pos div BSIZE))) ! (pos mod BSIZE) = cbyte c pos)"

lemma grows_upd:
  assumes "grows i s ip ds ind s1 ip1 ds1 ind1" and "disk_upd s1 (i_dev ip) (of_nat b) x s2" and "b \<in> set ds1"
    and "stable {} s1 s2" and "length x = BSIZE" and "device_ok s (i_dev ip)"
  shows "grows i s ip ds ind s2 ip1 ds1 ind1" and "free_blocks s2 (i_dev ip) = free_blocks s1 (i_dev ip)"
proof -
  let ?dev = "i_dev ip"
  have g: "device_ok s1 ?dev" "fmapped s1 ip1 ds1 ind1" "inodes s1 = (inodes s)[i := ip1]" "block s1 ?dev 1 = block s ?dev 1"
    "free_blocks s1 ?dev = free_blocks s ?dev - set (own_list ds1 ind1)" "take (length ds) ds1 = ds" "ind \<noteq> 0 \<longrightarrow> ind1 = ind"
    "set (own_list ds1 ind1) \<subseteq> set (own_list ds ind) \<union> free_blocks s ?dev"
    "\<forall>d c. loc_ok d c \<longrightarrow> \<not> (d = ?dev \<and> (unat c \<in> set (own_list ds1 ind1)
          \<or> bitmap_start s ?dev \<le> unat c \<and> unat c < data_start s ?dev)) \<longrightarrow> block s1 d c = block s d c"
    using assms(1) by (simp_all add: grows_def)
  obtain as where as: "ip1 = ip\<lparr>i_addrs := as\<rparr>" using assms(1) by (auto simp: grows_def)
  then have dev: "i_dev ip1 = ?dev" by simp
  have dat: "is_data s1 ?dev c" if "c \<in> set (own_list ds1 ind1)" for c using g(2) dev that by (simp add: fmapped_def)
  have bd: "is_data s1 ?dev b" using dat assms(3) by (simp add: own_list_def)
  note u = device_upd [OF g(1) assms(2) bd assms(5)]
  show "free_blocks s2 ?dev = free_blocks s1 ?dev" by (rule u(4))
  have lay: "layout s1 ?dev" using g(1) by (simp add: device_ok_def)
  have dat2: "is_data s2 ?dev c" if "c \<in> set (own_list ds1 ind1)" for c
    using dat [OF that] u(3) [of c] is_data_block(5) [OF g(1) dat [OF that]] same_sb [OF lay u(2)] by (simp add: is_data_def)
  have ub: "unat (of_nat b :: u32) = b" by (rule is_data_block(2) [OF g(1) bd])
  have "block s2 ?dev (of_nat ind1) = block s1 ?dev (of_nat ind1)" if "ind1 \<noteq> 0"
  proof -
    have "ind1 \<in> set (own_list ds1 ind1)" "ind1 \<noteq> b" using that g(2) assms(3) by (auto simp: own_list_def fmapped_def)
    then have "loc_ok ?dev (of_nat ind1)" "(of_nat ind1 :: u32) \<noteq> of_nat b" using is_data_block(1,2) [OF g(1) dat] ub by metis+
    then show ?thesis using assms(2) by (simp add: disk_upd_def)
  qed
  then have m: "fmapped s2 ip1 ds1 ind1" using g(2) dat2 dev by (simp add: fmapped_def)
  have "inodes s2 = (inodes s)[i := ip1]" using g(3) rest_fs(1) [OF stableD(2) [OF assms(4)]] by simp
  then show "grows i s ip ds ind s2 ip1 ds1 ind1"
    using g(4-9) u(2,4) assms(2,3) ub stableD(1) [OF assms(4)]
    by (intro growsI [OF _ u(1) m _ as]) (auto simp: disk_upd_def own_list_def)
qed

lemma grows_trans:
  assumes "grows i s ip ds ind s1 ip1 ds1 ind1" and "grows i s1 ip1 ds1 ind1 s2 ip2 ds2 ind2" and "device_ok s (i_dev ip)"
  shows "grows i s ip ds ind s2 ip2 ds2 ind2"
proof -
  obtain as1 where as1: "ip1 = ip\<lparr>i_addrs := as1\<rparr>" using assms(1) by (auto simp: grows_def)
  obtain as2 where as2: "ip2 = ip1\<lparr>i_addrs := as2\<rparr>" using assms(2) by (auto simp: grows_def)
  have dev: "i_dev ip1 = i_dev ip" and ip2: "ip2 = ip\<lparr>i_addrs := as2\<rparr>" using as1 as2 by simp_all
  have lay: "layout s (i_dev ip)" using assms(3) by (simp add: device_ok_def)
  have one: "block s1 (i_dev ip) 1 = block s (i_dev ip) 1" using assms(1) by (simp add: grows_def)
  note sb = same_sb [OF lay one]
  have sub: "set (own_list ds1 ind1) \<subseteq> set (own_list ds2 ind2)"
  proof -
    have "take (length ds1) ds2 = ds1" "ind1 \<noteq> 0 \<longrightarrow> ind2 = ind1" using assms(2) by (auto simp: grows_def)
    then show ?thesis using set_take_subset [of "length ds1" ds2] by (auto simp: own_list_def)
  qed
  have pre: "take (length ds) ds2 = ds"
  proof -
    have "take (length ds) ds1 = ds" "take (length ds1) ds2 = ds1" using assms by (auto simp: grows_def)
    then show ?thesis by (metis take_take min_def length_take min.cobounded1)
  qed
  have f: "free_blocks s1 (i_dev ip) = free_blocks s (i_dev ip) - set (own_list ds1 ind1)"
    "free_blocks s2 (i_dev ip) = free_blocks s1 (i_dev ip) - set (own_list ds2 ind2)"
    "set (own_list ds2 ind2) \<subseteq> set (own_list ds1 ind1) \<union> free_blocks s1 (i_dev ip)"
    "set (own_list ds1 ind1) \<subseteq> set (own_list ds ind) \<union> free_blocks s (i_dev ip)"
    using assms(1,2) dev by (simp_all add: grows_def)
  show ?thesis
  proof (rule growsI [OF _ _ _ _ ip2])
    show "bio_ok {} s2" "device_ok s2 (i_dev ip)" "fmapped s2 ip2 ds2 ind2" "block s2 (i_dev ip) 1 = block s (i_dev ip) 1"
      "inodes s2 = (inodes s)[i := ip2]" "ind \<noteq> 0 \<Longrightarrow> ind2 = ind"
      using assms(1,2) dev one by (auto simp: grows_def)
    show "free_blocks s2 (i_dev ip) = free_blocks s (i_dev ip) - set (own_list ds2 ind2)"
      "set (own_list ds2 ind2) \<subseteq> set (own_list ds ind) \<union> free_blocks s (i_dev ip)" using f sub by blast+
    show "block s2 d c = block s d c" if "loc_ok d c" "d \<noteq> i_dev ip" for d c using assms(1,2) that dev by (simp add: grows_def)
    show "block s2 d c = block s d c" if "loc_ok d c" "d = i_dev ip" "unat c \<notin> set (own_list ds2 ind2)"
      "\<not> (bitmap_start s (i_dev ip) \<le> unat c \<and> unat c < data_start s (i_dev ip))" for d c
    proof -
      have "unat c \<notin> set (own_list ds1 ind1)" using that sub by blast
      then show ?thesis using assms(1,2) that dev sb unfolding grows_def by metis
    qed
  qed (rule pre)
qed

lemma nblk_div: "pos < n \<Longrightarrow> pos div 512 < nblk n" "p \<le> n \<Longrightarrow> p div 512 \<le> nblk n" "nblk n \<le> p div 512 \<Longrightarrow> n \<le> p"
proof -
  have n: "n \<le> 512 * nblk n" "512 * nblk n < n + 512"
    using div_mult_mod_eq [of "n + 511" 512] mod_less_divisor [of 512 "n + 511"] unfolding nblk_def by linarith+
  show "pos < n \<Longrightarrow> pos div 512 < nblk n" using n(1) by (simp add: div_less_iff_less_mult)
  show "p \<le> n \<Longrightarrow> p div 512 \<le> nblk n" using n(1) by (metis div_le_mono nonzero_mult_div_cancel_left order_trans zero_neq_numeral)
  show "nblk n \<le> p div 512 \<Longrightarrow> n \<le> p" using n(1) by (metis mult_le_mono2 order_trans times_div_less_eq_dividend)
qed

lemma need_write:
  assumes "p \<le> n" and "0 < k" and "p mod 512 + k \<le> 512"
  shows "need (max n (p + k)) = need n + new_blocks (nblk n) (p div 512)" and "nblk (max n (p + k)) = max (nblk n) (Suc (p div 512))"
proof -
  note st = nblk_step [OF assms(2,3)]
  show nb: "nblk (max n (p + k)) = max (nblk n) (Suc (p div 512))"
    using st(1) max_of_mono [of nblk n "p + k"] by (simp add: mono_def nblk_def div_le_mono)
  show "need (max n (p + k)) = need n + new_blocks (nblk n) (p div 512)"
  proof (cases "p div 512 < nblk n")
    case True
    then show ?thesis using nb by (simp add: need_def new_blocks_def max_def)
  next
    case False
    then have "n = p" using nblk_div(3) [of n p] assms(1) by simp
    then show ?thesis using need_step [OF assms(2,3)] by (simp add: max_def)
  qed
qed

text \<open>The blocks a file has gained were free, so they are zero.\<close>

lemma grows_fresh:
  assumes "grows i s ip ds ind s' ip' ds' ind'" and "device_ok s (i_dev ip)" and "k < length ds'" and "length ds \<le> k"
  shows "block s (i_dev ip) (of_nat (ds' ! k)) = replicate BSIZE 0"
proof -
  have g: "distinct (own_list ds' ind')" "take (length ds) ds' = ds" "ind \<noteq> 0 \<longrightarrow> ind' = ind"
    "set (own_list ds' ind') \<subseteq> set (own_list ds ind) \<union> free_blocks s (i_dev ip)"
    using assms(1) unfolding grows_def fmapped_def by blast+
  have m: "ds' ! k \<in> set (own_list ds' ind')" using assms(3) by (simp add: own_list_def)
  have d: "distinct ds'" "ind' \<noteq> 0 \<Longrightarrow> ind' \<notin> set ds'" using g(1) by (auto simp: own_list_def split: if_splits)
  have "set (take (length ds) ds') \<inter> set (drop (length ds) ds') = {}" using d(1) by (rule set_take_disj_set_drop_if_distinct) simp
  moreover have "ds' ! k \<in> set (drop (length ds) ds')" using assms(3,4) by (auto simp: in_set_conv_nth intro!: exI [of _ "k - length ds"])
  ultimately have "ds' ! k \<notin> set ds" using g(2) by auto
  moreover have "ds' ! k \<noteq> ind" if "ind \<noteq> 0" using d(2) g(3) that assms(3) nth_mem by metis
  ultimately have "ds' ! k \<in> free_blocks s (i_dev ip)" using g(4) m by (auto simp: own_list_def split: if_splits)
  then show ?thesis using assms(2) by (simp add: device_ok_def free_blocks_def)
qed

lemma write_block:
  assumes "holds_bytes s dev ds c" and "p \<le> length c" and "xs \<noteq> []" and "p mod BSIZE + length xs \<le> BSIZE" and "q = p div BSIZE"
    and "length ds1 = max (length ds) (Suc q)" and "take (length ds) ds1 = ds" and "distinct ds1"
    and "\<forall>b \<in> set ds1. block s1 dev (of_nat b) = block s dev (of_nat b) \<and> loc_ok dev (of_nat b) \<and> unat (of_nat b :: u32) = b"
    and "disk_upd s1 dev (of_nat (ds1 ! q)) (take (p mod BSIZE) d @ xs @ drop (p mod BSIZE + length xs) d) s2"
    and "d = block s dev (of_nat (ds1 ! q))" and "length d = BSIZE"
    and "\<forall>k < length ds1. length ds \<le> k \<longrightarrow> block s dev (of_nat (ds1 ! k)) = replicate BSIZE 0"
  shows "holds_bytes s2 dev ds1 (patch p xs c)"
proof -
  let ?x = "take (p mod BSIZE) d @ xs @ drop (p mod BSIZE + length xs) d"
  have dl: "length ds = nblk (length c)" using assms(1) by (simp add: holds_bytes_def)
  have nb: "nblk (max (length c) (p + length xs)) = length ds1"
    using need_write(2) [of p "length c" "length xs"] assms(2-6) dl by (simp add: BSIZE_def)
  have blk: "block s2 dev (of_nat (ds1 ! k)) = (if k = q then ?x else block s dev (of_nat (ds1 ! k)))" if k: "k < length ds1" for k
  proof -
    have q: "q < length ds1" using assms(6) by simp
    have m: "ds1 ! k \<in> set ds1" "ds1 ! q \<in> set ds1" using k q by simp_all
    then have "(of_nat (ds1 ! k) :: u32) = of_nat (ds1 ! q) \<longleftrightarrow> ds1 ! k = ds1 ! q" using assms(9) by metis
    also have "\<dots> \<longleftrightarrow> k = q" using nth_eq_iff_index_eq [OF assms(8) k q] .
    finally show ?thesis using assms(9,10) m by (auto simp: disk_upd_def)
  qed
  have "block s2 dev (of_nat (ds1 ! (pos div BSIZE))) ! (pos mod BSIZE) = cbyte (patch p xs c) pos"
    if pos: "pos < length ds1 * BSIZE" for pos
  proof -
    have lt: "pos div BSIZE < length ds1" using pos by (simp add: BSIZE_def div_less_iff_less_mult)
    have m: "pos mod BSIZE < BSIZE" by (simp add: BSIZE_def)
    have old: "block s dev (of_nat (ds1 ! (pos div BSIZE))) ! (pos mod BSIZE) = cbyte c pos"
    proof (cases "pos div BSIZE < length ds")
      case True
      then have "ds1 ! (pos div BSIZE) = ds ! (pos div BSIZE)" using assms(7) by (metis nth_take)
      moreover have "pos < length ds * BSIZE" using True by (simp add: BSIZE_def div_less_iff_less_mult)
      ultimately show ?thesis using assms(1) by (simp add: holds_bytes_def)
    next
      case False
      then have "length c \<le> pos" using nblk_div(3) [of "length c" pos] dl by (simp add: BSIZE_def)
      then show ?thesis using assms(13) lt False m by (simp add: cbyte_def)
    qed
    show ?thesis
    proof (cases "pos div BSIZE = q")
      case False
      have "\<not> (p \<le> pos \<and> pos < p + length xs)"
        using same_block(1) [of p BSIZE "pos - p"] assms(4,5) False
        by (metis le_add_diff_inverse less_diff_conv2 less_le_trans nat_add_left_cancel_less)
      then show ?thesis using blk [OF lt] False old patch_byte [OF assms(2)] by (auto simp: overwrite_def)
    next
      case True
      have eq: "pos = BSIZE * q + pos mod BSIZE" "p = BSIZE * q + p mod BSIZE" using True assms(5) by (metis mult_div_mod_eq)+
      then have cc: "p \<le> pos \<longleftrightarrow> p mod BSIZE \<le> pos mod BSIZE" "pos - p = pos mod BSIZE - p mod BSIZE"
        "pos < p + length xs \<longleftrightarrow> pos mod BSIZE < p mod BSIZE + length xs" by linarith+
      have "?x ! (pos mod BSIZE) = (if p \<le> pos \<and> pos < p + length xs then xs ! (pos - p) else d ! (pos mod BSIZE))"
        unfolding cc using m assms(4,12) by (auto simp: nth_append)
      then show ?thesis using old blk [OF lt] True assms(11) patch_byte [OF assms(2)] by (auto simp: overwrite_def)
    qed
  qed
  then show ?thesis using nb patch_length [OF assms(2)] by (simp add: holds_bytes_def)
qed

lemma blk_set:
  assumes "bio_ok {} s" and "loc_ok dev sec"
  shows "\<exists>bp s1 s2 s3. bread dev sec s = Inr (bp, s1) \<and> data bp s1 = block s dev sec \<and> bwrite bp (set_data bp x s1) = Inr s2
    \<and> brelse bp s2 = Inr s3 \<and> stable {} s s3 \<and> disk_upd s dev sec x s3"
proof -
  have u: "unheld {} s dev sec" by (simp add: unheld_def)
  show ?thesis using blk_change [OF assms room_empty u] by metis
qed

text \<open>The loop of \<^verbatim>\<open>writei\<close>, from an offset within the file or at its end.\<close>

lemma writei_loop_grows:
  assumes "bio_ok {} s" and "device_ok s (i_dev ip)" and "fmapped s ip ds ind" and "inode_at i s = ip" and "i < length (inodes s)"
    and "holds_bytes s (i_dev ip) ds c" and "length c \<le> MAXFILE * BSIZE" and "unat off \<le> length c" and "length src = left"
    and "unat off + left \<le> MAXFILE * BSIZE"
    and "need (max (length c) (unat off + left)) \<le> need (length c) + card (free_blocks s (i_dev ip))"
  shows "\<exists>s' ip' ds' ind'. writei_loop left i src off s = Inr (off + of_nat left, s') \<and> grows i s ip ds ind s' ip' ds' ind'
    \<and> holds_bytes s' (i_dev ip) ds' (patch (unat off) src c)"
  using assms
proof (induction left arbitrary: off s src ip ds ind c rule: less_induct)
  case (less left)
  let ?dev = "i_dev ip"
  show ?case
  proof (cases "left = 0")
    case True
    then show ?thesis
      using grows_refl [OF less.prems(2-5) stable_refl [OF less.prems(1)] refl] less.prems(6,9) by (auto simp: writei_loop.simps)
  next
    case False
    let ?q = "unat off div BSIZE" and ?b = "unat off mod BSIZE"
    define m where "m = min left (BSIZE - ?b)"
    define xs where "xs = take m src"
    have "?b < BSIZE" by (simp add: BSIZE_def)
    then have m: "0 < m" "m \<le> left" "?b + m \<le> BSIZE" using False by (auto simp: m_def)
    have xs: "length xs = m" "xs \<noteq> []" "src = xs @ drop m src" using m less.prems(9) by (auto simp: xs_def)
    note pos = pos_step [OF less.prems(10) m_def]
    have dl: "length ds = nblk (length c)" using less.prems(6) by (simp add: holds_bytes_def)
    have q: "?q \<le> length ds" "?q < MAXFILE"
      using nblk_div(2) [OF less.prems(8)] dl less.prems(10) m(1,2) by (simp_all add: BSIZE_def div_less_iff_less_mult)
    note nw = need_write(1) [OF less.prems(8) m(1) m(3) [unfolded BSIZE_def]]
    have "need (max (length c) (unat off + m)) \<le> need (max (length c) (unat off + left))" using m(2) by (intro need_mono) auto
    then have fr: "new_blocks (length ds) ?q \<le> card (free_blocks s ?dev)" using nw less.prems(11) dl by (simp add: BSIZE_def)
    obtain s1 ip1 ds1 ind1 where b: "bmap i (off div of_nat BSIZE) True s = Inr (of_nat (ds1 ! ?q), s1)"
      "grows i s ip ds ind s1 ip1 ds1 ind1" "length ds1 = max (length ds) (Suc ?q)"
      "\<forall>c \<in> set ds1. block s1 ?dev (of_nat c) = block s ?dev (of_nat c)"
      "card (free_blocks s1 ?dev) + new_blocks (length ds) ?q = card (free_blocks s ?dev)"
      using bmap_grow [OF less.prems(1-5) pos(2) q fr] by blast
    have g1: "bio_ok {} s1" "device_ok s1 ?dev" "fmapped s1 ip1 ds1 ind1" "take (length ds) ds1 = ds" "i_dev ip1 = ?dev"
      using b(2) by (auto simp: grows_def)
    have d1: "is_data s1 ?dev e" if "e \<in> set ds1" for e using that g1(3,5) by (simp add: fmapped_def own_list_def)
    note l1 = is_data_block [OF g1(2) d1]
    have qd: "ds1 ! ?q \<in> set ds1" using b(3) by simp
    define d where "d = block s ?dev (of_nat (ds1 ! ?q))"
    have d: "d = block s1 ?dev (of_nat (ds1 ! ?q))" "length d = BSIZE" using b(4) qd l1(6) by (auto simp: d_def)
    define x where "x = take ?b d @ xs @ drop (?b + length xs) d"
    have lx: "length x = BSIZE" using d(2) xs(1) m(3) by (simp add: x_def)
    obtain bp s2 s3 s4 where r: "bread ?dev (of_nat (ds1 ! ?q)) s1 = Inr (bp, s2)" "data bp s2 = d"
      "bwrite bp (set_data bp x s2) = Inr s3" "brelse bp s3 = Inr s4" "stable {} s1 s4" "disk_upd s1 ?dev (of_nat (ds1 ! ?q)) x s4"
      using blk_set [OF g1(1) l1(1) [OF qd], of x] unfolding d(1) by blast
    note g4 = grows_upd [OF b(2) r(6) qd r(5) lx less.prems(2)]
    have w: "holds_bytes s4 ?dev ds1 (patch (unat off) xs c)"
    proof (rule write_block [OF less.prems(6,8) xs(2) _ refl b(3) g1(4) _ _ r(6) [unfolded x_def] d_def d(2)])
      show "\<forall>k < length ds1. length ds \<le> k \<longrightarrow> block s ?dev (of_nat (ds1 ! k)) = replicate BSIZE 0"
        using grows_fresh [OF b(2) less.prems(2)] by blast
      show "?b + length xs \<le> BSIZE" using m(3) xs(1) by simp
      show "distinct ds1" using g1(3) by (simp add: fmapped_def own_list_def)
      show "\<forall>e \<in> set ds1. block s1 ?dev (of_nat e) = block s ?dev (of_nat e) \<and> loc_ok ?dev (of_nat e) \<and> unat (of_nat e :: u32) = e"
        using b(4) l1(1,2) by blast
    qed
    have ip4: "inode_at i s4 = ip1" "i < length (inodes s4)" using g4(1) less.prems(5) by (simp_all add: grows_def inode_at_def)
    have len: "length (patch (unat off) xs c) = max (length c) (unat off + m)" using patch_length [OF less.prems(8)] xs(1) by simp
    have "\<exists>s' ip' ds' ind'. writei_loop (left - m) i (drop m src) (off + of_nat m) s4 = Inr (off + of_nat m + of_nat (left - m), s')
        \<and> grows i s4 ip1 ds1 ind1 s' ip' ds' ind'
        \<and> holds_bytes s' (i_dev ip1) ds' (patch (unat (off + of_nat m)) (drop m src) (patch (unat off) xs c))"
    proof (rule less.IH)
      show "left - m < left" using m False by simp
      show "bio_ok {} s4" "device_ok s4 (i_dev ip1)" "fmapped s4 ip1 ds1 ind1" using g4(1) g1(5) by (simp_all add: grows_def)
      show "holds_bytes s4 (i_dev ip1) ds1 (patch (unat off) xs c)" using w g1(5) by simp
      show "need (max (length (patch (unat off) xs c)) (unat (off + of_nat m) + (left - m)))
          \<le> need (length (patch (unat off) xs c)) + card (free_blocks s4 (i_dev ip1))"
      proof -
        have e: "max (max (length c) (unat off + m)) (unat off + m + (left - m)) = max (length c) (unat off + left)" using m(2) by simp
        have "need (max (length c) (unat off + m)) = need (length c) + new_blocks (length ds) ?q" using nw dl by (simp add: BSIZE_def)
        then show ?thesis using less.prems(11) b(5) unfolding len pos(1) g1(5) g4(2) e by linarith
      qed
    qed (use ip4 len pos(1) m less.prems(7,9,10) in auto)
    then obtain s' ip' ds' ind' where s': "writei_loop (left - m) i (drop m src) (off + of_nat m) s4 = Inr (off + of_nat m + of_nat (left - m), s')"
      "grows i s4 ip1 ds1 ind1 s' ip' ds' ind'" "holds_bytes s' ?dev ds' (patch (unat off + m) (drop m src) (patch (unat off) xs c))"
      using pos(1) g1(5) by auto
    have "patch (unat off + m) (drop m src) (patch (unat off) xs c) = patch (unat off) src c"
      using patch_append [OF less.prems(8), of xs "drop m src"] xs by simp
    moreover have "off + of_nat m + of_nat (left - m) = off + of_nat left" using m(2) by (simp add: add.assoc flip: of_nat_add)
    moreover have "writei_loop left i src off s = writei_loop (left - m) i (drop m src) (off + of_nat m) s4"
      using False b(1) r(1-4) less.prems(4) xs(1) by (subst writei_loop.simps) (simp add: Let_def x_def xs_def flip: m_def)
    moreover have "grows i s ip ds ind s' ip' ds' ind'" using grows_trans [OF g4(1) s'(2) less.prems(2)] .
    ultimately show ?thesis using s'(1,3) by auto
  qed
qed

section \<open>Files and their contents\<close>

text \<open>The inode \<open>ip\<close> is a file with contents \<open>c\<close> in the blocks \<open>ds\<close>.\<close>

definition file_is :: "'a blk_scheme \<Rightarrow> inode \<Rightarrow> nat list \<Rightarrow> nat \<Rightarrow> u8 list \<Rightarrow> bool" where
  "file_is s ip ds ind c \<longleftrightarrow> fmapped s ip ds ind \<and> holds_bytes s (i_dev ip) ds c \<and> length c \<le> MAXFILE * BSIZE
     \<and> i_size ip = of_nat (length c)"

lemma file_is_size: "file_is s ip ds ind c \<Longrightarrow> unat (i_size ip) = length c"
  by (simp add: file_is_def MAXFILE_def BSIZE_def NDIRECT_def NINDIRECT_def)

text \<open>The readers of a file see the contents.\<close>

lemma file_is_ok:
  assumes "device_ok s (i_dev ip)" and "file_is s ip ds ind c"
  shows "file_ok {} s ip" and "own_blocks s ip" and "\<And>pos. pos < length ds * BSIZE \<Longrightarrow> file_byte s ip pos = cbyte c pos"
proof -
  have f: "fmapped s ip ds ind" "length ds = nblk (length c)" "length c \<le> MAXFILE * BSIZE"
    using assms(2) by (simp_all add: file_is_def holds_bytes_def)
  note sz = file_is_size [OF assms(2)]
  have hb: "has_block ip k \<Longrightarrow> k < length ds" for k
    using nblk_div(1) [of "k * 512" "length c"] sz f(2) by (simp add: has_block_def BSIZE_def)
  have bn: "file_bn s ip k = of_nat (ds ! k)" if "k < length ds" for k
  proof (cases "k < NDIRECT")
    case True
    then show ?thesis using that f(1) by (simp add: file_bn_def fmapped_def)
  next
    case False
    then have "k - NDIRECT < NINDIRECT" "ind \<noteq> 0" using that f(1) by (auto simp: fmapped_def MAXFILE_def)
    then show ?thesis using that False f(1) by (simp add: file_bn_def fmapped_def)
  qed
  have dat: "is_data s (i_dev ip) b" if "b \<in> set (own_list ds ind)" for b using that f(1) by (simp add: fmapped_def)
  note d = is_data_block [OF assms(1) dat]
  have own: "k < length ds \<Longrightarrow> ds ! k \<in> set (own_list ds ind)" for k by (simp add: own_list_def)
  have ind: "ind \<in> set (own_list ds ind)" "i_addrs ip ! INDIRECT = of_nat ind" if "has_block ip NDIRECT"
    using hb [OF that] f(1) by (auto simp: fmapped_def own_list_def)
  show "file_ok {} s ip"
    using sz f(3) hb bn d(1,3,6) own ind by (auto simp: file_ok_def usable_def unheld_def file_block_def)
  have inj: "(of_nat a :: u32) = of_nat b \<longleftrightarrow> a = b" if "a \<in> set (own_list ds ind)" "b \<in> set (own_list ds ind)" for a b
    using d(2) [OF that(1)] d(2) [OF that(2)] by metis
  have dist: "distinct ds" "ind \<noteq> 0 \<Longrightarrow> ind \<notin> set ds" using f(1) by (auto simp: fmapped_def own_list_def)
  show "own_blocks s ip" unfolding own_blocks_def
  proof (intro conjI allI impI)
    fix j k assume "has_block ip j" "has_block ip k" "file_bn s ip j = file_bn s ip k"
    then show "j = k" using hb bn inj [OF own own] dist(1) by (metis nth_eq_iff_index_eq)
  next
    fix k assume a: "has_block ip NDIRECT" "has_block ip k"
    then have "ind \<noteq> 0" using hb f(1) by (auto simp: fmapped_def)
    then have "ds ! k \<noteq> ind" using dist(2) hb [OF a(2)] nth_mem by metis
    then show "file_bn s ip k \<noteq> i_addrs ip ! INDIRECT" using a hb bn inj [OF own ind(1)] ind(2) by metis
  qed
  show "file_byte s ip pos = cbyte c pos" if "pos < length ds * BSIZE" for pos
    using that bn [of "pos div BSIZE"] assms(2)
    by (simp add: file_byte_def file_block_def file_is_def holds_bytes_def BSIZE_def div_less_iff_less_mult)
qed

lemma fmapped_unique:
  assumes "fmapped s ip ds ind" and "fmapped s' ip' ds' ind'" and "ip' = ip\<lparr>i_addrs := as\<rparr>" and "take (length ds) ds' = ds"
    and "length ds' = length ds" and "ind \<noteq> 0 \<longrightarrow> ind' = ind"
  shows "ip' = ip"
proof -
  have e: "ds' = ds" "ind' = ind" using assms by (auto simp: fmapped_def)
  have "i_addrs ip' ! k = i_addrs ip ! k" if "k < NADDRS" for k
  proof -
    have "k < NDIRECT \<or> k = INDIRECT" using that by (auto simp: NADDRS_def INDIRECT_def NDIRECT_def)
    then show ?thesis using assms(1,2) unfolding e by (auto simp: fmapped_def)
  qed
  then have "i_addrs ip' = i_addrs ip" using assms(1,2) by (intro nth_equalityI) (auto simp: fmapped_def)
  then show ?thesis using assms(3) by simp
qed

text \<open>The block of an inode is in front of the bitmap.\<close>

definition inum_in :: "'a blk_scheme \<Rightarrow> u32 \<Rightarrow> u32 \<Rightarrow> bool" where
  "inum_in s dev inum \<longleftrightarrow> unat inum < unat (sb_ninodes (the_sb (block s dev 1)))"

lemma inum_in_block:
  assumes "device_ok s dev" and "inum_in s dev inum"
  shows "inum_ok dev inum" and "IBLOCK inum \<noteq> 1" and "unat (IBLOCK inum) < bitmap_start s dev" and "loc_ok dev (IBLOCK inum)"
    and "unat (IBLOCK inum) \<notin> free_blocks s dev"
proof -
  have lay: "layout s dev" using assms(1) by (simp add: device_ok_def)
  show i: "inum_ok dev inum" using assms(2) lay by (simp add: inum_ok_def inum_in_def layout_def)
  have "unat inum div 8 \<le> unat (sb_ninodes (the_sb (block s dev 1))) div 8" using assms(2) by (intro div_le_mono) (simp add: inum_in_def)
  then show lt: "unat (IBLOCK inum) < bitmap_start s dev" using unat_IBLOCK [of inum] by (simp add: bitmap_start_def IPB_def)
  show "IBLOCK inum \<noteq> 1" using unat_IBLOCK [of inum] by auto
  show "loc_ok dev (IBLOCK inum)" using inum_loc [OF i] .
  show "unat (IBLOCK inum) \<notin> free_blocks s dev"
    using assms(1) lt fsize_bound(2) [OF lay] by (auto simp: free_blocks_def device_ok_def data_start_def)
qed

text \<open>A file that shares no block with the one that has grown is as before.\<close>

lemma is_data_kept:
  assumes "device_ok s dev" and "block s' dev 1 = block s dev 1" and "free_blocks s' dev \<subseteq> free_blocks s dev" and "is_data s dev b"
  shows "is_data s' dev b"
proof -
  have lay: "layout s dev" using assms(1) by (simp add: device_ok_def)
  show ?thesis using assms(3,4) same_sb [OF lay assms(2)] by (auto simp: is_data_def free_blocks_def)
qed

lemma file_is_cong:
  assumes "device_ok s (i_dev ip)" and "file_is s ip ds ind c" and "\<And>b. b \<in> set (own_list ds ind) \<Longrightarrow>
    block s' (i_dev ip) (of_nat b) = block s (i_dev ip) (of_nat b) \<and> is_data s' (i_dev ip) b"
  shows "file_is s' ip ds ind c"
proof -
  have f: "fmapped s ip ds ind" "length ds = nblk (length c)"
    "\<forall>pos < length ds * BSIZE. block s (i_dev ip) (of_nat (ds ! (pos div BSIZE))) ! (pos mod BSIZE) = cbyte c pos"
    using assms(2) by (simp_all add: file_is_def holds_bytes_def)
  have "fmapped s' ip ds ind" using f(1) assms(3) by (auto simp: fmapped_def own_list_def)
  moreover have "block s' (i_dev ip) (of_nat (ds ! (pos div BSIZE))) ! (pos mod BSIZE) = cbyte c pos" if pos: "pos < length ds * BSIZE" for pos
    using f(3) assms(3) [of "ds ! (pos div BSIZE)"] pos by (simp add: own_list_def BSIZE_def div_less_iff_less_mult)
  ultimately show ?thesis using assms(2) f(2) by (simp add: file_is_def holds_bytes_def)
qed

lemma writei_unfold:
  assumes "ip = inode_at i s" and "i_type ip \<noteq> T_DEV" and "unat off + length src \<le> MAXFILE * BSIZE"
  shows "writei dsw i src off s = rbind (writei_loop (length src) i src off s) (\<lambda>(off1, s1).
    if src \<noteq> [] \<and> off1 > i_size (inode_at i s1) then
      rbind (iupdate i (upd_inode i (\<lambda>ip. ip\<lparr>i_size := off1\<rparr>) s1)) (\<lambda>s2. Inr (of_nat (length src), s2))
    else Inr (of_nat (length src), s1))"
proof -
  have b: "unat off + length src \<le> 71680" using assms(3) by (simp add: MAXFILE_def BSIZE_def NDIRECT_def NINDIRECT_def)
  then have u: "unat (of_nat (length src) :: u32) = length src" "unat (off + of_nat (length src)) = unat off + length src"
    by (simp_all add: unat_add_u32)
  then have "\<not> off + of_nat (length src) < off" "\<not> off + of_nat (length src) > of_nat (MAXFILE * BSIZE)"
    using b by (simp_all add: word_less_nat_alt MAXFILE_def BSIZE_def NDIRECT_def NINDIRECT_def)
  moreover have "(of_nat (length src) :: u32) > 0 \<longleftrightarrow> src \<noteq> []" using u(1) by (simp add: word_less_nat_alt)
  ultimately show ?thesis using assms(1,2) u(1) by (simp add: writei_def Let_def)
qed

text \<open>
  The file in the cache entry \<open>i\<close> was written: its inode is \<open>ip'\<close> now, in the cache and on the disk; the other
  inodes and the blocks of other files are as before.
\<close>

definition wrote :: "nat \<Rightarrow> 'a fs_scheme \<Rightarrow> inode \<Rightarrow> nat list \<Rightarrow> nat \<Rightarrow> 'a fs_scheme \<Rightarrow> inode \<Rightarrow> bool" where
  "wrote i s ip ds ind s' ip' \<longleftrightarrow> bio_ok {} s' \<and> device_ok s' (i_dev ip) \<and> inodes s' = (inodes s)[i := ip']
     \<and> block s' (i_dev ip) 1 = block s (i_dev ip) 1
     \<and> (\<forall>n. inum_in s (i_dev ip) n \<longrightarrow>
          disk_inode s' (i_dev ip) n = (if n = i_inum ip then to_dinode ip' else disk_inode s (i_dev ip) n))
     \<and> (\<forall>b. is_data s (i_dev ip) b \<longrightarrow> b \<notin> set (own_list ds ind) \<longrightarrow>
          block s' (i_dev ip) (of_nat b) = block s (i_dev ip) (of_nat b) \<and> is_data s' (i_dev ip) b)"

lemma grows_inodes:
  assumes "grows i s ip ds ind s' ip' ds' ind'" and "device_ok s (i_dev ip)" and "inum_in s (i_dev ip) n"
  shows "block s' (i_dev ip) (IBLOCK n) = block s (i_dev ip) (IBLOCK n)"
proof -
  note n = inum_in_block [OF assms(2,3)]
  have g: "i_dev ip' = i_dev ip" "fmapped s' ip' ds' ind'" "block s' (i_dev ip) 1 = block s (i_dev ip) 1" using assms(1) by (auto simp: grows_def)
  have lay: "layout s (i_dev ip)" using assms(2) by (simp add: device_ok_def)
  have "unat (IBLOCK n) \<notin> set (own_list ds' ind')"
    using n(3) g same_sb(3) [OF lay g(3)] by (auto simp: fmapped_def is_data_def data_start_def)
  then show ?thesis using assms(1) n(3,4) by (auto simp: grows_def)
qed

lemma grows_others:
  assumes "grows i s ip ds ind s' ip' ds' ind'" and "device_ok s (i_dev ip)" and "is_data s (i_dev ip) b" and "b \<notin> set (own_list ds ind)"
  shows "block s' (i_dev ip) (of_nat b) = block s (i_dev ip) (of_nat b)" and "is_data s' (i_dev ip) b" and "b \<notin> set (own_list ds' ind')"
proof -
  have f: "free_blocks s' (i_dev ip) \<subseteq> free_blocks s (i_dev ip)" "block s' (i_dev ip) 1 = block s (i_dev ip) 1"
    using assms(1) by (auto simp: grows_def)
  show "is_data s' (i_dev ip) b" using is_data_kept [OF assms(2) f(2,1) assms(3)] .
  have "b \<notin> free_blocks s (i_dev ip)" using assms(3) by (simp add: is_data_def free_blocks_def)
  then show nin: "b \<notin> set (own_list ds' ind')" using assms(1,4) by (auto simp: grows_def)
  note d = is_data_block(1,2) [OF assms(2,3)]
  show "block s' (i_dev ip) (of_nat b) = block s (i_dev ip) (of_nat b)"
    using assms(1,3) nin d by (auto simp: grows_def is_data_def)
qed

lemma grows_wrote:
  assumes "grows i s ip ds ind s' ip ds' ind'" and "device_ok s (i_dev ip)" and "disk_inode s (i_dev ip) (i_inum ip) = to_dinode ip"
  shows "wrote i s ip ds ind s' ip"
  using assms(1,3) grows_inodes [OF assms(1,2)] grows_others [OF assms(1,2)]
  by (auto simp: wrote_def grows_def disk_inode_def)

lemma size_update:
  assumes "grows i s ip ds ind s1 ip1 ds1 ind1" and "device_ok s (i_dev ip)" and "holds_bytes s1 (i_dev ip) ds1 c"
    and "length c \<le> MAXFILE * BSIZE" and "inum_in s (i_dev ip) (i_inum ip)" and "i < length (inodes s)"
    and "ip2 = ip1\<lparr>i_size := of_nat (length c)\<rparr>"
  shows "\<exists>s3. iupdate i (upd_inode i (\<lambda>ip. ip\<lparr>i_size := of_nat (length c)\<rparr>) s1) = Inr s3
    \<and> wrote i s ip ds ind s3 ip2 \<and> file_is s3 ip2 ds1 ind1 c"
proof -
  let ?dev = "i_dev ip" and ?n = "i_inum ip"
  have g: "bio_ok {} s1" "device_ok s1 ?dev" "fmapped s1 ip1 ds1 ind1" "inodes s1 = (inodes s)[i := ip1]"
    "block s1 ?dev 1 = block s ?dev 1" "i_dev ip1 = ?dev" "i_inum ip1 = ?n"
    using assms(1) by (auto simp: grows_def)
  define s2 where "s2 = upd_inode i (\<lambda>ip. ip\<lparr>i_size := of_nat (length c)\<rparr>) s1"
  have ip2: "inode_at i s2 = ip2" "i_dev ip2 = ?dev" "i_inum ip2 = ?n" "length (i_addrs ip2) = NADDRS"
  proof -
    show "inode_at i s2 = ip2" using g(4) assms(6,7) by (simp add: s2_def upd_inode_def inode_at_def)
    show "i_dev ip2 = ?dev" "i_inum ip2 = ?n" using g(6,7) assms(7) by simp_all
    show "length (i_addrs ip2) = NADDRS" using g(3) unfolding assms(7) fmapped_def by simp
  qed
  have blk: "block s2 = block s1" by (simp add: s2_def inode_simps)
  have ok2: "bio_ok {} s2" "device_ok s2 ?dev" using g(1,2) device_same(1) [OF blk] by (simp_all add: s2_def inode_simps)
  have in1: "inum_in s2 ?dev m \<longleftrightarrow> inum_in s ?dev m" for m using g(5) blk by (simp add: inum_in_def)
  note n = inum_in_block [OF ok2(2), unfolded in1, OF assms(5)]
  let ?x = "put_dinode (inode_off ?n) (to_dinode ip2) (block s2 ?dev (IBLOCK ?n))"
  obtain s3 where u: "iupdate i s2 = Inr s3" "stable {} s2 s3" "disk_upd s2 ?dev (IBLOCK ?n) ?x s3"
    using iupdate_ok [OF ok2(1) room_empty ip2(1), unfolded ip2(2,3), OF n(1)] by (auto simp: unheld_def)
  have lb: "length (block s2 ?dev (IBLOCK ?n)) = BSIZE" using ok2(2) n(4) by (simp add: device_ok_def layout_def)
  have la: "length (d_addrs (to_dinode ip2)) = NADDRS" using ip2(4) by (simp add: to_dinode_def)
  have "length ?x = BSIZE" using lb by simp
  note v = device_upd_block [OF ok2(2) u(3) this n(2) _ n(5)]
  have v: "device_ok s3 ?dev" "block s3 ?dev 1 = block s2 ?dev 1" "free_blocks s3 ?dev = free_blocks s2 ?dev" using v n(3) by auto
  have dat: "is_data s3 ?dev b" "block s3 ?dev (of_nat b) = block s1 ?dev (of_nat b)" if b: "is_data s1 ?dev b" for b
  proof -
    have "is_data s2 ?dev b" using b device_same(3) [OF blk] by simp
    then show "is_data s3 ?dev b" using is_data_kept [OF ok2(2) v(2)] v(3) by simp
    have "of_nat b \<noteq> IBLOCK ?n" using is_data_block(2) [OF g(2) b] b n(3) device_same [OF blk] by (auto simp: is_data_def data_start_def)
    then show "block s3 ?dev (of_nat b) = block s1 ?dev (of_nat b)"
      using u(3) is_data_block(1) [OF g(2) b] blk by (simp add: disk_upd_def)
  qed
  have "i_addrs ip2 = i_addrs ip1" "i_dev ip2 = i_dev ip1" using assms(7) by simp_all
  from fmapped_addrs [OF this] have "fmapped s1 ip2 ds1 ind1" using g(3) by blast
  moreover have "i_size ip2 = of_nat (length c)" using assms(7) by simp
  ultimately have "file_is s1 ip2 ds1 ind1 c" using assms(3,4) unfolding file_is_def ip2(2) by blast
  moreover have "is_data s1 ?dev b" if "b \<in> set (own_list ds1 ind1)" for b using that g(3) unfolding fmapped_def g(6) by blast
  then have "block s3 (i_dev ip2) (of_nat b) = block s1 (i_dev ip2) (of_nat b) \<and> is_data s3 (i_dev ip2) b"
    if "b \<in> set (own_list ds1 ind1)" for b using that dat unfolding ip2(2) by blast
  moreover have "device_ok s1 (i_dev ip2)" using g(2) unfolding ip2(2) .
  ultimately have fi: "file_is s3 ip2 ds1 ind1 c" by (rule file_is_cong [rotated])
  have "disk_inode s3 ?dev m = (if m = ?n then to_dinode ip2 else disk_inode s ?dev m)" if m: "inum_in s ?dev m" for m
  proof -
    have "disk_inode s2 ?dev m = disk_inode s ?dev m" using grows_inodes [OF assms(1,2) m] blk by (simp add: disk_inode_def)
    then show ?thesis using disk_inode_upd [OF u(3) n(1) lb la] inum_in_block(1) [OF ok2(2), unfolded in1, OF m] by simp
  qed
  moreover have "inodes s3 = (inodes s)[i := ip2]"
    using rest_fs(1) [OF stableD(2) [OF u(2)]] g(4) assms(6,7) by (simp add: s2_def upd_inode_def)
  moreover have "block s3 ?dev (of_nat b) = block s ?dev (of_nat b) \<and> is_data s3 ?dev b"
    if "is_data s ?dev b" "b \<notin> set (own_list ds ind)" for b
    using dat [OF grows_others(2) [OF assms(1,2) that]] grows_others(1) [OF assms(1,2) that] by simp
  ultimately have "wrote i s ip ds ind s3 ip2"
    unfolding wrote_def using v(1,2) g(5) blk stableD(1) [OF u(2)] by simp
  then show ?thesis using u(1) fi unfolding s2_def by blast
qed

text \<open>A file whose blocks are not those of the file written keeps its contents.\<close>

lemma wrote_others:
  assumes "wrote i s ip ds ind s' ip'" and "device_ok s (i_dev ip)" and "file_is s jp es k c" and "i_dev jp = i_dev ip"
    and "set (own_list es k) \<inter> set (own_list ds ind) = {}"
  shows "file_is s' jp es k c"
proof -
  have w: "block s' (i_dev ip) (of_nat b) = block s (i_dev ip) (of_nat b) \<and> is_data s' (i_dev ip) b"
    if "is_data s (i_dev ip) b" "b \<notin> set (own_list ds ind)" for b
    using assms(1) that unfolding wrote_def by blast
  have d: "is_data s (i_dev ip) b" if "b \<in> set (own_list es k)" for b
    using assms(3) that unfolding file_is_def fmapped_def assms(4) by blast
  show ?thesis
  proof (rule file_is_cong [OF _ assms(3)])
    show "device_ok s (i_dev jp)" using assms(2,4) by simp
    show "block s' (i_dev jp) (of_nat b) = block s (i_dev jp) (of_nat b) \<and> is_data s' (i_dev jp) b"
      if "b \<in> set (own_list es k)" for b using that d w assms(5) unfolding assms(4) by blast
  qed
qed

lemma writei_file:
  assumes "bio_ok {} s" and "device_ok s (i_dev ip)" and "ip = inode_at i s" and "i < length (inodes s)"
    and "file_is s ip ds ind c" and "i_type ip \<noteq> T_DEV" and "inum_in s (i_dev ip) (i_inum ip)"
    and "disk_inode s (i_dev ip) (i_inum ip) = to_dinode ip"
    and "unat off \<le> length c" and "unat off + length src \<le> MAXFILE * BSIZE"
    and "need (max (length c) (unat off + length src)) \<le> need (length c) + card (free_blocks s (i_dev ip))"
  shows "\<exists>s' ip' ds' ind'. writei dsw i src off s = Inr (of_nat (length src), s') \<and> wrote i s ip ds ind s' ip'
    \<and> (\<exists>as. ip' = ip\<lparr>i_addrs := as, i_size := of_nat (length (patch (unat off) src c))\<rparr>)
    \<and> file_is s' ip' ds' ind' (patch (unat off) src c)"
proof -
  let ?dev = "i_dev ip" and ?c = "patch (unat off) src c"
  have f: "fmapped s ip ds ind" "holds_bytes s ?dev ds c" "length c \<le> MAXFILE * BSIZE" "i_size ip = of_nat (length c)"
    using assms(5) by (simp_all add: file_is_def)
  obtain s1 ip1 ds1 ind1 where l: "writei_loop (length src) i src off s = Inr (off + of_nat (length src), s1)"
      "grows i s ip ds ind s1 ip1 ds1 ind1" "holds_bytes s1 ?dev ds1 ?c"
    using writei_loop_grows [OF assms(1,2) f(1) assms(3) [symmetric] assms(4) f(2,3) assms(9) refl assms(10,11)] by blast
  have M: "MAXFILE * BSIZE = 71680" by (simp add: MAXFILE_def BSIZE_def NDIRECT_def NINDIRECT_def)
  have c: "length ?c = max (length c) (unat off + length src)" using patch_length [OF assms(9)] .
  then have cM: "length ?c \<le> MAXFILE * BSIZE" using f(3) assms(10) by simp
  obtain as where as: "ip1 = ip\<lparr>i_addrs := as\<rparr>" using l(2) unfolding grows_def by blast
  have at: "inode_at i s1 = ip1" using l(2) assms(4) by (simp add: grows_def inode_at_def)
  have sz: "unat (i_size (inode_at i s1)) = length c" using f(3,4) M unfolding at as by simp
  have o: "unat (off + of_nat (length src)) = unat off + length src" using assms(10) M by (simp add: unat_add_u32)
  note W = writei_unfold [OF assms(3,6,10), of dsw, unfolded l(1), simplified]
  show ?thesis
  proof (cases "src \<noteq> [] \<and> length c < unat off + length src")
    case True
    then have off: "off + of_nat (length src) = of_nat (length ?c)" using c by simp
    obtain s3 where "iupdate i (upd_inode i (\<lambda>ip. ip\<lparr>i_size := of_nat (length ?c)\<rparr>) s1) = Inr s3"
        "wrote i s ip ds ind s3 (ip1\<lparr>i_size := of_nat (length ?c)\<rparr>)" "file_is s3 (ip1\<lparr>i_size := of_nat (length ?c)\<rparr>) ds1 ind1 ?c"
      using size_update [OF l(2) assms(2) l(3) cM assms(7,4) refl] by blast
    moreover have "ip1\<lparr>i_size := of_nat (length ?c)\<rparr> = ip\<lparr>i_addrs := as, i_size := of_nat (length ?c)\<rparr>" using as by simp
    moreover have "i_size (inode_at i s1) < off + of_nat (length src)" using True sz o by (simp add: word_less_nat_alt)
    ultimately show ?thesis using W True unfolding off by auto
  next
    case False
    then have lc: "length ?c = length c" using c assms(9) by auto
    have g: "fmapped s1 ip1 ds1 ind1" "take (length ds) ds1 = ds" "ind \<noteq> 0 \<longrightarrow> ind1 = ind" using l(2) unfolding grows_def by blast+
    have "length ds1 = length ds" using l(3) f(2) lc by (simp add: holds_bytes_def)
    then have e: "ip1 = ip" using fmapped_unique [OF f(1) g(1) as g(2) _ g(3)] by simp
    have "\<not> (src \<noteq> [] \<and> i_size (inode_at i s1) < off + of_nat (length src))" using False sz o by (simp add: word_less_nat_alt)
    then have "writei dsw i src off s = Inr (of_nat (length src), s1)" unfolding W by (rule if_not_P)
    moreover have "file_is s1 ip ds1 ind1 ?c" using g(1) l(3) cM f(4) lc unfolding e file_is_def by simp
    moreover have "ip = ip\<lparr>i_addrs := i_addrs ip, i_size := of_nat (length ?c)\<rparr>" using f(4) lc by simp
    ultimately show ?thesis using grows_wrote [OF l(2) [unfolded e] assms(2,8)] by blast
  qed
qed

text \<open>
  Entry \<open>i\<close> of the inode cache is a file with contents \<open>c\<close>, and the inode on the disk is the same.
  There is room for the file to have \<open>n\<close> bytes: not more than the maximum, and enough free blocks.
\<close>

definition cached_file :: "'a fs_scheme \<Rightarrow> nat \<Rightarrow> nat list \<Rightarrow> nat \<Rightarrow> u8 list \<Rightarrow> bool" where
  "cached_file s i ds ind c \<longleftrightarrow> (let ip = inode_at i s in
     bio_ok {} s \<and> device_ok s (i_dev ip) \<and> i < length (inodes s) \<and> file_is s ip ds ind c
     \<and> inum_in s (i_dev ip) (i_inum ip) \<and> disk_inode s (i_dev ip) (i_inum ip) = to_dinode ip)"

definition room_for :: "'a fs_scheme \<Rightarrow> nat \<Rightarrow> u8 list \<Rightarrow> nat \<Rightarrow> bool" where
  "room_for s i c n \<longleftrightarrow> n \<le> MAXFILE * BSIZE
     \<and> need (max (length c) n) \<le> need (length c) + card (free_blocks s (i_dev (inode_at i s)))"

text \<open>What a write to the file leaves alone: the files in other blocks, and the other inodes on the disk.\<close>

definition others_kept :: "'a fs_scheme \<Rightarrow> nat \<Rightarrow> nat list \<Rightarrow> nat \<Rightarrow> 'a fs_scheme \<Rightarrow> bool" where
  "others_kept s i ds ind s' \<longleftrightarrow> (let ip = inode_at i s in
     (\<forall>jp es k d. i_dev jp = i_dev ip \<and> file_is s jp es k d \<and> set (own_list es k) \<inter> set (own_list ds ind) = {} \<longrightarrow> file_is s' jp es k d)
     \<and> (\<forall>n. inum_in s (i_dev ip) n \<and> n \<noteq> i_inum ip \<longrightarrow> disk_inode s' (i_dev ip) n = disk_inode s (i_dev ip) n)
     \<and> (\<forall>j. j \<noteq> i \<longrightarrow> inode_at j s' = inode_at j s))"

lemma wrote_cached:
  assumes "cached_file s i ds ind c" and "ip = inode_at i s" and "wrote i s ip ds ind s' ip'"
    and "ip' = ip\<lparr>i_addrs := as, i_size := sz\<rparr>" and "file_is s' ip' ds' ind' c'"
  shows "cached_file s' i ds' ind' c'" and "inode_at i s' = ip'" and "others_kept s i ds ind s'"
proof -
  have f: "device_ok s (i_dev ip)" "i < length (inodes s)" "inum_in s (i_dev ip) (i_inum ip)"
    using assms(1,2) unfolding cached_file_def Let_def by blast+
  have w: "bio_ok {} s'" "device_ok s' (i_dev ip)" "inodes s' = (inodes s)[i := ip']" "block s' (i_dev ip) 1 = block s (i_dev ip) 1"
    "\<forall>n. inum_in s (i_dev ip) n \<longrightarrow> disk_inode s' (i_dev ip) n = (if n = i_inum ip then to_dinode ip' else disk_inode s (i_dev ip) n)"
    using assms(3) unfolding wrote_def by blast+
  have d: "i_dev ip' = i_dev ip" "i_inum ip' = i_inum ip" using assms(4) by simp_all
  show at: "inode_at i s' = ip'" using w(3) f(2) by (simp add: inode_at_def)
  have "inum_in s' (i_dev ip) (i_inum ip)" using f(3) w(4) by (simp add: inum_in_def)
  moreover have "disk_inode s' (i_dev ip) (i_inum ip) = to_dinode ip'" using w(5) f(3) by simp
  ultimately show "cached_file s' i ds' ind' c'"
    unfolding cached_file_def Let_def at d using w(1,2,3) f(2) assms(5) by simp
  have "inode_at j s' = inode_at j s" if "j \<noteq> i" for j using w(3) that by (simp add: inode_at_def)
  then show "others_kept s i ds ind s'"
    unfolding others_kept_def Let_def assms(2) [symmetric] using wrote_others [OF assms(3) f(1)] w(5) by simp
qed

text \<open>
  \<^bold>\<open>C8.\<close> \<^verbatim>\<open>writei\<close> lets files grow. A write that begins inside a file or at its end, and for which
  there is room, replaces the contents from the offset on by the bytes written: \<^verbatim>\<open>bmap\<close> takes the
  blocks that are missing from the bitmap, the indirect block included, and the new size and
  block numbers are in the inode, in the cache and on the disk. Files in other blocks and the other
  inodes stay as they are.
\<close>

theorem writei_grows:
  assumes "cached_file s i ds ind c" and "i_type (inode_at i s) \<noteq> T_DEV" and "unat off \<le> length c"
    and "room_for s i c (unat off + length src)"
  shows "\<exists>s' ds' ind'. writei dsw i src off s = Inr (of_nat (length src), s')
    \<and> cached_file s' i ds' ind' (take (unat off) c @ src @ drop (unat off + length src) c)
    \<and> i_size (inode_at i s') = of_nat (max (length c) (unat off + length src)) \<and> others_kept s i ds ind s'"
proof -
  let ?ip = "inode_at i s"
  have f: "bio_ok {} s" "device_ok s (i_dev ?ip)" "i < length (inodes s)" "file_is s ?ip ds ind c"
    "inum_in s (i_dev ?ip) (i_inum ?ip)" "disk_inode s (i_dev ?ip) (i_inum ?ip) = to_dinode ?ip"
    using assms(1) unfolding cached_file_def Let_def by blast+
  obtain s' ip' ds' ind' as where w: "writei dsw i src off s = Inr (of_nat (length src), s')" "wrote i s ?ip ds ind s' ip'"
      "ip' = ?ip\<lparr>i_addrs := as, i_size := of_nat (length (patch (unat off) src c))\<rparr>" "file_is s' ip' ds' ind' (patch (unat off) src c)"
    using writei_file [OF f(1,2) refl f(3,4) assms(2) f(5,6) assms(3)] assms(4) unfolding room_for_def by blast
  note wc = wrote_cached [OF assms(1) refl w(2,3,4)]
  have "i_size (inode_at i s') = of_nat (max (length c) (unat off + length src))"
    unfolding wc(2) w(3) using patch_length [OF assms(3)] by simp
  then show ?thesis using w(1) wc(1,3) unfolding patch_def by blast
qed

text \<open>A disk of 1024 blocks with 200 inodes; the root directory has one entry, in block 29.\<close>

definition root_bytes :: "u8 list" where
  "root_bytes = [1, 0, 46] @ replicate 13 0"

definition root_inode :: inode where
  "root_inode = open_file\<lparr>i_inum := 1, i_type := T_DIR, i_size := 16, i_addrs := 29 # replicate 12 0\<rparr>"

definition small_fs :: fs where
  "small_fs = formatted\<lparr>inodes := [root_inode, open_file\<lparr>i_ref := 0\<rparr>],
     disk := (\<lambda>dr sec. if sec = 2 then put_dinode 64 (to_dinode root_inode) (replicate 512 0)
       else if sec = 28 then [255, 255, 255, 63] @ replicate 508 0
       else if sec = 29 then root_bytes @ replicate 496 0 else disk formatted dr sec)\<rparr>"

lemma small_fs_ok: "bio_ok {} small_fs"
  by (auto simp: bio_ok_def small_fs_def formatted_def buf_at_def in_use_def drive_ready_def
      IDE_BSY_def IDE_DRDY_def IDE_DF_def IDE_ERR_def)

lemma small_fs_sb: "the_sb (block small_fs 1 1) = \<lparr>sb_size = 1024, sb_nblocks = 995, sb_ninodes = 200\<rparr>"
  by code_simp

lemma small_fs_layout: "layout small_fs 1" "nbits small_fs 1 = 4096" "fsize small_fs 1 = 1024" "data_start small_fs 1 = 29"
proof -
  show "layout small_fs 1" unfolding layout_def small_fs_sb
    by (simp add: block_def formatted_def small_fs_def BSIZE_def root_bytes_def)
  show n: "nbits small_fs 1 = 4096" unfolding nbits_def small_fs_sb by (simp add: BPB_def)
  show "fsize small_fs 1 = 1024" unfolding fsize_def small_fs_sb by simp
  show "data_start small_fs 1 = 29" unfolding data_start_def bitmap_start_def small_fs_sb n by (simp add: BPB_def IPB_def)
qed

lemma small_fs_free:
  assumes "b < 4096" shows "is_free small_fs 1 b \<longleftrightarrow> 30 \<le> b"
proof -
  have "unat (bitmap_of small_fs 1 b) = 28"
    unfolding bitmap_of_eq(1) [OF small_fs_layout(1), unfolded small_fs_layout(2), OF assms] small_fs_sb
    using assms by (simp add: BPB_def IPB_def)
  then have "bitmap_of small_fs 1 b = 28" by (simp add: word_unat_eq_iff)
  then have blk: "block small_fs 1 (bitmap_of small_fs 1 b) = [255, 255, 255, 63] @ replicate 508 0"
    by (simp add: block_def small_fs_def)
  have "list_all (\<lambda>b. bit (([255, 255, 255, 63] @ replicate 508 0 :: u8 list) ! (b div 8)) (b mod 8) \<longleftrightarrow> b < 30) [0..<32]" by code_simp
  then have low: "bit (([255, 255, 255, 63] @ replicate 508 0 :: u8 list) ! (b div 8)) (b mod 8) \<longleftrightarrow> b < 30" if "b < 32"
    using that by (simp add: list_all_iff)
  have "(([255, 255, 255, 63] @ replicate 508 0 :: u8 list) ! (b div 8)) = 0" if "\<not> b < 32"
  proof -
    have "4 \<le> b div 8" "b div 8 < 512" using that assms by (simp_all add: div_less_iff_less_mult less_eq_div_iff_mult_less_eq)
    then show ?thesis by (simp add: nth_append)
  qed
  then show ?thesis using low assms by (cases "b < 32") (auto simp: is_free_def block_free_bit blk BPB_def)
qed

lemma small_fs_device: "device_ok small_fs 1" "free_blocks small_fs 1 = {30..<1024}"
proof -
  have "block small_fs 1 (of_nat b) = replicate BSIZE 0" if "30 \<le> b" "b < 1024" for b
  proof -
    have u: "unat (of_nat b :: u32) = b" using that by simp
    have "(of_nat b :: u32) \<noteq> w" if "unat w < 30" for w using u that \<open>30 \<le> b\<close> by auto
    from this [of 1] this [of 2] this [of 28] this [of 29]
    have "of_nat b \<noteq> (1 :: u32)" "of_nat b \<noteq> (2 :: u32)" "of_nat b \<noteq> (28 :: u32)" "of_nat b \<noteq> (29 :: u32)" by simp_all
    then show ?thesis using u that by (simp add: block_def small_fs_def formatted_def sec_mask loc_ok_def BSIZE_def)
  qed
  then show "device_ok small_fs 1" using small_fs_layout small_fs_free by (auto simp: device_ok_def)
  show "free_blocks small_fs 1 = {30..<1024}" using small_fs_layout(3) small_fs_free by (auto simp: free_blocks_def)
qed

lemma small_fs_root: "cached_file small_fs 0 [29] 0 root_bytes"
proof -
  have ip: "inode_at 0 small_fs = root_inode" "i_dev root_inode = 1" "i_inum root_inode = 1"
    by (simp_all add: inode_at_def small_fs_def root_inode_def open_file_def)
  have len: "length root_bytes = 16" by (simp add: root_bytes_def)
  have dat: "is_data small_fs 1 29" using small_fs_layout small_fs_free by (simp add: is_data_def)
  then have "fmapped small_fs root_inode [29] 0" unfolding fmapped_def ip(2)
    by (auto simp: root_inode_def open_file_def NADDRS_def NDIRECT_def INDIRECT_def MAXFILE_def NINDIRECT_def nth_Cons')
  moreover have "block small_fs 1 29 = root_bytes @ replicate 496 0" by (simp add: block_def small_fs_def)
  then have "holds_bytes small_fs 1 [29] root_bytes"
    by (auto simp: holds_bytes_def cbyte_def nth_append len BSIZE_def nblk_def)
  ultimately have "file_is small_fs root_inode [29] 0 root_bytes"
    using len by (simp add: file_is_def ip(2)) (simp add: root_inode_def MAXFILE_def BSIZE_def NDIRECT_def NINDIRECT_def)
  moreover have "disk_inode small_fs 1 1 = to_dinode root_inode"
  proof -
    have "block small_fs 1 (IBLOCK 1) = put_dinode 64 (to_dinode root_inode) (replicate 512 0)"
      by (simp add: IBLOCK_def IPB_def block_def small_fs_def)
    moreover have "inode_off 1 = 64" by (simp add: inode_off_def IPB_def)
    moreover have "length (d_addrs (to_dinode root_inode)) = NADDRS" by (simp add: to_dinode_def root_inode_def NADDRS_def NDIRECT_def)
    ultimately show ?thesis by (simp add: disk_inode_def get_put_dinode)
  qed
  moreover have "inum_in small_fs 1 1" by (simp add: inum_in_def small_fs_sb)
  moreover have "0 < length (inodes small_fs)" by (simp add: small_fs_def)
  ultimately show ?thesis unfolding cached_file_def Let_def ip using small_fs_ok small_fs_device(1) by simp
qed

theorem writei_grows_witness:
  "\<exists>s' ds' ind'. writei (\<lambda>_. \<lparr>dev_read = None, dev_write = None\<rparr>) 0 (replicate 600 7) 16 small_fs = Inr (600, s')
     \<and> cached_file s' 0 ds' ind' (root_bytes @ replicate 600 7)"
proof -
  have "i_type (inode_at 0 small_fs) \<noteq> T_DEV" "i_dev (inode_at 0 small_fs) = 1"
    by (simp_all add: inode_at_def small_fs_def root_inode_def open_file_def T_DIR_def T_DEV_def)
  moreover have "length root_bytes = 16" by (simp add: root_bytes_def)
  moreover have "need 616 \<le> need 16 + 994" by (simp add: need_def nblk_def NDIRECT_def)
  ultimately show ?thesis
    using writei_grows [OF small_fs_root, of 16 "replicate 600 7" "\<lambda>_. \<lparr>dev_read = None, dev_write = None\<rparr>"] small_fs_device(2)
    by (auto simp: room_for_def MAXFILE_def BSIZE_def NDIRECT_def NINDIRECT_def)
qed

end
