(* ===== verification/Fs_Link.thy ===== *)
theory Fs_Link
  imports Fs_Grow
begin

text \<open>
  Directories as maps from names to inode numbers (\<^verbatim>\<open>dirlookup\<close> and \<^verbatim>\<open>dirlink\<close> of \<^verbatim>\<open>fs.c\<close>). The
  contents of a directory denote a partial function; \<^verbatim>\<open>dirlookup\<close> applies it, and \<^verbatim>\<open>dirlink\<close>
  updates it at one name, in the first free entry or in a new one at the end, for which the
  directory may grow.
\<close>

section \<open>The map a directory denotes\<close>

text \<open>The part of a name that counts.\<close>

definition dname :: "u8 list \<Rightarrow> u8 list" where
  "dname nm = take DIRSIZ (takeWhile (\<lambda>c. c \<noteq> 0) nm)"

definition dir_slot :: "u8 list \<Rightarrow> u8 list \<Rightarrow> nat option" where
  "dir_slot c nm = first_idx (\<lambda>k. de_inum k c \<noteq> 0 \<and> dname (de_name k c) = nm) [0..<length c div 16]"

definition dir_of :: "u8 list \<Rightarrow> u8 list \<Rightarrow> u16 option" where
  "dir_of c nm = map_option (\<lambda>k. de_inum k c) (dir_slot c nm)"

text \<open>The entry that \<^verbatim>\<open>dirlink\<close> uses: the first free one, or the one behind the last.\<close>

definition free_slot :: "u8 list \<Rightarrow> nat" where
  "free_slot c = (case first_idx (\<lambda>k. de_inum k c = 0) [0..<length c div 16] of Some k \<Rightarrow> k | None \<Rightarrow> length c div 16)"

lemma first_idx_same:
  assumes "\<And>j. j < n \<and> P j \<longleftrightarrow> j < n' \<and> P' j"
  shows "first_idx P [0..<n] = first_idx P' [0..<n']"
proof (cases "first_idx P [0..<n]")
  case None
  then have "\<not> P j" if "j < n" for j using that by (simp add: first_idx_None)
  then have "first_idx P' [0..<n'] = None" using assms unfolding first_idx_None by (metis atLeastLessThan_iff set_upt)
  then show ?thesis using None by simp
next
  case (Some k)
  then have k: "k < n" "P k" "\<forall>l < k. \<not> P l" by (simp_all add: first_idx_upt_Some)
  have "\<not> P' l" if "l < k" for l using assms [of l] assms [of k] that k by (meson less_trans)
  moreover have "k < n'" "P' k" using assms [of k] k by simp_all
  ultimately have "first_idx P' [0..<n'] = Some k" by (simp add: first_idx_upt_Some)
  then show ?thesis using Some by simp
qed

lemma free_slot_free: "free_slot c \<le> length c div 16" "free_slot c < length c div 16 \<Longrightarrow> de_inum (free_slot c) c = 0"
proof -
  have "free_slot c = length c div 16 \<or> free_slot c < length c div 16 \<and> de_inum (free_slot c) c = 0"
  proof (cases "first_idx (\<lambda>k. de_inum k c = 0) [0..<length c div 16]")
    case (Some k)
    then show ?thesis using first_idx_upt_Some [of "\<lambda>k. de_inum k c = 0" 0 "length c div 16" k] by (simp add: free_slot_def)
  qed (simp add: free_slot_def)
  then show "free_slot c \<le> length c div 16" "free_slot c < length c div 16 \<Longrightarrow> de_inum (free_slot c) c = 0" by auto
qed

section \<open>Entries\<close>

definition entry :: "nat \<Rightarrow> u8 list \<Rightarrow> u8 list" where
  "entry k c = take 16 (drop (16 * k) c)"

lemma entry_parts:
  assumes "16 * k + 16 \<le> length c"
  shows "de_inum 0 (entry k c) = de_inum k c" and "de_name 0 (entry k c) = de_name k c"
proof -
  have "entry k c ! 0 = c ! (16 * k)" "entry k c ! 1 = c ! (16 * k + 1)" using assms by (simp_all add: entry_def)
  then show "de_inum 0 (entry k c) = de_inum k c" by (simp add: de_inum_def get16_def)
  have "drop 2 (entry k c) = take 14 (drop (16 * k + 2) c)" by (simp add: entry_def drop_take add.commute)
  then show "de_name 0 (entry k c) = de_name k c" by (simp add: de_name_def DIRSIZ_def numeral_2_eq_2)
qed

lemma entry_patch:
  assumes "length e = 16" and "16 * k \<le> length c" and "16 dvd length c" and "16 * j + 16 \<le> length (patch (16 * k) e c)"
  shows "entry j (patch (16 * k) e c) = (if j = k then e else entry j c)" and "j \<noteq> k \<Longrightarrow> 16 * j + 16 \<le> length c"
proof -
  obtain n where n: "length c = 16 * n" using assms(3) by (auto simp: dvd_def)
  have len: "length (patch (16 * k) e c) = max (16 * n) (16 * k + 16)" using patch_length [OF assms(2), of e] assms(1) n by simp
  have kn: "k \<le> n" using assms(2) n by simp
  show j: "j \<noteq> k \<Longrightarrow> 16 * j + 16 \<le> length c" using assms(4) kn unfolding len n by (auto simp: max_def split: if_splits)
  show "entry j (patch (16 * k) e c) = (if j = k then e else entry j c)"
  proof (rule nth_equalityI)
    show "length (entry j (patch (16 * k) e c)) = length (if j = k then e else entry j c)" using assms(1,4) j by (auto simp: entry_def)
    fix t assume "t < length (entry j (patch (16 * k) e c))"
    then have t: "t < 16" by (simp add: entry_def)
    have "entry j (patch (16 * k) e c) ! t = patch (16 * k) e c ! (16 * j + t)" using t assms(4) by (simp add: entry_def)
    also have "\<dots> = cbyte (patch (16 * k) e c) (16 * j + t)" using t assms(4) by (simp add: cbyte_def)
    also have "\<dots> = overwrite (16 * k) e (cbyte c) (16 * j + t)" by (rule patch_byte [OF assms(2)])
    also have "\<dots> = (if j = k then e else entry j c) ! t"
    proof (cases "j = k")
      case True
      then show ?thesis using t assms(1) by (simp add: overwrite_def)
    next
      case False
      then have "\<not> (16 * k \<le> 16 * j + t \<and> 16 * j + t < 16 * k + length e)" using t assms(1) by auto
      then show ?thesis using False j [OF False] t by (auto simp: overwrite_def cbyte_def entry_def)
    qed
    finally show "entry j (patch (16 * k) e c) ! t = (if j = k then e else entry j c) ! t" .
  qed
qed

lemma make_dirent_parts:
  shows "length (make_dirent name ino) = 16" and "de_inum 0 (make_dirent name ino) = ucast ino"
    and "dname (de_name 0 (make_dirent name ino)) = dname name"
proof -
  show len: "length (make_dirent name ino) = 16" by (simp add: make_dirent_def Let_def DIRSIZ_def)
  show "de_inum 0 (make_dirent name ino) = ucast ino" by (simp add: make_dirent_def Let_def DIRSIZ_def de_inum_def)
  have "de_name 0 (make_dirent name ino) = take 14 name @ replicate (14 - length (take 14 name)) 0"
    by (simp add: make_dirent_def Let_def DIRSIZ_def de_name_def put16_def numeral_2_eq_2)
  moreover have "takeWhile (\<lambda>c. c \<noteq> 0) (take n xs @ replicate m 0) = take n (takeWhile (\<lambda>c. c \<noteq> 0) xs)" for n m and xs :: "u8 list"
  proof (induction xs arbitrary: n)
    case Nil
    then show ?case by (cases m) simp_all
  next
    case (Cons x xs)
    show ?case using Cons.IH [of "n - 1"] by (cases n; cases m) simp_all
  qed
  ultimately show "dname (de_name 0 (make_dirent name ino)) = dname name" by (simp add: dname_def DIRSIZ_def)
qed

text \<open>An entry written into a free place makes the directory's map one with the new name.\<close>

lemma patch_entries:
  assumes "16 dvd length c" and "k \<le> length c div 16" and "e = make_dirent name ino" and "d = patch (16 * k) e c"
  shows "length d = max (length c) (16 * k + 16)" and "length d div 16 = max (length c div 16) (Suc k)"
    and "j < length d div 16 \<Longrightarrow> de_inum j d = (if j = k then ucast ino else de_inum j c)"
    and "j < length d div 16 \<Longrightarrow> dname (de_name j d) = (if j = k then dname name else dname (de_name j c))"
proof -
  have le: "length e = 16" using make_dirent_parts(1) assms(3) by simp
  have kl: "16 * k \<le> length c" using assms(2) by auto
  show len: "length d = max (length c) (16 * k + 16)" using patch_length [OF kl, of e] le assms(4) by simp
  show "length d div 16 = max (length c div 16) (Suc k)" using assms(1) unfolding len by (auto simp: dvd_def max_def)
  assume "j < length d div 16"
  then have j: "16 * j + 16 \<le> length d" by auto
  note es = entry_patch [OF le kl assms(1), folded assms(4), OF j] and ep = entry_parts [OF j] and eo = entry_parts [of j c]
  show "de_inum j d = (if j = k then ucast ino else de_inum j c)"
    using ep(1) eo(1) es make_dirent_parts(2) [of name ino] assms(3) by (cases "j = k") simp_all
  show "dname (de_name j d) = (if j = k then dname name else dname (de_name j c))"
    using ep(2) eo(2) es make_dirent_parts(3) [of name ino] assms(3) by (cases "j = k") simp_all
qed

lemma dir_of_patch:
  assumes "16 dvd length c" and "k = free_slot c" and "d = patch (16 * k) (make_dirent name ino) c"
    and "dir_of c (dname name) = None" and "ucast ino \<noteq> (0 :: u16)"
  shows "dir_of d nm = ((dir_of c)(dname name \<mapsto> ucast ino)) nm"
proof -
  let ?n = "length c div 16"
  have k: "k \<le> ?n" "k < ?n \<Longrightarrow> de_inum k c = 0" using free_slot_free [of c] assms(2) by simp_all
  note pe = patch_entries [OF assms(1) k(1) refl assms(3)]
  have none: "\<not> (j < ?n \<and> de_inum j c \<noteq> 0 \<and> dname (de_name j c) = dname name)" for j
    using assms(4) by (auto simp: dir_of_def dir_slot_def first_idx_None)
  have kd: "k < length d div 16" unfolding pe(2) by simp
  show ?thesis
  proof (cases "nm = dname name")
    case True
    have "\<not> (de_inum l d \<noteq> 0 \<and> dname (de_name l d) = nm)" if "l < k" for l
    proof -
      have "l < length d div 16" "l < ?n" using that kd k(1) by simp_all
      then show ?thesis using none [of l] pe(3,4) [of l] that True by simp
    qed
    then have "dir_slot d nm = Some k" using pe(3,4) [OF kd] kd True assms(5) by (simp add: dir_slot_def first_idx_upt_Some)
    then show ?thesis using pe(3) [OF kd] True by (simp add: dir_of_def)
  next
    case False
    have eq: "j < length d div 16 \<and> de_inum j d \<noteq> 0 \<and> dname (de_name j d) = nm
        \<longleftrightarrow> j < ?n \<and> de_inum j c \<noteq> 0 \<and> dname (de_name j c) = nm" for j
    proof (cases "j = k")
      case True
      then show ?thesis using k pe(4) [OF kd] False by auto
    next
      case ne: False
      then have "j < length d div 16 \<longleftrightarrow> j < ?n" using k(1) unfolding pe(2) by auto
      then show ?thesis using pe(3,4) [of j] ne by auto
    qed
    then have sl: "dir_slot d nm = dir_slot c nm" unfolding dir_slot_def by (rule first_idx_same)
    show ?thesis
    proof (cases "dir_slot c nm")
      case (Some j)
      then have j: "j < ?n" "de_inum j c \<noteq> 0"
        using first_idx_upt_Some [of "\<lambda>k. de_inum k c \<noteq> 0 \<and> dname (de_name k c) = nm" 0 ?n j] by (simp_all add: dir_slot_def)
      then have "j \<noteq> k" "j < length d div 16" using k(2) unfolding pe(2) by auto
      then show ?thesis using pe(3) [of j] sl Some False by (simp add: dir_of_def)
    qed (use sl False in \<open>simp add: dir_of_def\<close>)
  qed
qed

section \<open>Directories on the disk\<close>

lemma dir_bytes:
  assumes "device_ok s (i_dev ip)" and "file_is s ip ds ind c" and "16 dvd length c"
  shows "dir_nblocks ip = nblk (length c)"
    and "k < dir_nblocks ip * 32 \<Longrightarrow> dir_inum s ip k = (if k < length c div 16 then de_inum k c else 0)"
    and "k < length c div 16 \<Longrightarrow> dir_name s ip k = de_name k c"
    and "k < length c div 16 \<Longrightarrow> k < dir_nblocks ip * 32"
proof -
  note f = file_is_ok [OF assms(1,2)]
  have dl: "length ds = nblk (length c)" using assms(2) by (simp add: file_is_def holds_bytes_def)
  show nb: "dir_nblocks ip = nblk (length c)" using file_is_size [OF assms(2)] by (simp add: dir_nblocks_def nblk_def BSIZE_def)
  have byte: "file_block s ip (k div 32) ! (16 * (k mod 32) + j) = cbyte c (16 * k + j)" if k: "k < nblk (length c) * 32" and j: "j < 16" for k j
  proof -
    have e: "16 * k + j = 512 * (k div 32) + (16 * (k mod 32) + j)" using div_mult_mod_eq [of k 32] by linarith
    have m: "16 * (k mod 32) + j < 512" using j mod_less_divisor [of 32 k] by linarith
    then have "(16 * k + j) div 512 = k div 32" "(16 * k + j) mod 512 = 16 * (k mod 32) + j" unfolding e by simp_all
    moreover have "16 * k + j < length ds * BSIZE" using k j dl by (simp add: BSIZE_def)
    ultimately show ?thesis using f(3) [of "16 * k + j"] by (simp add: file_byte_def BSIZE_def)
  qed
  have in_c: "16 * k + 16 \<le> length c" if "k < length c div 16" for k using that by auto
  have out_c: "length c \<le> 16 * k" if "\<not> k < length c div 16" for k using that assms(3) by (auto simp: dvd_def)
  show "dir_inum s ip k = (if k < length c div 16 then de_inum k c else 0)" if "k < dir_nblocks ip * 32" for k
    using byte [of k 0] byte [of k 1] that in_c [of k] out_c [of k] nb
    by (cases "k < length c div 16") (simp_all add: dir_inum_def de_inum_def get16_def cbyte_def)
  have in_b: "k < nblk (length c) * 32" if "k < length c div 16" for k
    using in_c [OF that] nblk_div(1) [of "16 * k" "length c"] by (simp add: div_less_iff_less_mult)
  show "k < dir_nblocks ip * 32" if "k < length c div 16" for k using in_b [OF that] nb by simp
  show "dir_name s ip k = de_name k c" if k: "k < length c div 16" for k
  proof (rule nth_equalityI)
    note kb = in_b [OF k]
    then have "has_block ip (k div 32)" using nb by (simp add: has_block_nblocks div_less_iff_less_mult)
    then have len: "length (file_block s ip (k div 32)) = 512" using f(1) by (simp add: file_ok_def BSIZE_def)
    have m: "k mod 32 \<le> 31" by simp
    then have le: "16 * (k mod 32) + 16 \<le> 512" by linarith
    show l: "length (dir_name s ip k) = length (de_name k c)" using len le in_c [OF k] by (simp add: dir_name_def de_name_def DIRSIZ_def)
    fix t assume "t < length (dir_name s ip k)"
    then have t: "t < 14" by (simp add: dir_name_def de_name_def DIRSIZ_def)
    then show "dir_name s ip k ! t = de_name k c ! t"
      using byte [OF kb, of "t + 2"] len le in_c [OF k] by (simp add: dir_name_def de_name_def DIRSIZ_def cbyte_def ac_simps)
  qed
qed

text \<open>\<^verbatim>\<open>dirlookup\<close> applies the map.\<close>

lemma dirlookup_dir:
  assumes "bio_ok {} s" and "device_ok s (i_dev ip)" and "ip = inode_at dp s" and "file_is s ip ds ind c" and "16 dvd length c"
    and "i_type ip = T_DIR"
  shows "\<exists>s' off. stable {} s s' \<and> block s' = block s \<and> dirlookup dp name s =
    (case dir_of c (dname name) of None \<Rightarrow> Inr (None, s')
     | Some n \<Rightarrow> rbind (iget (i_dev ip) (ucast n) s') (\<lambda>(j, s2). Inr (Some (j, off), s2)))"
proof -
  note d = dir_bytes [OF assms(2,4,5)]
  have m: "dir_match s ip name k \<longleftrightarrow> dir_inum s ip k \<noteq> 0 \<and> dname name = dname (dir_name s ip k)" for k
    by (simp add: dir_match_same dname_def)
  have "k < dir_nblocks ip * 32 \<and> dir_match s ip name k
      \<longleftrightarrow> k < length c div 16 \<and> de_inum k c \<noteq> 0 \<and> dname (de_name k c) = dname name" for k
    using d(2-4) [of k] unfolding m by (cases "k < length c div 16") auto
  then have fi: "first_idx (dir_match s ip name) [0..<dir_nblocks ip * 32] = dir_slot c (dname name)"
    unfolding dir_slot_def by (rule first_idx_same)
  obtain s' where s': "stable {} s s'" "block s' = block s" "dirlookup dp name s =
      (case dir_slot c (dname name) of None \<Rightarrow> Inr (None, s')
       | Some k \<Rightarrow> rbind (iget (i_dev ip) (ucast (dir_inum s ip k)) s') (\<lambda>(j, s2). Inr (Some (j, of_nat (16 * k)), s2)))"
    using dirlookup_ok [OF assms(1) room_empty assms(3) file_is_ok(1) [OF assms(2,4)] assms(6), of name] unfolding fi by blast
  show ?thesis
  proof (cases "dir_slot c (dname name)")
    case None
    then show ?thesis using s' by (auto simp: dir_of_def)
  next
    case (Some k)
    then have "k < length c div 16" using first_idx_SomeD(1) by (fastforce simp: dir_slot_def)
    then have "dir_inum s ip k = de_inum k c" using d(2) [OF d(4)] by simp
    then show ?thesis using s' Some by (auto simp: dir_of_def)
  qed
qed

lemma dirlink_scan_ok:
  assumes "bio_ok {} s" and "device_ok s (i_dev ip)" and "ip = inode_at dp s" and "file_is s ip ds ind c" and "16 dvd length c"
    and "i_type ip = T_DIR" and "k + j = length c div 16"
  shows "\<exists>s'. stable {} s s' \<and> block s' = block s \<and> dirlink_scan j (of_nat (16 * k)) dsw dp s = Inr (of_nat (16 *
    (case first_idx (\<lambda>k. de_inum k c = 0) [k..<k + j] of Some m \<Rightarrow> k + m | None \<Rightarrow> k + j)), s')"
  using assms(1-4,7)
proof (induction j arbitrary: k s)
  case 0
  then show ?case using stable_refl [OF 0(1)] by (intro exI [of _ s]) simp
next
  case (Suc j)
  have len: "length c \<le> 71680" using Suc.prems(4) by (simp add: file_is_def MAXFILE_def BSIZE_def NDIRECT_def NINDIRECT_def)
  have k: "16 * k + 16 \<le> length c" using Suc.prems(5) by auto
  have u: "unat (of_nat (16 * k) :: u32) = 16 * k" using k len by (simp del: of_nat_mult)
  have sz: "unat (i_size ip) = length c" using file_is_size [OF Suc.prems(4)] .
  have dl: "length c \<le> length ds * BSIZE"
    using Suc.prems(4) nblk_div(3) [of "length c" "length ds * 512"] by (simp add: file_is_def holds_bytes_def BSIZE_def)
  have nt: "i_type ip \<noteq> T_DEV" using assms(6) by (simp add: T_DIR_def T_DEV_def)
  have e: "map (file_byte s ip) [16 * k..<16 * k + 16] = entry k c"
  proof (rule nth_equalityI)
    show "length (map (file_byte s ip) [16 * k..<16 * k + 16]) = length (entry k c)" using k by (simp add: entry_def)
    fix t assume "t < length (map (file_byte s ip) [16 * k..<16 * k + 16])"
    then show "map (file_byte s ip) [16 * k..<16 * k + 16] ! t = entry k c ! t"
      using file_is_ok(3) [OF Suc.prems(2,4), of "16 * k + t"] k dl by (simp add: entry_def cbyte_def)
  qed
  have min: "16 = min (unat (16 :: u32)) (unat (i_size ip) - unat (of_nat (16 * k) :: u32))" using u sz k by simp
  have nw: "\<not> (unat (of_nat (16 * k) :: u32) > unat (i_size ip) \<or> unat (of_nat (16 * k) :: u32) + unat (16 :: u32) \<ge> 4294967296)"
    using u sz k len by simp
  obtain s1 where s1: "readi dsw dp (of_nat (16 * k)) 16 s = Inr (16, entry k c, s1)" "stable {} s s1" "block s1 = block s"
    using readi_ok [OF Suc.prems(1) room_empty Suc.prems(3) file_is_ok(1) [OF Suc.prems(2,4)] nt min, of dsw] nw e u by auto
  have p: "bio_ok {} s1" "device_ok s1 (i_dev ip)" "ip = inode_at dp s1" "file_is s1 ip ds ind c"
    using stableD(1) [OF s1(2)] device_same(1) [OF s1(3)] Suc.prems(2,3,4) rest_inode [OF stableD(2) [OF s1(2)]]
      file_is_cong [OF Suc.prems(2,4), of s1] device_same(3) [OF s1(3)] s1(3) by (auto simp: file_is_def fmapped_def)
  have z: "de_inum 0 (entry k c) = de_inum k c" using entry_parts(1) [OF k] .
  have up: "[k..<k + Suc j] = k # [Suc k..<Suc k + j]" by (simp add: upt_rec)
  show ?case
  proof (cases "de_inum k c = 0")
    case True
    then show ?thesis unfolding up using s1 z by (intro exI [of _ s1]) (simp del: of_nat_mult upt_Suc)
  next
    case False
    obtain s2 where s2: "stable {} s1 s2" "block s2 = block s1" "dirlink_scan j (of_nat (16 * Suc k)) dsw dp s1 = Inr (of_nat (16 *
        (case first_idx (\<lambda>k. de_inum k c = 0) [Suc k..<Suc k + j] of Some m \<Rightarrow> Suc k + m | None \<Rightarrow> Suc k + j)), s2)"
      using Suc.IH [OF p, of "Suc k"] Suc.prems(5) by auto
    have "of_nat (16 * k) + 16 = (of_nat (16 * Suc k) :: u32)" by simp
    then have "dirlink_scan (Suc j) (of_nat (16 * k)) dsw dp s = dirlink_scan j (of_nat (16 * Suc k)) dsw dp s1"
      using s1(1) z False by (simp del: of_nat_mult mult_Suc_right)
    moreover have "(case first_idx (\<lambda>k. de_inum k c = 0) [Suc k..<Suc k + j] of Some m \<Rightarrow> Suc k + m | None \<Rightarrow> Suc k + j)
        = (case first_idx (\<lambda>k. de_inum k c = 0) [k..<k + Suc j] of Some m \<Rightarrow> k + m | None \<Rightarrow> k + Suc j)"
      unfolding up using False by (auto split: option.splits)
    ultimately show ?thesis using s2 stable_trans [OF s1(2) s2(1)] s1(3) by auto
  qed
qed

section \<open>dirlink\<close>

text \<open>Reading changes neither the blocks nor the cached inodes.\<close>

lemma cached_same:
  assumes "cached_file s i ds ind c" and "stable {} s s'" and "block s' = block s"
  shows "cached_file s' i ds ind c" and "inode_at j s' = inode_at j s" and "room_for s' i c n = room_for s i c n"
    and "others_kept s' i ds ind s'' = others_kept s i ds ind s''"
proof -
  have ip: "inode_at j s' = inode_at j s" for j using rest_inode [OF stableD(2) [OF assms(2)]] by simp
  note ds = device_same [OF assms(3)]
  have fi: "file_is s' jp es k d = file_is s jp es k d" for jp es k d
    using assms(3) ds(3) by (simp add: file_is_def fmapped_def holds_bytes_def)
  have in': "inum_in s' = inum_in s" "disk_inode s' = disk_inode s" using assms(3) by (simp_all add: inum_in_def disk_inode_def fun_eq_iff)
  show "inode_at j s' = inode_at j s" by (rule ip)
  show "cached_file s' i ds ind c" using assms(1) ds(1) stableD(1) [OF assms(2)] rest_fs(1) [OF stableD(2) [OF assms(2)]]
    unfolding cached_file_def Let_def ip fi in' by simp
  show "room_for s' i c n = room_for s i c n" unfolding room_for_def ip using ds(2) by simp
  show "others_kept s' i ds ind s'' = others_kept s i ds ind s''" unfolding others_kept_def Let_def ip fi in' ..
qed

lemma dirlink_file:
  assumes "cached_file s dp ds ind c" and "i_type (inode_at dp s) = T_DIR" and "16 dvd length c" and "dir_of c (dname name) = None"
    and "k = free_slot c" and "room_for s dp c (16 * k + 16)"
  shows "\<exists>s' ds' ind'. dirlink dsw dp name ino s = Inr (0, s') \<and> cached_file s' dp ds' ind' (patch (16 * k) (make_dirent name ino) c)
    \<and> (\<exists>as sz. inode_at dp s' = (inode_at dp s)\<lparr>i_addrs := as, i_size := sz\<rparr>) \<and> others_kept s dp ds ind s'"
proof -
  let ?ip = "inode_at dp s"
  have f: "bio_ok {} s" "device_ok s (i_dev ?ip)" "file_is s ?ip ds ind c" using assms(1) unfolding cached_file_def Let_def by blast+
  obtain s1 where s1: "stable {} s s1" "block s1 = block s" "dirlookup dp name s = Inr (None, s1)"
    using dirlookup_dir [OF f(1,2) refl f(3) assms(3,2), of name] assms(4) by auto
  note c1 = cached_same [OF assms(1) s1(1,2)]
  have f1: "bio_ok {} s1" "device_ok s1 (i_dev ?ip)" "file_is s1 ?ip ds ind c"
    using c1(1) unfolding cached_file_def Let_def c1(2) by blast+
  have sz: "(unat (i_size ?ip) + 15) div 16 = length c div 16"
    using file_is_size [OF f(3)] assms(3) by (auto simp: dvd_def)
  obtain s2 where s2: "stable {} s1 s2" "block s2 = block s1" "dirlink_scan (length c div 16) 0 dsw dp s1 = Inr (of_nat (16 * k), s2)"
    using dirlink_scan_ok [OF f1(1,2) c1(2) [symmetric] f1(3) assms(3,2), of 0 "length c div 16" dsw] assms(5) unfolding free_slot_def
    by (auto simp: mult.commute cong: option.case_cong)
  have c2: "cached_file s2 dp ds ind c" "inode_at dp s2 = ?ip" "room_for s2 dp c n = room_for s dp c n"
      "others_kept s2 dp ds ind s'' = others_kept s dp ds ind s''" for n s''
    using cached_same [OF c1(1) s2(1,2)] c1(2-4) by simp_all
  have f2: "bio_ok {} s2" "device_ok s2 (i_dev ?ip)" "dp < length (inodes s2)" "file_is s2 ?ip ds ind c"
    "inum_in s2 (i_dev ?ip) (i_inum ?ip)" "disk_inode s2 (i_dev ?ip) (i_inum ?ip) = to_dinode ?ip"
    using c2(1) unfolding cached_file_def Let_def c2(2) by blast+
  have nd: "i_type ?ip \<noteq> T_DEV" using assms(2) by (simp add: T_DIR_def T_DEV_def)
  have kl: "16 * k \<le> length c" using free_slot_free(1) [of c] assms(5) by auto
  have u: "unat (of_nat (16 * k) :: u32) = 16 * k"
    using kl f(3) by (simp add: file_is_def MAXFILE_def BSIZE_def NDIRECT_def NINDIRECT_def del: of_nat_mult)
  note le = make_dirent_parts(1) [of name ino]
  have room: "16 * k + 16 \<le> MAXFILE * BSIZE" "need (max (length c) (16 * k + 16)) \<le> need (length c) + card (free_blocks s2 (i_dev ?ip))"
    using assms(6) c2(3) unfolding room_for_def c2(2) by blast+
  obtain s3 ip3 ds3 ind3 as where w: "writei dsw dp (make_dirent name ino) (of_nat (16 * k)) s2 = Inr (16, s3)" "wrote dp s2 ?ip ds ind s3 ip3"
      "ip3 = ?ip\<lparr>i_addrs := as, i_size := of_nat (length (patch (16 * k) (make_dirent name ino) c))\<rparr>"
      "file_is s3 ip3 ds3 ind3 (patch (16 * k) (make_dirent name ino) c)"
    using writei_file [OF f2(1,2) c2(2) [symmetric] f2(3,4) nd f2(5,6), of "of_nat (16 * k)" "make_dirent name ino" dsw] kl room
    unfolding u le by auto
  note wc = wrote_cached [OF c2(1) c2(2) [symmetric] w(2,3,4)]
  have "dirlink dsw dp name ino s = Inr (0, s3)"
    using s1(3) s2(3) w(1) c1(2) sz by (simp add: dirlink_def del: of_nat_mult)
  then show ?thesis using wc c2(4) w(3) by blast
qed

text \<open>
  \<^bold>\<open>C10.\<close> \<^verbatim>\<open>dirlink\<close> and \<^verbatim>\<open>dirlookup\<close> work on a map. The contents of a directory, a file of 16-byte entries, denote a
  map from names, cut off at 14 bytes, to inode numbers. If \<^verbatim>\<open>dirlink\<close> enters a name that is not in
  the map, in a free entry or in a new one for which there is room, then afterwards \<^verbatim>\<open>dirlookup\<close> of
  any name goes to the inode that the map, updated at the name, gives; files in other blocks
  and other inodes stay as they are.
\<close>

theorem dirlink_then_dirlookup:
  assumes "cached_file s dp ds ind c" and "i_type (inode_at dp s) = T_DIR" and "16 dvd length c" and "dir_of c (dname name) = None"
    and "room_for s dp c (16 * free_slot c + 16)" and "ucast ino \<noteq> (0 :: u16)"
  shows "\<exists>s' ds' ind' c'. dirlink dsw dp name ino s = Inr (0, s') \<and> others_kept s dp ds ind s'
    \<and> cached_file s' dp ds' ind' c' \<and> 16 dvd length c' \<and> dir_of c' = (dir_of c)(dname name \<mapsto> ucast ino)
    \<and> (\<forall>nm. \<exists>s2 off. block s2 = block s' \<and> dirlookup dp nm s' =
        (case ((dir_of c)(dname name \<mapsto> ucast ino)) (dname nm) of
           None \<Rightarrow> Inr (None, s2)
         | Some n \<Rightarrow> rbind (iget (i_dev (inode_at dp s)) (ucast n) s2) (\<lambda>(j, s3). Inr (Some (j, off), s3))))"
proof -
  let ?c = "patch (16 * free_slot c) (make_dirent name ino) c"
  obtain s' ds' ind' where l: "dirlink dsw dp name ino s = Inr (0, s')" "cached_file s' dp ds' ind' ?c"
      "\<exists>as sz. inode_at dp s' = (inode_at dp s)\<lparr>i_addrs := as, i_size := sz\<rparr>" "others_kept s dp ds ind s'"
    using dirlink_file [OF assms(1-4) refl assms(5), of dsw ino] by blast
  have "length ?c = max (length c) (16 * free_slot c + 16)" using patch_entries(1) [OF assms(3) free_slot_free(1) refl refl] .
  then have dvd: "16 dvd length ?c" using assms(3) by (auto simp: max_def)
  have map: "dir_of ?c = (dir_of c)(dname name \<mapsto> ucast ino)" using dir_of_patch [OF assms(3) refl refl assms(4,6)] by blast
  have ip: "i_type (inode_at dp s') = T_DIR" "i_dev (inode_at dp s') = i_dev (inode_at dp s)" using l(3) assms(2) by auto
  have f: "bio_ok {} s'" "device_ok s' (i_dev (inode_at dp s'))" "file_is s' (inode_at dp s') ds' ind' ?c"
    using l(2) unfolding cached_file_def Let_def by blast+
  have "\<exists>s2 off. block s2 = block s' \<and> dirlookup dp nm s' =
        (case ((dir_of c)(dname name \<mapsto> ucast ino)) (dname nm) of
           None \<Rightarrow> Inr (None, s2)
         | Some n \<Rightarrow> rbind (iget (i_dev (inode_at dp s)) (ucast n) s2) (\<lambda>(j, s3). Inr (Some (j, off), s3)))" for nm
    using dirlookup_dir [OF f(1,2) refl f(3) dvd ip(1), of nm] unfolding map ip(2) by blast
  then show ?thesis using l(1,2,4) dvd map by blast
qed

theorem dirlink_then_dirlookup_witness:
  "\<exists>s' s2 off. dirlink (\<lambda>_. \<lparr>dev_read = None, dev_write = None\<rparr>) 0 [97, 98] 7 small_fs = Inr (0, s') \<and> block s2 = block s'
     \<and> dirlookup 0 [97, 98] s' = rbind (iget 1 7 s2) (\<lambda>(j, s3). Inr (Some (j, off), s3))"
proof -
  have ip: "i_type (inode_at 0 small_fs) = T_DIR" "i_dev (inode_at 0 small_fs) = 1"
    by (simp_all add: inode_at_def small_fs_def root_inode_def open_file_def)
  have c: "length root_bytes = 16" "dir_of root_bytes (dname [97, 98]) = None" "free_slot root_bytes = 1" by code_simp+
  have "need 32 \<le> need 16 + 994" by (simp add: need_def nblk_def NDIRECT_def)
  then have room: "room_for small_fs 0 root_bytes (16 * free_slot root_bytes + 16)"
    using c ip(2) small_fs_device(2) by (simp add: room_for_def MAXFILE_def BSIZE_def NDIRECT_def NINDIRECT_def)
  let ?dsw = "\<lambda>_. \<lparr>dev_read = None, dev_write = None\<rparr>" and ?m = "(dir_of root_bytes)(dname [97, 98] \<mapsto> ucast (7 :: u32))"
  have seven: "ucast (7 :: u32) \<noteq> (0 :: u16)" "ucast (ucast (7 :: u32) :: u16) = (7 :: u32)" by simp_all
  have "16 dvd length root_bytes" using c(1) by simp
  then obtain s' where l: "dirlink ?dsw 0 [97, 98] 7 small_fs = Inr (0, s')"
      "\<forall>nm. \<exists>s2 off. block s2 = block s' \<and> dirlookup 0 nm s' = (case ?m (dname nm) of None \<Rightarrow> Inr (None, s2)
         | Some n \<Rightarrow> rbind (iget (i_dev (inode_at 0 small_fs)) (ucast n) s2) (\<lambda>(j, s3). Inr (Some (j, off), s3)))"
    using dirlink_then_dirlookup [OF small_fs_root ip(1) _ c(2) room seven(1), of ?dsw] by blast
  show ?thesis using l(1) l(2) [rule_format, of "[97, 98]"] seven(2) unfolding ip(2) by auto
qed

end
