(* ===== verification/Ring.thy ===== *)
theory Ring
  imports Xv6_Prelude
begin

text \<open>
  Ring buffers with free-running 32-bit indices, as in \<^verbatim>\<open>pipe.c\<close> and the console input of
  \<^verbatim>\<open>console.c\<close>: entry \<open>i\<close> lives in slot \<open>i mod N\<close>, indices only ever grow and wrap at
  $2^{32}$, and the number of entries is the difference of the indices. The contract of a
  bounded queue is a locale, so that what follows from it is proved once.
\<close>

section \<open>Contents of a ring\<close>

definition ring :: "nat \<Rightarrow> 'a list \<Rightarrow> u32 \<Rightarrow> u32 \<Rightarrow> 'a list" where
  "ring N d r w = map (\<lambda>k. d ! (unat (r + of_nat k) mod N)) [0..<unat (w - r)]"

lemma unat_add_mod:
  assumes "N dvd 4294967296" shows "unat ((a :: u32) + b) mod N = (unat a + unat b) mod N"
proof -
  have "unat (a + b) = (unat a + unat b) mod 4294967296" by (simp add: unat_word_ariths)
  then show ?thesis using assms by (simp add: mod_mod_cancel)
qed

lemma ring_length [simp]: "length (ring N d r w) = unat (w - r)"
  by (simp add: ring_def)

lemma ring_empty [simp]: "ring N d r r = []"
  by (simp add: ring_def)

lemma ring_eq_Nil: "ring N d r w = [] \<longleftrightarrow> r = w"
  by (auto simp: ring_def unat_eq_0)

lemma slot_other:
  assumes "N dvd 4294967296" and "k < unat (w - r)" and "unat (w - r) < N"
  shows "unat (r + of_nat k :: u32) mod N \<noteq> unat w mod N"
proof
  assume eq: "unat (r + of_nat k) mod N = unat w mod N"
  have k: "unat (of_nat k :: u32) = k" using assms(2) unat_lt_2p32 [of "w - r"] by simp
  have "unat w mod N = (unat r + unat (w - r)) mod N"
    using unat_add_mod [OF assms(1), of r "w - r"] by simp
  then have "(unat r + k) mod N = (unat r + unat (w - r)) mod N"
    using eq unat_add_mod [OF assms(1), of r "of_nat k"] k by simp
  then have "N dvd (unat r + unat (w - r)) - (unat r + k)" by (rule mod_eq_dvd_iff_nat [THEN iffD1, rotated, OF sym]) (use assms(2) in simp)
  then have "N dvd unat (w - r) - k" by simp
  then show False using assms(2,3) by (auto dest: dvd_imp_le)
qed

lemma ring_put:
  assumes "N dvd 4294967296" and "N < 4294967296" and "length d = N" and "unat (w - r) < N"
  shows "ring N (d[unat w mod N := b]) r (w + 1) = ring N d r w @ [b]"
proof -
  have "unat ((w - r) + 1) = Suc (unat (w - r))"
    using assms(2,4) unat_add_u32 [of "w - r" 1] by simp
  then have n: "unat (w + 1 - r) = Suc (unat (w - r))" by (simp add: algebra_simps)
  have "d[unat w mod N := b] ! (unat (r + of_nat k) mod N) = d ! (unat (r + of_nat k) mod N)"
    if "k < unat (w - r)" for k
    using slot_other [OF assms(1) that assms(4)] by simp
  moreover have "d[unat w mod N := b] ! (unat w mod N) = b" using assms(3,4) by simp
  ultimately show ?thesis by (simp add: ring_def n)
qed

lemma dist_pred: "(r :: u32) \<noteq> w \<Longrightarrow> unat (w - r) = Suc (unat ((w - r) - 1))"
proof -
  assume "r \<noteq> w"
  then have "w - r \<noteq> 0" by simp
  then show ?thesis by (simp add: unat_minus_one unat_gt_0)
qed

lemma ring_get:
  assumes "r \<noteq> w"
  shows "ring N d r w = d ! (unat r mod N) # ring N d (r + 1) w"
proof -
  have n: "unat (w - r) = Suc (unat (w - (r + 1)))"
    using dist_pred [OF assms] by (simp add: algebra_simps)
  show ?thesis
    unfolding ring_def n
    by (simp add: map_upt_Suc add.assoc del: upt_Suc)
qed

text \<open>Dropping the last entry again, as line editing does.\<close>

lemma ring_unput:
  assumes "r \<noteq> w" shows "ring N d r (w - 1) = butlast (ring N d r w)"
proof -
  have "unat (w - r) = Suc (unat (w - 1 - r))"
    using dist_pred [OF assms] by (simp add: algebra_simps)
  then show ?thesis by (simp add: ring_def)
qed

section \<open>The contract of a bounded queue\<close>

locale bounded_queue =
  fixes ok :: "'q \<Rightarrow> bool" and contents :: "'q \<Rightarrow> 'a list" and capacity :: nat
    and put :: "'a \<Rightarrow> 'q \<Rightarrow> 'q" and get :: "'q \<Rightarrow> 'a \<times> 'q"
  assumes bound: "ok q \<Longrightarrow> length (contents q) \<le> capacity"
    and put_law: "ok q \<Longrightarrow> length (contents q) < capacity \<Longrightarrow>
      ok (put x q) \<and> contents (put x q) = contents q @ [x]"
    and get_law: "ok q \<Longrightarrow> contents q \<noteq> [] \<Longrightarrow>
      ok (snd (get q)) \<and> contents q = fst (get q) # contents (snd (get q))"
begin

text \<open>Putting a list of entries that fits.\<close>

lemma put_list:
  assumes "ok q" and "length (contents q) + length xs \<le> capacity"
  shows "ok (fold put xs q) \<and> contents (fold put xs q) = contents q @ xs"
  using assms
proof (induction xs arbitrary: q)
  case (Cons x xs)
  then show ?case using put_law [of q x] Cons.IH [of "put x q"] by simp
qed simp

text \<open>Taking \<open>n\<close> entries out.\<close>

primrec get_list :: "nat \<Rightarrow> 'q \<Rightarrow> 'a list \<times> 'q" where
  "get_list 0 q = ([], q)"
| "get_list (Suc n) q = (case get q of (x, q1) \<Rightarrow> case get_list n q1 of (xs, q2) \<Rightarrow> (x # xs, q2))"

lemma get_list_law:
  assumes "ok q" and "n \<le> length (contents q)"
  shows "ok (snd (get_list n q)) \<and> fst (get_list n q) = take n (contents q)
    \<and> contents (snd (get_list n q)) = drop n (contents q)"
  using assms
proof (induction n arbitrary: q)
  case (Suc n)
  obtain x q1 where g: "get q = (x, q1)" by (cases "get q")
  have "contents q \<noteq> []" using Suc.prems(2) by auto
  then have q1: "ok q1" "contents q = x # contents q1" using get_law [OF Suc.prems(1)] g by auto
  then show ?case using Suc.IH [OF q1(1)] Suc.prems(2) g by (auto split: prod.splits)
qed simp

lemma put_get_list:
  assumes "ok q" and "contents q = []" and "length xs \<le> capacity"
  shows "fst (get_list (length xs) (fold put xs q)) = xs"
  using put_list [OF assms(1)] get_list_law [of "fold put xs q" "length xs"] assms(2,3) by simp

end

end
