(* ===== verification/Console.thy ===== *)
theory Console
  imports Sched Ring
begin

text \<open>
  The console (\<^verbatim>\<open>console.c\<close>): characters on the CGA screen and the printer port, formatted
  printing, and the line discipline of the keyboard input. The console is a record of its own;
  the screen memory, the cursor registers and the bytes sent to the printer are the hardware's
  part of it.
\<close>

section \<open>Output\<close>

definition BACKSPACE :: u32 where "BACKSPACE = 0x100"
definition INPUT_BUF :: nat where "INPUT_BUF = 128"

text \<open>
  \<^verbatim>\<open>crt\<close> are the 16-bit cells from address 0xb8000 on, \<^verbatim>\<open>cursor\<close> the position in the
  two CRT registers, \<^verbatim>\<open>lpt\<close> the bytes printed so far.
\<close>

record console =
  crt :: "nat \<Rightarrow> u16"
  cursor :: nat
  lpt :: "u8 list"
  panicked :: bool
  in_buf :: "u8 list"
  in_r :: u32
  in_w :: u32
  in_e :: u32

definition lpt_putc :: "u32 \<Rightarrow> console \<Rightarrow> console" where
  "lpt_putc c k = k\<lparr>lpt := lpt k @ [if c = BACKSPACE then 8 else ucast c]\<rparr>"

definition blank :: u16 where "blank = 0x0720"

text \<open>\<^verbatim>\<open>memmove(crt, crt+80, ...)\<close> and \<^verbatim>\<open>memset(crt+pos, 0, ...)\<close>; the length of the latter is unsigned.\<close>

definition scroll_up :: "(nat \<Rightarrow> u16) \<Rightarrow> nat \<Rightarrow> u16" where
  "scroll_up scr i = (if i < 23 * 80 then scr (i + 80) else scr i)"

definition clear_from :: "nat \<Rightarrow> (nat \<Rightarrow> u16) \<Rightarrow> nat \<Rightarrow> u16" where
  "clear_from pos scr i = (if pos \<le> i \<and> i < pos + unat (2 * (1920 - of_nat pos) :: u32) div 2 then 0 else scr i)"

text \<open>\<^verbatim>\<open>cga_putc\<close>: what the character does to position and screen, scrolling, and the cursor.\<close>

definition cga_char :: "u32 \<Rightarrow> nat \<Rightarrow> (nat \<Rightarrow> u16) \<Rightarrow> nat \<times> (nat \<Rightarrow> u16)" where
  "cga_char c pos scr =
     (if c = 10 then (pos + (80 - pos mod 80), scr)
      else if c = BACKSPACE then (if pos > 0 then (pos - 1, scr(pos - 1 := blank)) else (pos, scr))
      else (pos + 1, scr(pos := ucast (c AND 0xff) OR 0x0700)))"

definition cga_scroll :: "nat \<Rightarrow> (nat \<Rightarrow> u16) \<Rightarrow> nat \<times> (nat \<Rightarrow> u16)" where
  "cga_scroll pos scr =
     (if pos div 80 \<ge> 24 then (pos - 80, clear_from (pos - 80) (scroll_up scr)) else (pos, scr))"

definition cga_putc :: "u32 \<Rightarrow> console \<Rightarrow> console" where
  "cga_putc c k =
     (case cga_char c (cursor k) (crt k) of (pos1, scr1) \<Rightarrow>
      case cga_scroll pos1 scr1 of (pos2, scr2) \<Rightarrow>
      k\<lparr>cursor := pos2 mod 65536, crt := scr2(pos2 := blank)\<rparr>)"

definition cons_putc :: "u32 \<Rightarrow> console \<Rightarrow> console res" where
  "cons_putc c k = (if panicked k then Inl Diverges else Inr (cga_putc c (lpt_putc c k)))"

primrec cons_puts :: "u32 list \<Rightarrow> console \<Rightarrow> console res" where
  "cons_puts [] k = Inr k"
| "cons_puts (c # cs) k = rbind (cons_putc c k) (cons_puts cs)"

section \<open>Numbers\<close>

definition digits :: "u8 list" where
  "digits = [48, 49, 50, 51, 52, 53, 54, 55, 56, 57, 65, 66, 67, 68, 69, 70]"

text \<open>
  The \<^verbatim>\<open>do\<close> loop that fills \<^verbatim>\<open>buf\<close>, least significant digit first. The code is only called
  with bases 10 and 16; the loop would not end with base 1.
\<close>

function printint_loop :: "nat \<Rightarrow> nat \<Rightarrow> u8 list" where
  "printint_loop base x =
     digits ! (x mod base) # (if x div base \<noteq> 0 \<and> 1 < base then printint_loop base (x div base) else [])"
  by pat_completeness auto

termination printint_loop
  by (relation "measure snd") (auto intro!: div_less_dividend gr0I)

declare printint_loop.simps [simp del]

definition printint_buf :: "u32 \<Rightarrow> nat \<Rightarrow> bool \<Rightarrow> u8 list" where
  "printint_buf xx base sg =
     (let neg = sg \<and> sint xx < 0; x = (if neg then 0 - xx else xx)
      in printint_loop base (unat x) @ (if neg then [45] else []))"

definition printint :: "u32 \<Rightarrow> nat \<Rightarrow> bool \<Rightarrow> console \<Rightarrow> console res" where
  "printint xx base sg = cons_puts (map ucast (rev (printint_buf xx base sg)))"

section \<open>Formatted output\<close>

text \<open>
  The arguments behind the format: a word, or a pointer to a string with the given bytes. A
  call with too few arguments or with a word other than 0 for \<^verbatim>\<open>%s\<close> has no defined behaviour
  in C; it does not return here.
\<close>

datatype fmt_arg = ArgWord u32 | ArgStr "u8 list"

definition arg_word :: "fmt_arg list \<Rightarrow> u32 res" where
  "arg_word as = (case as of ArgWord w # _ \<Rightarrow> Inr w | _ \<Rightarrow> Inl Diverges)"

definition null_str :: "u8 list" where "null_str = [40, 110, 117, 108, 108, 41]"

definition arg_str :: "fmt_arg list \<Rightarrow> u8 list res" where
  "arg_str as = (case as of ArgStr bs # _ \<Rightarrow> Inr bs | ArgWord w # _ \<Rightarrow> if w = 0 then Inr null_str else Inl Diverges
     | [] \<Rightarrow> Inl Diverges)"

primrec cprintf_loop :: "u8 list \<Rightarrow> bool \<Rightarrow> fmt_arg list \<Rightarrow> console \<Rightarrow> console res" where
  "cprintf_loop [] pct as k = Inr k"
| "cprintf_loop (c # cs) pct as k =
     (if \<not> pct then
        (if c = 37 then cprintf_loop cs True as k
         else rbind (cons_putc (ucast c) k) (cprintf_loop cs False as))
      else if c = 100 then
        rbind (arg_word as) (\<lambda>w. rbind (printint w 10 True k) (cprintf_loop cs False (tl as)))
      else if c = 120 \<or> c = 112 then
        rbind (arg_word as) (\<lambda>w. rbind (printint w 16 False k) (cprintf_loop cs False (tl as)))
      else if c = 115 then
        rbind (arg_str as) (\<lambda>bs. rbind (cons_puts (map scast bs) k) (cprintf_loop cs False (tl as)))
      else if c = 37 then rbind (cons_putc 37 k) (cprintf_loop cs False as)
      else rbind (cons_putc 37 k) (\<lambda>k1. rbind (cons_putc (ucast c) k1) (cprintf_loop cs False as)))"

text \<open>The acquire and release of \<^verbatim>\<open>console_lock\<close> around the loop are left out.\<close>

definition cprintf :: "u8 list \<Rightarrow> fmt_arg list \<Rightarrow> console \<Rightarrow> console res" where
  "cprintf fmt as k = cprintf_loop fmt False as k"

section \<open>Input\<close>

text \<open>The characters \<^verbatim>\<open>C('P')\<close>, \<^verbatim>\<open>C('U')\<close>, \<^verbatim>\<open>C('H')\<close> and \<^verbatim>\<open>C('D')\<close>.\<close>

definition CtlP :: u32 where "CtlP = 16"
definition CtlU :: u32 where "CtlU = 21"
definition CtlH :: u32 where "CtlH = 8"
definition CtlD :: u32 where "CtlD = 4"

definition in_slot :: "u32 \<Rightarrow> console \<Rightarrow> u8" where
  "in_slot i k = in_buf k ! (unat i mod INPUT_BUF)"

text \<open>The loop of Control-U, with the number of characters of the line as the bound.\<close>

primrec kill_line :: "nat \<Rightarrow> console \<Rightarrow> console res" where
  "kill_line 0 k = Inr k"
| "kill_line (Suc n) k =
     (if in_e k \<noteq> in_w k \<and> in_slot (in_e k - 1) k \<noteq> 10 then
        rbind (cons_putc BACKSPACE (k\<lparr>in_e := in_e k - 1\<rparr>)) (kill_line n)
      else Inr k)"

text \<open>
  One character of \<^verbatim>\<open>console_intr\<close>. The process listing of Control-P is the parameter
  \<open>dump\<close>. The boolean result says whether the readers are woken up.
\<close>

definition console_key :: "(console \<Rightarrow> console res) \<Rightarrow> u32 \<Rightarrow> console \<Rightarrow> (bool \<times> console) res" where
  "console_key dump c k =
     (if c = CtlP then rbind (dump k) (\<lambda>k1. Inr (False, k1))
      else if c = CtlU then rbind (kill_line (unat (in_e k - in_w k)) k) (\<lambda>k1. Inr (False, k1))
      else if c = CtlH then
        (if in_e k \<noteq> in_w k then rbind (cons_putc BACKSPACE (k\<lparr>in_e := in_e k - 1\<rparr>)) (\<lambda>k1. Inr (False, k1))
         else Inr (False, k))
      else if c \<noteq> 0 \<and> unat (in_e k - in_r k) < INPUT_BUF then
        rbind (cons_putc c (k\<lparr>in_buf := (in_buf k)[unat (in_e k) mod INPUT_BUF := ucast c], in_e := in_e k + 1\<rparr>)) (\<lambda>k1.
        if c = 10 \<or> c = CtlD \<or> in_e k1 = in_r k1 + of_nat INPUT_BUF then Inr (True, k1\<lparr>in_w := in_e k1\<rparr>)
        else Inr (False, k1))
      else Inr (False, k))"

text \<open>\<^verbatim>\<open>console_intr\<close> over the characters that \<^verbatim>\<open>getc\<close> delivers before it returns -1.\<close>

primrec console_intr ::
    "('a ptable_scheme \<Rightarrow> console \<Rightarrow> console res) \<Rightarrow> u32 list \<Rightarrow> console \<Rightarrow> 'a ptable_scheme \<Rightarrow> (console \<times> 'a ptable_scheme) res" where
  "console_intr dump [] k s = Inr (k, s)"
| "console_intr dump (c # cs) k s =
     rbind (console_key (dump s) c k) (\<lambda>(w, k1). console_intr dump cs k1 (if w then wakeup ChanInput s else s))"

text \<open>
  The loop of \<^verbatim>\<open>console_read\<close> with \<open>n\<close> bytes to go: the bytes delivered, and whether it is
  done, killed or asleep, with the number of bytes left.
\<close>

datatype read_out = ReadDone nat | ReadKilled | ReadAsleep nat

primrec console_read_loop :: "nat \<Rightarrow> nat \<Rightarrow> bool \<Rightarrow> console \<Rightarrow> read_out \<times> u8 list \<times> console" where
  "console_read_loop 0 target killed k = (ReadDone 0, [], k)"
| "console_read_loop (Suc n) target killed k =
     (if in_r k = in_w k then (if killed then (ReadKilled, [], k) else (ReadAsleep (Suc n), [], k))
      else let c = in_slot (in_r k) k; k1 = k\<lparr>in_r := in_r k + 1\<rparr> in
        if c = 4 then (ReadDone (Suc n), [], if Suc n < target then k1\<lparr>in_r := in_r k1 - 1\<rparr> else k1)
        else if c = 10 then (ReadDone n, [c], k1)
        else case console_read_loop n target killed k1 of (out, bs, k2) \<Rightarrow> (out, c # bs, k2))"

definition console_read :: "bool \<Rightarrow> u32 \<Rightarrow> console \<Rightarrow> read_out \<times> u8 list \<times> console" where
  "console_read killed n k = console_read_loop (nat (sint n)) (unat n) killed k"

definition console_write :: "u8 list \<Rightarrow> console \<Rightarrow> console res" where
  "console_write buf k = cons_puts (map ucast buf) k"

end
