(* ===== verification/Console_Spec.thy ===== *)
theory Console_Spec
  imports Console
begin

text \<open>
  What the console guarantees: the cursor stays on the screen, numbers are printed so that they
  can be read back, and the input ring behaves as a line editor in front of a queue.
\<close>

section \<open>The screen\<close>

text \<open>The screen has 24 lines of 80 cells.\<close>

definition on_screen :: "nat \<Rightarrow> (nat \<Rightarrow> u16) \<Rightarrow> (nat \<Rightarrow> u16) \<Rightarrow> bool" where
  "on_screen pos scr scr' \<longleftrightarrow> pos < 1920 \<and> (\<forall>i \<ge> 1920. scr' i = scr i)"

lemma newline_bound: "pos < 1920 \<Longrightarrow> pos + (80 - pos mod 80) \<le> (1920 :: nat)"
proof -
  assume "pos < 1920"
  then have "pos div 80 < 24" by (simp add: less_mult_imp_div_less)
  then have "80 * (pos div 80) + 80 \<le> 1920" by simp
  moreover have "pos = 80 * (pos div 80) + pos mod 80" "pos mod 80 < 80" by simp_all
  ultimately show ?thesis by linarith
qed

lemma cga_char_bound:
  assumes "pos < 1920" and "cga_char c pos scr = (p1, scr1)"
  shows "p1 \<le> 1920 \<and> (\<forall>i \<ge> 1920. scr1 i = scr i)"
  using assms newline_bound [OF assms(1)] by (auto simp: cga_char_def split: if_splits)

lemma cga_scroll_bound:
  assumes "pos \<le> 1920" and "cga_scroll pos scr = (p2, scr2)"
  shows "on_screen p2 scr scr2"
proof (cases "pos = 1920")
  case True
  then show ?thesis using assms(2) by (auto simp: cga_scroll_def on_screen_def clear_from_def scroll_up_def)
next
  case False
  then have "pos div 80 < 24" using assms(1) by (simp add: less_mult_imp_div_less)
  then show ?thesis using False assms by (auto simp: cga_scroll_def on_screen_def)
qed

lemma cga_putc_bound:
  assumes "cursor k < 1920" shows "on_screen (cursor (cga_putc c k)) (crt k) (crt (cga_putc c k))"
proof -
  obtain p1 scr1 where 1: "cga_char c (cursor k) (crt k) = (p1, scr1)" by (cases "cga_char c (cursor k) (crt k)")
  obtain p2 scr2 where 2: "cga_scroll p1 scr1 = (p2, scr2)" by (cases "cga_scroll p1 scr1")
  show ?thesis
    using 1 2 cga_char_bound [OF assms 1] cga_scroll_bound [OF _ 2] by (auto simp: cga_putc_def on_screen_def)
qed

lemma putc_input [simp]:
  "in_buf (cga_putc c k) = in_buf k" "in_r (cga_putc c k) = in_r k" "in_w (cga_putc c k) = in_w k"
  "in_e (cga_putc c k) = in_e k" "panicked (cga_putc c k) = panicked k" "lpt (cga_putc c k) = lpt k"
  "in_buf (lpt_putc c k) = in_buf k" "in_r (lpt_putc c k) = in_r k" "in_w (lpt_putc c k) = in_w k"
  "in_e (lpt_putc c k) = in_e k" "panicked (lpt_putc c k) = panicked k"
  "cursor (lpt_putc c k) = cursor k" "crt (lpt_putc c k) = crt k"
  by (simp_all add: cga_putc_def lpt_putc_def split: prod.split)

section \<open>Numbers\<close>

definition digit_val :: "u8 \<Rightarrow> nat" where
  "digit_val c = (if c \<le> 57 then unat c - 48 else unat c - 55)"

definition digits_val :: "nat \<Rightarrow> u8 list \<Rightarrow> nat" where
  "digits_val base ds = foldl (\<lambda>a c. a * base + digit_val c) 0 ds"

lemma digit_val_digits: "x < 16 \<Longrightarrow> digit_val (digits ! x) = x"
proof -
  assume "x < 16"
  then have "x \<in> set [0..<16]" by simp
  moreover have "\<forall>x \<in> set [0..<16]. digit_val (digits ! x) = x" by code_simp
  ultimately show ?thesis by blast
qed

lemma digits_not_minus: "x < 16 \<Longrightarrow> digits ! x \<noteq> 45"
proof -
  assume "x < 16"
  then have "x \<in> set [0..<16]" by simp
  moreover have "\<forall>x \<in> set [0..<16]. digits ! x \<noteq> 45" by code_simp
  ultimately show ?thesis by blast
qed

lemma printint_loop_val:
  assumes "1 < base" and "base \<le> 16"
  shows "digits_val base (rev (printint_loop base x)) = x"
proof (induction x rule: less_induct)
  case (less x)
  have m: "digit_val (digits ! (x mod base)) = x mod base"
    using assms digit_val_digits [of "x mod base"] mod_less_divisor [of base x] by linarith
  show ?case
  proof (cases "x div base = 0")
    case True
    then have "x mod base = x" using div_mult_mod_eq [of x base] by simp
    then show ?thesis using m True by (subst printint_loop.simps) (simp add: digits_val_def)
  next
    case False
    then have "x div base < x" using assms(1) by (intro div_less_dividend) (auto intro: gr0I)
    then show ?thesis
      using less.IH False assms(1) m by (subst printint_loop.simps) (simp add: digits_val_def)
  qed
qed

lemma printint_loop_digits: "1 < base \<Longrightarrow> base \<le> 16 \<Longrightarrow> 45 \<notin> set (printint_loop base x)"
proof (induction x rule: less_induct)
  case (less x)
  have m: "digits ! (x mod base) \<noteq> 45" using less.prems digits_not_minus [of "x mod base"] mod_less_divisor [of base x] by linarith
  have "x div base \<noteq> 0 \<Longrightarrow> x div base < x" using less.prems(1) by (intro div_less_dividend) (auto intro: gr0I)
  then show ?case using m less by (subst printint_loop.simps) auto
qed

lemma printint_loop_length: "1 < base \<Longrightarrow> x < base ^ Suc n \<Longrightarrow> length (printint_loop base x) \<le> Suc n"
proof (induction n arbitrary: x)
  case 0
  then show ?case by (subst printint_loop.simps) simp
next
  case (Suc n)
  have "x div base < base ^ Suc n" using Suc.prems(2) by (simp add: less_mult_imp_div_less mult.commute)
  then show ?case using Suc.IH [OF Suc.prems(1)] by (subst printint_loop.simps) simp
qed

lemma ucast_small_eq: "(c :: u32) < 256 \<Longrightarrow> d < 256 \<Longrightarrow> (ucast c = (ucast d :: u8)) \<longleftrightarrow> c = d"
proof -
  assume "c < 256" "d < 256"
  then have "unat c < 256" "unat d < 256" by (simp_all add: word_less_nat_alt)
  then show ?thesis by (simp add: word_unat_eq_iff unsigned_ucast_eq take_bit_eq_mod)
qed

lemma neg_sint: "sint (xx :: u32) < 0 \<Longrightarrow> int (unat (0 - xx)) = - sint xx"
proof -
  assume neg: "sint xx < 0"
  have s: "\<not> unat xx < 2147483648" "sint xx = int (unat xx) - 4294967296"
    using neg by (simp_all add: sint_u32 split: if_splits del: of_nat_unat)
  have "unat (0 - xx) = 4294967296 - unat xx"
    using s(1) unat_lt_2p32 [of xx] unat_sub_u32 [of 0 xx] by simp
  then show ?thesis using s unat_lt_2p32 [of xx] by (simp del: of_nat_unat)
qed

lemma pos_sint: "\<not> sint (xx :: u32) < 0 \<Longrightarrow> int (unat xx) = sint xx"
  using unat_lt_2p32 [of xx] by (simp add: sint_u32 split: if_splits del: of_nat_unat)

section \<open>The input as a line editor\<close>

text \<open>The characters ready for readers, and the line being edited.\<close>

definition ready :: "console \<Rightarrow> u8 list" where
  "ready k = ring INPUT_BUF (in_buf k) (in_r k) (in_w k)"

definition line :: "console \<Rightarrow> u8 list" where
  "line k = ring INPUT_BUF (in_buf k) (in_w k) (in_e k)"

definition cons_ok :: "console \<Rightarrow> bool" where
  "cons_ok k \<longleftrightarrow> length (in_buf k) = INPUT_BUF \<and> unat (in_w k - in_r k) + unat (in_e k - in_w k) \<le> INPUT_BUF
     \<and> 10 \<notin> set (line k) \<and> \<not> panicked k"

text \<open>What a key does to the two lists.\<close>

definition edit_key :: "u32 \<Rightarrow> u8 list \<times> u8 list \<Rightarrow> u8 list \<times> u8 list" where
  "edit_key c ql =
     (case ql of (q, l) \<Rightarrow>
      if c = CtlU then (q, [])
      else if c = CtlH then (q, butlast l)
      else if c = 0 \<or> length q + length l \<ge> INPUT_BUF then (q, l)
      else let l1 = l @ [ucast c] in
        if c = 10 \<or> c = CtlD \<or> length q + length l1 = INPUT_BUF then (q @ l1, []) else (q, l1))"

lemma INPUT_BUF_props: "INPUT_BUF dvd 4294967296" "INPUT_BUF < 4294967296" "0 < INPUT_BUF"
  by (simp_all add: INPUT_BUF_def)

lemma dist_add:
  assumes "unat (w - r) + unat (e - w) \<le> INPUT_BUF" shows "unat (e - r :: u32) = unat (w - r) + unat (e - w)"
proof -
  have "e - r = (w - r) + (e - w)" by simp
  then show ?thesis using assms unat_add_u32 [of "w - r" "e - w"] by (simp add: INPUT_BUF_def)
qed

text \<open>A ring split at an index between its ends.\<close>

lemma ring_append:
  assumes "unat (w - r) + unat (e - w) \<le> INPUT_BUF"
  shows "ring INPUT_BUF d r e = ring INPUT_BUF d r w @ ring INPUT_BUF d w e"
proof -
  have shift: "r + of_nat i = w + of_nat (i - unat (w - r))" if "unat (w - r) \<le> i" for i
    using that by (simp add: of_nat_diff)
  show ?thesis
    by (rule nth_equalityI) (auto simp: dist_add [OF assms] ring_def nth_append shift)
qed

lemma input_put:
  assumes "length d = INPUT_BUF" and "unat (w - r) + unat (e - w) < INPUT_BUF" and "d' = d[unat e mod INPUT_BUF := b]"
  shows "ring INPUT_BUF d' r w = ring INPUT_BUF d r w" and "ring INPUT_BUF d' w (e + 1) = ring INPUT_BUF d w e @ [b]"
    and "unat (e + 1 - w) = Suc (unat (e - w))"
proof -
  have le: "unat (w - r) + unat (e - w) \<le> INPUT_BUF" using assms(2) by simp
  have "unat (e - w) < INPUT_BUF" using assms(2) by simp
  then show put: "ring INPUT_BUF d' w (e + 1) = ring INPUT_BUF d w e @ [b]"
    unfolding assms(3) by (rule ring_put [OF INPUT_BUF_props(1,2) assms(1)])
  then show len: "unat (e + 1 - w) = Suc (unat (e - w))" by (metis ring_length length_append_singleton)
  have "unat (e - r) < INPUT_BUF" using dist_add [OF le] assms(2) by simp
  then have "ring INPUT_BUF d' r (e + 1) = ring INPUT_BUF d r e @ [b]"
    unfolding assms(3) by (rule ring_put [OF INPUT_BUF_props(1,2) assms(1)])
  moreover have "ring INPUT_BUF d' r (e + 1) = ring INPUT_BUF d' r w @ ring INPUT_BUF d' w (e + 1)"
    using assms(2) len by (intro ring_append) simp
  ultimately show "ring INPUT_BUF d' r w = ring INPUT_BUF d r w" using ring_append [OF le, of d] put by simp
qed

lemma in_slot_last:
  assumes "in_e k \<noteq> in_w k" shows "in_slot (in_e k - 1) k = last (line k)"
proof -
  have n: "unat (in_e k - in_w k) = Suc (unat (in_e k - in_w k - 1))" using dist_pred assms by metis
  have "in_w k + of_nat (unat (in_e k - in_w k - 1)) = in_e k - 1" by simp
  then show ?thesis unfolding line_def ring_def n by (simp add: in_slot_def)
qed

lemma line_empty: "line k = [] \<longleftrightarrow> in_e k = in_w k"
  by (auto simp: line_def ring_eq_Nil)

text \<open>Deleting the last character of the line.\<close>

lemma input_unput:
  assumes "cons_ok k" and "in_e k \<noteq> in_w k" and "cons_putc BACKSPACE (k\<lparr>in_e := in_e k - 1\<rparr>) = Inr k1"
  shows "cons_ok k1" and "ready k1 = ready k" and "line k1 = butlast (line k)" and "in_w k1 = in_w k"
proof -
  have k1: "in_buf k1 = in_buf k" "in_r k1 = in_r k" "in_w k1 = in_w k" "in_e k1 = in_e k - 1" "panicked k1 = panicked k"
    using assms(3) by (auto simp: cons_putc_def split: if_splits)
  show r: "ready k1 = ready k" "in_w k1 = in_w k" using k1 by (simp_all add: ready_def)
  show l: "line k1 = butlast (line k)" using k1 ring_unput [of "in_w k" "in_e k"] assms(2) by (simp add: line_def)
  then have "unat (in_e k1 - in_w k1) \<le> unat (in_e k - in_w k)" by (metis length_butlast diff_le_self line_def ring_length)
  then show "cons_ok k1" using assms(1) k1 l by (auto simp: cons_ok_def dest: in_set_butlastD)
qed

lemma cons_putc_ok: "cons_ok k \<Longrightarrow> panicked k' = panicked k \<Longrightarrow> \<exists>k1. cons_putc c k' = Inr k1"
  by (simp add: cons_putc_def cons_ok_def)

lemma kill_line_ok:
  assumes "cons_ok k" and "length (line k) \<le> n"
  shows "\<exists>k1. kill_line n k = Inr k1 \<and> cons_ok k1 \<and> ready k1 = ready k \<and> line k1 = []"
  using assms
proof (induction n arbitrary: k)
  case (Suc n)
  show ?case
  proof (cases "in_e k = in_w k")
    case True
    then show ?thesis using Suc.prems by (auto simp: line_empty)
  next
    case False
    then have ne: "line k \<noteq> []" by (simp add: line_empty)
    then have "in_slot (in_e k - 1) k \<noteq> 10" using in_slot_last [OF False] Suc.prems(1) last_in_set [OF ne] by (metis cons_ok_def)
    moreover obtain k1 where k1: "cons_putc BACKSPACE (k\<lparr>in_e := in_e k - 1\<rparr>) = Inr k1"
      using cons_putc_ok [OF Suc.prems(1), of "k\<lparr>in_e := in_e k - 1\<rparr>"] by auto
    moreover note u = input_unput [OF Suc.prems(1) False k1]
    ultimately show ?thesis using Suc.IH [OF u(1)] u(2,3) Suc.prems(2) False by auto
  qed
qed (auto simp: line_empty)

text \<open>The ring is full exactly if reader and editor are a whole buffer apart.\<close>

lemma input_full:
  assumes "unat (w - r) + unat (e - w) \<le> INPUT_BUF"
  shows "e = r + (of_nat INPUT_BUF :: u32) \<longleftrightarrow> unat (w - r) + unat (e - w) = INPUT_BUF"
proof -
  have "e = r + of_nat INPUT_BUF \<longleftrightarrow> e - r = of_nat INPUT_BUF" by (auto simp: algebra_simps)
  also have "\<dots> \<longleftrightarrow> unat (e - r) = INPUT_BUF" by (simp add: word_unat_eq_iff INPUT_BUF_def)
  finally show ?thesis using dist_add [OF assms] by simp
qed

text \<open>A character typed into a ring with room: it is appended, and the line is handed over if it is complete.\<close>

lemma console_type:
  assumes "cons_ok k" and "length (ready k) + length (line k) < INPUT_BUF"
    and "cons_putc c (k\<lparr>in_buf := (in_buf k)[unat (in_e k) mod INPUT_BUF := ucast c], in_e := in_e k + 1\<rparr>) = Inr k1"
  shows "ready k1 = ready k" and "line k1 = line k @ [ucast c]"
    and "in_e k1 = in_r k1 + of_nat INPUT_BUF \<longleftrightarrow> length (ready k) + length (line k1) = INPUT_BUF"
    and "ucast c \<noteq> (10 :: u8) \<Longrightarrow> cons_ok k1"
    and "cons_ok (k1\<lparr>in_w := in_e k1\<rparr>)" and "ready (k1\<lparr>in_w := in_e k1\<rparr>) = ready k @ line k1" and "line (k1\<lparr>in_w := in_e k1\<rparr>) = []"
proof -
  have f: "in_buf k1 = (in_buf k)[unat (in_e k) mod INPUT_BUF := ucast c]" "in_r k1 = in_r k" "in_w k1 = in_w k"
    "in_e k1 = in_e k + 1" "panicked k1 = panicked k"
    using assms(3) by (auto simp: cons_putc_def split: if_splits)
  have buf: "length (in_buf k) = INPUT_BUF" "\<not> panicked k" "10 \<notin> set (line k)" using assms(1) by (simp_all add: cons_ok_def)
  have lt: "unat (in_w k - in_r k) + unat (in_e k - in_w k) < INPUT_BUF" using assms(2) by (simp add: ready_def line_def)
  note put = input_put [OF buf(1) lt f(1)]
  show r: "ready k1 = ready k" and l: "line k1 = line k @ [ucast c]" using put f by (simp_all add: ready_def line_def)
  have le: "unat (in_w k1 - in_r k1) + unat (in_e k1 - in_w k1) \<le> INPUT_BUF" using put(3) lt f by simp
  show "in_e k1 = in_r k1 + of_nat INPUT_BUF \<longleftrightarrow> length (ready k) + length (line k1) = INPUT_BUF"
    using input_full [OF le] f(2,3) by (simp add: ready_def line_def)
  show "ucast c \<noteq> (10 :: u8) \<Longrightarrow> cons_ok k1" using le buf f l by (auto simp: cons_ok_def)
  have d: "unat (in_e k1 - in_r k1) \<le> INPUT_BUF" using dist_add [OF le] le by simp
  show "line (k1\<lparr>in_w := in_e k1\<rparr>) = []" by (simp add: line_def)
  then show "cons_ok (k1\<lparr>in_w := in_e k1\<rparr>)" using d buf f by (simp add: cons_ok_def)
  show "ready (k1\<lparr>in_w := in_e k1\<rparr>) = ready k @ line k1"
    using ring_append [OF le, of "in_buf k1"] r by (simp add: ready_def line_def)
qed

lemma console_key_edits:
  assumes "cons_ok k" and "c \<noteq> CtlP" and "c < 256"
  shows "\<exists>k1. console_key dump c k = Inr (ready k1 \<noteq> ready k, k1) \<and> cons_ok k1
    \<and> (ready k1, line k1) = edit_key c (ready k, line k)"
proof -
  have len: "length (ready k) = unat (in_w k - in_r k)" "length (line k) = unat (in_e k - in_w k)"
    by (simp_all add: ready_def line_def)
  have room: "unat (in_e k - in_r k) = length (ready k) + length (line k)"
    using assms(1) dist_add [of "in_w k" "in_r k" "in_e k"] unfolding len cons_ok_def by simp
  consider "c = CtlU" | "c = CtlH" | "c \<noteq> CtlU" "c \<noteq> CtlH" "c = 0 \<or> length (ready k) + length (line k) \<ge> INPUT_BUF"
    | "c \<noteq> CtlU" "c \<noteq> CtlH" "c \<noteq> 0" "length (ready k) + length (line k) < INPUT_BUF"
    using not_less by blast
  then show ?thesis
  proof cases
    case 1
    obtain k1 where "kill_line (length (line k)) k = Inr k1" "cons_ok k1" "ready k1 = ready k" "line k1 = []"
      using kill_line_ok [OF assms(1) order_refl] by blast
    then show ?thesis using 1 assms(2) len(2) by (simp add: console_key_def edit_key_def)
  next
    case 2
    then have neq: "c \<noteq> CtlU" by (simp add: CtlU_def CtlH_def)
    show ?thesis
    proof (cases "in_e k = in_w k")
      case True
      then have "line k = []" by (simp add: line_empty)
      then show ?thesis using True 2 neq assms(1,2) by (simp add: console_key_def edit_key_def)
    next
      case False
      obtain k1 where k1: "cons_putc BACKSPACE (k\<lparr>in_e := in_e k - 1\<rparr>) = Inr k1"
        using cons_putc_ok [OF assms(1), of "k\<lparr>in_e := in_e k - 1\<rparr>"] by auto
      then show ?thesis
        using 2 neq False assms(2) input_unput [OF assms(1) False k1] by (simp add: console_key_def edit_key_def)
    qed
  next
    case 3
    then have "console_key dump c k = Inr (False, k)" using assms(2) room by (auto simp: console_key_def)
    then show ?thesis using 3 assms(1) by (auto simp: edit_key_def)
  next
    case 4
    define k' where "k' = k\<lparr>in_buf := (in_buf k)[unat (in_e k) mod INPUT_BUF := ucast c], in_e := in_e k + 1\<rparr>"
    obtain k1 where k1: "cons_putc c k' = Inr k1" using cons_putc_ok [OF assms(1), of k'] by (auto simp: k'_def)
    note ty = console_type [OF assms(1) 4(4) k1 [unfolded k'_def]]
    have uc: "ucast c = (10 :: u8) \<longleftrightarrow> c = 10" using assms(3) ucast_small_eq [of c 10] by simp
    have key: "console_key dump c k = (if c = 10 \<or> c = CtlD \<or> in_e k1 = in_r k1 + of_nat INPUT_BUF
        then Inr (True, k1\<lparr>in_w := in_e k1\<rparr>) else Inr (False, k1))"
      using 4 assms(2) room k1 by (simp add: console_key_def k'_def)
    have ed: "edit_key c (ready k, line k) = (if c = 10 \<or> c = CtlD \<or> length (ready k) + length (line k1) = INPUT_BUF
        then (ready k @ line k1, []) else (ready k, line k1))"
      using 4 ty(2) by (simp add: edit_key_def)
    show ?thesis
    proof (cases "c = 10 \<or> c = CtlD \<or> length (ready k) + length (line k1) = INPUT_BUF")
      case True
      then have "console_key dump c k = Inr (True, k1\<lparr>in_w := in_e k1\<rparr>)" unfolding key ty(3) by simp
      then show ?thesis using True ed ty(2,5,6,7) by (intro exI [of _ "k1\<lparr>in_w := in_e k1\<rparr>"]) simp
    next
      case False
      then have "console_key dump c k = Inr (False, k1)" unfolding key ty(3) by simp
      then show ?thesis using False ed ty(1,4) uc by (intro exI [of _ k1]) simp
    qed
  qed
qed

text \<open>A line never fills the buffer: it is handed over then.\<close>

lemma edit_keys_room:
  assumes "l = [] \<or> length q + length l < INPUT_BUF" and "fold edit_key cs (q, l) = (q', l')"
  shows "l' = [] \<or> length q' + length l' < INPUT_BUF"
  using assms
proof (induction cs arbitrary: q l)
  case (Cons c cs)
  obtain q1 l1 where e: "edit_key c (q, l) = (q1, l1)" by (cases "edit_key c (q, l)")
  then have "l1 = [] \<or> length q1 + length l1 < INPUT_BUF"
    using Cons.prems(1) by (auto simp: edit_key_def Let_def split: if_splits)
  then show ?case using Cons.IH Cons.prems(2) e by simp
qed simp

lemma console_intr_append:
  "console_intr dump (cs @ ds) k s = rbind (console_intr dump cs k s) (\<lambda>(k1, s1). console_intr dump ds k1 s1)"
proof (induction cs arbitrary: k s)
  case (Cons c cs)
  then show ?case by (cases "console_key (dump s) c k") (auto split: prod.splits)
qed simp

lemma console_intr_edits:
  assumes "cons_ok k" and "\<forall>c \<in> set cs. c \<noteq> CtlP \<and> c < 256"
  shows "\<exists>k1 s1. console_intr dump cs k s = Inr (k1, s1) \<and> cons_ok k1
    \<and> (ready k1, line k1) = fold edit_key cs (ready k, line k)"
  using assms
proof (induction cs arbitrary: k s)
  case (Cons c cs)
  obtain k1 where k1: "console_key (dump s) c k = Inr (ready k1 \<noteq> ready k, k1)" "cons_ok k1"
    "(ready k1, line k1) = edit_key c (ready k, line k)"
    using console_key_edits [of k c "dump s"] Cons.prems by auto
  then show ?case using Cons.IH [OF k1(2), of "if ready k1 \<noteq> ready k then wakeup ChanInput s else s"] Cons.prems(2)
    by (auto split: if_splits)
qed auto

section \<open>Readers\<close>

lemma ready_get:
  assumes "in_r k \<noteq> in_w k"
  shows "ready k = in_slot (in_r k) k # ready (k\<lparr>in_r := in_r k + 1\<rparr>)"
  using ring_get [OF assms] by (simp add: ready_def in_slot_def)

lemma ready_empty: "ready k = [] \<longleftrightarrow> in_r k = in_w k"
  by (simp add: ready_def ring_eq_Nil)

lemma cons_ok_get:
  assumes "cons_ok k" and "in_r k \<noteq> in_w k" shows "cons_ok (k\<lparr>in_r := in_r k + 1\<rparr>)"
proof -
  have "length (ready (k\<lparr>in_r := in_r k + 1\<rparr>)) \<le> length (ready k)" using ready_get [OF assms(2)] by simp
  then show ?thesis using assms(1) by (simp add: cons_ok_def ready_def line_def)
qed

text \<open>A complete line at the front of the queue is delivered with its newline.\<close>

lemma console_read_line:
  assumes "cons_ok k" and "ready k = xs @ 10 # ys" and "10 \<notin> set xs" and "4 \<notin> set xs" and "length xs < n"
  shows "\<exists>k1. console_read_loop n target killed k = (ReadDone (n - Suc (length xs)), xs @ [10], k1)
    \<and> cons_ok k1 \<and> ready k1 = ys \<and> line k1 = line k"
  using assms
proof (induction xs arbitrary: k n)
  case Nil
  then obtain m where n: "n = Suc m" by (cases n) auto
  have ne: "in_r k \<noteq> in_w k" using Nil.prems(2) by (auto simp: ready_empty [symmetric])
  then have "in_slot (in_r k) k = 10" "ready (k\<lparr>in_r := in_r k + 1\<rparr>) = ys" using ready_get [OF ne] Nil.prems(2) by simp_all
  then show ?case using n ne cons_ok_get [OF Nil.prems(1) ne] by (simp add: line_def)
next
  case (Cons x xs)
  then obtain m where n: "n = Suc m" by (cases n) auto
  have ne: "in_r k \<noteq> in_w k" using Cons.prems(2) by (auto simp: ready_empty [symmetric])
  let ?k = "k\<lparr>in_r := in_r k + 1\<rparr>"
  have "in_slot (in_r k) k = x" "ready ?k = xs @ 10 # ys" using ready_get [OF ne] Cons.prems(2) by simp_all
  moreover have "line ?k = line k" by (simp add: line_def)
  ultimately show ?case
    using Cons.IH [OF cons_ok_get [OF Cons.prems(1) ne], of m] Cons.prems n ne by auto
qed

section \<open>Properties\<close>

text \<open>
  \<^verbatim>\<open>cons_putc\<close> stays on the screen. Starting with the cursor in the 24 lines of 80 cells,
  every character leaves it there, scrolling when necessary, and no cell outside is written.
\<close>

lemma cons_putc_on_screen:
  assumes "cursor k < 1920" and "cons_putc c k = Inr k1"
  shows "cursor k1 < 1920 \<and> (\<forall>i \<ge> 1920. crt k1 i = crt k i)"
  using assms cga_putc_bound [of "lpt_putc c k" c] by (auto simp: cons_putc_def on_screen_def split: if_splits)

text \<open>
  \<^verbatim>\<open>printint\<close> prints numbers that read back: with base 10 and signed, the characters
  printed are an optional minus sign and digits whose value is the absolute value of the
  argument, for every 32-bit argument, the most negative one included. The characters fit into
  the 16 bytes of \<^verbatim>\<open>buf\<close>.
\<close>

lemma printint_decimal:
  "let out = rev (printint_buf xx 10 True) in length out \<le> 11
     \<and> (if sint xx < 0 then hd out = 45 \<and> - int (digits_val 10 (tl out)) = sint xx
        else 45 \<notin> set out \<and> int (digits_val 10 out) = sint xx)"
proof -
  let ?x = "if sint xx < 0 then 0 - xx else xx"
  have lt: "unat ?x < 10 ^ Suc 9" using unat_lt_2p32 [of ?x] by simp
  have len: "length (printint_loop 10 (unat ?x)) \<le> 10" using printint_loop_length [OF _ lt] by simp
  have val: "digits_val 10 (rev (printint_loop 10 (unat ?x))) = unat ?x" using printint_loop_val [of 10] by simp
  have sgn: "45 \<notin> set (printint_loop 10 (unat ?x))" using printint_loop_digits [of 10] by simp
  show ?thesis
  proof (cases "sint xx < 0")
    case True
    then show ?thesis using neg_sint [OF True] len val by (simp add: printint_buf_def Let_def del: of_nat_unat)
  next
    case False
    then show ?thesis using pos_sint [OF False] len val sgn by (simp add: printint_buf_def Let_def del: of_nat_unat)
  qed
qed

text \<open>
  \<^bold>\<open>C20.\<close> The input ring implements a line editor. Whatever keys arrive (Control-P apart), the
  characters ready for readers and the line being edited are those of the editor that works on
  two lists: characters are appended while the 128 places last, Control-H deletes the last
  character of the line, Control-U the line, and a newline, a Control-D or a full buffer hands
  the line over to the readers.
\<close>

theorem console_line_editor:
  assumes "cons_ok k" and "\<forall>c \<in> set cs. c \<noteq> CtlP \<and> c < 256"
  shows "\<exists>k1 s1. console_intr dump cs k s = Inr (k1, s1) \<and> cons_ok k1
    \<and> (ready k1, line k1) = fold edit_key cs (ready k, line k)"
  using console_intr_edits [OF assms] .

text \<open>
  What is typed is what is read. If nothing is waiting and the keys, edits included,
  make up the line \<open>l\<close>, then after the newline a read of a large enough buffer returns exactly
  that line with the newline and leaves nothing behind.
\<close>

lemma console_delivers_line:
  assumes "cons_ok k" and "ready k = []" and "line k = []" and "\<forall>c \<in> set cs. c \<noteq> CtlP \<and> c < 256"
    and "fold edit_key cs ([], []) = ([], l)" and "4 \<notin> set l" and "sint n > int (length l)"
  shows "\<exists>k1 s1 k2. console_intr dump (cs @ [10]) k s = Inr (k1, s1)
    \<and> console_read killed n k1 = (ReadDone (nat (sint n) - Suc (length l)), l @ [10], k2) \<and> ready k2 = []"
proof -
  obtain k0 s0 where k0: "console_intr dump cs k s = Inr (k0, s0)" "cons_ok k0" "ready k0 = []" "line k0 = l"
    using console_intr_edits [OF assms(1,4), of dump s] assms(2,3,5) by auto
  have room: "length l < INPUT_BUF"
    using edit_keys_room [OF _ assms(5)] INPUT_BUF_props(3) by auto
  have "\<forall>c \<in> set [10]. c \<noteq> CtlP \<and> c < (256 :: u32)" by (simp add: CtlP_def)
  then obtain k1 s1 where k1: "console_intr dump [10] k0 s0 = Inr (k1, s1)" "cons_ok k1" "(ready k1, line k1) = edit_key 10 ([], l)"
    using console_intr_edits [OF k0(2), of "[10]" dump s0] k0(3,4) by auto
  have "edit_key 10 ([], l) = (l @ [10], [])" using room by (simp add: edit_key_def CtlU_def CtlH_def)
  then have r: "ready k1 = l @ 10 # []" using k1(3) by simp
  have "10 \<notin> set l" using k0(2,4) by (simp add: cons_ok_def)
  moreover have "length l < nat (sint n)" using assms(7) by linarith
  ultimately obtain k2 where "console_read_loop (nat (sint n)) (unat n) killed k1 = (ReadDone (nat (sint n) - Suc (length l)), l @ [10], k2)" "ready k2 = []"
    using console_read_line [OF k1(2) r _ assms(6)] by blast
  then show ?thesis using k0(1) k1(1) by (simp add: console_intr_append console_read_def)
qed

text \<open>A console after boot.\<close>

definition no_procs_table :: ptable where
  "no_procs_table = \<lparr>procs = [], nextpid = 1, initproc = None\<rparr>"

definition new_console :: console where
  "new_console = \<lparr>crt = (\<lambda>_. 0), cursor = 1919, lpt = [], panicked = False,
     in_buf = replicate INPUT_BUF 0, in_r = 0, in_w = 0, in_e = 0\<rparr>"

lemma new_console_ok: "cons_ok new_console" "ready new_console = []" "line new_console = []"
  by (simp_all add: cons_ok_def new_console_def ready_def line_def)

lemma cons_putc_on_screen_witness:
  "cursor (cga_putc 65 (lpt_putc 65 new_console)) < 1920"
  using cons_putc_on_screen [of new_console 65 "cga_putc 65 (lpt_putc 65 new_console)"]
  by (simp add: new_console_def cons_putc_def)

theorem console_line_editor_witness:
  "\<exists>k1 s1. console_intr (\<lambda>_. Inr) [97, 8, 98, 10] new_console no_procs_table = Inr (k1, s1) \<and> ready k1 = [98, 10] \<and> line k1 = []"
proof -
  have "fold edit_key [97, 8, 98, 10] ([], []) = ([98, 10], [])" by code_simp
  then show ?thesis
    using console_line_editor [OF new_console_ok(1), of "[97, 8, 98, 10]" "\<lambda>_. Inr" no_procs_table]
    by (auto simp: new_console_ok CtlP_def)
qed

end
