(* ===== verification/Sh.thy ===== *)
theory Sh
  imports Xv6_Prelude
begin

text \<open>
  The parser of the shell (\<^verbatim>\<open>sh.c\<close>). The line is the list of its characters before the NUL, and
  pointers into it are positions; \<^verbatim>\<open>es\<close> is the length of the line. A command keeps its words as
  pairs of positions, and \<^verbatim>\<open>nulterminate\<close> cuts them out in place. The structures come from
  \<^verbatim>\<open>malloc\<close>, whose failure the program does not check.
\<close>

section \<open>Tokens\<close>

definition whitespace :: "u8 list" where "whitespace = [32, 9, 13, 10, 11]"
definition symbols :: "u8 list" where "symbols = [60, 124, 62, 38, 59, 40, 41]"

definition ch :: "u8 list \<Rightarrow> nat \<Rightarrow> u8" where
  "ch buf i = (if i < length buf then buf ! i else 0)"

definition wordchar :: "u8 \<Rightarrow> bool" where
  "wordchar c \<longleftrightarrow> c \<notin> set whitespace \<and> c \<notin> set symbols"

function skip_ws :: "u8 list \<Rightarrow> nat \<Rightarrow> nat" where
  "skip_ws buf s = (if s < length buf \<and> ch buf s \<in> set whitespace then skip_ws buf (Suc s) else s)"
  by pat_completeness auto
termination by (relation "measure (\<lambda>(buf, s). length buf - s)") auto

function skip_word :: "u8 list \<Rightarrow> nat \<Rightarrow> nat" where
  "skip_word buf s = (if s < length buf \<and> wordchar (ch buf s) then skip_word buf (Suc s) else s)"
  by pat_completeness auto
termination by (relation "measure (\<lambda>(buf, s). length buf - s)") auto

declare skip_ws.simps [simp del] skip_word.simps [simp del]

text \<open>The kind of token, its first position and the one behind it, and the new value of \<^verbatim>\<open>*ps\<close>.\<close>

definition gettoken :: "u8 list \<Rightarrow> nat \<Rightarrow> u8 \<times> nat \<times> nat \<times> nat" where
  "gettoken buf ps =
     (let q = skip_ws buf ps; c = ch buf q;
          (ret, eq) =
            (if c = 0 then (0, q)
             else if c \<in> {124, 40, 41, 59, 38, 60} then (c, q + 1)
             else if c = 62 then (if ch buf (q + 1) = 62 then (43, q + 2) else (62, q + 1))
             else (97, skip_word buf q))
      in (ret, q, eq, skip_ws buf eq))"

definition peek :: "u8 list \<Rightarrow> u8 list \<Rightarrow> nat \<Rightarrow> bool \<times> nat" where
  "peek toks buf ps = (let s = skip_ws buf ps in (ch buf s \<noteq> 0 \<and> ch buf s \<in> set toks, s))"

section \<open>Commands\<close>

definition MAXARGS :: nat where "MAXARGS = 10"

datatype cmd =
    EXEC "(nat \<times> nat) list"
  | REDIR cmd nat nat u32 nat
  | PIPE cmd cmd
  | LIST cmd cmd
  | BACK cmd

type_synonym 'a parse = "string + 'a"

text \<open>One redirection: file, mode and descriptor, put around a command.\<close>

type_synonym redir = "nat \<times> nat \<times> u32 \<times> nat"

definition redircmd :: "cmd \<Rightarrow> redir \<Rightarrow> cmd" where
  "redircmd c r = (case r of (q, eq, mode, fd) \<Rightarrow> REDIR c q eq mode fd)"

subsection \<open>What the tokens are\<close>

lemma skip_ws_ge: "s \<le> skip_ws buf s"
  by (induction buf s rule: skip_ws.induct) (subst skip_ws.simps, auto)

lemma skip_ws_stop: "\<not> (skip_ws buf s < length buf \<and> ch buf (skip_ws buf s) \<in> set whitespace)"
proof (induction buf s rule: skip_ws.induct)
  case (1 buf s)
  then show ?case by (cases "s < length buf \<and> ch buf s \<in> set whitespace") (auto simp: skip_ws.simps [of buf s])
qed

lemma skip_ws_idem [simp]: "skip_ws buf (skip_ws buf s) = skip_ws buf s"
  using skip_ws_stop [of buf s] by (subst skip_ws.simps) auto

definition word_at :: "u8 list \<Rightarrow> nat \<Rightarrow> nat \<Rightarrow> bool" where
  "word_at buf q eq \<longleftrightarrow> q \<le> eq \<and> eq \<le> length buf \<and> (\<forall>i \<in> {q..<eq}. wordchar (ch buf i)) \<and> \<not> (eq < length buf \<and> wordchar (ch buf eq))"

lemma skip_word_at: "s \<le> length buf \<Longrightarrow> word_at buf s (skip_word buf s)"
proof (induction buf s rule: skip_word.induct)
  case (1 buf s)
  show ?case
  proof (cases "s < length buf \<and> wordchar (ch buf s)")
    case True
    then have "word_at buf (Suc s) (skip_word buf (Suc s))" using 1 by simp
    moreover have "{s..<e} = insert s {Suc s..<e}" if "Suc s \<le> e" for e using that by auto
    ultimately show ?thesis using True by (auto simp: skip_word.simps [of buf s] word_at_def)
  next
    case False
    then show ?thesis using 1(2) by (auto simp: skip_word.simps [of buf s] word_at_def)
  qed
qed

lemma skip_word_ge: "s \<le> skip_word buf s"
  by (induction buf s rule: skip_word.induct) (subst skip_word.simps, auto)

lemma ch_in: "ch buf i \<noteq> 0 \<Longrightarrow> i < length buf"
  by (auto simp: ch_def split: if_splits)

lemma gettoken_moves:
  assumes "gettoken buf ps = (ret, q, eq, s)"
  shows "ps \<le> q" "q \<le> eq" "eq \<le> s" "ret = 0 \<longleftrightarrow> ch buf q = 0" "ret \<noteq> 0 \<Longrightarrow> q < eq \<and> q < length buf"
    "ret = 97 \<Longrightarrow> word_at buf q eq"
proof -
  have q: "q = skip_ws buf ps" and s: "s = skip_ws buf eq"
    using assms by (auto simp: gettoken_def Let_def split: prod.splits if_splits)
  show "ps \<le> q" "eq \<le> s" using skip_ws_ge q s by auto
  have word: "wordchar (ch buf q)" if "ch buf q \<noteq> 0" "ch buf q \<notin> set symbols"
    using that skip_ws_stop [of buf ps] ch_in [OF that(1)] by (auto simp: wordchar_def q)
  have step: "q < skip_word buf q" if "wordchar (ch buf q)" "q < length buf"
    using that skip_word_ge [of "Suc q" buf] by (subst skip_word.simps) auto
  show "q \<le> eq" "ret = 0 \<longleftrightarrow> ch buf q = 0" "ret \<noteq> 0 \<Longrightarrow> q < eq \<and> q < length buf"
    using assms step word ch_in [of buf q] skip_word_ge [of q buf]
    by (auto simp: gettoken_def Let_def q symbols_def split: if_splits)
  show "word_at buf q eq" if "ret = 97"
    using assms that skip_word_at [of q buf] ch_in [of buf q]
    by (auto simp: gettoken_def Let_def q split: if_splits)
qed

lemma gettoken_peek:
  assumes "peek toks buf ps = (True, s)" and "gettoken buf s = (ret, q, eq, s1)"
  shows "ps < s1" "ps < length buf"
proof -
  have s: "s = skip_ws buf ps" "ch buf s \<noteq> 0" using assms(1) by (auto simp: peek_def Let_def)
  have q: "q = s" using assms(2) by (auto simp: gettoken_def Let_def s(1) split: prod.splits if_splits)
  have "ret \<noteq> 0" using gettoken_moves(4) [OF assms(2)] s(2) q by simp
  then show "ps < s1" "ps < length buf"
    using gettoken_moves(3,5) [OF assms(2)] q s(1) skip_ws_ge [of ps buf] by auto
qed

lemma token_dec:
  assumes "(True, s) = peek toks buf ps" and "(tok, a, b, s1) = gettoken buf s"
  shows "length buf - s1 < length buf - ps"
  using gettoken_peek [OF assms(1,2) [symmetric]] by simp

lemma redirs_dec:
  assumes "(True, s) = peek toks buf ps" and "(tok, a, b, s1) = gettoken buf s" and "(tok1, q, eq, s2) = gettoken buf s1"
  shows "length buf - s2 < length buf - ps"
  using gettoken_peek [OF assms(1,2) [symmetric]] gettoken_moves(1-3) [OF assms(3) [symmetric]] by simp

section \<open>The parser\<close>

definition O_RDONLY :: u32 where "O_RDONLY = 0"
definition O_WRCREATE :: u32 where "O_WRCREATE = 0x201"

text \<open>
  The redirections from \<^verbatim>\<open>ps\<close> on; the caller puts them around its command. The token \<^verbatim>\<open>>>\<close> has the
  code of \<^verbatim>\<open>+\<close> and the mode of \<^verbatim>\<open>>\<close>.
\<close>

function parseredirs :: "u8 list \<Rightarrow> nat \<Rightarrow> (redir list \<times> nat) parse" where
  "parseredirs buf ps =
     (case peek [60, 62] buf ps of (b, s) \<Rightarrow>
      if \<not> b then Inr ([], s)
      else case gettoken buf s of (tok, _, _, s1) \<Rightarrow>
          case gettoken buf s1 of (tok1, q, eq, s2) \<Rightarrow>
          if tok1 \<noteq> 97 then Inl ''missing file for redirection''
          else case parseredirs buf s2 of
            Inl e \<Rightarrow> Inl e
          | Inr (rs, s3) \<Rightarrow> Inr ((q, eq, if tok = 60 then (O_RDONLY, 0) else (O_WRCREATE, 1)) # rs, s3))"
  by pat_completeness auto
termination
  by (relation "measure (\<lambda>(buf, ps). length buf - ps)") (auto dest: redirs_dec)

declare parseredirs.simps [simp del]

text \<open>The loop of \<^verbatim>\<open>parseexec\<close>: the words and the redirections, in order.\<close>

function parseargs :: "u8 list \<Rightarrow> nat \<Rightarrow> nat \<Rightarrow> ((nat \<times> nat) list \<times> redir list \<times> nat) parse" where
  "parseargs buf argc ps =
     (case peek [124, 41, 38, 59] buf ps of (b, s) \<Rightarrow>
      if b then Inr ([], [], s)
      else case gettoken buf s of (tok, q, eq, s1) \<Rightarrow>
          if tok = 0 then Inr ([], [], s1)
          else if tok \<noteq> 97 then Inl ''syntax''
          else if argc + 1 \<ge> MAXARGS then Inl ''too many args''
          else case parseredirs buf s1 of
            Inl e \<Rightarrow> Inl e
          | Inr (rs, s2) \<Rightarrow>
              (case parseargs buf (argc + 1) s2 of
                 Inl e \<Rightarrow> Inl e
               | Inr (ws, rs1, s3) \<Rightarrow> Inr ((q, eq) # ws, rs @ rs1, s3)))"
  by pat_completeness auto
termination by (relation "measure (\<lambda>(buf, argc, ps). MAXARGS - argc)") auto

text \<open>The loop of \<^verbatim>\<open>parseline\<close> over the ampersands.\<close>

function parsebacks :: "u8 list \<Rightarrow> cmd \<Rightarrow> nat \<Rightarrow> cmd \<times> nat" where
  "parsebacks buf c ps =
     (case peek [38] buf ps of (b, s) \<Rightarrow>
      if \<not> b then (c, s)
      else case gettoken buf s of (_, _, _, s1) \<Rightarrow> parsebacks buf (BACK c) s1)"
  by pat_completeness auto
termination
  by (relation "measure (\<lambda>(buf, c, ps). length buf - ps)") (auto dest: token_dec)

declare parseargs.simps [simp del] parsebacks.simps [simp del]

text \<open>
  The functions that call each other. Each call takes one from the fuel, the first argument;
  \<open>None\<close> is the result without fuel. Errors end the program with a message.
\<close>

definition pbind :: "'a parse option \<Rightarrow> ('a \<Rightarrow> 'b parse option) \<Rightarrow> 'b parse option" where
  "pbind r f = (case r of None \<Rightarrow> None | Some (Inl e) \<Rightarrow> Some (Inl e) | Some (Inr x) \<Rightarrow> f x)"

fun parseline :: "nat \<Rightarrow> u8 list \<Rightarrow> nat \<Rightarrow> (cmd \<times> nat) parse option"
  and parsepipe :: "nat \<Rightarrow> u8 list \<Rightarrow> nat \<Rightarrow> (cmd \<times> nat) parse option"
  and parseexec :: "nat \<Rightarrow> u8 list \<Rightarrow> nat \<Rightarrow> (cmd \<times> nat) parse option"
  and parseblock :: "nat \<Rightarrow> u8 list \<Rightarrow> nat \<Rightarrow> (cmd \<times> nat) parse option" where
  "parseline 0 buf ps = None"
| "parsepipe 0 buf ps = None"
| "parseexec 0 buf ps = None"
| "parseblock 0 buf ps = None"
| "parseline (Suc k) buf ps =
     pbind (parsepipe k buf ps) (\<lambda>(c, s).
     case parsebacks buf c s of (c1, s1) \<Rightarrow>
     case peek [59] buf s1 of (b, s2) \<Rightarrow>
     if \<not> b then Some (Inr (c1, s2))
     else case gettoken buf s2 of (_, _, _, s3) \<Rightarrow>
         pbind (parseline k buf s3) (\<lambda>(c2, s4). Some (Inr (LIST c1 c2, s4))))"
| "parsepipe (Suc k) buf ps =
     pbind (parseexec k buf ps) (\<lambda>(c, s).
     case peek [124] buf s of (b, s1) \<Rightarrow>
     if \<not> b then Some (Inr (c, s1))
     else case gettoken buf s1 of (_, _, _, s2) \<Rightarrow>
         pbind (parsepipe k buf s2) (\<lambda>(c1, s3). Some (Inr (PIPE c c1, s3))))"
| "parseexec (Suc k) buf ps =
     (case peek [40] buf ps of (b, s) \<Rightarrow>
      if b then parseblock k buf s
      else pbind (Some (parseredirs buf s)) (\<lambda>(rs, s1).
          pbind (Some (parseargs buf 0 s1)) (\<lambda>(ws, rs1, s2).
          Some (Inr (foldl redircmd (EXEC ws) (rs @ rs1), s2)))))"
| "parseblock (Suc k) buf ps =
     (case peek [40] buf ps of (b, s) \<Rightarrow>
      if \<not> b then Some (Inl ''parseblock'')
      else case gettoken buf s of (_, _, _, s1) \<Rightarrow>
          pbind (parseline k buf s1) (\<lambda>(c, s2).
          case peek [41] buf s2 of (b, s3) \<Rightarrow>
          if \<not> b then Some (Inl ''syntax - missing )'')
          else case gettoken buf s3 of (_, _, _, s4) \<Rightarrow>
              pbind (Some (parseredirs buf s4)) (\<lambda>(rs, s5). Some (Inr (foldl redircmd c rs, s5)))))"

text \<open>\<^verbatim>\<open>nulterminate\<close>, on the line with its final NUL.\<close>

primrec nulterminate :: "cmd \<Rightarrow> u8 list \<Rightarrow> u8 list" where
  "nulterminate (EXEC ws) b = fold (\<lambda>w b. b[snd w := 0]) ws b"
| "nulterminate (REDIR c q eq mode fd) b = (nulterminate c b)[eq := 0]"
| "nulterminate (PIPE c1 c2) b = nulterminate c2 (nulterminate c1 b)"
| "nulterminate (LIST c1 c2) b = nulterminate c2 (nulterminate c1 b)"
| "nulterminate (BACK c) b = nulterminate c b"

text \<open>The command with the line that its words now are in. The text of an error is what the program prints.\<close>

definition parsecmd :: "nat \<Rightarrow> u8 list \<Rightarrow> (cmd \<times> u8 list) parse option" where
  "parsecmd k buf =
     pbind (parseline k buf 0) (\<lambda>(c, s).
     case peek [] buf s of (_, s1) \<Rightarrow>
     if s1 \<noteq> length buf then Some (Inl (''leftovers: '' @ map (\<lambda>c. char_of (unat c)) (drop s1 buf) @ CHR 0x0A # ''syntax''))
     else Some (Inr (c, nulterminate c (buf @ [0]))))"

end
