(* ===== verification/Sh_Spec.thy ===== *)
theory Sh_Spec
  imports Sh
begin

text \<open>
  The shell's parser always comes to an end, and it leaves every word of a command as a string
  of its own.
\<close>

section \<open>Termination\<close>

lemma pbind_Inr: "pbind r f = Some (Inr y) \<longleftrightarrow> (\<exists>x. r = Some (Inr x) \<and> f x = Some (Inr y))"
  by (auto simp: pbind_def split: option.splits sum.splits)

lemma pbind_None: "pbind r f = None \<longleftrightarrow> r = None \<or> (\<exists>x. r = Some (Inr x) \<and> f x = None)"
  by (auto simp: pbind_def split: option.splits sum.splits)

lemma peek_ge: "peek toks buf ps = (b, s) \<Longrightarrow> ps \<le> s"
  using skip_ws_ge [of ps buf] by (auto simp: peek_def Let_def)

lemma gettoken_ge: "gettoken buf ps = (tok, q, eq, s) \<Longrightarrow> ps \<le> s"
  using gettoken_moves(1-3) [of buf ps tok q eq s] by linarith

lemma gettoken_word: "gettoken buf ps = (97, q, eq, s) \<Longrightarrow> word_at buf q eq \<and> q < eq"
  using gettoken_moves(5,6) [of buf ps 97 q eq s] by simp

text \<open>One round of each loop.\<close>

lemma parseredirs_step:
  assumes "parseredirs buf ps = Inr (rs, s)"
  obtains "rs = []" "ps \<le> s"
  | q eq m fd rs1 s2 where "rs = (q, eq, m, fd) # rs1" "parseredirs buf s2 = Inr (rs1, s)" "ps \<le> s2"
      "length buf - s2 < length buf - ps" "word_at buf q eq" "q < eq" "fd < 2"
proof -
  obtain b s0 where pk: "peek [60, 62] buf ps = (b, s0)" by (cases "peek [60, 62] buf ps")
  obtain tok a d s1 where g1: "gettoken buf s0 = (tok, a, d, s1)" by (cases "gettoken buf s0")
  obtain tok1 q eq s2 where g2: "gettoken buf s1 = (tok1, q, eq, s2)" by (cases "gettoken buf s1")
  have le: "ps \<le> s0" "s0 \<le> s2" using peek_ge [OF pk] gettoken_ge [OF g1] gettoken_ge [OF g2] by auto
  show thesis
  proof (cases b)
    case False
    then show thesis using assms pk le that(1) by (subst (asm) parseredirs.simps) simp
  next
    case True
    have dec: "length buf - s2 < length buf - ps" using redirs_dec [of s0 _ buf ps] pk g1 g2 True by metis
    have "tok1 = 97 \<and> (\<exists>rs1 m fd. parseredirs buf s2 = Inr (rs1, s) \<and> rs = (q, eq, m, fd) # rs1 \<and> fd < 2)"
      using assms pk g1 g2 True by (subst (asm) parseredirs.simps) (auto split: if_splits sum.splits prod.splits)
    then show thesis using that(2) dec le gettoken_word [of buf s1 q eq s2] g2 by auto
  qed
qed

lemma parseredirs_ge: "parseredirs buf ps = Inr (rs, s) \<Longrightarrow> ps \<le> s"
proof (induction "length buf - ps" arbitrary: ps rs rule: less_induct)
  case less
  from less(2) show ?case by (cases rule: parseredirs_step) (use less(1) in fastforce)+
qed

lemma parseargs_step:
  assumes "parseargs buf argc ps = Inr (ws, rs, s)"
  obtains "ws = []" "rs = []" "ps \<le> s"
  | q eq ws1 rs1 rs2 s1 s2 where "ws = (q, eq) # ws1" "rs = rs1 @ rs2" "parseredirs buf s1 = Inr (rs1, s2)" "ps \<le> s1"
      "parseargs buf (argc + 1) s2 = Inr (ws1, rs2, s)" "word_at buf q eq" "q < eq" "argc + 1 < MAXARGS"
proof -
  obtain b s0 where pk: "peek [124, 41, 38, 59] buf ps = (b, s0)" by (cases "peek [124, 41, 38, 59] buf ps")
  obtain tok q eq s1 where g: "gettoken buf s0 = (tok, q, eq, s1)" by (cases "gettoken buf s0")
  have le: "ps \<le> s0" "s0 \<le> s1" using peek_ge [OF pk] gettoken_ge [OF g] by auto
  show thesis
  proof (cases "b \<or> tok = 0")
    case True
    then show thesis using assms pk g le that(1) by (subst (asm) parseargs.simps) (auto split: if_splits)
  next
    case False
    then have "tok = 97 \<and> argc + 1 < MAXARGS \<and> (\<exists>rs1 s2 ws1 rs2. parseredirs buf s1 = Inr (rs1, s2)
        \<and> parseargs buf (argc + 1) s2 = Inr (ws1, rs2, s) \<and> ws = (q, eq) # ws1 \<and> rs = rs1 @ rs2)"
      using assms pk g by (subst (asm) parseargs.simps) (auto split: if_splits sum.splits prod.splits)
    then show thesis using that(2) le gettoken_word [of buf s0 q eq s1] g by auto
  qed
qed

lemma parseargs_ge: "parseargs buf argc ps = Inr (ws, rs, s) \<Longrightarrow> ps \<le> s"
proof (induction "MAXARGS - argc" arbitrary: argc ps ws rs rule: less_induct)
  case less
  from less(2) show ?case
    by (cases rule: parseargs_step) (use less(1) [of "argc + 1"] in \<open>fastforce dest: parseredirs_ge\<close>)+
qed

lemma parsebacks_ge: "parsebacks buf c ps = (c1, s) \<Longrightarrow> ps \<le> s"
proof (induction "length buf - ps" arbitrary: ps c rule: less_induct)
  case less
  obtain b s0 where pk: "peek [38] buf ps = (b, s0)" by (cases "peek [38] buf ps")
  obtain tok a d s1 where g: "gettoken buf s0 = (tok, a, d, s1)" by (cases "gettoken buf s0")
  have le: "ps \<le> s0" "s0 \<le> s1" using peek_ge [OF pk] gettoken_ge [OF g] by auto
  show ?case
  proof (cases b)
    case True
    then have "length buf - s1 < length buf - ps" using token_dec [of s0 _ buf ps] pk g by metis
    then show ?thesis using less(1) [of s1 "BACK c"] less(2) True pk g le by (subst (asm) (2) parsebacks.simps) simp
  next
    case False
    then show ?thesis using less(2) pk le by (subst (asm) parsebacks.simps) simp
  qed
qed

section \<open>Words\<close>

primrec words :: "cmd \<Rightarrow> (nat \<times> nat) list" where
  "words (EXEC ws) = ws"
| "words (REDIR c q eq mode fd) = (q, eq) # words c"
| "words (PIPE c1 c2) = words c1 @ words c2"
| "words (LIST c1 c2) = words c1 @ words c2"
| "words (BACK c) = words c"

definition words_ok :: "u8 list \<Rightarrow> (nat \<times> nat) list \<Rightarrow> bool" where
  "words_ok buf ws \<longleftrightarrow> (\<forall>(q, eq) \<in> set ws. word_at buf q eq \<and> q < eq)"

lemma words_ok_simps [simp]:
  "words_ok buf []" "words_ok buf ((q, eq) # ws) \<longleftrightarrow> word_at buf q eq \<and> q < eq \<and> words_ok buf ws"
  "words_ok buf (xs @ ys) \<longleftrightarrow> words_ok buf xs \<and> words_ok buf ys"
  by (auto simp: words_ok_def)

abbreviation redir_words :: "redir list \<Rightarrow> (nat \<times> nat) list" where
  "redir_words rs \<equiv> map (\<lambda>(q, eq, m, fd). (q, eq)) rs"

lemma parseredirs_words: "parseredirs buf ps = Inr (rs, s) \<Longrightarrow> words_ok buf (redir_words rs)"
proof (induction "length buf - ps" arbitrary: ps rs rule: less_induct)
  case less
  from less(2) show ?case by (cases rule: parseredirs_step) (use less(1) in auto)
qed

lemma parseargs_words: "parseargs buf argc ps = Inr (ws, rs, s) \<Longrightarrow> words_ok buf ws \<and> words_ok buf (redir_words rs)"
proof (induction "MAXARGS - argc" arbitrary: argc ps ws rs rule: less_induct)
  case less
  from less(2) show ?case
    by (cases rule: parseargs_step) (use less(1) [of "argc + 1"] in \<open>auto dest: parseredirs_words\<close>)
qed

lemma parsebacks_words: "parsebacks buf c ps = (c1, s) \<Longrightarrow> words_ok buf (words c) \<Longrightarrow> words_ok buf (words c1)"
proof (induction "length buf - ps" arbitrary: ps c rule: less_induct)
  case less
  obtain b s0 where pk: "peek [38] buf ps = (b, s0)" by (cases "peek [38] buf ps")
  obtain tok a d s1 where g: "gettoken buf s0 = (tok, a, d, s1)" by (cases "gettoken buf s0")
  show ?case
  proof (cases b)
    case True
    then have "length buf - s1 < length buf - ps" using token_dec [of s0 _ buf ps] pk g by metis
    then show ?thesis using less(1) [of s1 "BACK c"] less(2,3) True pk g by (subst (asm) (2) parsebacks.simps) simp
  next
    case False
    then show ?thesis using less(2,3) pk by (subst (asm) parsebacks.simps) simp
  qed
qed

lemma redirs_words: "words_ok buf (words (foldl redircmd c rs)) \<longleftrightarrow> words_ok buf (words c) \<and> words_ok buf (redir_words rs)"
proof (induction rs arbitrary: c)
  case (Cons r rs)
  obtain q eq m fd where "r = (q, eq, m, fd)" by (cases r)
  then show ?case using Cons by (simp add: redircmd_def) blast
qed simp

text \<open>Every parsing function moves forward and yields good words.\<close>

definition parses :: "u8 list \<Rightarrow> nat \<Rightarrow> (cmd \<times> nat) parse option \<Rightarrow> bool" where
  "parses buf ps r \<longleftrightarrow> (\<forall>c s. r = Some (Inr (c, s)) \<longrightarrow> ps \<le> s \<and> words_ok buf (words c))"

lemma parsesD: "parses buf ps r \<Longrightarrow> r = Some (Inr (c, s)) \<Longrightarrow> ps \<le> s \<and> words_ok buf (words c)"
  by (simp add: parses_def)

lemma parses_bind:
  assumes "parses buf ps r" and "\<And>c s. ps \<le> s \<Longrightarrow> words_ok buf (words c) \<Longrightarrow> parses buf ps (f (c, s))"
  shows "parses buf ps (pbind r f)"
  unfolding parses_def pbind_Inr
proof (intro allI impI, elim exE conjE)
  fix c s x
  assume "r = Some (Inr x)" and f: "f x = Some (Inr (c, s))"
  moreover obtain c1 s1 where "x = (c1, s1)" by (cases x)
  ultimately have "parses buf ps (f x)" using assms(2) [of s1 c1] parsesD [OF assms(1), of c1 s1] by metis
  from parsesD [OF this f] show "ps \<le> s \<and> words_ok buf (words c)" .
qed

lemma parses_weaken: "parses buf ps' r \<Longrightarrow> ps \<le> ps' \<Longrightarrow> parses buf ps r"
  by (fastforce simp: parses_def)

lemma parses_simps [simp]:
  "parses buf ps None" "parses buf ps (Some (Inl e))"
  "parses buf ps (Some (Inr (c, s))) \<longleftrightarrow> ps \<le> s \<and> words_ok buf (words c)"
  by (auto simp: parses_def)

lemma redirs_parses:
  assumes "ps \<le> p" and "words_ok buf (words c)"
  shows "parses buf ps (pbind (Some (parseredirs buf p)) (\<lambda>(rs, s). Some (Inr (foldl redircmd c rs, s))))"
proof (cases "parseredirs buf p")
  case (Inr r)
  obtain rs s where r: "r = (rs, s)" by (cases r)
  show ?thesis
    using Inr r assms parseredirs_ge [of buf p rs s] parseredirs_words [of buf p rs s] by (simp add: pbind_def redirs_words)
qed (simp add: pbind_def)

lemma exec_parses:
  assumes "ps \<le> p"
  shows "parses buf ps (pbind (Some (parseredirs buf p)) (\<lambda>(rs, s1).
    pbind (Some (parseargs buf 0 s1)) (\<lambda>(ws, rs1, s2). Some (Inr (foldl redircmd (foldl redircmd (EXEC ws) rs) rs1, s2)))))"
proof (cases "parseredirs buf p")
  case (Inr r)
  obtain rs s where r: "r = (rs, s)" by (cases r)
  show ?thesis
  proof (cases "parseargs buf 0 s")
    case (Inr x)
    obtain ws rs1 s2 where "x = (ws, rs1, s2)" by (cases x)
    then show ?thesis
      using Inr \<open>parseredirs buf p = Inr r\<close> r assms parseredirs_ge [of buf p rs s] parseredirs_words [of buf p rs s]
        parseargs_ge [of buf 0 s ws rs1 s2] parseargs_words [of buf 0 s ws rs1 s2]
      by (simp add: pbind_def redirs_words)
  qed (use Inr r in \<open>simp add: pbind_def\<close>)
qed (simp add: pbind_def)

lemma parse_words:
  "parses buf ps (parseline k buf ps) \<and> parses buf ps (parsepipe k buf ps)
    \<and> parses buf ps (parseexec k buf ps) \<and> parses buf ps (parseblock k buf ps)"
proof (induction k arbitrary: ps)
  case (Suc k)
  have line: "parses buf p (parseline k buf q)" and pipe: "parses buf p (parsepipe k buf q)"
    and ex: "parses buf p (parseexec k buf q)" and blk: "parses buf p (parseblock k buf q)" if "p \<le> q" for p q
    using Suc parses_weaken that by blast+
  have "parses buf ps (parseline (Suc k) buf ps)"
    by (auto split: prod.splits intro!: parses_bind pipe line) (meson order_trans parsebacks_ge peek_ge gettoken_ge parsebacks_words)+
  moreover have "parses buf ps (parsepipe (Suc k) buf ps)"
    by (auto split: prod.splits intro!: parses_bind pipe ex) (meson order_trans peek_ge gettoken_ge)+
  moreover have "parses buf ps (parseblock (Suc k) buf ps)"
    by (auto split: prod.splits intro!: parses_bind line redirs_parses) (meson order_trans peek_ge gettoken_ge)+
  moreover have "parses buf ps (parseexec (Suc k) buf ps)"
    by (auto split: prod.splits intro!: blk exec_parses dest: peek_ge)
  ultimately show ?case by blast
qed simp

section \<open>Enough fuel\<close>

text \<open>A symbol is read between two calls of \<^verbatim>\<open>parseline\<close> that are nested.\<close>

definition comes_out :: "'a parse option \<Rightarrow> bool" where
  "comes_out r \<longleftrightarrow> r \<noteq> None"

lemma comes_out_Some [simp]: "comes_out (Some r)"
  by (simp add: comes_out_def)

lemma pbind_total: "comes_out r \<Longrightarrow> (\<And>x. r = Some (Inr x) \<Longrightarrow> comes_out (f x)) \<Longrightarrow> comes_out (pbind r f)"
  by (auto simp: comes_out_def pbind_def split: option.splits sum.splits)

lemma after_symbol:
  assumes "peek toks buf p = (True, s)" and "gettoken buf s = (tok, q, eq, s1)" and "ps \<le> p"
  shows "4 * (length buf - s1) + 4 \<le> 4 * (length buf - ps)"
  using gettoken_peek [OF assms(1,2)] assms(3) by simp

lemma parse_total:
  "(4 * (length buf - ps) + 4 \<le> k \<longrightarrow> comes_out (parseline k buf ps)) \<and> (4 * (length buf - ps) + 3 \<le> k \<longrightarrow> comes_out (parsepipe k buf ps))
    \<and> (4 * (length buf - ps) + 2 \<le> k \<longrightarrow> comes_out (parseexec k buf ps)) \<and> (4 * (length buf - ps) + 1 \<le> k \<longrightarrow> comes_out (parseblock k buf ps))"
proof (induction k arbitrary: ps)
  case (Suc k)
  have line: "comes_out (parseline k buf p)" if "4 * (length buf - p) + 4 \<le> k" for p using Suc that by blast
  have pipe: "comes_out (parsepipe k buf p)" if "4 * (length buf - p) + 3 \<le> k" for p using Suc that by blast
  have ex: "comes_out (parseexec k buf p)" if "4 * (length buf - p) + 2 \<le> k" for p using Suc that by blast
  have blk: "comes_out (parseblock k buf p)" if "4 * (length buf - p) + 1 \<le> k" for p using Suc that by blast
  note ge = parse_words [THEN conjunct1, THEN parsesD, THEN conjunct1]
    parse_words [THEN conjunct2, THEN conjunct1, THEN parsesD, THEN conjunct1]
    parse_words [THEN conjunct2, THEN conjunct2, THEN conjunct1, THEN parsesD, THEN conjunct1]
  have line': "comes_out (parseline k buf s1)" and pipe': "comes_out (parsepipe k buf s1)"
    if "peek toks buf p = (True, s)" "gettoken buf s = (tok, q, eq, s1)" "ps \<le> p" "4 * (length buf - ps) \<le> k" for toks p s tok q eq s1
    using after_symbol [OF that(1-3)] that(4) by (auto intro!: line pipe)
  have "comes_out (parseline (Suc k) buf ps)" if "4 * (length buf - ps) + 4 \<le> Suc k"
    using that
    by (auto split: prod.splits intro!: pbind_total pipe dest!: ge) (meson line' order_trans parsebacks_ge le_add2)
  moreover have "comes_out (parsepipe (Suc k) buf ps)" if "4 * (length buf - ps) + 3 \<le> Suc k"
    using that
    by (auto split: prod.splits intro!: pbind_total ex dest!: ge) (meson pipe' order_trans le_SucI Suc_leD)
  moreover have "comes_out (parseexec (Suc k) buf ps)" if "4 * (length buf - ps) + 2 \<le> Suc k"
    using that by (auto split: prod.splits intro!: pbind_total blk dest!: peek_ge)
  moreover have "comes_out (parseblock (Suc k) buf ps)" if "4 * (length buf - ps) + 1 \<le> Suc k"
    using that by (auto split: prod.splits intro!: pbind_total dest: line')
  ultimately show ?case by blast
qed simp

section \<open>Properties\<close>

text \<open>
  \<^bold>\<open>C22.\<close> The parser terminates on every line: calls nested four times as deep as the line is
  long, and four more, always come to a result, a command or an error message.
\<close>

theorem parsecmd_terminates:
  assumes "4 * length buf + 4 \<le> k"
  shows "\<exists>r. parsecmd k buf = Some r"
proof -
  have "comes_out (parsecmd k buf)"
    unfolding parsecmd_def using parse_total [of buf 0 k] assms by (auto split: prod.splits intro!: pbind_total)
  then show ?thesis by (simp add: comes_out_def)
qed

text \<open>What \<^verbatim>\<open>nulterminate\<close> does to the line.\<close>

lemma fold_ends: "length (fold (\<lambda>w b. b[snd w := 0]) ws b) = length b"
  "i < length b \<Longrightarrow> fold (\<lambda>w b. b[snd w := 0]) ws b ! i = (if i \<in> snd ` set ws then 0 else b ! i)"
  by (induction ws arbitrary: b) (auto simp: nth_list_update split: if_splits)

lemma nth_upd: "i < length xs \<Longrightarrow> xs[j := y] ! i = (if i = j then y else xs ! i)"
  by simp

lemma nulterminate_nth: "length (nulterminate c b) = length b \<and>
    (\<forall>i < length b. nulterminate c b ! i = (if i \<in> snd ` set (words c) then 0 else b ! i))"
  by (induction c arbitrary: b) (auto simp: fold_ends nth_upd)

text \<open>
  \<^bold>\<open>C23.\<close> After parsing, every word of the command, argument or file name, can be read as a
  string from where it starts: no other word is cut off with it, and none runs into the next.
\<close>

theorem parsecmd_separates_words:
  assumes "0 \<notin> set buf" and "parsecmd k buf = Some (Inr (c, b))" and "(q, eq) \<in> set (words c)"
  shows "takeWhile (\<lambda>x. x \<noteq> 0) (drop q b) = take (eq - q) (drop q buf) \<and> q < eq \<and> eq \<le> length buf"
proof -
  obtain s where p: "parseline k buf 0 = Some (Inr (c, s))" and b: "b = nulterminate c (buf @ [0])"
  proof -
    obtain c1 s where "parseline k buf 0 = Some (Inr (c1, s))"
      "(case peek [] buf s of (_, s1) \<Rightarrow>
         if s1 \<noteq> length buf then Some (Inl (''leftovers: '' @ map (\<lambda>c. char_of (unat c)) (drop s1 buf) @ CHR 0x0A # ''syntax''))
         else Some (Inr (c1, nulterminate c1 (buf @ [0])))) = Some (Inr (c, b))"
      using assms(2) by (auto simp: parsecmd_def pbind_Inr)
    then show thesis using that by (cases "peek [] buf s") (auto split: if_splits)
  qed
  have ok: "words_ok buf (words c)" using parse_words [of buf 0 k] parsesD [OF _ p] by blast
  then have w: "word_at buf q eq" "q < eq" using assms(3) by (auto simp: words_ok_def)
  have le: "eq \<le> length buf" using w(1) by (simp add: word_at_def)
  have at: "b ! i = (if i \<in> snd ` set (words c) then 0 else (buf @ [0]) ! i)" if "i \<le> length buf" for i
    using that nulterminate_nth [of c "buf @ [0]"] by (simp add: b)
  have "b ! i = buf ! i \<and> buf ! i \<noteq> 0" if "q \<le> i" "i < eq" for i
  proof -
    have "wordchar (ch buf i)" using w(1) that by (simp add: word_at_def)
    moreover have "\<not> (e < length buf \<and> wordchar (ch buf e))" if "e \<in> snd ` set (words c)" for e
      using ok that by (auto simp: words_ok_def word_at_def)
    ultimately have "i \<notin> snd ` set (words c)" using that le by fastforce
    then show ?thesis using at [of i] that le assms(1) by (auto simp: nth_append) (metis nth_mem order_less_le_trans)
  qed
  moreover have "b ! eq = 0" using at [OF le] assms(3) by force
  moreover have "length b = Suc (length buf)" using nulterminate_nth [of c "buf @ [0]"] by (simp add: b)
  ultimately have "takeWhile (\<lambda>x. x \<noteq> 0) (drop q b) = take (eq - q) (drop q b)"
    and "take (eq - q) (drop q b) = take (eq - q) (drop q buf)"
    using w(2) le by (intro takeWhile_eq_take_P_nth, simp_all) (intro nth_equalityI, simp_all)
  then show ?thesis using w(2) le by simp
qed

subsection \<open>A line\<close>

text \<open>The line \<^verbatim>\<open>ls>f\<close>.\<close>

lemma ls_line:
  "parsecmd 20 [108, 115, 62, 102] = Some (Inr (REDIR (EXEC [(0, 2)]) 3 4 O_WRCREATE 1, [108, 115, 0, 102, 0]))"
  by code_simp

theorem parsecmd_terminates_witness: "\<exists>r. parsecmd 20 [108, 115, 62, 102] = Some r"
  using parsecmd_terminates [of "[108, 115, 62, 102]" 20] by simp

theorem parsecmd_separates_words_witness:
  "takeWhile (\<lambda>x. x \<noteq> 0) (drop 0 [108, 115, 0, 102, 0]) = ([108, 115] :: u8 list)"
  using parsecmd_separates_words [OF _ ls_line, of 0 2] by simp

end
