(* ===== verification/Printf.thy ===== *)
theory Printf
  imports Console
begin

text \<open>
  \<^verbatim>\<open>printf\<close> of user programs (\<^verbatim>\<open>printf.c\<close>). Every character is one call of \<^verbatim>\<open>write\<close>, so a routine is
  modelled by the bytes it writes to its file descriptor, in order. Arguments are as for the
  \<^verbatim>\<open>cprintf\<close> of the kernel, with which the routine is compared.
\<close>

section \<open>Definitions\<close>

definition putc :: "u8 \<Rightarrow> u8 list" where
  "putc c = [c]"

text \<open>The digits are filled in by the same loop as in \<^verbatim>\<open>console.c\<close>; \<^verbatim>\<open>-xx\<close> wraps for the most negative number.\<close>

definition u_printint :: "u32 \<Rightarrow> nat \<Rightarrow> bool \<Rightarrow> u8 list" where
  "u_printint xx base sg =
     (let neg = sg \<and> sint xx < 0; x = (if neg then - xx else xx);
          buf = printint_loop base (unat x) @ (if neg then [45] else [])
      in concat (map putc (rev buf)))"

primrec printf_loop :: "u8 list \<Rightarrow> bool \<Rightarrow> fmt_arg list \<Rightarrow> u8 list res" where
  "printf_loop [] pct ap = Inr []"
| "printf_loop (c # cs) pct ap =
     (if \<not> pct then
        (if c = 37 then printf_loop cs True ap
         else rbind (printf_loop cs False ap) (\<lambda>out. Inr (putc c @ out)))
      else if c = 100 then
        rbind (arg_word ap) (\<lambda>w. rbind (printf_loop cs False (tl ap)) (\<lambda>out. Inr (u_printint w 10 True @ out)))
      else if c = 120 \<or> c = 112 then
        rbind (arg_word ap) (\<lambda>w. rbind (printf_loop cs False (tl ap)) (\<lambda>out. Inr (u_printint w 16 False @ out)))
      else if c = 115 then
        rbind (arg_str ap) (\<lambda>s. rbind (printf_loop cs False (tl ap)) (\<lambda>out. Inr (concat (map putc s) @ out)))
      else if c = 99 then
        rbind (arg_word ap) (\<lambda>w. rbind (printf_loop cs False (tl ap)) (\<lambda>out. Inr (putc (ucast w) @ out)))
      else if c = 37 then rbind (printf_loop cs False ap) (\<lambda>out. Inr (putc c @ out))
      else rbind (printf_loop cs False ap) (\<lambda>out. Inr (putc 37 @ putc c @ out)))"

definition printf :: "u8 list \<Rightarrow> fmt_arg list \<Rightarrow> u8 list res" where
  "printf fmt ap = printf_loop fmt False ap"

section \<open>Comparison with the kernel\<close>

lemma concat_putc [simp]: "concat (map putc bs) = bs"
  by (induction bs) (simp_all add: putc_def)

lemma u_printint_buf: "u_printint xx base sg = rev (printint_buf xx base sg)"
  by (simp add: u_printint_def printint_buf_def Let_def)

lemma cons_puts_Cons: "cons_puts (c # cs) = (\<lambda>k. rbind (cons_putc c k) (cons_puts cs))"
  by auto

lemma cons_puts_append: "cons_puts (as @ bs) k = rbind (cons_puts as k) (cons_puts bs)"
proof (induction as arbitrary: k)
  case (Cons a as)
  then show ?case by (cases "cons_putc a k") simp_all
qed simp

text \<open>Formats without the conversion \<^verbatim>\<open>%c\<close>, which only \<^verbatim>\<open>printf\<close> knows, and strings of seven-bit characters.\<close>

fun no_char :: "bool \<Rightarrow> u8 list \<Rightarrow> bool" where
  "no_char pct [] = True"
| "no_char pct (c # cs) = (\<not> (pct \<and> c = 99) \<and> no_char (\<not> pct \<and> c = 37) cs)"

definition ascii_arg :: "fmt_arg \<Rightarrow> bool" where
  "ascii_arg a = (case a of ArgWord w \<Rightarrow> True | ArgStr s \<Rightarrow> list_all (\<lambda>c. c < 128) s)"

lemma scast_ascii:
  assumes "(c :: u8) < 128"
  shows "(scast c :: u32) = ucast c"
proof (rule bit_word_eqI)
  fix n assume "n < LENGTH(32)"
  have "unat c < 128" using assms by (simp add: word_less_nat_alt)
  then have "\<not> bit (unat c) 7" by (simp add: bit_nat_def)
  then have c7: "\<not> bit c 7" by (simp add: bit_unsigned_iff)
  have "\<not> bit c n" if "7 \<le> n" using c7 bit_u8_beyond [of n c] that by (cases "n = 7") auto
  then show "bit (scast c :: u32) n \<longleftrightarrow> bit (ucast c :: u32) n"
    using c7 by (cases "n < 7") (auto simp: bit_signed_iff bit_unsigned_iff min_def)
qed

lemma scast_ascii_map: "list_all (\<lambda>c. c < 128) (s :: u8 list) \<Longrightarrow> map scast s = (map ucast s :: u32 list)"
  by (induction s) (simp_all add: scast_ascii)

lemma cprintf_loop_printf:
  assumes "printf_loop cs pct ap = Inr out" and "no_char pct cs" and "list_all ascii_arg ap"
  shows "cprintf_loop cs pct ap = cons_puts (map ucast out)"
  using assms
proof (induction cs arbitrary: pct ap out)
  case (Cons c cs)
  have tl: "list_all ascii_arg (tl ap)" using Cons.prems(3) by (cases ap) simp_all
  have word: "rbind (printint w b sg k) (cprintf_loop cs False (tl ap)) = cons_puts (map ucast (u_printint w b sg @ o1)) k"
    if "printf_loop cs False (tl ap) = Inr o1" "no_char False cs" for o1 w b sg k
    using Cons.IH [OF that tl] by (simp add: printint_def u_printint_buf cons_puts_append)
  have str: "list_all (\<lambda>c. c < 128) s" if "arg_str ap = Inr s" for s
    using that Cons.prems(3) by (auto simp: arg_str_def null_str_def ascii_arg_def split: list.splits fmt_arg.splits if_splits)
  show ?case
  proof (cases pct)
    case False
    then show ?thesis
      using Cons.prems Cons.IH by (intro ext) (auto simp: rbind_eq_Inr putc_def split: if_splits)
  next
    case True
    consider "c = 100" | "c = 120 \<or> c = 112" | "c = 115" | "c = 37" | "c \<notin> {100, 120, 112, 115, 37, 99}"
      using Cons.prems(2) True by auto
    then show ?thesis
    proof cases
      case 1
      then show ?thesis using Cons.prems True word by (intro ext) (auto simp: rbind_eq_Inr)
    next
      case 2
      then show ?thesis using Cons.prems True word by (intro ext) (auto simp: rbind_eq_Inr)
    next
      case 3
      then obtain st o1 where st: "arg_str ap = Inr st" "printf_loop cs False (tl ap) = Inr o1" "out = st @ o1"
        using Cons.prems(1) True by (auto simp: rbind_eq_Inr)
      have "cprintf_loop cs False (tl ap) = cons_puts (map ucast o1)" using Cons.IH [OF st(2) _ tl] Cons.prems(2) True 3 by auto
      then show ?thesis
        using 3 True st scast_ascii_map [OF str [OF st(1)]] by (intro ext) (simp add: cons_puts_append del: map_eq_conv)
    next
      case 4
      then show ?thesis using Cons.prems Cons.IH True by (intro ext) (auto simp: rbind_eq_Inr putc_def cons_puts_Cons)
    next
      case 5
      then show ?thesis using Cons.prems Cons.IH True by (intro ext) (auto simp: rbind_eq_Inr putc_def cons_puts_Cons)
    qed
  qed
qed (simp add: fun_eq_iff)

section \<open>Properties\<close>

text \<open>
  \<^bold>\<open>C36.\<close> User programs and the kernel format alike: for a format without \<^verbatim>\<open>%c\<close> and arguments in
  seven-bit characters, the kernel's \<^verbatim>\<open>cprintf\<close> puts exactly the bytes on the console that \<^verbatim>\<open>printf\<close>
  writes to its file descriptor.
\<close>

theorem printf_as_cprintf:
  assumes "printf fmt ap = Inr out" and "no_char False fmt" and "list_all ascii_arg ap"
  shows "cprintf fmt ap k = cons_puts (map ucast out) k"
  using cprintf_loop_printf [OF _ assms(2,3)] assms(1) by (simp add: printf_def cprintf_def)

theorem printf_as_cprintf_witness:
  "let k = \<lparr>crt = \<lambda>_. 0, cursor = 0, lpt = [], panicked = False, in_buf = [], in_r = 0, in_w = 0, in_e = 0\<rparr>
   in cprintf [110, 61, 37, 120, 33] [ArgWord 255] k = cons_puts (map ucast ([110, 61, 70, 70, 33] :: u8 list)) k"
proof -
  have "printf [110, 61, 37, 120, 33] [ArgWord 255] = Inr [110, 61, 70, 70, 33]"
    by (simp add: printf_def putc_def u_printint_def arg_word_def printint_loop.simps digits_def)
  from printf_as_cprintf [OF this] show ?thesis by (simp add: ascii_arg_def Let_def)
qed

end
