(* ===== verification/Uproc.thy ===== *)
theory Uproc
  imports Printf Fs_File
begin

text \<open>
  User programs as trees of system calls: a program exits, or makes a call and goes on with the answer.
  What the calls of \<^verbatim>\<open>read\<close> on a descriptor will return, up to the end of the file or an error, comes with the
  answer of the \<^verbatim>\<open>open\<close> that made it, so that the loops of the programs end and their trees are finite. \<open>run\<close> gives the
  effects of a program and of the processes it forks, for an environment that answers the calls; descriptors are
  allocated as \<^verbatim>\<open>fdalloc\<close> of the kernel does.
\<close>

section \<open>Programs\<close>

text \<open>The system calls of \<^verbatim>\<open>user.h\<close>, without \<^verbatim>\<open>exit\<close>, \<^verbatim>\<open>read\<close>, \<^verbatim>\<open>getpid\<close> and \<^verbatim>\<open>sbrk\<close>.\<close>

datatype ucall =
    UFork | UWait | UPipe
  | UWrite nat "u8 list" | UClose nat | UKill u32
  | UExec "u8 list" "u8 list list"
  | UOpen "u8 list" u32 | UMknod "u8 list" u16 u16 | UUnlink "u8 list" | UFstat nat
  | ULink "u8 list" "u8 list" | UMkdir "u8 list" | UChdir "u8 list" | UDup nat | USleep u32

text \<open>What successive reads return: the chunks, and whether an error comes after them instead of the end.\<close>

type_synonym reads = "u8 list list \<times> bool"

datatype uans = Ret int | Opened nat reads | Fds nat nat | Stats stat

datatype uprog = UExit | UDo ucall "uans \<Rightarrow> uprog"

definition failed :: "uans \<Rightarrow> bool" where
  "failed a = (case a of Ret r \<Rightarrow> r < 0 | _ \<Rightarrow> False)"

definition chars :: "string \<Rightarrow> u8 list" where
  "chars s = map of_char s"

text \<open>\<^verbatim>\<open>printf(fd, fmt, ...)\<close>, with the bytes in one piece, and then the rest of the program.\<close>

definition say :: "nat \<Rightarrow> u8 list \<Rightarrow> fmt_arg list \<Rightarrow> uprog \<Rightarrow> uprog" where
  "say fd fmt args p = (case printf fmt args of Inl _ \<Rightarrow> UExit | Inr bs \<Rightarrow> UDo (UWrite fd bs) (\<lambda>_. p))"

section \<open>Processes\<close>

datatype ufile = UGiven nat | UFile "u8 list" u32 | UPipeR "nat list" | UPipeW "nat list"

type_synonym fdt = "ufile option list"

definition lowest :: "fdt \<Rightarrow> nat option" where
  "lowest fds = first_idx (\<lambda>fd. fds ! fd = None) [0..<NOFILE]"

text \<open>
  The environment: the files that can be opened and what they deliver, the programs that can be executed, what \<^verbatim>\<open>fork\<close>
  returns to the parent, and the results of the other calls. A process is named by its place in the tree of forks, a
  pipe by the process that made it.
\<close>

record uenv =
  e_open :: "u8 list \<Rightarrow> u32 \<Rightarrow> reads option"
  e_exec :: "u8 list \<Rightarrow> u8 list list \<Rightarrow> bool"
  e_pid :: "nat list \<Rightarrow> int"
  e_stat :: "ufile \<Rightarrow> stat option"
  e_call :: "ucall \<Rightarrow> int"

datatype uevent =
    EvExec "u8 list" "u8 list list" fdt
  | EvWrite "ufile option" "u8 list"
  | EvWait fdt
  | EvCall ucall int

primrec run :: "uprog \<Rightarrow> uenv \<Rightarrow> nat list \<Rightarrow> fdt \<Rightarrow> uevent list" where
  "run UExit e path fds = []"
| "run (UDo c k) e path fds =
     (case c of
        UFork \<Rightarrow> run (k (Ret 0)) e (0 # path) fds @ run (k (Ret (e_pid e path))) e (1 # path) fds
      | UExec p argv \<Rightarrow> if e_exec e p argv then [EvExec p argv fds] else run (k (Ret (-1))) e path fds
      | UWait \<Rightarrow> EvWait fds # run (k (Ret (e_call e UWait))) e path fds
      | UWrite fd bs \<Rightarrow> EvWrite (fds ! fd) bs # run (k (Ret (int (length bs)))) e path fds
      | UClose fd \<Rightarrow> run (k (Ret (if fds ! fd = None then -1 else 0))) e path (fds[fd := None])
      | UDup fd \<Rightarrow>
          (case lowest fds of
             Some n \<Rightarrow> if fds ! fd \<noteq> None then run (k (Ret (int n))) e path (fds[n := fds ! fd]) else run (k (Ret (-1))) e path fds
           | None \<Rightarrow> run (k (Ret (-1))) e path fds)
      | UOpen p m \<Rightarrow>
          (case (e_open e p m, lowest fds) of
             (Some rs, Some n) \<Rightarrow> run (k (Opened n rs)) e path (fds[n := Some (UFile p m)])
           | _ \<Rightarrow> run (k (Ret (-1))) e path fds)
      | UPipe \<Rightarrow>
          (case lowest fds of
             Some a \<Rightarrow>
               (case lowest (fds[a := Some (UPipeR path)]) of
                  Some b \<Rightarrow> run (k (Fds a b)) e (2 # path) (fds[a := Some (UPipeR path), b := Some (UPipeW path)])
                | None \<Rightarrow> run (k (Ret (-1))) e path fds)
           | None \<Rightarrow> run (k (Ret (-1))) e path fds)
      | UFstat fd \<Rightarrow>
          (case fds ! fd of
             Some f \<Rightarrow> (case e_stat e f of Some st \<Rightarrow> run (k (Stats st)) e path fds | None \<Rightarrow> run (k (Ret (-1))) e path fds)
           | None \<Rightarrow> run (k (Ret (-1))) e path fds)
      | _ \<Rightarrow> EvCall c (e_call e c) # run (k (Ret (e_call e c))) e path fds)"

lemma run_say: "printf fmt args = Inr bs \<Longrightarrow> run (say fd fmt args p) e path fds = EvWrite (fds ! fd) bs # run p e path fds"
  by (simp add: say_def)

section \<open>Descriptors\<close>

text \<open>Standard input, output and error output are open.\<close>

definition stdio :: "fdt \<Rightarrow> bool" where
  "stdio fds \<longleftrightarrow> length fds = NOFILE \<and> fds ! 0 \<noteq> None \<and> fds ! 1 \<noteq> None \<and> fds ! 2 \<noteq> None"

lemma nth_update_if: "xs[i := x] ! j = (if i = j \<and> i < length xs then x else xs ! j)"
  by (cases "i < length xs") (auto simp: nth_list_update list_update_beyond)

lemma lowest_Some: "lowest fds = Some n \<longleftrightarrow> n < NOFILE \<and> fds ! n = None \<and> (\<forall>m < n. fds ! m \<noteq> None)"
  by (auto simp: lowest_def first_idx_Some)

lemma lowest_freed:
  assumes "stdio fds" and "fd \<le> 2"
  shows "lowest (fds[fd := None]) = Some fd"
  using assms by (auto simp: lowest_Some stdio_def NOFILE_def nth_list_update le_Suc_eq numeral_2_eq_2 less_Suc_eq)

lemma stdio_update: "stdio fds \<Longrightarrow> stdio (fds[i := Some f])"
  by (cases "i < length fds") (auto simp: stdio_def nth_list_update NOFILE_def list_update_beyond)

lemma lowest_stdio:
  assumes "stdio fds" and "lowest fds = Some n"
  shows "3 \<le> n" and "n < length fds" and "fds ! n = None"
proof -
  have "fds ! n = None" using assms(2) by (simp add: lowest_Some)
  then have "n \<noteq> 0" "n \<noteq> 1" "n \<noteq> 2" using assms(1) by (metis stdio_def)+
  then show "3 \<le> n" by linarith
  show "n < length fds" "fds ! n = None" using assms by (auto simp: lowest_Some stdio_def)
qed

text \<open>An environment without files, and a process with three descriptors, for examples.\<close>

definition plain_env :: uenv where
  "plain_env = \<lparr>e_open = (\<lambda>_ _. None), e_exec = (\<lambda>_ _. True), e_pid = (\<lambda>_. 1), e_stat = (\<lambda>_. None), e_call = (\<lambda>_. 0)\<rparr>"

definition plain_fds :: fdt where
  "plain_fds = [Some (UGiven 0), Some (UGiven 1), Some (UGiven 2)] @ replicate 13 None"

lemma plain_fds_stdio: "stdio plain_fds"
  by (simp add: stdio_def plain_fds_def NOFILE_def)

end
