(* ===== verification/Grep.thy ===== *)
theory Grep
  imports Xv6_Prelude
begin

text \<open>
  The matcher of \<^verbatim>\<open>grep.c\<close> with its meaning as a regular expression, and the loop that reads
  a file and prints the matching lines. Strings are the lists of bytes before the NUL.
\<close>

section \<open>The matcher\<close>

definition caret :: u8 where "caret = 94"
definition dollar :: u8 where "dollar = 36"
definition star :: u8 where "star = 42"
definition period :: u8 where "period = 46"

function matchhere :: "u8 list \<Rightarrow> u8 list \<Rightarrow> bool" and matchstar :: "u8 \<Rightarrow> u8 list \<Rightarrow> u8 list \<Rightarrow> bool" where
  "matchhere re t =
     (case re of
        [] \<Rightarrow> True
      | c # re1 \<Rightarrow>
          if re1 \<noteq> [] \<and> hd re1 = star then matchstar c (tl re1) t
          else if c = dollar \<and> re1 = [] then t = []
          else (case t of [] \<Rightarrow> False | x # t1 \<Rightarrow> (c = period \<or> c = x) \<and> matchhere re1 t1))"
| "matchstar c re t =
     (if matchhere re t then True
      else case t of [] \<Rightarrow> False | x # t1 \<Rightarrow> (x = c \<or> c = period) \<and> matchstar c re t1)"
  by pat_completeness auto
termination
  by (relation "measures [case_sum (\<lambda>(re, t). length re) (\<lambda>(c, re, t). Suc (length re)),
        case_sum (\<lambda>(re, t). length t) (\<lambda>(c, re, t). length t)]")
    (auto simp: neq_Nil_conv)

declare matchhere.simps [simp del] matchstar.simps [simp del]

text \<open>The loop of \<^verbatim>\<open>match\<close> that tries every position of the text, the end included.\<close>

primrec match_any :: "u8 list \<Rightarrow> u8 list \<Rightarrow> bool" where
  "match_any re [] = matchhere re []"
| "match_any re (x # t) = (if matchhere re (x # t) then True else match_any re t)"

definition match :: "u8 list \<Rightarrow> u8 list \<Rightarrow> bool" where
  "match re t = (if re \<noteq> [] \<and> hd re = caret then matchhere (tl re) t else match_any re t)"

section \<open>Regular expressions\<close>

datatype atom = Any | Lit u8
datatype item = One atom | Many atom

definition to_atom :: "u8 \<Rightarrow> atom" where
  "to_atom c = (if c = period then Any else Lit c)"

primrec fits :: "atom \<Rightarrow> u8 \<Rightarrow> bool" where
  "fits Any x = True"
| "fits (Lit c) x = (x = c)"

text \<open>The items of a pattern, and whether it ends with an anchor.\<close>

fun items :: "u8 list \<Rightarrow> item list" where
  "items [] = []"
| "items [c] = (if c = dollar then [] else [One (to_atom c)])"
| "items (c # d # re) = (if d = star then Many (to_atom c) # items re else One (to_atom c) # items (d # re))"

fun at_end :: "u8 list \<Rightarrow> bool" where
  "at_end [] = False"
| "at_end [c] = (c = dollar)"
| "at_end (c # d # re) = (if d = star then at_end re else at_end (d # re))"

primrec lang :: "item list \<Rightarrow> u8 list set" where
  "lang [] = {[]}"
| "lang (i # is) =
     (case i of
        One a \<Rightarrow> {x # w | x w. fits a x \<and> w \<in> lang is}
      | Many a \<Rightarrow> {u @ w | u w. (\<forall>x \<in> set u. fits a x) \<and> w \<in> lang is})"

text \<open>What a pattern leaves out on an anchored side is empty.\<close>

definition anchored :: "bool \<Rightarrow> u8 list \<Rightarrow> bool" where
  "anchored e v = (if e then v = [] else True)"

definition prefix_in :: "item list \<Rightarrow> bool \<Rightarrow> u8 list \<Rightarrow> bool" where
  "prefix_in is e t \<longleftrightarrow> (\<exists>u v. t = u @ v \<and> u \<in> lang is \<and> anchored e v)"

lemma fits_atom: "fits (to_atom c) x \<longleftrightarrow> c = period \<or> x = c"
  by (simp add: to_atom_def)

lemma lang_ManyI: "\<forall>x \<in> set u. fits a x \<Longrightarrow> w \<in> lang is \<Longrightarrow> u @ w \<in> lang (Many a # is)"
  by auto

lemma prefix_One_Cons: "prefix_in (One a # is) e (x # t) \<longleftrightarrow> fits a x \<and> prefix_in is e t"
proof
  assume "fits a x \<and> prefix_in is e t"
  then obtain w v where "fits a x" "t = w @ v" "w \<in> lang is" "anchored e v" unfolding prefix_in_def by blast
  then have "x # t = (x # w) @ v \<and> x # w \<in> lang (One a # is) \<and> anchored e v" by simp
  then show "prefix_in (One a # is) e (x # t)" unfolding prefix_in_def by blast
next
  assume "prefix_in (One a # is) e (x # t)"
  then obtain u v where u: "x # t = u @ v" "u \<in> lang (One a # is)" "anchored e v" unfolding prefix_in_def by blast
  from u(2) obtain y w where "u = y # w" "fits a y" "w \<in> lang is" by auto
  then have "fits a x" "t = w @ v \<and> w \<in> lang is \<and> anchored e v" using u(1,3) by simp_all
  then show "fits a x \<and> prefix_in is e t" unfolding prefix_in_def by blast
qed

lemma prefix_One: "prefix_in (One a # is) e t \<longleftrightarrow>
    (case t of [] \<Rightarrow> False | x # t1 \<Rightarrow> fits a x \<and> prefix_in is e t1)"
  by (cases t) (simp_all add: prefix_One_Cons, simp add: prefix_in_def)

lemma prefix_Many: "prefix_in (Many a # is) e t \<longleftrightarrow>
    prefix_in is e t \<or> (case t of [] \<Rightarrow> False | x # t1 \<Rightarrow> fits a x \<and> prefix_in (Many a # is) e t1)"
proof (intro iffI; (elim disjE)?)
  assume "prefix_in (Many a # is) e t"
  then obtain u w v where t: "t = (u @ w) @ v" "\<forall>x \<in> set u. fits a x" "w \<in> lang is" "anchored e v"
    by (auto simp: prefix_in_def)
  show "prefix_in is e t \<or> (case t of [] \<Rightarrow> False | x # t1 \<Rightarrow> fits a x \<and> prefix_in (Many a # is) e t1)"
  proof (cases u)
    case Nil
    then show ?thesis using t by (auto simp: prefix_in_def)
  next
    case (Cons x u1)
    have "prefix_in (Many a # is) e (u1 @ w @ v)"
      unfolding prefix_in_def using t Cons by (intro exI [of _ "u1 @ w"] exI [of _ v]) auto
    then show ?thesis using t Cons by simp
  qed
next
  assume "prefix_in is e t"
  then obtain u v where "t = u @ v" "u \<in> lang is" "anchored e v" by (auto simp: prefix_in_def)
  moreover have "u \<in> lang (Many a # is)" using lang_ManyI [of "[]" a u "is"] \<open>u \<in> lang is\<close> by simp
  ultimately show "prefix_in (Many a # is) e t" unfolding prefix_in_def by blast
next
  assume "case t of [] \<Rightarrow> False | x # t1 \<Rightarrow> fits a x \<and> prefix_in (Many a # is) e t1"
  then obtain x u w v where t: "t = x # (u @ w) @ v" "fits a x" "\<forall>x \<in> set u. fits a x" "w \<in> lang is" "anchored e v"
    by (auto simp: prefix_in_def split: list.splits)
  then have "x # u @ w \<in> lang (Many a # is)"
    using lang_ManyI [of "x # u" a w "is"] by simp
  then show "prefix_in (Many a # is) e t"
    unfolding prefix_in_def using t by (intro exI [of _ "x # u @ w"] exI [of _ v]) auto
qed

section \<open>Correctness\<close>

lemma star_prefix:
  assumes "\<And>t. matchhere re t = prefix_in (items re) (at_end re) t"
  shows "matchstar c re t = prefix_in (Many (to_atom c) # items re) (at_end re) t"
proof (induction t)
  case Nil
  then show ?case by (subst matchstar.simps, subst prefix_Many) (simp add: assms)
next
  case (Cons x t)
  then show ?case by (subst matchstar.simps, subst prefix_Many) (auto simp: assms fits_atom)
qed

lemma here_prefix: "matchhere re t = prefix_in (items re) (at_end re) t"
proof (induction re arbitrary: t rule: items.induct)
  case 1
  then show ?case by (subst matchhere.simps) (simp add: prefix_in_def anchored_def)
next
  case (2 c)
  have "prefix_in [] False t" "prefix_in [] True t \<longleftrightarrow> t = []" for t by (simp_all add: prefix_in_def anchored_def)
  then show ?case
    by (subst matchhere.simps) (auto simp: prefix_One matchhere.simps [of "[]"] fits_atom split: list.splits)
next
  case (3 c d re)
  show ?case
  proof (cases "d = star")
    case True
    then show ?thesis by (subst matchhere.simps) (simp add: star_prefix [OF 3(1)])
  next
    case False
    then show ?thesis
      by (subst matchhere.simps) (auto simp: 3(2) prefix_One fits_atom split: list.splits)
  qed
qed

lemma any_prefix: "match_any re t \<longleftrightarrow> (\<exists>a b. t = a @ b \<and> matchhere re b)"
proof (induction t)
  case (Cons x t)
  have "(\<exists>a b. x # t = a @ b \<and> matchhere re b) \<longleftrightarrow> matchhere re (x # t) \<or> (\<exists>a b. t = a @ b \<and> matchhere re b)"
    by (metis append_Cons append_Nil list.sel(3) neq_Nil_conv)
  with Cons show ?case by simp
qed simp

definition starts :: "u8 list \<Rightarrow> bool" where
  "starts re \<longleftrightarrow> re \<noteq> [] \<and> hd re = caret"

text \<open>
  \<^bold>\<open>C21.\<close> \<^verbatim>\<open>match\<close> is the search for a regular expression: it holds if some part of the text is in
  the language of the pattern's items, a part at the beginning if the pattern starts with
  \<^verbatim>\<open>^\<close> and one at the end if it ends with \<^verbatim>\<open>$\<close>.
\<close>

theorem match_correct:
  "match re t \<longleftrightarrow>
     (\<exists>a u b. t = a @ u @ b \<and> u \<in> lang (items (if starts re then tl re else re))
        \<and> anchored (starts re) a \<and> anchored (at_end (if starts re then tl re else re)) b)"
proof (cases "starts re")
  case True
  then show ?thesis by (simp add: match_def starts_def here_prefix prefix_in_def anchored_def)
next
  case False
  then have "match re t = match_any re t" by (auto simp: match_def starts_def)
  with False show ?thesis by (simp add: any_prefix here_prefix prefix_in_def anchored_def) blast
qed

section \<open>The program\<close>

text \<open>
  The search of \<^verbatim>\<open>strchr\<close> for a newline inside the array \<^verbatim>\<open>buf\<close>, from the position that the list starts at. The
  array need not hold a NUL: \<open>None\<close> stands for a search that leaves it.
\<close>

primrec scan_nl :: "u8 list \<Rightarrow> nat option option" where
  "scan_nl [] = None"
| "scan_nl (x # xs) =
     (if x = 0 then Some None else if x = 10 then Some (Some 0) else map_option (map_option Suc) (scan_nl xs))"

lemma scan_nl_bound: "scan_nl xs = Some (Some k) \<Longrightarrow> k < length xs"
  by (induction xs arbitrary: k) (auto split: if_splits)

text \<open>
  The inner loop: the lines printed, and the array and the position behind the last line unless
  the search has left the array.
\<close>

function grep_lines :: "u8 list \<Rightarrow> u8 list \<Rightarrow> nat \<Rightarrow> u8 list \<times> (u8 list \<times> nat) option" where
  "grep_lines pat buf p =
     (case scan_nl (drop p buf) of
        None \<Rightarrow> ([], None)
      | Some None \<Rightarrow> ([], Some (buf, p))
      | Some (Some k) \<Rightarrow>
          let l = take k (drop p buf); found = match pat l;
              buf1 = (if found then buf else buf[p + k := 0])
          in apfst ((@) (if found then l @ [10] else [])) (grep_lines pat buf1 (p + k + 1)))"
  by pat_completeness auto
termination
  by (relation "measure (\<lambda>(pat, buf, p). length buf - p)") (auto dest: scan_nl_bound)

declare grep_lines.simps [simp del]

text \<open>
  The outer loop over the data that \<^verbatim>\<open>read\<close> finds, a piece at a time and the empty list for the end
  of the file; it takes no more of a piece than there is room in \<^verbatim>\<open>buf\<close>. The result is what is
  printed, with the array as it is left, or with the way in which the program leaves it: the search
  runs past its end, or data is read to a place in front of it. The routine \<^verbatim>\<open>memmove\<close> copies
  nothing if the count is negative.
\<close>

datatype grep_stop = Scans_past | Reads_before int

definition BUF :: nat where "BUF = 1024"

function grep_loop :: "u8 list \<Rightarrow> u8 list list \<Rightarrow> u8 list \<Rightarrow> int \<Rightarrow> u8 list \<times> (grep_stop + u8 list)" where
  "grep_loop pat [] buf m = ([], Inr buf)"
| "grep_loop pat (d # ds) buf m =
     (let room = nat (int BUF - m) in
      if d = [] \<or> room = 0 then ([], Inr buf)
      else if m < 0 then ([], Inl (Reads_before m))
      else let x = take room d; ds1 = (if length d \<le> room then ds else drop room d # ds);
               buf1 = take (nat m) buf @ x @ drop (nat m + length x) buf; m1 = m + int (length x) in
        case grep_lines pat buf1 0 of
          (out, None) \<Rightarrow> (out, Inl Scans_past)
        | (out, Some (buf2, p)) \<Rightarrow>
            let m2 = (if p = 0 then 0 else m1); m3 = (if m2 > 0 then m2 - int p else m2);
                buf3 = (if m2 > 0 then take (nat m3) (drop p buf2) @ drop (nat m3) buf2 else buf2)
            in apfst ((@) out) (grep_loop pat ds1 buf3 m3))"
  by pat_completeness auto
termination
  by (relation "measure (\<lambda>(pat, ds, buf, m). length ds + sum_list (map length ds))") auto

declare grep_loop.simps(2) [simp del]

definition grep :: "u8 list \<Rightarrow> u8 list list \<Rightarrow> u8 list \<Rightarrow> u8 list \<times> (grep_stop + u8 list)" where
  "grep pat ds buf = grep_loop pat ds buf 0"

abbreviation empty_buf :: "u8 list" where
  "empty_buf \<equiv> replicate BUF 0"

lemma scan_line: "0 \<notin> set l \<Longrightarrow> 10 \<notin> set l \<Longrightarrow> scan_nl (l @ 10 # xs) = Some (Some (length l))"
  by (induction l) auto

lemma scan_rest: "0 \<notin> set t \<Longrightarrow> 10 \<notin> set t \<Longrightarrow> scan_nl (t @ 0 # xs) = Some None" "0 \<notin> set t \<Longrightarrow> 10 \<notin> set t \<Longrightarrow> scan_nl t = None"
  by (induction t) auto

abbreviation lines :: "u8 list list \<Rightarrow> u8 list" where
  "lines ls \<equiv> concat (map (\<lambda>l. l @ [10]) ls)"

definition no_end :: "u8 list \<Rightarrow> bool" where
  "no_end l \<longleftrightarrow> 0 \<notin> set l \<and> 10 \<notin> set l"

text \<open>The array after the lines have been searched: the newline of a line that does not match is gone.\<close>

definition searched :: "u8 list \<Rightarrow> u8 list list \<Rightarrow> u8 list" where
  "searched pat ls = concat (map (\<lambda>l. l @ [if match pat l then 10 else 0]) ls)"

lemma searched_length [simp]: "length (searched pat ls) = length (lines ls)"
  by (induction ls) (simp_all add: searched_def)

lemma grep_lines_run:
  assumes "\<forall>l \<in> set ls. no_end l"
  shows "grep_lines pat (pre @ lines ls @ z) (length pre)
    = apfst ((@) (lines (filter (match pat) ls))) (grep_lines pat (pre @ searched pat ls @ z) (length pre + length (lines ls)))"
  using assms
proof (induction ls arbitrary: pre)
  case Nil
  show ?case by (simp add: searched_def prod.expand)
next
  case (Cons l ls)
  let ?x = "if match pat l then 10 else 0 :: u8"
  have ih: "grep_lines pat ((pre @ l @ [?x]) @ lines ls @ z) (length (pre @ l @ [?x]))
    = apfst ((@) (lines (filter (match pat) ls)))
        (grep_lines pat ((pre @ l @ [?x]) @ searched pat ls @ z) (length (pre @ l @ [?x]) + length (lines ls)))"
    using Cons.IH [of "pre @ l @ [?x]"] Cons.prems by auto
  have "scan_nl (l @ 10 # lines ls @ z) = Some (Some (length l))" using Cons.prems by (simp add: scan_line no_end_def)
  with ih show ?case
    by (subst grep_lines.simps) (auto simp: Let_def list_update_append searched_def apfst_def map_prod_def add.assoc split: prod.splits)
qed

text \<open>A search from a place where no line is complete.\<close>

lemma grep_lines_end:
  assumes "no_end t"
  shows "grep_lines pat (pre @ t @ 0 # z) (length pre) = ([], Some (pre @ t @ 0 # z, length pre))"
    and "grep_lines pat (pre @ t) (length pre) = ([], None)"
  using scan_rest assms by (subst grep_lines.simps, simp add: no_end_def)+

text \<open>
  \<^verbatim>\<open>grep\<close> on a first read. If the text, complete lines and perhaps the beginning of another one, is
  shorter than \<^verbatim>\<open>buf\<close>, the lines that match are printed, in order, and nothing else happens. If the
  text fills \<^verbatim>\<open>buf\<close>, the lines in it that match are printed and then the search for a newline
  runs past the end of the array.
\<close>

lemma grep_first_read:
  assumes "\<forall>l \<in> set (t # ls). no_end l" and "take BUF d = lines ls @ t" and "d \<noteq> []"
  shows "if length d < BUF then \<exists>buf. grep pat [d] empty_buf = (lines (filter (match pat) ls), Inr buf)
    else grep pat (d # ds) empty_buf = (lines (filter (match pat) ls), Inl Scans_past)"
proof -
  have t: "no_end t" and ls: "\<forall>l \<in> set ls. no_end l" using assms(1) by simp_all
  have B: "BUF \<noteq> 0" by (simp add: BUF_def)
  show ?thesis
  proof (cases "length d < BUF")
    case True
    then obtain j where j: "BUF - length d = Suc j" by (metis Suc_diff_Suc)
    have d: "d = lines ls @ t" using assms(2) True by simp
    have "grep_lines pat (lines ls @ t @ 0 # replicate j 0) 0 = (lines (filter (match pat) ls),
        Some (searched pat ls @ t @ 0 # replicate j 0, length (lines ls)))"
      using grep_lines_run [OF ls, of pat "[]" "t @ 0 # replicate j 0"] grep_lines_end(1) [OF t, of pat "searched pat ls"] by simp
    moreover have "d @ drop (length d) empty_buf = lines ls @ t @ 0 # replicate j 0" using d j by simp
    ultimately show ?thesis using True assms(3) B by (simp add: grep_def grep_loop.simps(2) Let_def)
  next
    case False
    have "grep_lines pat (lines ls @ t) 0 = (lines (filter (match pat) ls), None)"
      using grep_lines_run [OF ls, of pat "[]" t] grep_lines_end(2) [OF t, of pat "searched pat ls"] by simp
    moreover have "length (lines ls @ t) = BUF" using False by (simp flip: assms(2))
    ultimately show ?thesis using False assms(2,3) B by (simp add: grep_def grep_loop.simps(2) Let_def)
  qed
qed

lemma grep_first_read_witness:
  "\<exists>buf. grep [98] [[97, 10, 98, 98, 10, 99]] empty_buf = ([98, 98, 10], Inr buf)"
proof -
  have m: "match [98] [98, 98]" "\<not> match [98] [97]" by code_simp+
  show ?thesis
    using grep_first_read [of "[99]" "[[97], [98, 98]]" "[97, 10, 98, 98, 10, 99]" "[98]" "[]"] m by (simp add: no_end_def BUF_def)
qed

text \<open>
  \<^verbatim>\<open>grep\<close> searches bytes that are no longer there. If a line that matches is followed by a
  read of a shorter line, the end of the first line is still in \<^verbatim>\<open>buf\<close>: it is searched as a line of
  its own and printed if it matches, and the count of valid bytes becomes negative, so that the next
  data is read to a place in front of \<^verbatim>\<open>buf\<close>.
\<close>

lemma grep_searches_stale:
  assumes "no_end l" and "no_end k" and "length k < length l" and "length l < BUF - 1" and "match pat l" and "d \<noteq> []"
    and "stale = drop (length k + 1) l"
  shows "grep pat [l @ [10], k @ [10], d] empty_buf
    = (lines (filter (match pat) [l, k, stale]), Inl (Reads_before (int (length k) - int (length l))))"
proof -
  obtain j where j: "BUF - (length l + 1) = Suc j" using assms(4) by (metis Suc_diff_Suc Suc_eq_plus1 less_diff_conv)
  have st: "no_end stale" "no_end []" using assms(1,7) by (auto simp: no_end_def dest: in_set_dropD)
  have len: "length k + 1 + length stale = length l" using assms(3,7) by simp
  have one: "grep_lines pat (l @ 10 # replicate (Suc j) 0) 0 = (l @ [10], Some (l @ 10 # replicate (Suc j) 0, length l + 1))"
    using grep_lines_run [of "[l]" pat "[]" "replicate (Suc j) 0"] grep_lines_end(1) [OF st(2), of pat "l @ [10]" "replicate j 0"] assms(1,5)
    by (simp add: searched_def)
  have two: "grep_lines pat (k @ 10 # stale @ 10 # replicate (Suc j) 0) 0 = (lines (filter (match pat) [k, stale]),
      Some (searched pat [k, stale] @ replicate (Suc j) 0, length l + 1))"
    using grep_lines_run [of "[k, stale]" pat "[]" "replicate (Suc j) 0"]
      grep_lines_end(1) [OF st(2), of pat "searched pat [k, stale]" "replicate j 0"] assms(2) st(1) len by simp
  have b1: "l @ 10 # drop (Suc (length l)) empty_buf = l @ 10 # replicate (Suc j) 0" using j by simp
  have b2: "k @ 10 # drop (Suc (length k)) (l @ 10 # replicate (Suc j) 0) = k @ 10 # stale @ 10 # replicate (Suc j) 0"
    using assms(3,7) by simp
  have B: "BUF \<noteq> 0" "Suc (length l) \<le> BUF" "Suc (length k) \<le> BUF" using assms(3,4) by simp_all
  have s1: "grep_loop pat ((l @ [10]) # ds) empty_buf 0 = apfst ((@) (l @ [10])) (grep_loop pat ds (l @ 10 # replicate (Suc j) 0) 0)" for ds
    using one b1 B(1,2) by (subst grep_loop.simps(2)) (simp add: Let_def)
  define out where "out = lines (filter (match pat) [k, stale])"
  have "grep_lines pat (k @ 10 # drop (Suc (length k)) (l @ 10 # replicate (Suc j) 0)) 0
      = (out, Some (searched pat [k, stale] @ replicate (Suc j) 0, length l + 1))" unfolding b2 out_def by (rule two)
  then have s2: "\<exists>buf. grep_loop pat [k @ [10], d] (l @ 10 # replicate (Suc j) 0) 0
      = apfst ((@) out) (grep_loop pat [d] buf (int (length k) - int (length l)))"
    using B(1,3) by (subst grep_loop.simps(2)) (auto simp: Let_def)
  have s3: "grep_loop pat [d] buf (int (length k) - int (length l)) = ([], Inl (Reads_before (int (length k) - int (length l))))" for buf
    using assms(3,6) by (subst grep_loop.simps(2)) (simp add: Let_def)
  show ?thesis using s1 [of "[k @ [10], d]"] s2 s3 assms(5) by (auto simp: grep_def out_def)
qed

lemma grep_searches_stale_witness:
  "grep [98] [[98, 97, 98, 10], [97, 10], [99]] empty_buf = ([98, 97, 98, 10, 98, 10], Inl (Reads_before (-2)))"
proof -
  have m: "match [98] [98, 97, 98]" "\<not> match [98] [97]" "match [98] [98]" by code_simp+
  show ?thesis
    using grep_searches_stale [of "[98, 97, 98]" "[97]" "[98]" "[99]" "[98]"] m by (simp add: no_end_def BUF_def)
qed

end
