(* ===== verification/Pipe.thy ===== *)
theory Pipe
  imports Ring Sched
begin

text \<open>
  Reading, writing and closing pipes (\<^verbatim>\<open>pipe.c\<close>). \<^verbatim>\<open>pipewrite\<close> and \<^verbatim>\<open>piperead\<close> may go to
  sleep in the middle: the model runs such a call up to the point where it sleeps, reports the
  value of its local variable \<^verbatim>\<open>i\<close>, and is resumed from there. Each such run holds
  \<^verbatim>\<open>p->lock\<close> throughout. The allocation of pipes is in \<^verbatim>\<open>File\<close>, with the file table.
\<close>

section \<open>Model\<close>

definition PIPESIZE :: nat where "PIPESIZE = 512"

record pipe =
  readopen :: bool
  writeopen :: bool
  writep :: u32
  readp :: u32
  pdata :: "u8 list"

text \<open>A run ends by returning a C \<^verbatim>\<open>int\<close>, or asleep in iteration \<open>i\<close>.\<close>

datatype pipe_out = Returns u32 | Sleeps nat

definition pipe_put :: "u8 \<Rightarrow> pipe \<Rightarrow> pipe" where
  "pipe_put b pi = pi\<lparr>pdata := (pdata pi)[unat (writep pi) mod PIPESIZE := b], writep := writep pi + 1\<rparr>"

definition pipe_get :: "pipe \<Rightarrow> u8 \<times> pipe" where
  "pipe_get pi = (pdata pi ! (unat (readp pi) mod PIPESIZE), pi\<lparr>readp := readp pi + 1\<rparr>)"

text \<open>
  \<^verbatim>\<open>pipewrite\<close> from iteration \<open>i\<close>, with \<open>k\<close> iterations to go, for the pipe at \<open>pa\<close> and the
  caller's buffer \<open>buf\<close> in memory \<open>m\<close>.
\<close>

primrec pipewrite_loop ::
    "nat \<Rightarrow> nat \<Rightarrow> addr \<Rightarrow> bool \<Rightarrow> mem \<Rightarrow> addr \<Rightarrow> pipe \<Rightarrow> 'a ptable_scheme \<Rightarrow> pipe_out \<times> pipe \<times> 'a ptable_scheme" where
  "pipewrite_loop 0 i pa killed m buf pi s = (Returns (of_nat i), pi, wakeup (ChanPipeRead pa) s)"
| "pipewrite_loop (Suc k) i pa killed m buf pi s =
     (if writep pi = readp pi + of_nat PIPESIZE then
        (if \<not> readopen pi \<or> killed then (Returns (-1), pi, s)
         else (Sleeps i, pi, wakeup (ChanPipeRead pa) s))
      else pipewrite_loop k (Suc i) pa killed m buf (pipe_put (m (buf + of_nat i)) pi) s)"

definition pipewrite ::
    "nat \<Rightarrow> addr \<Rightarrow> bool \<Rightarrow> mem \<Rightarrow> addr \<Rightarrow> u32 \<Rightarrow> pipe \<Rightarrow> 'a ptable_scheme \<Rightarrow> pipe_out \<times> pipe \<times> 'a ptable_scheme" where
  "pipewrite i pa killed m buf n pi s = pipewrite_loop (nat (sint n) - i) i pa killed m buf pi s"

primrec piperead_loop :: "nat \<Rightarrow> nat \<Rightarrow> addr \<Rightarrow> pipe \<Rightarrow> mem \<Rightarrow> u32 \<times> pipe \<times> mem" where
  "piperead_loop 0 i buf pi m = (of_nat i, pi, m)"
| "piperead_loop (Suc k) i buf pi m =
     (if readp pi = writep pi then (of_nat i, pi, m)
      else case pipe_get pi of (b, pi1) \<Rightarrow> piperead_loop k (Suc i) buf pi1 (m(buf + of_nat i := b)))"

definition piperead ::
    "addr \<Rightarrow> bool \<Rightarrow> addr \<Rightarrow> u32 \<Rightarrow> pipe \<Rightarrow> mem \<Rightarrow> 'a ptable_scheme \<Rightarrow> pipe_out \<times> pipe \<times> mem \<times> 'a ptable_scheme" where
  "piperead pa killed buf n pi m s =
     (if readp pi = writep pi \<and> writeopen pi then
        (if killed then (Returns (-1), pi, m, s) else (Sleeps 0, pi, m, s))
      else case piperead_loop (nat (sint n)) 0 buf pi m of
        (i, pi1, m1) \<Rightarrow> (Returns i, pi1, m1, wakeup (ChanPipeWrite pa) s))"

text \<open>
  \<^verbatim>\<open>pipeclose\<close> up to the final \<^verbatim>\<open>kfree\<close>; the boolean result says whether the page of the
  pipe is freed.
\<close>

definition pipeclose :: "addr \<Rightarrow> bool \<Rightarrow> pipe \<Rightarrow> 'a ptable_scheme \<Rightarrow> bool \<times> pipe \<times> 'a ptable_scheme" where
  "pipeclose pa writable pi s =
     (let (pi1, s1) =
        (if writable then (pi\<lparr>writeopen := False\<rparr>, wakeup (ChanPipeRead pa) s)
         else (pi\<lparr>readopen := False\<rparr>, wakeup (ChanPipeWrite pa) s))
      in (\<not> readopen pi1 \<and> \<not> writeopen pi1, pi1, s1))"

section \<open>The pipe as a bounded queue\<close>

definition pipe_ok :: "pipe \<Rightarrow> bool" where
  "pipe_ok pi \<longleftrightarrow> length (pdata pi) = PIPESIZE \<and> unat (writep pi - readp pi) \<le> PIPESIZE"

definition pipe_bytes :: "pipe \<Rightarrow> u8 list" where
  "pipe_bytes pi = ring PIPESIZE (pdata pi) (readp pi) (writep pi)"

lemma PIPESIZE_props: "PIPESIZE dvd 4294967296" "PIPESIZE < 4294967296" "0 < PIPESIZE"
  by (simp_all add: PIPESIZE_def)

lemma pipe_full:
  assumes "pipe_ok pi"
  shows "writep pi = readp pi + of_nat PIPESIZE \<longleftrightarrow> length (pipe_bytes pi) = PIPESIZE"
proof -
  have "writep pi = readp pi + of_nat PIPESIZE \<longleftrightarrow> writep pi - readp pi = of_nat PIPESIZE"
    by (auto simp: algebra_simps)
  also have "\<dots> \<longleftrightarrow> unat (writep pi - readp pi) = PIPESIZE"
    by (simp add: word_unat_eq_iff PIPESIZE_def)
  finally show ?thesis by (simp add: pipe_bytes_def)
qed

lemma pipe_empty: "readp pi = writep pi \<longleftrightarrow> pipe_bytes pi = []"
  by (simp add: pipe_bytes_def ring_eq_Nil)

interpretation pq: bounded_queue pipe_ok pipe_bytes PIPESIZE pipe_put pipe_get
proof
  fix q x
  show "pipe_ok q \<Longrightarrow> length (pipe_bytes q) \<le> PIPESIZE" by (simp add: pipe_ok_def pipe_bytes_def)
  assume ok: "pipe_ok q"
  show "pipe_ok (pipe_put x q) \<and> pipe_bytes (pipe_put x q) = pipe_bytes q @ [x]"
    if "length (pipe_bytes q) < PIPESIZE"
  proof -
    have lt: "unat (writep q - readp q) < PIPESIZE" using that by (simp add: pipe_bytes_def)
    then have put: "pipe_bytes (pipe_put x q) = pipe_bytes q @ [x]"
      using ring_put [OF PIPESIZE_props(1,2) _ lt] ok by (simp add: pipe_bytes_def pipe_put_def pipe_ok_def)
    have "unat (writep q + 1 - readp q) = length (pipe_bytes (pipe_put x q))"
      by (simp add: pipe_bytes_def pipe_put_def)
    also have "\<dots> = Suc (unat (writep q - readp q))" unfolding put by (simp add: pipe_bytes_def)
    finally show ?thesis using put lt ok by (simp add: pipe_ok_def pipe_put_def)
  qed
  show "pipe_ok (snd (pipe_get q)) \<and> pipe_bytes q = fst (pipe_get q) # pipe_bytes (snd (pipe_get q))"
    if "pipe_bytes q \<noteq> []"
  proof -
    have ne: "readp q \<noteq> writep q" using that by (simp add: pipe_empty)
    have get: "pipe_bytes q = fst (pipe_get q) # pipe_bytes (snd (pipe_get q))"
      using ring_get [OF ne] by (simp add: pipe_bytes_def pipe_get_def)
    then have "length (pipe_bytes (snd (pipe_get q))) < length (pipe_bytes q)" by simp
    then show ?thesis using get ok by (simp add: pipe_ok_def pipe_bytes_def pipe_get_def)
  qed
qed

section \<open>Runs of pipewrite and piperead\<close>

lemma pipe_put_more [simp]: "readopen (pipe_put b pi) = readopen pi" "writeopen (pipe_put b pi) = writeopen pi"
  by (simp_all add: pipe_put_def)

lemma pipe_get_more [simp]: "readopen (snd (pipe_get pi)) = readopen pi" "writeopen (snd (pipe_get pi)) = writeopen pi"
  by (simp_all add: pipe_get_def)

text \<open>The bytes \<open>i..<j\<close> of a buffer in memory.\<close>

definition buf_bytes :: "mem \<Rightarrow> addr \<Rightarrow> nat \<Rightarrow> nat \<Rightarrow> u8 list" where
  "buf_bytes m buf i j = map (\<lambda>t. m (buf + of_nat t)) [i..<j]"

lemma buf_bytes_Cons: "i < j \<Longrightarrow> buf_bytes m buf i j = m (buf + of_nat i) # buf_bytes m buf (Suc i) j"
  by (simp add: buf_bytes_def upt_conv_Cons)

lemma pipewrite_loop_run:
  assumes "pipe_ok pi" and "pipewrite_loop k i pa killed m buf pi s = (out, pi', s')"
  shows "\<exists>j. i \<le> j \<and> j \<le> i + k \<and> pipe_ok pi' \<and> pipe_bytes pi' = pipe_bytes pi @ buf_bytes m buf i j
    \<and> readp pi' = readp pi \<and> writep pi' = writep pi + of_nat (j - i)
    \<and> (case out of
         Sleeps l \<Rightarrow> l = j \<and> j < i + k \<and> length (pipe_bytes pi') = PIPESIZE \<and> readopen pi \<and> \<not> killed
           \<and> s' = wakeup (ChanPipeRead pa) s
       | Returns v \<Rightarrow>
           (v = of_nat (i + k) \<and> j = i + k \<and> s' = wakeup (ChanPipeRead pa) s
            \<or> v = -1 \<and> length (pipe_bytes pi') = PIPESIZE \<and> (\<not> readopen pi \<or> killed)))"
  using assms
proof (induction k arbitrary: i pi)
  case 0
  then show ?case by (intro exI [of _ i]) (auto simp: buf_bytes_def)
next
  case (Suc k)
  show ?case
  proof (cases "writep pi = readp pi + of_nat PIPESIZE")
    case True
    then show ?thesis
      using Suc.prems pipe_full [OF Suc.prems(1)]
      by (intro exI [of _ i]) (auto simp: buf_bytes_def split: if_splits)
  next
    case False
    let ?p = "pipe_put (m (buf + of_nat i)) pi"
    have "length (pipe_bytes pi) < PIPESIZE"
      using False pipe_full [OF Suc.prems(1)] pq.bound [OF Suc.prems(1)] by simp
    then have p: "pipe_ok ?p" "pipe_bytes ?p = pipe_bytes pi @ [m (buf + of_nat i)]"
      using pq.put_law [OF Suc.prems(1)] by auto
    have "pipewrite_loop k (Suc i) pa killed m buf ?p s = (out, pi', s')"
      using Suc.prems(2) False by simp
    from Suc.IH [OF p(1) this] obtain j where j: "Suc i \<le> j" "j \<le> Suc i + k" "pipe_ok pi'"
      "pipe_bytes pi' = pipe_bytes ?p @ buf_bytes m buf (Suc i) j"
      and rest: "readp pi' = readp ?p" "writep pi' = writep ?p + of_nat (j - Suc i)" "case out of
         Sleeps l \<Rightarrow> l = j \<and> j < Suc i + k \<and> length (pipe_bytes pi') = PIPESIZE \<and> readopen ?p \<and> \<not> killed
           \<and> s' = wakeup (ChanPipeRead pa) s
       | Returns v \<Rightarrow>
           (v = of_nat (Suc i + k) \<and> j = Suc i + k \<and> s' = wakeup (ChanPipeRead pa) s
            \<or> v = -1 \<and> length (pipe_bytes pi') = PIPESIZE \<and> (\<not> readopen ?p \<or> killed))"
      by blast
    have "pipe_bytes pi' = pipe_bytes pi @ buf_bytes m buf i j"
      using j(1,4) p(2) buf_bytes_Cons [of i j m buf] by simp
    moreover have "writep pi' = writep pi + of_nat (j - i)"
    proof -
      have "j - i = Suc (j - Suc i)" using j(1) by simp
      then show ?thesis using rest(2) by (simp add: pipe_put_def del: of_nat_diff)
    qed
    moreover have "readp pi' = readp pi" using rest(1) by (simp add: pipe_put_def)
    ultimately show ?thesis using j rest(3) by (intro exI [of _ j]) (auto split: pipe_out.splits)
  qed
qed

lemma piperead_loop_run:
  assumes "pipe_ok pi" and "piperead_loop k i buf pi m = (v, pi', m')" and "i + k < 4294967296"
  shows "\<exists>j. j = min k (length (pipe_bytes pi)) \<and> v = of_nat (i + j) \<and> pipe_ok pi'
    \<and> pipe_bytes pi' = drop j (pipe_bytes pi)
    \<and> writep pi' = writep pi \<and> readp pi' = readp pi + of_nat j
    \<and> (\<forall>t < j. m' (buf + of_nat (i + t)) = pipe_bytes pi ! t)
    \<and> (\<forall>x. (\<forall>t < j. x \<noteq> buf + of_nat (i + t)) \<longrightarrow> m' x = m x)"
  using assms
proof (induction k arbitrary: i pi m)
  case (Suc k)
  show ?case
  proof (cases "readp pi = writep pi")
    case True
    then show ?thesis using Suc.prems pipe_empty by simp
  next
    case False
    obtain b p1 where g: "pipe_get pi = (b, p1)" by (cases "pipe_get pi")
    have q: "pipe_ok p1" "pipe_bytes pi = b # pipe_bytes p1" "writep p1 = writep pi" "readp p1 = readp pi + 1"
      using pq.get_law [OF Suc.prems(1)] False g pipe_empty by (auto simp: pipe_get_def)
    let ?m = "m(buf + of_nat i := b)"
    have "piperead_loop k (Suc i) buf p1 ?m = (v, pi', m')" using Suc.prems(2) False g by simp
    from Suc.IH [OF q(1) this] obtain j where j: "j = min k (length (pipe_bytes p1))" "v = of_nat (Suc i + j)"
      "pipe_ok pi'" "pipe_bytes pi' = drop j (pipe_bytes p1)" "writep pi' = writep p1" "readp pi' = readp p1 + of_nat j"
      "\<forall>t < j. m' (buf + of_nat (Suc i + t)) = pipe_bytes p1 ! t"
      "\<forall>x. (\<forall>t < j. x \<noteq> buf + of_nat (Suc i + t)) \<longrightarrow> m' x = ?m x"
      using Suc.prems(3) by auto
    have ne: "buf + of_nat i \<noteq> buf + of_nat (Suc i + t)" if "t < j" for t
      using that j(1) Suc.prems(3) of_nat_eq_u32 [of i "Suc i + t"] by simp
    have "m' (buf + of_nat i) = b" using j(8) ne by simp
    then have "\<forall>t < Suc j. m' (buf + of_nat (i + t)) = pipe_bytes pi ! t"
      using j(7) q(2) by (simp add: All_less_Suc2 add_ac)
    moreover have "m' x = m x" if "\<forall>t < Suc j. x \<noteq> buf + of_nat (i + t)" for x
      using j(8) that by (simp add: All_less_Suc2 add_ac)
    ultimately show ?thesis using j(1-6) q by simp
  qed
qed simp

section \<open>Histories\<close>

text \<open>
  A pipe with everything its writers have put into it and everything its readers have taken
  out, under any interleaving of runs of \<^verbatim>\<open>pipewrite\<close> (first or resumed) and \<^verbatim>\<open>piperead\<close>
  with arbitrary buffers, and of closing either end.
\<close>

record pipe_hist =
  the_pipe :: pipe
  sent :: "u8 list"
  received :: "u8 list"

inductive pipe_step :: "pipe_hist \<Rightarrow> pipe_hist \<Rightarrow> bool" where
  pwrite: "pipewrite i pa killed m buf n (the_pipe h) (s :: ptable) = (out, pi', s') \<Longrightarrow>
    pipe_step h (h\<lparr>the_pipe := pi',
      sent := sent h @ buf_bytes m buf i (i + unat (writep pi' - writep (the_pipe h)))\<rparr>)"
| pread: "piperead pa killed buf n (the_pipe h) m (s :: ptable) = (out, pi', m', s') \<Longrightarrow>
    pipe_step h (h\<lparr>the_pipe := pi',
      received := received h @ buf_bytes m' buf 0 (unat (readp pi' - readp (the_pipe h)))\<rparr>)"
| pclose: "pipeclose pa writable (the_pipe h) (s :: ptable) = (freed, pi', s') \<Longrightarrow> pipe_step h (h\<lparr>the_pipe := pi'\<rparr>)"

definition pipe_fresh :: "pipe_hist \<Rightarrow> bool" where
  "pipe_fresh h \<longleftrightarrow> readp (the_pipe h) = 0 \<and> writep (the_pipe h) = 0
     \<and> length (pdata (the_pipe h)) = PIPESIZE \<and> sent h = [] \<and> received h = []"

definition pipe_inv :: "pipe_hist \<Rightarrow> bool" where
  "pipe_inv h \<longleftrightarrow> pipe_ok (the_pipe h) \<and> sent h = received h @ pipe_bytes (the_pipe h)"

lemma sint_bound: "nat (sint (n :: u32)) < 2147483648"
  using unat_lt_2p32 [of n] by (simp add: sint_u32 del: of_nat_unat)

lemma pipe_step_write:
  assumes "pipe_ok pi" and "pipewrite i pa killed m buf n pi s = (out, pi', s')"
  shows "pipe_ok pi' \<and> pipe_bytes pi' = pipe_bytes pi @ buf_bytes m buf i (i + unat (writep pi' - writep pi))"
proof -
  obtain j where j: "i \<le> j" "j \<le> i + (nat (sint n) - i)" "pipe_ok pi'"
    "pipe_bytes pi' = pipe_bytes pi @ buf_bytes m buf i j" "writep pi' = writep pi + of_nat (j - i)"
    using pipewrite_loop_run [OF assms(1) assms(2) [unfolded pipewrite_def]] by blast
  have "j - i < 4294967296" using j(2) sint_bound [of n] by linarith
  then have "unat (writep pi' - writep pi) = j - i" unfolding j(5) by (simp del: of_nat_diff)
  then show ?thesis using j(1,3,4) by simp
qed

lemma piperead_run:
  assumes "pipe_ok pi" and "piperead pa killed buf n pi m s = (out, pi', m', s')"
  shows "if pipe_bytes pi = [] \<and> writeopen pi
     then pi' = pi \<and> m' = m \<and> out = (if killed then Returns (-1) else Sleeps 0)
     else \<exists>j. j = min (nat (sint n)) (length (pipe_bytes pi)) \<and> out = Returns (of_nat j) \<and> pipe_ok pi'
       \<and> pipe_bytes pi' = drop j (pipe_bytes pi) \<and> buf_bytes m' buf 0 j = take j (pipe_bytes pi)
       \<and> unat (readp pi' - readp pi) = j \<and> s' = wakeup (ChanPipeWrite pa) s"
proof (cases "pipe_bytes pi = [] \<and> writeopen pi")
  case True
  then show ?thesis using assms(2) by (auto simp: piperead_def pipe_empty)
next
  case False
  obtain v p1 m1 where l: "piperead_loop (nat (sint n)) 0 buf pi m = (v, p1, m1)"
    by (cases "piperead_loop (nat (sint n)) 0 buf pi m")
  then have eq: "out = Returns v" "pi' = p1" "m' = m1" "s' = wakeup (ChanPipeWrite pa) s"
    using False assms(2) by (auto simp: piperead_def pipe_empty)
  have "0 + nat (sint n) < 4294967296" using sint_bound [of n] by linarith
  from piperead_loop_run [OF assms(1) l this] obtain j where j: "j = min (nat (sint n)) (length (pipe_bytes pi))"
    "v = of_nat j" "pipe_ok p1" "pipe_bytes p1 = drop j (pipe_bytes pi)" "readp p1 = readp pi + of_nat j"
    "\<forall>t < j. m1 (buf + of_nat t) = pipe_bytes pi ! t" by auto
  have "j < 4294967296" using j(1) sint_bound [of n] by linarith
  moreover have "buf_bytes m1 buf 0 j = take j (pipe_bytes pi)"
    using j(1,6) by (intro nth_equalityI) (auto simp: buf_bytes_def)
  ultimately show ?thesis using False eq j by simp
qed

lemma pipe_inv_step:
  assumes "pipe_step h h'" and "pipe_inv h" shows "pipe_inv h'"
  using assms(1)
proof cases
  case (pwrite i pa killed m buf n s out pi' s')
  then show ?thesis using pipe_step_write [OF _ pwrite(2)] assms(2) by (auto simp: pipe_inv_def)
next
  case (pread pa killed buf n m s out pi' m' s')
  have ok: "pipe_ok (the_pipe h)" using assms(2) by (simp add: pipe_inv_def)
  show ?thesis
    using piperead_run [OF ok pread(2)] assms(2) pread(1)
    by (auto simp: pipe_inv_def buf_bytes_def split: if_splits)
next
  case (pclose pa writable s freed pi' s')
  then have "pipe_ok pi' = pipe_ok (the_pipe h)" "pipe_bytes pi' = pipe_bytes (the_pipe h)"
    by (auto simp: pipeclose_def pipe_ok_def pipe_bytes_def split: if_splits)
  then show ?thesis using pclose(1) assms(2) by (simp add: pipe_inv_def)
qed

interpretation pipe_sys: inductive_invariant pipe_fresh pipe_step pipe_inv
  by unfold_locales (simp add: pipe_fresh_def pipe_inv_def pipe_ok_def pipe_bytes_def, rule pipe_inv_step)

section \<open>Properties\<close>

text \<open>
  \<^bold>\<open>C7.\<close> A pipe is a bounded FIFO. However reads, writes and closes are interleaved, the bytes
  the readers have received followed by the at most 512 bytes in the buffer are exactly the
  bytes the writers have put in, in order; this holds across wrap-around of the 32-bit indices.
\<close>

theorem pipe_fifo:
  assumes "pipe_fresh h0" and "pipe_step\<^sup>*\<^sup>* h0 h"
  shows "sent h = received h @ pipe_bytes (the_pipe h) \<and> length (pipe_bytes (the_pipe h)) \<le> PIPESIZE"
  using pipe_sys.reachable_inv [OF assms] pq.bound by (auto simp: pipe_inv_def)

definition new_pipe :: pipe where
  "new_pipe = \<lparr>readopen = True, writeopen = True, writep = 0, readp = 0, pdata = replicate PIPESIZE 0\<rparr>"

definition no_procs :: ptable where
  "no_procs = \<lparr>procs = [], nextpid = 1, initproc = None\<rparr>"

definition mem_abc :: mem where
  "mem_abc = (\<lambda>_. 0)(100 := 97, 101 := 98, 102 := 99)"

theorem pipe_fifo_witness:
  "\<exists>h :: pipe_hist. sent h = [97, 98, 99] \<and> sent h = received h @ pipe_bytes (the_pipe h)"
proof -
  let ?start = "\<lparr>the_pipe = new_pipe, sent = [], received = []\<rparr>"
  let ?w = "pipewrite 0 0 False mem_abc 100 3 new_pipe no_procs"
  obtain out pi' s' where w: "?w = (out, pi', s')" by (cases ?w)
  let ?h = "?start\<lparr>the_pipe := pi', sent := [] @ buf_bytes mem_abc 100 0 (0 + unat (writep pi' - writep new_pipe))\<rparr>"
  have "pipe_step ?start ?h" using pipe_step.pwrite [of 0 0 False mem_abc 100 3 ?start no_procs out pi' s'] w by simp
  moreover have "pipe_fresh ?start" by (simp add: pipe_fresh_def new_pipe_def)
  ultimately have "sent ?h = received ?h @ pipe_bytes (the_pipe ?h)"
    using pipe_fifo [of ?start ?h] by blast
  moreover have "buf_bytes mem_abc 100 0 (unat (writep (fst (snd ?w)) - writep new_pipe)) = [97, 98, 99]"
    by code_simp
  ultimately show ?thesis using w by (intro exI [of _ ?h]) simp
qed

text \<open>
  One run of \<^verbatim>\<open>pipewrite\<close> from iteration \<open>i\<close> appends consecutive bytes of the
  caller's buffer. It returns \<open>n\<close> after the last of them; it stops earlier only when the pipe is
  full, and then it returns -1 if the reading end is closed or the process has been killed and
  goes to sleep, after waking the readers, otherwise.
\<close>

lemma pipewrite_run:
  assumes "pipe_ok pi" and "i \<le> nat (sint n)" and "pipewrite i pa killed m buf n pi s = (out, pi', s')"
  shows "\<exists>j. i \<le> j \<and> j \<le> nat (sint n) \<and> pipe_ok pi' \<and> pipe_bytes pi' = pipe_bytes pi @ buf_bytes m buf i j
    \<and> (case out of
         Sleeps l \<Rightarrow> l = j \<and> j < nat (sint n) \<and> length (pipe_bytes pi') = PIPESIZE \<and> readopen pi \<and> \<not> killed
           \<and> s' = wakeup (ChanPipeRead pa) s
       | Returns v \<Rightarrow>
           (v = of_nat (nat (sint n)) \<and> j = nat (sint n) \<and> s' = wakeup (ChanPipeRead pa) s
            \<or> v = -1 \<and> length (pipe_bytes pi') = PIPESIZE \<and> (\<not> readopen pi \<or> killed)))"
proof -
  have n: "i + (nat (sint n) - i) = nat (sint n)" using assms(2) by simp
  show ?thesis
    using pipewrite_loop_run [OF assms(1) assms(3) [unfolded pipewrite_def], unfolded n] by blast
qed

lemma pipewrite_run_witness:
  "pipe_bytes (fst (snd (pipewrite 0 0 False mem_abc 100 3 new_pipe no_procs))) = [97, 98, 99]"
proof -
  let ?w = "pipewrite 0 0 False mem_abc 100 3 new_pipe no_procs"
  obtain out pi' s' where w: "?w = (out, pi', s')" by (cases ?w)
  have "pipe_ok new_pipe" by (simp add: pipe_ok_def new_pipe_def)
  then obtain j where j: "j \<le> nat (sint (3 :: u32))" "pipe_bytes pi' = pipe_bytes new_pipe @ buf_bytes mem_abc 100 0 j"
    and o: "case out of
         Sleeps l \<Rightarrow> l = j \<and> j < nat (sint (3 :: u32)) \<and> length (pipe_bytes pi') = PIPESIZE \<and> readopen new_pipe \<and> \<not> False
           \<and> s' = wakeup (ChanPipeRead 0) no_procs
       | Returns v \<Rightarrow>
           (v = of_nat (nat (sint (3 :: u32))) \<and> j = nat (sint (3 :: u32)) \<and> s' = wakeup (ChanPipeRead 0) no_procs
            \<or> v = -1 \<and> length (pipe_bytes pi') = PIPESIZE \<and> (\<not> readopen new_pipe \<or> False))"
    using pipewrite_run [OF _ _ w] by blast
  from o have c: "j = nat (sint (3 :: u32)) \<or> length (pipe_bytes pi') = PIPESIZE" by (cases out) auto
  have three: "nat (sint (3 :: u32)) = 3" by (simp add: sint_u32)
  have "length (pipe_bytes pi') \<noteq> PIPESIZE"
    using j three by (simp add: pipe_bytes_def new_pipe_def buf_bytes_def PIPESIZE_def)
  then have "j = 3" using c three by simp
  moreover have "buf_bytes mem_abc 100 0 3 = [97, 98, 99]" by code_simp
  ultimately show ?thesis using j(2) w by (simp add: pipe_bytes_def new_pipe_def)
qed

end
