(* ===== verification/Kalloc.thy ===== *)
theory Kalloc
  imports Strings
begin

text \<open>
  The physical page allocator of \<^verbatim>\<open>kalloc.c\<close>. The free list is the linked list of
  \<^verbatim>\<open>struct run\<close> headers that the code keeps inside the free pages themselves, so the model
  works on the bytes of physical memory: a header at \<open>r\<close> is the word \<^verbatim>\<open>next\<close> at \<open>r\<close> and
  the word \<^verbatim>\<open>len\<close> at \<open>r + 4\<close>. Each call runs under \<^verbatim>\<open>kalloc_lock\<close> and is one
  atomic step.
\<close>

section \<open>Model\<close>

definition PAGE :: u32 where "PAGE = 4096"

record kmem =
  pmem :: mem
  freelist :: addr

definition run_next :: "mem \<Rightarrow> addr \<Rightarrow> addr" where
  "run_next m r = read32 m r"

definition run_len :: "mem \<Rightarrow> addr \<Rightarrow> u32" where
  "run_len m r = read32 m (r + 4)"

definition set_next :: "addr \<Rightarrow> addr \<Rightarrow> kmem \<Rightarrow> kmem" where
  "set_next r q k = k\<lparr>pmem := write32 r q (pmem k)\<rparr>"

definition set_len :: "addr \<Rightarrow> u32 \<Rightarrow> kmem \<Rightarrow> kmem" where
  "set_len r n k = k\<lparr>pmem := write32 (r + 4) n (pmem k)\<rparr>"

text \<open>The pointer to a pointer \<^verbatim>\<open>rp\<close>: either \<^verbatim>\<open>&freelist\<close> or \<^verbatim>\<open>&r->next\<close>.\<close>

datatype loc = Freelist | NextOf addr

primrec get_loc :: "kmem \<Rightarrow> loc \<Rightarrow> addr" where
  "get_loc k Freelist = freelist k"
| "get_loc k (NextOf r) = run_next (pmem k) r"

primrec set_loc :: "loc \<Rightarrow> addr \<Rightarrow> kmem \<Rightarrow> kmem" where
  "set_loc Freelist q k = k\<lparr>freelist := q\<rparr>"
| "set_loc (NextOf r) q k = set_next r q k"

text \<open>The \<^verbatim>\<open>for\<close> loop of \<^verbatim>\<open>kfree\<close> with the insertion that follows it.\<close>

partial_function (option) kfree_loop :: "kmem \<Rightarrow> addr \<Rightarrow> u32 \<Rightarrow> loc \<Rightarrow> kmem res option" where
  "kfree_loop k p len rp =
     (let r = get_loc k rp; pend = p + len in
      if r \<noteq> 0 \<and> r \<le> pend then
        (let rend = r + run_len (pmem k) r in
         if r \<le> p \<and> p < rend then Some (Inl (Panic ''freeing free page''))
         else if pend = r then
           Some (Inr (set_loc rp p
             (set_next p (run_next (pmem k) r) (set_len p (len + run_len (pmem k) r) k))))
         else if rend = p then
           (let k1 = set_len r (run_len (pmem k) r + len) k; nx = run_next (pmem k1) r in
            if nx \<noteq> 0 \<and> nx = pend then
              (let k2 = set_len r (run_len (pmem k1) r + run_len (pmem k1) nx) k1
               in Some (Inr (set_next r (run_next (pmem k2) nx) k2)))
            else Some (Inr k1))
         else kfree_loop k p len (NextOf r))
      else Some (Inr (set_loc rp p (set_next p r (set_len p len k)))))"

definition kfree :: "kmem \<Rightarrow> addr \<Rightarrow> u32 \<Rightarrow> kmem res" where
  "kfree k v len =
     (if sint len \<le> 0 \<or> unat len mod 4096 \<noteq> 0 then Inl (Panic ''kfree'')
      else case kfree_loop (k\<lparr>pmem := memset v 1 len (pmem k)\<rparr>) v len Freelist of
        None \<Rightarrow> Inl Diverges | Some r \<Rightarrow> r)"

partial_function (option) kalloc_loop :: "kmem \<Rightarrow> u32 \<Rightarrow> loc \<Rightarrow> (addr \<times> kmem) option" where
  "kalloc_loop k n rp =
     (let r = get_loc k rp in
      if r \<noteq> 0 then
        (if run_len (pmem k) r = n then Some (r, set_loc rp (run_next (pmem k) r) k)
         else if sint (run_len (pmem k) r) > sint n then
           (let k1 = set_len r (run_len (pmem k) r - n) k
            in Some (r + run_len (pmem k1) r, k1))
         else kalloc_loop k n (NextOf r))
      else Some (0, k))"

text \<open>The message \<^verbatim>\<open>kalloc: out of memory\<close> on the console is left out.\<close>

definition kalloc :: "kmem \<Rightarrow> u32 \<Rightarrow> (addr \<times> kmem) res" where
  "kalloc k n =
     (if unat n mod 4096 \<noteq> 0 \<or> sint n \<le> 0 then Inl (Panic ''kalloc'')
      else case kalloc_loop k n Freelist of None \<Rightarrow> Inl Diverges | Some r \<Rightarrow> Inr r)"

text \<open>
  \<^verbatim>\<open>kinit\<close> rounds the end of the kernel image (the linker symbol \<^verbatim>\<open>end\<close>, a parameter) up
  to a page and frees 256 pages from there.
\<close>

definition kinit :: "mem \<Rightarrow> addr \<Rightarrow> kmem res" where
  "kinit m end_addr =
     kfree \<lparr>pmem = m, freelist = 0\<rparr> ((end_addr + PAGE) AND NOT (PAGE - 1)) (256 * PAGE)"

end
