(* ===== verification/File.thy ===== *)
theory File
  imports Fs_Dir Pipe Kalloc
begin

text \<open>
  Open files (\<^verbatim>\<open>file.c\<close>) and the creation of pipes (\<^verbatim>\<open>pipe.c\<close>). The kernel state is
  extended by the file table, by physical memory with its free list, and by the pipes, which
  live in pages of that memory and are kept here by the address of their page. A
  \<^verbatim>\<open>struct file *\<close> is an index into the table.
\<close>

section \<open>State\<close>

definition NFILE :: nat where "NFILE = 100"

datatype ftype = FD_CLOSED | FD_NONE | FD_PIPE | FD_INODE

text \<open>
  The count \<^verbatim>\<open>ref\<close>, an \<^verbatim>\<open>int\<close>, is a natural number. It equals the number of descriptors for the file
  (theory \<open>Fds\<close>), of which there are at most \<^verbatim>\<open>NPROC * NOFILE\<close>, so it does not wrap.
\<close>

record kfile =
  f_type :: ftype
  f_ref :: nat
  f_readable :: bool
  f_writable :: bool
  f_pipe :: addr
  f_ip :: nat
  f_off :: u32

record kern = fs +
  ftable :: "kfile list"
  pipes :: "addr \<Rightarrow> pipe"
  km :: kmem

definition file_at :: "nat \<Rightarrow> 'a kern_scheme \<Rightarrow> kfile" where
  "file_at i s = ftable s ! i"

definition upd_file :: "nat \<Rightarrow> (kfile \<Rightarrow> kfile) \<Rightarrow> 'a kern_scheme \<Rightarrow> 'a kern_scheme" where
  "upd_file i f s = s\<lparr>ftable := (ftable s)[i := f (ftable s ! i)]\<rparr>"

definition set_mem :: "mem \<Rightarrow> 'a kern_scheme \<Rightarrow> 'a kern_scheme" where
  "set_mem m s = s\<lparr>km := (km s)\<lparr>pmem := m\<rparr>\<rparr>"

abbreviation memory :: "'a kern_scheme \<Rightarrow> mem" where
  "memory s \<equiv> pmem (km s)"

text \<open>Blocks of bytes that the kernel copies between files and memory.\<close>

definition load_bytes :: "mem \<Rightarrow> addr \<Rightarrow> nat \<Rightarrow> u8 list" where
  "load_bytes m a n = map (\<lambda>i. m (a + of_nat i)) [0..<n]"

definition store_bytes :: "addr \<Rightarrow> u8 list \<Rightarrow> mem \<Rightarrow> mem" where
  "store_bytes a bs m = (\<lambda>x. if unat (x - a) < length bs then bs ! unat (x - a) else m x)"

text \<open>\<^verbatim>\<open>kalloc\<close> and \<^verbatim>\<open>kfree\<close> on the kernel's memory.\<close>

definition k_alloc :: "u32 \<Rightarrow> 'a kern_scheme \<Rightarrow> (addr \<times> 'a kern_scheme) res" where
  "k_alloc n s = rbind (kalloc (km s) n) (\<lambda>(p, k). Inr (p, s\<lparr>km := k\<rparr>))"

definition k_free :: "addr \<Rightarrow> u32 \<Rightarrow> 'a kern_scheme \<Rightarrow> 'a kern_scheme res" where
  "k_free p n s = rbind (kfree (km s) p n) (\<lambda>k. Inr (s\<lparr>km := k\<rparr>))"

section \<open>The file table\<close>

definition filealloc :: "'a kern_scheme \<Rightarrow> nat option \<times> 'a kern_scheme" where
  "filealloc s =
     (case first_idx (\<lambda>f. f_type f = FD_CLOSED) (ftable s) of
        None \<Rightarrow> (None, s)
      | Some i \<Rightarrow> (Some i, upd_file i (\<lambda>f. f\<lparr>f_type := FD_NONE, f_ref := 1\<rparr>) s))"

definition filedup :: "nat \<Rightarrow> 'a kern_scheme \<Rightarrow> 'a kern_scheme res" where
  "filedup i s =
     (if f_ref (file_at i s) < 1 \<or> f_type (file_at i s) = FD_CLOSED then Inl (Panic ''filedup'')
      else Inr (upd_file i (\<lambda>f. f\<lparr>f_ref := f_ref f + 1\<rparr>) s))"

text \<open>\<^verbatim>\<open>pipeclose\<close> with the release of the pipe's page.\<close>

definition k_pipeclose :: "addr \<Rightarrow> bool \<Rightarrow> 'a kern_scheme \<Rightarrow> 'a kern_scheme res" where
  "k_pipeclose p writable s =
     (case pipeclose p writable (pipes s p) s of
        (dead, pi, s1) \<Rightarrow> let s2 = s1\<lparr>pipes := (pipes s1)(p := pi)\<rparr> in if dead then k_free p PAGE s2 else Inr s2)"

definition fileclose :: "nat \<Rightarrow> 'a kern_scheme \<Rightarrow> 'a kern_scheme res" where
  "fileclose i s =
     (if f_ref (file_at i s) < 1 \<or> f_type (file_at i s) = FD_CLOSED then Inl (Panic ''fileclose'')
      else let s1 = upd_file i (\<lambda>f. f\<lparr>f_ref := f_ref f - 1\<rparr>) s in
        if f_ref (file_at i s1) > 0 then Inr s1
        else let ff = file_at i s1; s2 = upd_file i (\<lambda>f. f\<lparr>f_ref := 0, f_type := FD_CLOSED\<rparr>) s1 in
          if f_type ff = FD_PIPE then k_pipeclose (f_pipe ff) (f_writable ff) s2
          else if f_type ff = FD_INODE then iput (f_ip ff) s2
          else Inl (Panic ''fileclose''))"

definition filestat :: "nat \<Rightarrow> 'a kern_scheme \<Rightarrow> (stat option \<times> 'a kern_scheme) res" where
  "filestat i s =
     (if f_type (file_at i s) = FD_INODE then
        let ip = f_ip (file_at i s) in
        rbind (ilock (Some ip) s) (\<lambda>s1.
        rbind (iunlock (Some ip) s1) (\<lambda>s2. Inr (Some (stati ip s1), s2)))
      else Inr (None, s))"

text \<open>
  \<^verbatim>\<open>fileread\<close> and \<^verbatim>\<open>filewrite\<close> for the process \<open>cp\<close>. A transfer through a pipe may end with the
  process asleep in iteration \<open>k\<close>; \<^verbatim>\<open>filewrite\<close> starts at iteration \<open>k\<close> of the loop of
  \<^verbatim>\<open>pipewrite\<close>, 0 for a new call.
\<close>

definition fileread ::
    "(u16 \<Rightarrow> 'a kern_scheme devsw) \<Rightarrow> nat \<Rightarrow> nat \<Rightarrow> addr \<Rightarrow> u32 \<Rightarrow> 'a kern_scheme \<Rightarrow> (pipe_out \<times> 'a kern_scheme) res" where
  "fileread dsw cp i a n s =
     (let f = file_at i s in
      if \<not> f_readable f then Inr (Returns (-1), s)
      else if f_type f = FD_PIPE then
        (case piperead (f_pipe f) (p_killed (proc_at cp s)) a n (pipes s (f_pipe f)) (memory s) s of
           (out, pi, m, s1) \<Rightarrow> Inr (out, set_mem m (s1\<lparr>pipes := (pipes s1)(f_pipe f := pi)\<rparr>)))
      else if f_type f = FD_INODE then
        rbind (ilock (Some (f_ip f)) s) (\<lambda>s1.
        rbind (readi dsw (f_ip f) (f_off f) n s1) (\<lambda>(r, bs, s2).
        let s3 = set_mem (store_bytes a bs (memory s2)) s2;
            s4 = (if sint r > 0 then upd_file i (\<lambda>f. f\<lparr>f_off := f_off f + r\<rparr>) s3 else s3)
        in rbind (iunlock (Some (f_ip f)) s4) (\<lambda>s5. Inr (Returns r, s5))))
      else Inl (Panic ''fileread''))"

definition filewrite ::
    "(u16 \<Rightarrow> 'a kern_scheme devsw) \<Rightarrow> nat \<Rightarrow> nat \<Rightarrow> nat \<Rightarrow> addr \<Rightarrow> u32 \<Rightarrow> 'a kern_scheme \<Rightarrow> (pipe_out \<times> 'a kern_scheme) res" where
  "filewrite dsw cp k i a n s =
     (let f = file_at i s in
      if \<not> f_writable f then Inr (Returns (-1), s)
      else if f_type f = FD_PIPE then
        (case pipewrite k (f_pipe f) (p_killed (proc_at cp s)) (memory s) a n (pipes s (f_pipe f)) s of
           (out, pi, s1) \<Rightarrow> Inr (out, s1\<lparr>pipes := (pipes s1)(f_pipe f := pi)\<rparr>))
      else if f_type f = FD_INODE then
        rbind (ilock (Some (f_ip f)) s) (\<lambda>s1.
        rbind (writei dsw (f_ip f) (load_bytes (memory s1) a (unat n)) (f_off f) s1) (\<lambda>(r, s2).
        let s3 = (if sint r > 0 then upd_file i (\<lambda>f. f\<lparr>f_off := f_off f + r\<rparr>) s2 else s2)
        in rbind (iunlock (Some (f_ip f)) s3) (\<lambda>s4. Inr (Returns r, s4))))
      else Inl (Panic ''filewrite''))"

section \<open>pipealloc\<close>

text \<open>The code behind the label \<^verbatim>\<open>bad\<close>.\<close>

definition pipealloc_bad :: "nat option \<Rightarrow> nat option \<Rightarrow> 'a kern_scheme \<Rightarrow> 'a kern_scheme res" where
  "pipealloc_bad f0 f1 s =
     rbind (case f0 of None \<Rightarrow> Inr s | Some i \<Rightarrow> fileclose i (upd_file i (\<lambda>f. f\<lparr>f_type := FD_NONE\<rparr>) s)) (\<lambda>s1.
     case f1 of None \<Rightarrow> Inr s1 | Some i \<Rightarrow> fileclose i (upd_file i (\<lambda>f. f\<lparr>f_type := FD_NONE\<rparr>) s1))"

text \<open>The two files on success. The page's old contents stay as the pipe's \<^verbatim>\<open>data\<close>.\<close>

definition pipealloc :: "'a kern_scheme \<Rightarrow> ((nat \<times> nat) option \<times> 'a kern_scheme) res" where
  "pipealloc s =
     (case filealloc s of
        (None, s1) \<Rightarrow> rbind (pipealloc_bad None None s1) (\<lambda>s2. Inr (None, s2))
      | (Some f0, s1) \<Rightarrow>
        (case filealloc s1 of
           (None, s2) \<Rightarrow> rbind (pipealloc_bad (Some f0) None s2) (\<lambda>s3. Inr (None, s3))
         | (Some f1, s2) \<Rightarrow>
             rbind (k_alloc PAGE s2) (\<lambda>(p, s3).
             if p = 0 then rbind (pipealloc_bad (Some f0) (Some f1) s3) (\<lambda>s4. Inr (None, s4))
             else
               let s4 = s3\<lparr>pipes := (pipes s3)(p := \<lparr>readopen = True, writeopen = True, writep = 0, readp = 0,
                          pdata = load_bytes (memory s3) (p + 68) PIPESIZE\<rparr>)\<rparr>;
                   s5 = upd_file f0 (\<lambda>f. f\<lparr>f_type := FD_PIPE, f_readable := True, f_writable := False, f_pipe := p\<rparr>) s4;
                   s6 = upd_file f1 (\<lambda>f. f\<lparr>f_type := FD_PIPE, f_readable := False, f_writable := True, f_pipe := p\<rparr>) s5
               in Inr (Some (f0, f1), s6))))"

end
