(* ===== verification/Segments.thy ===== *)
theory Segments
  imports Kalloc Sched
begin

text \<open>
  Segment descriptors (\<^verbatim>\<open>mmu.h\<close>) and \<^verbatim>\<open>setupsegs\<close> (\<^verbatim>\<open>proc.c\<close>), which confines a process to
  its memory: the bit fields of a descriptor, the macros that build one, and the table a CPU
  uses for a process. How the processor reads a descriptor is the hardware's part.
\<close>

section \<open>Descriptors\<close>

record segdesc =
  lim_15_0 :: "16 word"
  base_15_0 :: "16 word"
  base_23_16 :: "8 word"
  sd_type :: "4 word"
  sd_s :: "1 word"
  sd_dpl :: "2 word"
  sd_p :: "1 word"
  lim_19_16 :: "4 word"
  sd_avl :: "1 word"
  sd_rsv1 :: "1 word"
  sd_db :: "1 word"
  sd_g :: "1 word"
  base_31_24 :: "8 word"

definition SEG_NULL :: segdesc where
  "SEG_NULL = \<lparr>lim_15_0 = 0, base_15_0 = 0, base_23_16 = 0, sd_type = 0, sd_s = 0, sd_dpl = 0, sd_p = 0,
     lim_19_16 = 0, sd_avl = 0, sd_rsv1 = 0, sd_db = 0, sd_g = 0, base_31_24 = 0\<rparr>"

definition SEG :: "4 word \<Rightarrow> u32 \<Rightarrow> u32 \<Rightarrow> 2 word \<Rightarrow> segdesc" where
  "SEG type base lim dpl =
     \<lparr>lim_15_0 = ucast (drop_bit 12 lim AND 0xffff), base_15_0 = ucast (base AND 0xffff),
      base_23_16 = ucast (drop_bit 16 base AND 0xff), sd_type = type, sd_s = 1, sd_dpl = dpl, sd_p = 1,
      lim_19_16 = ucast (drop_bit 28 lim), sd_avl = 0, sd_rsv1 = 0, sd_db = 1, sd_g = 1,
      base_31_24 = ucast (drop_bit 24 base)\<rparr>"

definition SEG16 :: "4 word \<Rightarrow> u32 \<Rightarrow> u32 \<Rightarrow> 2 word \<Rightarrow> segdesc" where
  "SEG16 type base lim dpl =
     \<lparr>lim_15_0 = ucast (lim AND 0xffff), base_15_0 = ucast (base AND 0xffff),
      base_23_16 = ucast (drop_bit 16 base AND 0xff), sd_type = type, sd_s = 1, sd_dpl = dpl, sd_p = 1,
      lim_19_16 = ucast (drop_bit 16 lim), sd_avl = 0, sd_rsv1 = 0, sd_db = 1, sd_g = 0,
      base_31_24 = ucast (drop_bit 24 base)\<rparr>"

definition DPL_USER :: "2 word" where "DPL_USER = 3"
definition STA_X :: "4 word" where "STA_X = 8"
definition STA_W :: "4 word" where "STA_W = 2"
definition STA_R :: "4 word" where "STA_R = 2"
definition STS_T32A :: "4 word" where "STS_T32A = 9"
definition STS_IG32 :: "4 word" where "STS_IG32 = 14"
definition STS_TG32 :: "4 word" where "STS_TG32 = 15"

definition SEG_KCODE :: nat where "SEG_KCODE = 1"
definition SEG_KDATA :: nat where "SEG_KDATA = 2"
definition SEG_UCODE :: nat where "SEG_UCODE = 3"
definition SEG_UDATA :: nat where "SEG_UDATA = 4"
definition SEG_TSS :: nat where "SEG_TSS = 5"
definition NSEGS :: nat where "NSEGS = 6"
definition KSTACKSIZE :: u32 where "KSTACKSIZE = PAGE"

section \<open>Gates\<close>

record gatedesc =
  off_15_0 :: "16 word"
  gd_cs :: "16 word"
  gd_args :: "5 word"
  gd_rsv1 :: "3 word"
  gd_type :: "4 word"
  gd_s :: "1 word"
  gd_dpl :: "2 word"
  gd_p :: "1 word"
  off_31_16 :: "16 word"

definition SETGATE :: "bool \<Rightarrow> 16 word \<Rightarrow> u32 \<Rightarrow> 2 word \<Rightarrow> gatedesc" where
  "SETGATE istrap sel off d =
     \<lparr>off_15_0 = ucast (off AND 0xffff), gd_cs = sel, gd_args = 0, gd_rsv1 = 0,
      gd_type = (if istrap then STS_TG32 else STS_IG32), gd_s = 0, gd_dpl = d, gd_p = 1,
      off_31_16 = ucast (drop_bit 16 off)\<rparr>"

definition T_SYSCALL :: nat where "T_SYSCALL = 48"

text \<open>Hardware interrupts: number \<^verbatim>\<open>irq\<close> arrives as trap \<^verbatim>\<open>IRQ_OFFSET\<close> + \<^verbatim>\<open>irq\<close>.\<close>

definition IRQ_OFFSET :: u32 where "IRQ_OFFSET = 32"
definition IRQ_TIMER :: u32 where "IRQ_TIMER = 0"
definition IRQ_KBD :: u32 where "IRQ_KBD = 1"
definition IRQ_IDE :: u32 where "IRQ_IDE = 14"
definition IRQ_ERROR :: u32 where "IRQ_ERROR = 19"
definition IRQ_SPURIOUS :: u32 where "IRQ_SPURIOUS = 31"

text \<open>\<^verbatim>\<open>tvinit\<close> for the handler addresses \<open>vectors\<close>, which the build generates.\<close>

definition tvinit :: "(nat \<Rightarrow> u32) \<Rightarrow> gatedesc list" where
  "tvinit vectors =
     (map (\<lambda>i. SETGATE False (of_nat (SEG_KCODE * 8)) (vectors i) 0) [0..<256])
       [T_SYSCALL := SETGATE True (of_nat (SEG_KCODE * 8)) (vectors T_SYSCALL) DPL_USER]"

section \<open>setupsegs\<close>

text \<open>The part of \<^verbatim>\<open>struct cpu\<close> that \<^verbatim>\<open>setupsegs\<close> fills in.\<close>

record cpu_segs =
  ts_ss0 :: u16
  ts_esp0 :: u32
  gdt :: "segdesc list"

text \<open>\<open>ts\<close> is the address of the CPU's task state, which is 104 bytes long.\<close>

definition setupsegs :: "addr \<Rightarrow> proc option \<Rightarrow> cpu_segs" where
  "setupsegs ts po =
     \<lparr>ts_ss0 = of_nat (SEG_KDATA * 8),
      ts_esp0 = (case po of Some p \<Rightarrow> p_kstack p + KSTACKSIZE | None \<Rightarrow> 0xffffffff),
      gdt =
        [SEG_NULL,
         SEG (STA_X OR STA_R) 0 (0x100000 + 64 * 1024 - 1) 0,
         SEG STA_W 0 0xffffffff 0,
         (case po of Some p \<Rightarrow> SEG (STA_X OR STA_R) (p_mem p) (p_sz p - 1) DPL_USER | None \<Rightarrow> SEG_NULL),
         (case po of Some p \<Rightarrow> SEG STA_W (p_mem p) (p_sz p - 1) DPL_USER | None \<Rightarrow> SEG_NULL),
         (SEG16 STS_T32A ts (104 - 1) 0)\<lparr>sd_s := 0\<rparr>]\<rparr>"

section \<open>How the processor reads a descriptor\<close>

text \<open>
  The base, and the offset of the last byte: with the granularity bit set the limit counts
  units of 4096 bytes.
\<close>

definition seg_base :: "segdesc \<Rightarrow> u32" where
  "seg_base d = ucast (base_15_0 d) OR push_bit 16 (ucast (base_23_16 d)) OR push_bit 24 (ucast (base_31_24 d))"

definition seg_last :: "segdesc \<Rightarrow> u32" where
  "seg_last d =
     (let lim = ucast (lim_15_0 d) OR push_bit 16 (ucast (lim_19_16 d))
      in if sd_g d = 1 then push_bit 12 lim OR 0xfff else lim)"

text \<open>An access through the descriptor: the linear address, if the offset is within the segment.\<close>

definition seg_access :: "segdesc \<Rightarrow> u32 \<Rightarrow> addr option" where
  "seg_access d off = (if sd_p d = 1 \<and> off \<le> seg_last d then Some (seg_base d + off) else None)"

lemma seg_base_SEG: "seg_base (SEG t base lim dpl) = base"
proof (rule bit_word_eqI)
  fix n assume n: "n < LENGTH(32)"
  have m: "(0xffff :: u32) = mask 16" "(0xff :: u32) = mask 8" by (simp_all add: mask_eq_exp_minus_1)
  consider "n < 16" | "16 \<le> n" "n < 24" | "24 \<le> n" "n < 32" using n by fastforce
  then show "bit (seg_base (SEG t base lim dpl)) n \<longleftrightarrow> bit base n"
    by cases (auto simp: seg_base_def SEG_def m bit_simps)
qed

lemma seg_last_SEG: "seg_last (SEG t base lim dpl) = lim OR 0xfff"
proof (rule bit_word_eqI)
  fix n assume n: "n < LENGTH(32)"
  have m: "(0xffff :: u32) = mask 16" "(0xfff :: u32) = mask 12" by (simp_all add: mask_eq_exp_minus_1)
  have g: "sd_g (SEG t base lim dpl) = 1" by (simp add: SEG_def)
  consider "n < 12" | "12 \<le> n" "n < 28" | "28 \<le> n" "n < 32" using n by fastforce
  then show "bit (seg_last (SEG t base lim dpl)) n \<longleftrightarrow> bit (lim OR 0xfff) n"
    unfolding seg_last_def Let_def g by cases (auto simp: SEG_def m bit_simps)
qed

lemma page_limit:
  assumes "unat (sz :: u32) mod 4096 = 0" and "sz \<noteq> 0" shows "(sz - 1) OR 0xfff = sz - 1"
proof -
  have "unat (sz - 1) = unat sz - 1" using assms(2) by (simp add: unat_minus_one)
  moreover obtain q where q: "unat sz = 4096 * q" using assms(1) by auto
  moreover have "unat sz \<noteq> 0" using assms(2) by (simp add: unat_eq_0)
  then have "q \<noteq> 0" using q by auto
  ultimately have "unat (sz - 1) = 4096 * (q - 1) + 4095" by (cases q) simp_all
  then have "unat (sz - 1) mod 4096 = 4095" by simp
  then have "take_bit 12 (unat (sz - 1)) = mask 12" by (simp add: take_bit_eq_mod mask_eq_exp_minus_1)
  then have "bit (take_bit 12 (unat (sz - 1))) n" if "n < 12" for n using that by (simp add: bit_mask_iff)
  then have "bit (sz - 1) n" if "n < 12" for n using that by (simp add: bit_take_bit_iff bit_unsigned_iff)
  moreover have "(0xfff :: u32) = mask 12" by (simp add: mask_eq_exp_minus_1)
  ultimately show ?thesis by (auto simp: bit_eq_iff bit_or_iff bit_mask_iff)
qed

section \<open>Properties\<close>

text \<open>
  \<^bold>\<open>C24.\<close> The segments confine a process to its memory. For a process whose size is a positive
  multiple of the page size, an access through the user code or data segment that
  \<^verbatim>\<open>setupsegs\<close> installs reaches the byte at that offset of the process's memory if the offset
  is below its size, and faults otherwise.
\<close>

theorem user_segments_confine:
  assumes "unat (p_sz p) mod 4096 = 0" and "p_sz p \<noteq> 0" and "i = SEG_UCODE \<or> i = SEG_UDATA"
  shows "seg_access (gdt (setupsegs ts (Some p)) ! i) off = (if off < p_sz p then Some (p_mem p + off) else None)"
proof -
  obtain t where g: "gdt (setupsegs ts (Some p)) ! i = SEG t (p_mem p) (p_sz p - 1) DPL_USER"
    using assms(3) by (auto simp: setupsegs_def SEG_UCODE_def SEG_UDATA_def)
  have "unat (p_sz p) \<noteq> 0" using assms(2) by (simp add: unat_eq_0)
  then have "off \<le> p_sz p - 1 \<longleftrightarrow> off < p_sz p"
    using assms(2) by (auto simp: word_le_nat_alt word_less_nat_alt unat_minus_one)
  moreover have "sd_p (SEG t (p_mem p) (p_sz p - 1) DPL_USER) = 1" by (simp add: SEG_def)
  ultimately show ?thesis
    unfolding g seg_access_def by (simp add: seg_base_SEG seg_last_SEG page_limit [OF assms(1,2)])
qed

definition a_proc :: proc where
  "a_proc = \<lparr>p_mem = 0x200000, p_sz = 8192, p_kstack = 0x300000, p_state = RUNNING, p_pid = 3, p_parent = Some 0,
     p_chan = None, p_killed = False, p_ofile = replicate NOFILE None, p_cwd = Some 0,
     p_context = \<lparr>ctx_eip = 0, ctx_esp = 0, ctx_ebx = 0, ctx_ecx = 0, ctx_edx = 0, ctx_esi = 0, ctx_edi = 0, ctx_ebp = 0\<rparr>,
     p_tf = \<lparr>tf_edi = 0, tf_esi = 0, tf_ebp = 0, tf_oesp = 0, tf_ebx = 0, tf_edx = 0, tf_ecx = 0, tf_eax = 0, tf_es = 0,
       tf_ds = 0, tf_trapno = 0, tf_err = 0, tf_eip = 0, tf_cs = 0, tf_eflags = 0, tf_esp = 4096, tf_ss = 0\<rparr>,
     p_name = replicate 16 0\<rparr>"

theorem user_segments_confine_witness:
  "seg_access (gdt (setupsegs 0 (Some a_proc)) ! SEG_UDATA) 8191 = Some 0x201fff
   \<and> seg_access (gdt (setupsegs 0 (Some a_proc)) ! SEG_UDATA) 8192 = None"
  using user_segments_confine [of a_proc SEG_UDATA 0 8191] user_segments_confine [of a_proc SEG_UDATA 0 8192]
  by (simp add: a_proc_def)

end
