(* ===== verification/Proc.thy ===== *)
theory Proc
  imports File Segments Console
begin

text \<open>
  Processes (\<^verbatim>\<open>proc.c\<close>): memory, fork, exit and wait as a whole, on the complete kernel state.
  A trap frame lives at the top of the kernel stack; here it is a field of the process. The
  address of \<^verbatim>\<open>forkret\<close> and the image of the first process come from the build and are
  parameters, as is the address \<open>ts\<close> of the CPU's task state.
\<close>

section \<open>The kernel state\<close>

record sys = kern +
  segs :: cpu_segs
  ticks :: u32
  cons :: console
  kbd_shift :: u32

section \<open>Memory\<close>

definition growproc :: "addr \<Rightarrow> nat \<Rightarrow> u32 \<Rightarrow> 'a sys_scheme \<Rightarrow> (u32 \<times> 'a sys_scheme) res" where
  "growproc ts cp n s =
     (let p = proc_at cp s in
      rbind (k_alloc (p_sz p + n) s) (\<lambda>(newmem, s1).
      if newmem = 0 then Inr (-1, s1)
      else let s2 = set_mem (memmove newmem (p_mem p) (p_sz p) (memory s1)) s1;
               s3 = set_mem (memset (newmem + p_sz p) 0 n (memory s2)) s2
        in rbind (k_free (p_mem p) (p_sz p) s3) (\<lambda>s4.
           let s5 = upd_proc cp (\<lambda>p. p\<lparr>p_mem := newmem, p_sz := p_sz p + n\<rparr>) s4;
               s6 = s5\<lparr>segs := setupsegs ts (Some (proc_at cp s5))\<rparr>
           in Inr (p_sz (proc_at cp s6) - n, s6))))"

section \<open>Creating processes\<close>

text \<open>\<^verbatim>\<open>sizeof(struct trapframe)\<close>.\<close>

definition TF_SIZE :: u32 where "TF_SIZE = 68"

primrec dup_files :: "nat list \<Rightarrow> nat \<Rightarrow> nat \<Rightarrow> 'a sys_scheme \<Rightarrow> 'a sys_scheme res" where
  "dup_files [] p np s = Inr s"
| "dup_files (i # is) p np s =
     (case p_ofile (proc_at p s) ! i of
        None \<Rightarrow> dup_files is p np s
      | Some f \<Rightarrow> rbind (filedup f s) (\<lambda>s1.
          dup_files is p np (upd_proc np (\<lambda>q. q\<lparr>p_ofile := (p_ofile q)[i := Some f]\<rparr>) s1)))"

text \<open>The end of \<^verbatim>\<open>copyproc\<close>: a context that starts in \<^verbatim>\<open>forkret\<close>, and 0 as the result of fork in the child.\<close>

definition start_context :: "addr \<Rightarrow> nat \<Rightarrow> 'a sys_scheme \<Rightarrow> 'a sys_scheme" where
  "start_context forkret np = upd_proc np (\<lambda>q. q\<lparr>
     p_context := \<lparr>ctx_eip = forkret, ctx_esp = p_kstack q + KSTACKSIZE - TF_SIZE, ctx_ebx = 0, ctx_ecx = 0,
       ctx_edx = 0, ctx_esi = 0, ctx_edi = 0, ctx_ebp = 0\<rparr>,
     p_tf := (p_tf q)\<lparr>tf_eax := 0\<rparr>\<rparr>)"

definition copyproc :: "addr \<Rightarrow> nat option \<Rightarrow> 'a sys_scheme \<Rightarrow> (nat option \<times> 'a sys_scheme) res" where
  "copyproc forkret po s =
     (case allocproc s of
        (None, s1) \<Rightarrow> Inr (None, s1)
      | (Some np, s1) \<Rightarrow>
        rbind (k_alloc KSTACKSIZE s1) (\<lambda>(ks, s2).
        let s3 = upd_proc np (\<lambda>q. q\<lparr>p_kstack := ks\<rparr>) s2 in
        if ks = 0 then Inr (None, set_state np UNUSED s3)
        else case po of
          None \<Rightarrow> Inr (Some np, start_context forkret np s3)
        | Some pi \<Rightarrow>
            let p = proc_at pi s3;
                s4 = upd_proc np (\<lambda>q. q\<lparr>p_parent := Some pi, p_tf := p_tf p, p_sz := p_sz p\<rparr>) s3
            in rbind (k_alloc (p_sz p) s4) (\<lambda>(m, s5).
               let s6 = upd_proc np (\<lambda>q. q\<lparr>p_mem := m\<rparr>) s5 in
               if m = 0 then
                 rbind (k_free ks KSTACKSIZE s6) (\<lambda>s7.
                 Inr (None, upd_proc np (\<lambda>q. q\<lparr>p_kstack := 0, p_state := UNUSED, p_parent := None\<rparr>) s7))
               else
                 rbind (dup_files [0..<NOFILE] pi np (set_mem (memmove m (p_mem p) (p_sz p) (memory s6)) s6)) (\<lambda>s8.
                 let cwd = the (p_cwd (proc_at pi s8));
                     s9 = upd_proc np (\<lambda>q. q\<lparr>p_cwd := Some cwd\<rparr>) (idup cwd s8)
                 in Inr (Some np, start_context forkret np s9)))))"

text \<open>
  \<^verbatim>\<open>userinit\<close>, for the image \<open>initcode\<close>. It uses the result of \<^verbatim>\<open>copyproc\<close> unchecked; there is
  no defined behaviour if that is null.
\<close>

definition user_tf :: "u32 \<Rightarrow> trapframe" where
  "user_tf sz =
     (let ds = of_nat (SEG_UDATA * 8) OR 3 in
      \<lparr>tf_edi = 0, tf_esi = 0, tf_ebp = 0, tf_oesp = 0, tf_ebx = 0, tf_edx = 0, tf_ecx = 0, tf_eax = 0,
       tf_es = ds, tf_ds = ds, tf_trapno = 0, tf_err = 0, tf_eip = 0, tf_cs = of_nat (SEG_UCODE * 8) OR 3,
       tf_eflags = FL_IF, tf_esp = sz - 4, tf_ss = ds\<rparr>)"

definition initcode_name :: "u8 list" where
  "initcode_name = [105, 110, 105, 116, 99, 111, 100, 101]"

text \<open>\<^verbatim>\<open>safestrcpy\<close> into the 16 bytes of \<^verbatim>\<open>name\<close>.\<close>

definition set_name :: "u8 list \<Rightarrow> u8 list \<Rightarrow> u8 list" where
  "set_name str old = (let c = take 15 str in c @ [0] @ drop (length c + 1) old)"

definition userinit :: "addr \<Rightarrow> u8 list \<Rightarrow> 'a sys_scheme \<Rightarrow> 'a sys_scheme res" where
  "userinit forkret initcode s =
     rbind (copyproc forkret None s) (\<lambda>(po, s1).
     case po of None \<Rightarrow> Inl Diverges | Some p \<Rightarrow>
     let s2 = upd_proc p (\<lambda>q. q\<lparr>p_sz := PAGE\<rparr>) s1 in
     rbind (k_alloc PAGE s2) (\<lambda>(m, s3).
     let s4 = upd_proc p (\<lambda>q. q\<lparr>p_mem := m\<rparr>) s3 in
     rbind (namei p [slash] s4) (\<lambda>(ip, s5).
     let s6 = upd_proc p (\<lambda>q. q\<lparr>p_cwd := ip, p_tf := user_tf PAGE\<rparr>) s5;
         s7 = set_mem (write32 (m + (PAGE - 4)) 0xefefefef (memory s6)) s6;
         s8 = set_mem (store_bytes m initcode (memory s7)) s7;
         s9 = upd_proc p (\<lambda>q. q\<lparr>p_name := set_name initcode_name (p_name q), p_state := RUNNABLE\<rparr>) s8
     in Inr (s9\<lparr>initproc := Some p\<rparr>))))"

section \<open>exit and wait\<close>

primrec close_files :: "nat list \<Rightarrow> nat \<Rightarrow> 'a sys_scheme \<Rightarrow> 'a sys_scheme res" where
  "close_files [] cp s = Inr s"
| "close_files (fd # fds) cp s =
     (case p_ofile (proc_at cp s) ! fd of
        None \<Rightarrow> close_files fds cp s
      | Some f \<Rightarrow> rbind (fileclose f s) (\<lambda>s1.
          close_files fds cp (upd_proc cp (\<lambda>p. p\<lparr>p_ofile := (p_ofile p)[fd := None]\<rparr>) s1)))"

text \<open>\<^verbatim>\<open>exit\<close> up to the switch to the scheduler, from which the process never returns.\<close>

definition proc_exit :: "nat \<Rightarrow> 'a sys_scheme \<Rightarrow> 'a sys_scheme res" where
  "proc_exit cp s =
     (if initproc s = Some cp then Inl (Panic ''init exiting'')
      else rbind (close_files [0..<NOFILE] cp s) (\<lambda>s1.
           rbind (iput (the (p_cwd (proc_at cp s1))) s1) (\<lambda>s2.
           Inr (exit_table cp (upd_proc cp (\<lambda>p. p\<lparr>p_cwd := None\<rparr>) s2)))))"

text \<open>One pass of the loop of \<^verbatim>\<open>wait\<close>; it ends by returning, or asleep on the process itself.\<close>

definition proc_wait :: "nat \<Rightarrow> 'a sys_scheme \<Rightarrow> (pipe_out \<times> 'a sys_scheme) res" where
  "proc_wait cp s =
     (case wait_scan cp 0 False (procs s) of
        Zombie i \<Rightarrow>
          rbind (k_free (p_mem (proc_at i s)) (p_sz (proc_at i s)) s) (\<lambda>s1.
          rbind (k_free (p_kstack (proc_at i s1)) KSTACKSIZE s1) (\<lambda>s2.
          Inr (Returns (p_pid (proc_at i s2)), wait_reap i s2)))
      | Kids havekids \<Rightarrow>
          if \<not> havekids \<or> p_killed (proc_at cp s) then Inr (Returns (-1), s) else Inr (Sleeps 0, s))"

section \<open>procdump\<close>

primrec state_name :: "proc_state \<Rightarrow> u8 list" where
  "state_name UNUSED = [117, 110, 117, 115, 101, 100]"
| "state_name EMBRYO = [101, 109, 98, 114, 121, 111]"
| "state_name SLEEPING = [115, 108, 101, 101, 112, 32]"
| "state_name RUNNABLE = [114, 117, 110, 98, 108, 101]"
| "state_name RUNNING = [114, 117, 110, 32, 32, 32]"
| "state_name ZOMBIE = [122, 111, 109, 98, 105, 101]"

primrec dump_pcs :: "u32 list \<Rightarrow> console \<Rightarrow> console res" where
  "dump_pcs [] k = Inr k"
| "dump_pcs (pc # pcl) k = (if pc \<noteq> 0 then rbind (cprintf [32, 37, 112] [ArgWord pc] k) (dump_pcs pcl) else Inr k)"

definition dump_proc :: "mem \<Rightarrow> proc \<Rightarrow> console \<Rightarrow> console res" where
  "dump_proc m p k =
     (if p_state p = UNUSED then Inr k
      else rbind (cprintf [37, 100, 32, 37, 115, 32, 37, 115]
             [ArgWord (p_pid p), ArgStr (state_name (p_state p)), ArgStr (takeWhile (\<lambda>c. c \<noteq> 0) (p_name p))] k) (\<lambda>k1.
           rbind (if p_state p = SLEEPING then dump_pcs (getcallerpcs m (ctx_ebp (p_context p) + 8)) k1 else Inr k1) (\<lambda>k2.
           cprintf [10] [] k2)))"

primrec procdump :: "mem \<Rightarrow> proc list \<Rightarrow> console \<Rightarrow> console res" where
  "procdump m [] k = Inr k"
| "procdump m (p # ps) k = rbind (dump_proc m p k) (procdump m ps)"

end
