(* ===== verification/Syscall.thy ===== *)
theory Syscall
  imports Proc
begin

text \<open>
  System call arguments (\<^verbatim>\<open>syscall.c\<close>) and the system calls on processes (\<^verbatim>\<open>sysproc.c\<close>). The
  arguments are read from the user stack in the caller's memory, and every address is checked
  against the size of that memory. A call ends by returning a word or, for those that wait,
  asleep.
\<close>

section \<open>Arguments\<close>

definition fetchint :: "mem \<Rightarrow> proc \<Rightarrow> u32 \<Rightarrow> u32 option" where
  "fetchint m p a = (if a \<ge> p_sz p \<or> a + 4 > p_sz p then None else Some (read32 m (p_mem p + a)))"

text \<open>The search for the NUL from \<^verbatim>\<open>s\<close> on, over the bytes up to the end of memory.\<close>

primrec fetchstr_loop :: "nat \<Rightarrow> mem \<Rightarrow> addr \<Rightarrow> nat \<Rightarrow> nat option" where
  "fetchstr_loop 0 m s n = None"
| "fetchstr_loop (Suc k) m s n = (if m s = 0 then Some n else fetchstr_loop k m (s + 1) (Suc n))"

text \<open>The kernel address of the string and its length.\<close>

definition fetchstr :: "mem \<Rightarrow> proc \<Rightarrow> u32 \<Rightarrow> (addr \<times> nat) option" where
  "fetchstr m p a =
     (if a \<ge> p_sz p then None
      else let pp = p_mem p + a; ep = p_mem p + p_sz p
        in map_option (Pair pp) (fetchstr_loop (if pp < ep then unat (ep - pp) else 0) m pp 0))"

definition argint :: "nat \<Rightarrow> nat \<Rightarrow> 'a sys_scheme \<Rightarrow> u32 option" where
  "argint cp n s = fetchint (memory s) (proc_at cp s) (tf_esp (p_tf (proc_at cp s)) + 4 + 4 * of_nat n)"

definition argptr :: "nat \<Rightarrow> nat \<Rightarrow> u32 \<Rightarrow> 'a sys_scheme \<Rightarrow> addr option" where
  "argptr cp n sz s =
     (case argint cp n s of None \<Rightarrow> None | Some i \<Rightarrow>
      if i \<ge> p_sz (proc_at cp s) \<or> i + sz \<ge> p_sz (proc_at cp s) then None else Some (p_mem (proc_at cp s) + i))"

definition argstr :: "nat \<Rightarrow> nat \<Rightarrow> 'a sys_scheme \<Rightarrow> u8 list option" where
  "argstr cp n s =
     (case argint cp n s of None \<Rightarrow> None | Some a \<Rightarrow>
      map_option (\<lambda>(pp, len). load_bytes (memory s) pp len) (fetchstr (memory s) (proc_at cp s) a))"

text \<open>
  How a call ends: it returns a word, sleeps (in iteration \<open>k\<close> of its loop), or the process has
  exited.
\<close>

datatype sys_out = SysRet u32 | SysSleep nat | SysExit

definition of_pipe_out :: "pipe_out \<Rightarrow> sys_out" where
  "of_pipe_out r = (case r of Returns v \<Rightarrow> SysRet v | Sleeps k \<Rightarrow> SysSleep k)"

text \<open>The result -1.\<close>

abbreviation fails :: "'a sys_scheme \<Rightarrow> (sys_out \<times> 'a sys_scheme) res" where
  "fails s \<equiv> Inr (SysRet (-1), s)"

section \<open>Processes\<close>

definition sys_fork :: "addr \<Rightarrow> nat \<Rightarrow> 'a sys_scheme \<Rightarrow> (sys_out \<times> 'a sys_scheme) res" where
  "sys_fork forkret cp s =
     rbind (copyproc forkret (Some cp) s) (\<lambda>(np, s1).
     case np of None \<Rightarrow> fails s1 | Some i \<Rightarrow> Inr (SysRet (p_pid (proc_at i s1)), set_state i RUNNABLE s1))"

definition sys_exit :: "nat \<Rightarrow> 'a sys_scheme \<Rightarrow> (sys_out \<times> 'a sys_scheme) res" where
  "sys_exit cp s = rbind (proc_exit cp s) (\<lambda>s1. Inr (SysExit, s1))"

definition sys_wait :: "nat \<Rightarrow> 'a sys_scheme \<Rightarrow> (sys_out \<times> 'a sys_scheme) res" where
  "sys_wait cp s = rbind (proc_wait cp s) (\<lambda>(r, s1). Inr (of_pipe_out r, s1))"

definition sys_kill :: "nat \<Rightarrow> 'a sys_scheme \<Rightarrow> (sys_out \<times> 'a sys_scheme) res" where
  "sys_kill cp s =
     (case argint cp 0 s of None \<Rightarrow> fails s | Some pid \<Rightarrow> case kill pid s of (r, s1) \<Rightarrow> Inr (SysRet r, s1))"

definition sys_getpid :: "nat \<Rightarrow> 'a sys_scheme \<Rightarrow> (sys_out \<times> 'a sys_scheme) res" where
  "sys_getpid cp s = Inr (SysRet (p_pid (proc_at cp s)), s)"

definition sys_sbrk :: "addr \<Rightarrow> nat \<Rightarrow> 'a sys_scheme \<Rightarrow> (sys_out \<times> 'a sys_scheme) res" where
  "sys_sbrk ts cp s =
     (case argint cp 0 s of None \<Rightarrow> fails s | Some n \<Rightarrow>
      rbind (growproc ts cp n s) (\<lambda>(a, s1). if sint a < 0 then fails s1 else Inr (SysRet a, s1)))"

text \<open>
  \<^verbatim>\<open>sys_sleep\<close> from the first test of the loop condition, for the value \<open>ticks0\<close> read when the
  call began. The difference is an \<^verbatim>\<open>int\<close>.
\<close>

definition sys_sleep_loop :: "u32 \<Rightarrow> u32 \<Rightarrow> nat \<Rightarrow> 'a sys_scheme \<Rightarrow> (sys_out \<times> 'a sys_scheme) res" where
  "sys_sleep_loop ticks0 n cp s =
     (if sint (ticks s - ticks0) < sint n then
        (if p_killed (proc_at cp s) then fails s else Inr (SysSleep 0, s))
      else Inr (SysRet 0, s))"

definition sys_sleep :: "nat \<Rightarrow> 'a sys_scheme \<Rightarrow> (sys_out \<times> 'a sys_scheme) res" where
  "sys_sleep cp s =
     (case argint cp 0 s of None \<Rightarrow> fails s | Some n \<Rightarrow> sys_sleep_loop (ticks s) n cp s)"

end
