(* ===== verification/Exec.thy ===== *)
theory Exec
  imports Syscall
begin

text \<open>
  \<^verbatim>\<open>exec\<close> (\<^verbatim>\<open>exec.c\<close>): the size of the new image from the ELF program headers, loading, and the
  initial user stack with the arguments.
\<close>

section \<open>ELF headers\<close>

definition ELF_MAGIC :: u32 where "ELF_MAGIC = 0x464C457F"
definition ELF_PROG_LOAD :: u32 where "ELF_PROG_LOAD = 1"

record elfhdr =
  elf_magic :: u32
  elf_entry :: u32
  elf_phoff :: u32
  elf_phnum :: u16

definition get_elfhdr :: "u8 list \<Rightarrow> elfhdr" where
  "get_elfhdr d = \<lparr>elf_magic = get32 0 d, elf_entry = get32 24 d, elf_phoff = get32 28 d, elf_phnum = get16 44 d\<rparr>"

record proghdr =
  ph_type :: u32
  ph_offset :: u32
  ph_va :: u32
  ph_filesz :: u32
  ph_memsz :: u32

definition get_proghdr :: "u8 list \<Rightarrow> proghdr" where
  "get_proghdr d = \<lparr>ph_type = get32 0 d, ph_offset = get32 4 d, ph_va = get32 8 d, ph_filesz = get32 16 d, ph_memsz = get32 20 d\<rparr>"

section \<open>The two passes over the program headers\<close>

text \<open>The size of the segments, \<open>None\<close> for a jump to \<^verbatim>\<open>bad\<close>.\<close>

primrec exec_size ::
    "nat \<Rightarrow> (u16 \<Rightarrow> 'a sys_scheme devsw) \<Rightarrow> nat \<Rightarrow> u32 \<Rightarrow> u32 \<Rightarrow> 'a sys_scheme \<Rightarrow> (u32 option \<times> 'a sys_scheme) res" where
  "exec_size 0 dsw ip off sz s = Inr (Some sz, s)"
| "exec_size (Suc k) dsw ip off sz s =
     rbind (readi dsw ip off 32 s) (\<lambda>(r, bs, s1).
     if r \<noteq> 32 then Inr (None, s1)
     else let ph = get_proghdr bs in
       if ph_type ph \<noteq> ELF_PROG_LOAD then exec_size k dsw ip (off + 32) sz s1
       else if ph_memsz ph < ph_filesz ph then Inr (None, s1)
       else exec_size k dsw ip (off + 32) (sz + ph_memsz ph) s1)"

primrec exec_load ::
    "nat \<Rightarrow> (u16 \<Rightarrow> 'a sys_scheme devsw) \<Rightarrow> nat \<Rightarrow> u32 \<Rightarrow> u32 \<Rightarrow> addr \<Rightarrow> 'a sys_scheme \<Rightarrow> (bool \<times> 'a sys_scheme) res" where
  "exec_load 0 dsw ip off sz m s = Inr (True, s)"
| "exec_load (Suc k) dsw ip off sz m s =
     rbind (readi dsw ip off 32 s) (\<lambda>(r, bs, s1).
     if r \<noteq> 32 then Inr (False, s1)
     else let ph = get_proghdr bs in
       if ph_type ph \<noteq> ELF_PROG_LOAD then exec_load k dsw ip (off + 32) sz m s1
       else if ph_va ph + ph_memsz ph > sz then Inr (False, s1)
       else rbind (readi dsw ip (ph_offset ph) (ph_filesz ph) s1) (\<lambda>(r2, seg, s2).
         let s3 = set_mem (store_bytes (m + ph_va ph) seg (memory s2)) s2 in
         if r2 \<noteq> ph_filesz ph then Inr (False, s3)
         else exec_load k dsw ip (off + 32) sz m
                (set_mem (memset (m + ph_va ph + ph_filesz ph) 0 (ph_memsz ph - ph_filesz ph) (memory s3)) s3)))"

section \<open>The stack\<close>

definition arglen :: "u8 list list \<Rightarrow> u32" where
  "arglen argv = (of_nat (sum_list (map (\<lambda>a. length a + 1) argv)) + 3) AND NOT 3"

definition image_size :: "u32 \<Rightarrow> u8 list list \<Rightarrow> u32" where
  "image_size segsz argv =
     (let sz1 = segsz + (arglen argv + 4 * (of_nat (length argv) + 1)); sz2 = sz1 + PAGE
      in (sz2 + PAGE - 1) AND NOT (PAGE - 1))"

text \<open>The loop that copies the strings, from the last argument to the first.\<close>

primrec push_args :: "nat \<Rightarrow> u8 list list \<Rightarrow> addr \<Rightarrow> u32 \<Rightarrow> u32 \<Rightarrow> mem \<Rightarrow> u32 \<times> mem" where
  "push_args 0 argv base argp sp m = (sp, m)"
| "push_args (Suc i) argv base argp sp m =
     (let str = argv ! i @ [0]; sp1 = sp - of_nat (length str);
          m1 = store_bytes (base + sp1) str m;
          m2 = write32 (base + argp + 4 * of_nat i) sp1 m1
      in push_args i argv base argp sp1 m2)"

definition init_stack :: "u8 list list \<Rightarrow> addr \<Rightarrow> u32 \<Rightarrow> mem \<Rightarrow> u32 \<times> mem" where
  "init_stack argv base sz m =
     (let argc = length argv; argp = sz - arglen argv - 4 * (of_nat argc + 1);
          m1 = write32 (base + argp + 4 * of_nat argc) 0 m;
          m2 = snd (push_args argc argv base argp sz m1);
          m3 = write32 (base + (argp - 4)) argp m2;
          m4 = write32 (base + (argp - 8)) (of_nat argc) m3;
          m5 = write32 (base + (argp - 12)) 0xffffffff m4
      in (argp - 12, m5))"

text \<open>The part of the path behind the last slash.\<close>

definition last_elem :: "u8 list \<Rightarrow> u8 list" where
  "last_elem path = rev (takeWhile (\<lambda>c. c \<noteq> slash) (rev path))"

section \<open>exec\<close>

text \<open>The code behind the label \<^verbatim>\<open>bad\<close>; \<open>m\<close> is 0 as long as no memory has been allocated.\<close>

definition exec_bad :: "nat \<Rightarrow> addr \<Rightarrow> u32 \<Rightarrow> 'a sys_scheme \<Rightarrow> (u32 \<times> 'a sys_scheme) res" where
  "exec_bad ip m sz s =
     rbind (if m \<noteq> 0 then k_free m sz s else Inr s) (\<lambda>s1.
     rbind (iunlockput ip s1) (\<lambda>s2. Inr (-1, s2)))"

definition exec_commit :: "addr \<Rightarrow> nat \<Rightarrow> addr \<Rightarrow> u32 \<Rightarrow> u32 \<Rightarrow> u32 \<Rightarrow> 'a sys_scheme \<Rightarrow> 'a sys_scheme res" where
  "exec_commit ts cp m sz entry sp s =
     rbind (k_free (p_mem (proc_at cp s)) (p_sz (proc_at cp s)) s) (\<lambda>s1.
     let s2 = upd_proc cp (\<lambda>p. p\<lparr>p_mem := m, p_sz := sz, p_tf := (p_tf p)\<lparr>tf_eip := entry, tf_esp := sp\<rparr>\<rparr>) s1
     in Inr (s2\<lparr>segs := setupsegs ts (Some (proc_at cp s2))\<rparr>))"

text \<open>
  A result of -1 passes the test of the header's size, since the comparison is unsigned; the
  header is then whatever the stack held, the parameter \<open>junk\<close>.
\<close>

definition exec :: "addr \<Rightarrow> u8 list \<Rightarrow> (u16 \<Rightarrow> 'a sys_scheme devsw) \<Rightarrow> nat \<Rightarrow> u8 list \<Rightarrow> u8 list list
     \<Rightarrow> 'a sys_scheme \<Rightarrow> (u32 \<times> 'a sys_scheme) res" where
  "exec ts junk dsw cp path argv s =
     rbind (namei cp path s) (\<lambda>(ipo, s1).
     case ipo of None \<Rightarrow> Inr (-1, s1) | Some ip \<Rightarrow>
     rbind (ilock (Some ip) s1) (\<lambda>s2.
     rbind (readi dsw ip 0 52 s2) (\<lambda>(r, bs, s3).
     if unat r < 52 then exec_bad ip 0 0 s3
     else let elf = get_elfhdr (bs @ drop (length bs) junk) in
       if elf_magic elf \<noteq> ELF_MAGIC then exec_bad ip 0 0 s3
       else rbind (exec_size (unat (elf_phnum elf)) dsw ip (elf_phoff elf) 0 s3) (\<lambda>(szo, s4).
         case szo of None \<Rightarrow> exec_bad ip 0 0 s4 | Some segsz \<Rightarrow>
         let sz = image_size segsz argv in
         rbind (k_alloc sz s4) (\<lambda>(m, s5).
         if m = 0 then exec_bad ip 0 sz s5
         else rbind (exec_load (unat (elf_phnum elf)) dsw ip (elf_phoff elf) sz m
                      (set_mem (memset m 0 sz (memory s5)) s5)) (\<lambda>(good, s6).
           if \<not> good then exec_bad ip m sz s6
           else rbind (iunlockput ip s6) (\<lambda>s7.
             let (sp, m1) = init_stack argv m sz (memory s7);
                 s8 = upd_proc cp (\<lambda>p. p\<lparr>p_name := set_name (last_elem path) (p_name p)\<rparr>) (set_mem m1 s7)
             in rbind (exec_commit ts cp m sz (elf_entry elf) sp s8) (\<lambda>s9. Inr (0, s9)))))))))"

end
