(* ===== verification/Sysfile.thy ===== *)
theory Sysfile
  imports Exec
begin

text \<open>
  The system calls on files (\<^verbatim>\<open>sysfile.c\<close>) for the process \<open>cp\<close>, with the device switch
  \<open>dsw\<close> as a parameter.
\<close>

section \<open>Descriptors\<close>

definition argfd :: "nat \<Rightarrow> nat \<Rightarrow> 'a sys_scheme \<Rightarrow> (nat \<times> nat) option" where
  "argfd cp n s =
     (case argint cp n s of None \<Rightarrow> None | Some fd \<Rightarrow>
      if sint fd < 0 \<or> sint fd \<ge> int NOFILE then None
      else map_option (Pair (nat (sint fd))) (p_ofile (proc_at cp s) ! nat (sint fd)))"

definition set_fd :: "nat \<Rightarrow> nat \<Rightarrow> nat option \<Rightarrow> 'a sys_scheme \<Rightarrow> 'a sys_scheme" where
  "set_fd cp fd fo = upd_proc cp (\<lambda>p. p\<lparr>p_ofile := (p_ofile p)[fd := fo]\<rparr>)"

definition fdalloc :: "nat \<Rightarrow> nat \<Rightarrow> 'a sys_scheme \<Rightarrow> nat option \<times> 'a sys_scheme" where
  "fdalloc cp f s =
     (case first_idx (\<lambda>fd. p_ofile (proc_at cp s) ! fd = None) [0..<NOFILE] of
        None \<Rightarrow> (None, s) | Some fd \<Rightarrow> (Some fd, set_fd cp fd (Some f) s))"

definition sys_read :: "(u16 \<Rightarrow> 'a sys_scheme devsw) \<Rightarrow> nat \<Rightarrow> 'a sys_scheme \<Rightarrow> (sys_out \<times> 'a sys_scheme) res" where
  "sys_read dsw cp s =
     (case argfd cp 0 s of None \<Rightarrow> fails s | Some (_, f) \<Rightarrow>
      case argint cp 2 s of None \<Rightarrow> fails s | Some n \<Rightarrow>
      case argptr cp 1 n s of None \<Rightarrow> fails s | Some p \<Rightarrow>
      rbind (fileread dsw cp f p n s) (\<lambda>(r, s1). Inr (of_pipe_out r, s1)))"

definition sys_write :: "(u16 \<Rightarrow> 'a sys_scheme devsw) \<Rightarrow> nat \<Rightarrow> nat \<Rightarrow> 'a sys_scheme \<Rightarrow> (sys_out \<times> 'a sys_scheme) res" where
  "sys_write dsw cp k s =
     (case argfd cp 0 s of None \<Rightarrow> fails s | Some (_, f) \<Rightarrow>
      case argint cp 2 s of None \<Rightarrow> fails s | Some n \<Rightarrow>
      case argptr cp 1 n s of None \<Rightarrow> fails s | Some p \<Rightarrow>
      rbind (filewrite dsw cp k f p n s) (\<lambda>(r, s1). Inr (of_pipe_out r, s1)))"

definition sys_dup :: "nat \<Rightarrow> 'a sys_scheme \<Rightarrow> (sys_out \<times> 'a sys_scheme) res" where
  "sys_dup cp s =
     (case argfd cp 0 s of None \<Rightarrow> fails s | Some (_, f) \<Rightarrow>
      case fdalloc cp f s of
        (None, s1) \<Rightarrow> fails s1
      | (Some fd, s1) \<Rightarrow> rbind (filedup f s1) (\<lambda>s2. Inr (SysRet (of_nat fd), s2)))"

definition sys_close :: "nat \<Rightarrow> 'a sys_scheme \<Rightarrow> (sys_out \<times> 'a sys_scheme) res" where
  "sys_close cp s =
     (case argfd cp 0 s of None \<Rightarrow> fails s | Some (fd, f) \<Rightarrow>
      rbind (fileclose f (set_fd cp fd None s)) (\<lambda>s1. Inr (SysRet 0, s1)))"

definition stat_bytes :: "stat \<Rightarrow> u8 list" where
  "stat_bytes st = put32 0 (st_dev st) (put32 4 (st_ino st) (put16 8 (st_type st) (put16 10 (st_nlink st)
     (put32 12 (st_size st) (replicate 16 0)))))"

definition sys_fstat :: "nat \<Rightarrow> 'a sys_scheme \<Rightarrow> (sys_out \<times> 'a sys_scheme) res" where
  "sys_fstat cp s =
     (case argfd cp 0 s of None \<Rightarrow> fails s | Some (_, f) \<Rightarrow>
      case argptr cp 1 16 s of None \<Rightarrow> fails s | Some p \<Rightarrow>
      rbind (filestat f s) (\<lambda>(st, s1).
      case st of None \<Rightarrow> fails s1
      | Some st \<Rightarrow> Inr (SysRet 0, set_mem (store_bytes p (stat_bytes st) (memory s1)) s1)))"

section \<open>Links\<close>

definition add_nlink :: "nat \<Rightarrow> u16 \<Rightarrow> 'a sys_scheme \<Rightarrow> 'a sys_scheme" where
  "add_nlink ip d = upd_inode ip (\<lambda>i. i\<lparr>i_nlink := i_nlink i + d\<rparr>)"

text \<open>The code of \<^verbatim>\<open>sys_link\<close> behind the label \<^verbatim>\<open>bad\<close>, for the locked directory \<^verbatim>\<open>dp\<close> if there is one.\<close>

definition link_bad :: "nat option \<Rightarrow> nat \<Rightarrow> 'a sys_scheme \<Rightarrow> (sys_out \<times> 'a sys_scheme) res" where
  "link_bad dpo ip s =
     rbind (case dpo of None \<Rightarrow> Inr s | Some dp \<Rightarrow> iunlockput dp s) (\<lambda>s1.
     rbind (ilock (Some ip) s1) (\<lambda>s2.
     rbind (iupdate ip (add_nlink ip (-1) s2)) (\<lambda>s3.
     rbind (iunlockput ip s3) (\<lambda>s4. fails s4))))"

definition link_new ::
    "(u16 \<Rightarrow> 'a sys_scheme devsw) \<Rightarrow> nat \<Rightarrow> u8 list \<Rightarrow> nat \<Rightarrow> 'a sys_scheme \<Rightarrow> (sys_out \<times> 'a sys_scheme) res" where
  "link_new dsw cp new ip s =
     rbind (nameiparent cp new s) (\<lambda>(dpo, s1).
     case dpo of None \<Rightarrow> link_bad None ip s1 | Some (dp, name) \<Rightarrow>
     rbind (ilock (Some dp) s1) (\<lambda>s2.
     if i_dev (inode_at dp s2) \<noteq> i_dev (inode_at ip s2) then link_bad (Some dp) ip s2
     else rbind (dirlink dsw dp name (i_inum (inode_at ip s2)) s2) (\<lambda>(r, s3).
       if sint r < 0 then link_bad (Some dp) ip s3
       else rbind (iunlockput dp s3) (\<lambda>s4. rbind (iput ip s4) (\<lambda>s5. Inr (SysRet 0, s5))))))"

definition sys_link :: "(u16 \<Rightarrow> 'a sys_scheme devsw) \<Rightarrow> nat \<Rightarrow> 'a sys_scheme \<Rightarrow> (sys_out \<times> 'a sys_scheme) res" where
  "sys_link dsw cp s =
     (case argstr cp 0 s of None \<Rightarrow> fails s | Some old \<Rightarrow>
      case argstr cp 1 s of None \<Rightarrow> fails s | Some new \<Rightarrow>
      rbind (namei cp old s) (\<lambda>(ipo, s1).
      case ipo of None \<Rightarrow> fails s1 | Some ip \<Rightarrow>
      rbind (ilock (Some ip) s1) (\<lambda>s2.
      if i_type (inode_at ip s2) = T_DIR then rbind (iunlockput ip s2) (\<lambda>s3. fails s3)
      else rbind (iupdate ip (add_nlink ip 1 s2)) (\<lambda>s3.
           rbind (iunlock (Some ip) s3) (link_new dsw cp new ip)))))"

primrec isdirempty_loop ::
    "nat \<Rightarrow> u32 \<Rightarrow> (u16 \<Rightarrow> 'a sys_scheme devsw) \<Rightarrow> nat \<Rightarrow> 'a sys_scheme \<Rightarrow> (bool \<times> 'a sys_scheme) res" where
  "isdirempty_loop 0 off dsw dp s = Inr (True, s)"
| "isdirempty_loop (Suc k) off dsw dp s =
     rbind (readi dsw dp off 16 s) (\<lambda>(r, de, s1).
     if r \<noteq> 16 then Inl (Panic ''isdirempty: readi'')
     else if de_inum 0 de \<noteq> 0 then Inr (False, s1)
     else isdirempty_loop k (off + 16) dsw dp s1)"

definition isdirempty :: "(u16 \<Rightarrow> 'a sys_scheme devsw) \<Rightarrow> nat \<Rightarrow> 'a sys_scheme \<Rightarrow> (bool \<times> 'a sys_scheme) res" where
  "isdirempty dsw dp s = isdirempty_loop ((unat (i_size (inode_at dp s)) - 32 + 15) div 16) 32 dsw dp s"

definition dot :: "u8 list" where "dot = [46]"
definition dotdot :: "u8 list" where "dotdot = [46, 46]"

text \<open>\<^verbatim>\<open>sys_unlink\<close> from the lookup in the locked directory on.\<close>

definition unlink_in ::
    "(u16 \<Rightarrow> 'a sys_scheme devsw) \<Rightarrow> nat \<Rightarrow> u8 list \<Rightarrow> 'a sys_scheme \<Rightarrow> (sys_out \<times> 'a sys_scheme) res" where
  "unlink_in dsw dp name s =
     rbind (dirlookup dp name s) (\<lambda>(r, s1).
     case r of None \<Rightarrow> rbind (iunlockput dp s1) (\<lambda>s2. fails s2) | Some (ip, off) \<Rightarrow>
     rbind (ilock (Some ip) s1) (\<lambda>s2.
     if sint (i_nlink (inode_at ip s2)) < 1 then Inl (Panic ''unlink: nlink < 1'')
     else rbind (if i_type (inode_at ip s2) = T_DIR then isdirempty dsw ip s2 else Inr (True, s2)) (\<lambda>(empty, s3).
       if \<not> empty then
         rbind (iunlockput ip s3) (\<lambda>s4. rbind (iunlockput dp s4) (\<lambda>s5. fails s5))
       else rbind (writei dsw dp (replicate 16 0) off s3) (\<lambda>(n, s4).
         if n \<noteq> 16 then Inl (Panic ''unlink: writei'')
         else rbind (iunlockput dp s4) (\<lambda>s5.
              rbind (iupdate ip (add_nlink ip (-1) s5)) (\<lambda>s6.
              rbind (iunlockput ip s6) (\<lambda>s7. Inr (SysRet 0, s7))))))))"

definition sys_unlink :: "(u16 \<Rightarrow> 'a sys_scheme devsw) \<Rightarrow> nat \<Rightarrow> 'a sys_scheme \<Rightarrow> (sys_out \<times> 'a sys_scheme) res" where
  "sys_unlink dsw cp s =
     (case argstr cp 0 s of None \<Rightarrow> fails s | Some path \<Rightarrow>
      rbind (nameiparent cp path s) (\<lambda>(dpo, s1).
      case dpo of None \<Rightarrow> fails s1 | Some (dp, name) \<Rightarrow>
      rbind (ilock (Some dp) s1) (\<lambda>s2.
      if namecmp name dot = 0 \<or> namecmp name dotdot = 0 then rbind (iunlockput dp s2) (\<lambda>s3. fails s3)
      else unlink_in dsw dp name s2)))"

section \<open>Creating and opening\<close>

text \<open>\<^verbatim>\<open>create\<close> once the name is known to be new in the locked directory \<^verbatim>\<open>dp\<close>; the result is locked.\<close>

definition create_new ::
    "(u16 \<Rightarrow> 'a sys_scheme devsw) \<Rightarrow> nat \<Rightarrow> u8 list \<Rightarrow> u16 \<Rightarrow> u16 \<Rightarrow> u16 \<Rightarrow> 'a sys_scheme \<Rightarrow> (nat option \<times> 'a sys_scheme) res" where
  "create_new dsw dp name type major minor s =
     rbind (ialloc (i_dev (inode_at dp s)) type s) (\<lambda>(ip, s1).
     rbind (ilock (Some ip) s1) (\<lambda>s2.
     rbind (iupdate ip (upd_inode ip (\<lambda>i. i\<lparr>i_major := major, i_minor := minor, i_nlink := 1\<rparr>) s2)) (\<lambda>s3.
     rbind (dirlink dsw dp name (i_inum (inode_at ip s3)) s3) (\<lambda>(r, s4).
     if sint r < 0 then
       rbind (iunlockput ip (upd_inode ip (\<lambda>i. i\<lparr>i_nlink := 0\<rparr>) s4)) (\<lambda>s5.
       rbind (iunlockput dp s5) (\<lambda>s6. Inr (None, s6)))
     else rbind (if type = T_DIR then
                   rbind (iupdate dp (add_nlink dp 1 s4)) (\<lambda>s5.
                   rbind (dirlink dsw ip dot (i_inum (inode_at ip s5)) s5) (\<lambda>(r1, s6).
                   if sint r1 < 0 then Inl (Panic ''create dots'')
                   else rbind (dirlink dsw ip dotdot (i_inum (inode_at dp s6)) s6) (\<lambda>(r2, s7).
                        if sint r2 < 0 then Inl (Panic ''create dots'') else Inr s7)))
                 else Inr s4) (\<lambda>s8.
          rbind (iunlockput dp s8) (\<lambda>s9. Inr (Some ip, s9)))))))"

definition create ::
    "(u16 \<Rightarrow> 'a sys_scheme devsw) \<Rightarrow> nat \<Rightarrow> u8 list \<Rightarrow> bool \<Rightarrow> u16 \<Rightarrow> u16 \<Rightarrow> u16 \<Rightarrow> 'a sys_scheme
     \<Rightarrow> (nat option \<times> 'a sys_scheme) res" where
  "create dsw cp path canexist type major minor s =
     rbind (nameiparent cp path s) (\<lambda>(dpo, s1).
     case dpo of None \<Rightarrow> Inr (None, s1) | Some (dp, name) \<Rightarrow>
     rbind (ilock (Some dp) s1) (\<lambda>s2.
     rbind (if canexist then dirlookup dp name s2 else Inr (None, s2)) (\<lambda>(r, s3).
     case r of
       Some (ip, _) \<Rightarrow>
         rbind (iunlockput dp s3) (\<lambda>s4.
         rbind (ilock (Some ip) s4) (\<lambda>s5.
         if i_type (inode_at ip s5) \<noteq> type \<or> i_major (inode_at ip s5) \<noteq> major \<or> i_minor (inode_at ip s5) \<noteq> minor
         then rbind (iunlockput ip s5) (\<lambda>s6. Inr (None, s6))
         else Inr (Some ip, s5)))
     | None \<Rightarrow> create_new dsw dp name type major minor s3)))"

definition O_WRONLY :: u32 where "O_WRONLY = 1"
definition O_RDWR :: u32 where "O_RDWR = 2"
definition O_CREATE :: u32 where "O_CREATE = 0x200"

text \<open>\<^verbatim>\<open>sys_open\<close> from the allocation of the file structure on, for the locked inode.\<close>

definition open_file_at :: "nat \<Rightarrow> nat \<Rightarrow> u32 \<Rightarrow> 'a sys_scheme \<Rightarrow> (sys_out \<times> 'a sys_scheme) res" where
  "open_file_at cp ip omode s =
     (case filealloc s of
        (None, s1) \<Rightarrow> rbind (iunlockput ip s1) (\<lambda>s2. fails s2)
      | (Some f, s1) \<Rightarrow>
        (case fdalloc cp f s1 of
           (None, s2) \<Rightarrow> rbind (fileclose f s2) (\<lambda>s3. rbind (iunlockput ip s3) (\<lambda>s4. fails s4))
         | (Some fd, s2) \<Rightarrow>
             rbind (iunlock (Some ip) s2) (\<lambda>s3.
             Inr (SysRet (of_nat fd), upd_file f (\<lambda>x. x\<lparr>f_type := FD_INODE, f_ip := ip, f_off := 0,
               f_readable := (omode AND O_WRONLY = 0),
               f_writable := (omode AND O_WRONLY \<noteq> 0 \<or> omode AND O_RDWR \<noteq> 0)\<rparr>) s3))))"

definition sys_open :: "(u16 \<Rightarrow> 'a sys_scheme devsw) \<Rightarrow> nat \<Rightarrow> 'a sys_scheme \<Rightarrow> (sys_out \<times> 'a sys_scheme) res" where
  "sys_open dsw cp s =
     (case argstr cp 0 s of None \<Rightarrow> fails s | Some path \<Rightarrow>
      case argint cp 1 s of None \<Rightarrow> fails s | Some omode \<Rightarrow>
      if omode AND O_CREATE \<noteq> 0 then
        rbind (create dsw cp path True T_FILE 0 0 s) (\<lambda>(ipo, s1).
        case ipo of None \<Rightarrow> fails s1 | Some ip \<Rightarrow> open_file_at cp ip omode s1)
      else
        rbind (namei cp path s) (\<lambda>(ipo, s1).
        case ipo of None \<Rightarrow> fails s1 | Some ip \<Rightarrow>
        rbind (ilock (Some ip) s1) (\<lambda>s2.
        if i_type (inode_at ip s2) = T_DIR \<and> omode AND (O_RDWR OR O_WRONLY) \<noteq> 0
        then rbind (iunlockput ip s2) (\<lambda>s3. fails s3)
        else open_file_at cp ip omode s2)))"

definition sys_mknod :: "(u16 \<Rightarrow> 'a sys_scheme devsw) \<Rightarrow> nat \<Rightarrow> 'a sys_scheme \<Rightarrow> (sys_out \<times> 'a sys_scheme) res" where
  "sys_mknod dsw cp s =
     (case argstr cp 0 s of None \<Rightarrow> fails s | Some path \<Rightarrow>
      case argint cp 1 s of None \<Rightarrow> fails s | Some major \<Rightarrow>
      case argint cp 2 s of None \<Rightarrow> fails s | Some minor \<Rightarrow>
      rbind (create dsw cp path False T_DEV (ucast major) (ucast minor) s) (\<lambda>(ipo, s1).
      case ipo of None \<Rightarrow> fails s1 | Some ip \<Rightarrow> rbind (iunlockput ip s1) (\<lambda>s2. Inr (SysRet 0, s2))))"

definition sys_mkdir :: "(u16 \<Rightarrow> 'a sys_scheme devsw) \<Rightarrow> nat \<Rightarrow> 'a sys_scheme \<Rightarrow> (sys_out \<times> 'a sys_scheme) res" where
  "sys_mkdir dsw cp s =
     (case argstr cp 0 s of None \<Rightarrow> fails s | Some path \<Rightarrow>
      rbind (create dsw cp path False T_DIR 0 0 s) (\<lambda>(ipo, s1).
      case ipo of None \<Rightarrow> fails s1 | Some ip \<Rightarrow> rbind (iunlockput ip s1) (\<lambda>s2. Inr (SysRet 0, s2))))"

definition sys_chdir :: "nat \<Rightarrow> 'a sys_scheme \<Rightarrow> (sys_out \<times> 'a sys_scheme) res" where
  "sys_chdir cp s =
     (case argstr cp 0 s of None \<Rightarrow> fails s | Some path \<Rightarrow>
      rbind (namei cp path s) (\<lambda>(ipo, s1).
      case ipo of None \<Rightarrow> fails s1 | Some ip \<Rightarrow>
      rbind (ilock (Some ip) s1) (\<lambda>s2.
      if i_type (inode_at ip s2) \<noteq> T_DIR then rbind (iunlockput ip s2) (\<lambda>s3. fails s3)
      else rbind (iunlock (Some ip) s2) (\<lambda>s3.
           rbind (iput (the (p_cwd (proc_at cp s3))) s3) (\<lambda>s4.
           Inr (SysRet 0, upd_proc cp (\<lambda>p. p\<lparr>p_cwd := Some ip\<rparr>) s4))))))"

section \<open>exec and pipe\<close>

text \<open>The loop that fetches \<^verbatim>\<open>argv\<close>; \<open>k\<close> entries of the array of 20 are left.\<close>

primrec fetch_argv :: "nat \<Rightarrow> nat \<Rightarrow> u32 \<Rightarrow> nat \<Rightarrow> 'a sys_scheme \<Rightarrow> u8 list list option" where
  "fetch_argv 0 i uargv cp s = None"
| "fetch_argv (Suc k) i uargv cp s =
     (case fetchint (memory s) (proc_at cp s) (uargv + 4 * of_nat i) of None \<Rightarrow> None | Some uarg \<Rightarrow>
      if uarg = 0 then Some []
      else case fetchstr (memory s) (proc_at cp s) uarg of None \<Rightarrow> None | Some (pp, len) \<Rightarrow>
        map_option ((#) (load_bytes (memory s) pp len)) (fetch_argv k (Suc i) uargv cp s))"

definition sys_exec ::
    "addr \<Rightarrow> u8 list \<Rightarrow> (u16 \<Rightarrow> 'a sys_scheme devsw) \<Rightarrow> nat \<Rightarrow> 'a sys_scheme \<Rightarrow> (sys_out \<times> 'a sys_scheme) res" where
  "sys_exec ts junk dsw cp s =
     (case argstr cp 0 s of None \<Rightarrow> fails s | Some path \<Rightarrow>
      case argint cp 1 s of None \<Rightarrow> fails s | Some uargv \<Rightarrow>
      case fetch_argv 20 0 uargv cp s of None \<Rightarrow> fails s | Some argv \<Rightarrow>
      rbind (exec ts junk dsw cp path argv s) (\<lambda>(r, s1). Inr (SysRet r, s1)))"

definition sys_pipe :: "nat \<Rightarrow> 'a sys_scheme \<Rightarrow> (sys_out \<times> 'a sys_scheme) res" where
  "sys_pipe cp s =
     (case argptr cp 0 8 s of None \<Rightarrow> fails s | Some fd \<Rightarrow>
      rbind (pipealloc s) (\<lambda>(r, s1).
      case r of None \<Rightarrow> fails s1 | Some (f0, f1) \<Rightarrow>
      case fdalloc cp f0 s1 of
        (None, s2) \<Rightarrow> rbind (fileclose f0 s2) (\<lambda>s3. rbind (fileclose f1 s3) (\<lambda>s4. fails s4))
      | (Some fd0, s2) \<Rightarrow>
        (case fdalloc cp f1 s2 of
           (None, s3) \<Rightarrow>
             rbind (fileclose f0 (set_fd cp fd0 None s3)) (\<lambda>s4. rbind (fileclose f1 s4) (\<lambda>s5. fails s5))
         | (Some fd1, s3) \<Rightarrow>
             Inr (SysRet 0, set_mem (write32 (fd + 4) (of_nat fd1) (write32 fd (of_nat fd0) (memory s3))) s3))))"

end
