(* ===== verification/Uprogs.thy ===== *)
theory Uprogs
  imports Uproc Grep Sysfile Strings Console_Spec
begin

text \<open>
  The small user programs: \<^verbatim>\<open>cat\<close>, \<^verbatim>\<open>wc\<close>, \<^verbatim>\<open>echo\<close>, \<^verbatim>\<open>grep\<close>, \<^verbatim>\<open>ls\<close>, \<^verbatim>\<open>rm\<close>, \<^verbatim>\<open>mkdir\<close>, \<^verbatim>\<open>ln\<close>, \<^verbatim>\<open>kill\<close>, \<^verbatim>\<open>zombie\<close> and \<^verbatim>\<open>init\<close>, as
  trees of system calls. \<open>argv\<close> has the name of the program at its head; \<open>inp\<close> is what reads from
  descriptor 0 deliver. A chunk that a read delivers is not empty.
\<close>

section \<open>cat\<close>

primrec cat_loop :: "u8 list list \<Rightarrow> uprog \<Rightarrow> uprog" where
  "cat_loop [] p = p"
| "cat_loop (c # cs) p = UDo (UWrite 1 c) (\<lambda>_. cat_loop cs p)"

definition cat :: "reads \<Rightarrow> uprog \<Rightarrow> uprog" where
  "cat rs p = cat_loop (fst rs) (if snd rs then say 1 (chars ''cat: read error'' @ [10]) [] UExit else p)"

primrec cat_files :: "u8 list list \<Rightarrow> uprog" where
  "cat_files [] = UExit"
| "cat_files (a # as) =
     UDo (UOpen a 0) (\<lambda>r. case r of
       Opened fd rs \<Rightarrow> cat rs (UDo (UClose fd) (\<lambda>_. cat_files as))
     | _ \<Rightarrow> say 1 (chars ''cat: cannot open %s'' @ [10]) [ArgStr a] UExit)"

definition cat_main :: "reads \<Rightarrow> u8 list list \<Rightarrow> uprog" where
  "cat_main inp argv = (if length argv \<le> 1 then cat inp UExit else cat_files (tl argv))"

section \<open>wc\<close>

text \<open>The counters \<^verbatim>\<open>l\<close>, \<^verbatim>\<open>w\<close>, \<^verbatim>\<open>c\<close> and the flag \<^verbatim>\<open>inword\<close>.\<close>

record counts =
  nl :: u32
  nw :: u32
  nc :: u32
  inword :: bool

definition wc_blank :: "u8 \<Rightarrow> bool" where
  "wc_blank x \<longleftrightarrow> x \<in> {32, 13, 9, 10, 11}"

definition wc_byte :: "u8 \<Rightarrow> counts \<Rightarrow> counts" where
  "wc_byte x s =
     (let s1 = s\<lparr>nc := nc s + 1, nl := (if x = 10 then nl s + 1 else nl s)\<rparr> in
      if wc_blank x then s1\<lparr>inword := False\<rparr>
      else if \<not> inword s1 then s1\<lparr>nw := nw s1 + 1, inword := True\<rparr>
      else s1)"

definition wc_loop :: "u8 list list \<Rightarrow> counts" where
  "wc_loop cs = fold (fold wc_byte) cs \<lparr>nl = 0, nw = 0, nc = 0, inword = False\<rparr>"

definition wc :: "reads \<Rightarrow> u8 list \<Rightarrow> uprog \<Rightarrow> uprog" where
  "wc rs name p =
     (let s = wc_loop (fst rs) in
      if snd rs then say 1 (chars ''wc: read error'' @ [10]) [] UExit
      else say 1 (chars ''%d %d %d %s'' @ [10]) [ArgWord (nl s), ArgWord (nw s), ArgWord (nc s), ArgStr name] p)"

primrec wc_files :: "u8 list list \<Rightarrow> uprog" where
  "wc_files [] = UExit"
| "wc_files (a # as) =
     UDo (UOpen a 0) (\<lambda>r. case r of
       Opened fd rs \<Rightarrow> wc rs a (UDo (UClose fd) (\<lambda>_. wc_files as))
     | _ \<Rightarrow> say 1 (chars ''cat: cannot open %s'' @ [10]) [ArgStr a] UExit)"

definition wc_main :: "reads \<Rightarrow> u8 list list \<Rightarrow> uprog" where
  "wc_main inp argv = (if length argv \<le> 1 then wc inp [] UExit else wc_files (tl argv))"

section \<open>echo\<close>

primrec echo_args :: "u8 list list \<Rightarrow> uprog" where
  "echo_args [] = UExit"
| "echo_args (a # as) = say 1 (chars ''%s%s'') [ArgStr a, ArgStr (if as \<noteq> [] then [32] else [10])] (echo_args as)"

definition echo_main :: "u8 list list \<Rightarrow> uprog" where
  "echo_main argv = echo_args (tl argv)"

section \<open>grep\<close>

text \<open>
  The array \<^verbatim>\<open>buf\<close> keeps its bytes from one file to the next; the lines written for one file are taken together. A
  program that leaves the array is given up.
\<close>

definition grep_fd :: "u8 list \<Rightarrow> reads \<Rightarrow> u8 list \<Rightarrow> (u8 list \<Rightarrow> uprog) \<Rightarrow> uprog" where
  "grep_fd pat rs buf p =
     (case grep_loop pat (fst rs) buf 0 of (out, r) \<Rightarrow>
        let q = (case r of Inl _ \<Rightarrow> UExit | Inr buf1 \<Rightarrow> p buf1)
        in if out = [] then q else UDo (UWrite 1 out) (\<lambda>_. q))"

primrec grep_files :: "u8 list \<Rightarrow> u8 list list \<Rightarrow> u8 list \<Rightarrow> uprog" where
  "grep_files pat [] buf = UExit"
| "grep_files pat (a # as) buf =
     UDo (UOpen a 0) (\<lambda>r. case r of
       Opened fd rs \<Rightarrow> grep_fd pat rs buf (\<lambda>buf1. UDo (UClose fd) (\<lambda>_. grep_files pat as buf1))
     | _ \<Rightarrow> say 1 (chars ''grep: cannot open %s'' @ [10]) [ArgStr a] UExit)"

definition grep_main :: "reads \<Rightarrow> u8 list list \<Rightarrow> uprog" where
  "grep_main inp argv =
     (if length argv \<le> 1 then say 2 (chars ''usage: grep pattern [file ...]'' @ [10]) [] UExit
      else if length argv \<le> 2 then grep_fd (argv ! 1) inp empty_buf (\<lambda>_. UExit)
      else grep_files (argv ! 1) (drop 2 argv) empty_buf)"

section \<open>rm, mkdir, ln, kill, zombie\<close>

primrec rm_files :: "u8 list list \<Rightarrow> uprog" where
  "rm_files [] = UExit"
| "rm_files (a # as) =
     UDo (UUnlink a) (\<lambda>r. if failed r then say 2 (chars ''rm: %s failed to delete'' @ [10]) [ArgStr a] UExit else rm_files as)"

definition rm_main :: "u8 list list \<Rightarrow> uprog" where
  "rm_main argv = (if length argv < 2 then say 2 (chars ''Usage: rm files...'' @ [10]) [] UExit else rm_files (tl argv))"

primrec mkdir_files :: "u8 list list \<Rightarrow> uprog" where
  "mkdir_files [] = UExit"
| "mkdir_files (a # as) =
     UDo (UMkdir a) (\<lambda>r. if failed r then say 2 (chars ''mkdir: %s failed to create'' @ [10]) [ArgStr a] UExit else mkdir_files as)"

definition mkdir_main :: "u8 list list \<Rightarrow> uprog" where
  "mkdir_main argv = (if length argv < 2 then say 2 (chars ''Usage: mkdir files...'' @ [10]) [] UExit else mkdir_files (tl argv))"

definition ln_main :: "u8 list list \<Rightarrow> uprog" where
  "ln_main argv =
     (if length argv \<noteq> 3 then say 2 (chars ''Usage: ln old new'' @ [10]) [] UExit
      else UDo (ULink (argv ! 1) (argv ! 2)) (\<lambda>r.
        if failed r then say 2 (chars ''link %s %s: failed'' @ [10]) [ArgStr (argv ! 1), ArgStr (argv ! 2)] UExit else UExit))"

text \<open>\<^verbatim>\<open>atoi\<close> on the bytes of a string.\<close>

definition str_atoi :: "u8 list \<Rightarrow> u32" where
  "str_atoi s = foldl (\<lambda>n c. n * 10 + ucast c - 48) 0 (takeWhile (\<lambda>c. 48 \<le> c \<and> c \<le> 57) s)"

primrec kill_pids :: "u8 list list \<Rightarrow> uprog" where
  "kill_pids [] = UExit"
| "kill_pids (a # as) = UDo (UKill (str_atoi a)) (\<lambda>_. kill_pids as)"

definition kill_main :: "u8 list list \<Rightarrow> uprog" where
  "kill_main argv = (if length argv < 1 then say 2 (chars ''usage: kill pid...'' @ [10]) [] UExit else kill_pids (tl argv))"

definition zombie_main :: uprog where
  "zombie_main =
     UDo UFork (\<lambda>a. case a of Ret pid \<Rightarrow> if pid > 0 then UDo (USleep 5) (\<lambda>_. UExit) else UExit | _ \<Rightarrow> UExit)"

section \<open>ls\<close>

text \<open>\<^verbatim>\<open>stat\<close> of \<^verbatim>\<open>ulib.c\<close>, with what to do with the answer.\<close>

definition u_stat :: "u8 list \<Rightarrow> (uans \<Rightarrow> uprog) \<Rightarrow> uprog" where
  "u_stat n k =
     UDo (UOpen n 0) (\<lambda>a. case a of
       Opened fd rs \<Rightarrow> UDo (UFstat fd) (\<lambda>r. UDo (UClose fd) (\<lambda>_. k r))
     | _ \<Rightarrow> k (Ret (-1)))"

definition fmtname :: "u8 list \<Rightarrow> u8 list" where
  "fmtname path =
     (let p = rev (takeWhile (\<lambda>c. c \<noteq> slash) (rev path))
      in if length p \<ge> DIRSIZ then p else p @ replicate (DIRSIZ - length p) 32)"

definition ls_line :: "u8 list \<Rightarrow> stat \<Rightarrow> uprog \<Rightarrow> uprog" where
  "ls_line path st p =
     say 1 (chars ''%s %d %d %d'' @ [10])
       [ArgStr (fmtname path), ArgWord (scast (st_type st)), ArgWord (st_ino st), ArgWord (st_size st)] p"

text \<open>The loop over the entries of a directory, with the reads of 16 bytes each.\<close>

primrec ls_entries :: "u8 list \<Rightarrow> u8 list list \<Rightarrow> uprog \<Rightarrow> uprog" where
  "ls_entries path [] p = p"
| "ls_entries path (de # des) p =
     (if length de \<noteq> 16 then p
      else if de_inum 0 de = 0 then ls_entries path des p
      else let buf = path @ [slash] @ takeWhile (\<lambda>c. c \<noteq> 0) (de_name 0 de) in
        u_stat buf (\<lambda>r. case r of
          Stats st \<Rightarrow> ls_line buf st (ls_entries path des p)
        | _ \<Rightarrow> say 1 (chars ''ls: cannot stat %s'' @ [10]) [ArgStr buf] (ls_entries path des p)))"

definition ls :: "u8 list \<Rightarrow> uprog \<Rightarrow> uprog" where
  "ls path p =
     UDo (UOpen path 0) (\<lambda>a. case a of
       Opened fd rs \<Rightarrow>
         (let fin = UDo (UClose fd) (\<lambda>_. p) in
          UDo (UFstat fd) (\<lambda>r. case r of
            Stats st \<Rightarrow>
              if st_type st = T_FILE then ls_line path st fin
              else if st_type st = T_DIR then
                if length path + 1 + DIRSIZ + 1 > 512 then say 1 (chars ''ls: path too long'' @ [10]) [] fin
                else ls_entries path (fst rs) fin
              else fin
          | _ \<Rightarrow> say 2 (chars ''ls: cannot stat %s'' @ [10]) [ArgStr path] fin))
     | _ \<Rightarrow> say 2 (chars ''ls: cannot open %s'' @ [10]) [ArgStr path] p)"

definition ls_main :: "u8 list list \<Rightarrow> uprog" where
  "ls_main argv = (if length argv < 2 then ls [46] UExit else foldr ls (tl argv) UExit)"

section \<open>init\<close>

text \<open>
  The program does not end; it is given up to \<open>n\<close> rounds of its loop, with up to \<open>m\<close> calls of \<^verbatim>\<open>wait\<close> in each.
\<close>

primrec init_wait :: "nat \<Rightarrow> int \<Rightarrow> uprog \<Rightarrow> uprog" where
  "init_wait 0 pid p = UExit"
| "init_wait (Suc m) pid p =
     UDo UWait (\<lambda>a. case a of
       Ret wpid \<Rightarrow> if wpid \<ge> 0 \<and> wpid \<noteq> pid then say 1 (chars ''zombie!'' @ [10]) [] (init_wait m pid p) else p
     | _ \<Rightarrow> p)"

primrec init_loop :: "nat \<Rightarrow> nat \<Rightarrow> uprog" where
  "init_loop 0 m = UExit"
| "init_loop (Suc n) m =
     say 1 (chars ''init: starting sh'' @ [10]) []
       (UDo UFork (\<lambda>a. case a of
          Ret pid \<Rightarrow>
            if pid < 0 then say 1 (chars ''init: fork failed'' @ [10]) [] UExit
            else if pid = 0 then
              UDo (UExec (chars ''sh'') [chars ''sh'']) (\<lambda>_. say 1 (chars ''init: exec sh failed'' @ [10]) [] UExit)
            else init_wait m pid (init_loop n m)
        | _ \<Rightarrow> UExit))"

definition init_main :: "nat \<Rightarrow> nat \<Rightarrow> uprog" where
  "init_main n m =
     (let go = UDo (UDup 0) (\<lambda>_. UDo (UDup 0) (\<lambda>_. init_loop n m)) in
      UDo (UOpen (chars ''console'') O_RDWR) (\<lambda>a.
        if failed a then UDo (UMknod (chars ''console'') 1 1) (\<lambda>_. UDo (UOpen (chars ''console'') O_RDWR) (\<lambda>_. go))
        else go))"

section \<open>What the programs print\<close>

text \<open>The bytes that reach a file.\<close>

definition sent :: "ufile option \<Rightarrow> uevent list \<Rightarrow> u8 list" where
  "sent f evs = concat (map (\<lambda>ev. case ev of EvWrite g bs \<Rightarrow> if g = f then bs else [] | _ \<Rightarrow> []) evs)"

lemma sent_simps [simp]:
  "sent f [] = []" "sent f (EvWrite g bs # evs) = (if g = f then bs else []) @ sent f evs" "sent f (es @ es') = sent f es @ sent f es'"
  by (simp_all add: sent_def)

lemma cat_loop_sent: "sent (fds ! 1) (run (cat_loop cs p) e path fds) = concat cs @ sent (fds ! 1) (run p e path fds)"
  by (induction cs) simp_all

text \<open>\<^verbatim>\<open>cat\<close> of files that can be opened and read prints them one after the other.\<close>

lemma cat_concatenates:
  assumes "stdio fds" and "lowest fds \<noteq> None" and "\<forall>a \<in> set as. \<exists>cs. e_open e a 0 = Some (cs, False)"
  shows "sent (fds ! 1) (run (cat_files as) e path fds) = concat (map (\<lambda>a. concat (fst (the (e_open e a 0)))) as)"
  using assms(3)
proof (induction as)
  case (Cons a as)
  obtain cs where a: "e_open e a 0 = Some (cs, False)" using Cons.prems by auto
  obtain n where n: "lowest fds = Some n" using assms(2) by blast
  note l = lowest_stdio [OF assms(1) n]
  have "fds[n := Some (UFile a 0)] ! 1 = fds ! 1" "fds[n := Some (UFile a 0), n := None] = fds"
    using l by (auto simp: list_update_same_conv)
  then show ?case
    using cat_loop_sent [of "fds[n := Some (UFile a 0)]" cs "UDo (UClose n) (\<lambda>_. cat_files as)" e path] Cons a n by (simp add: cat_def)
qed simp

text \<open>\<^verbatim>\<open>atoi\<close> on a string in memory.\<close>

lemma atoi_loop_str:
  assumes "\<forall>i < length s. m (p + of_nat i) = s ! i" and "m (p + of_nat (length s)) = 0"
  shows "atoi_loop m p n = Some (foldl (\<lambda>n c. n * 10 + ucast c - 48) n (takeWhile (\<lambda>c. 48 \<le> c \<and> c \<le> 57) s))"
  using assms
proof (induction s arbitrary: p n)
  case Nil
  then show ?case by (subst atoi_loop.simps) simp
next
  case (Cons c s)
  have c: "m p = c" using Cons.prems(1) by force
  have "\<forall>i < length s. m (p + 1 + of_nat i) = s ! i" "m (p + 1 + of_nat (length s)) = 0"
    using Cons.prems by (auto simp: add.assoc dest: spec [of _ "Suc _"])
  then show ?case using Cons.IH [of "p + 1"] by (subst atoi_loop.simps) (auto simp: c)
qed

lemma atoi_str:
  assumes "\<forall>i < length s. m (p + of_nat i) = s ! i" and "m (p + of_nat (length s)) = 0"
  shows "atoi m p = Some (str_atoi s)"
  unfolding atoi_def str_atoi_def by (rule atoi_loop_str [OF assms])

section \<open>Counting\<close>

text \<open>A word starts at a byte that is not blank, at the beginning or after a blank.\<close>

definition word_starts :: "u8 list \<Rightarrow> nat set" where
  "word_starts bs = {i. i < length bs \<and> \<not> wc_blank (bs ! i) \<and> (i = 0 \<or> wc_blank (bs ! (i - 1)))}"

lemma word_starts_snoc:
  "word_starts (bs @ [x]) = word_starts bs \<union> (if \<not> wc_blank x \<and> (bs = [] \<or> wc_blank (last bs)) then {length bs} else {})"
  by (cases "bs = []") (auto simp: word_starts_def nth_append last_conv_nth less_Suc_eq)

lemma wc_fold:
  "fold wc_byte bs \<lparr>nl = 0, nw = 0, nc = 0, inword = False\<rparr> =
     \<lparr>nl = of_nat (count_list bs 10), nw = of_nat (card (word_starts bs)), nc = of_nat (length bs), inword = (bs \<noteq> [] \<and> \<not> wc_blank (last bs))\<rparr>"
proof (induction bs rule: rev_induct)
  case (snoc x bs)
  have "finite (word_starts bs)" "length bs \<notin> word_starts bs" by (simp_all add: word_starts_def)
  then show ?case using snoc by (auto simp: wc_byte_def Let_def word_starts_snoc wc_blank_def)
qed (simp add: word_starts_def)

lemma fold_concat: "fold (fold f) xss s = fold f (concat xss) s"
  by (induction xss arbitrary: s) simp_all

lemma printint_small: "n < 2147483648 \<Longrightarrow> u_printint (of_nat n) 10 True = rev (printint_loop 10 n)"
  by (simp add: u_printint_def Let_def sint_u32 not_less)

text \<open>A line of output: three numbers in decimal digits and the name.\<close>

definition wc_line :: "u8 list \<Rightarrow> u8 list \<Rightarrow> u8 list \<Rightarrow> bool" where
  "wc_line bs name out \<longleftrightarrow>
     (\<exists>dl dw dc. out = dl @ [32] @ dw @ [32] @ dc @ [32] @ name @ [10] \<and> digits_val 10 dl = count_list bs 10
        \<and> digits_val 10 dw = card (word_starts bs) \<and> digits_val 10 dc = length bs)"

lemma wc_format:
  "printf (chars ''%d %d %d %s'' @ [10]) [ArgWord a, ArgWord b, ArgWord c, ArgStr name]
    = Inr (u_printint a 10 True @ [32] @ u_printint b 10 True @ [32] @ u_printint c 10 True @ [32] @ name @ [10])"
  by (simp add: chars_def printf_def putc_def arg_str_def arg_word_def)

lemma word_starts_le: "card (word_starts bs) \<le> length bs"
proof -
  have "word_starts bs \<subseteq> {..<length bs}" by (auto simp: word_starts_def)
  from card_mono [OF _ this] show ?thesis by simp
qed

lemma wc_events:
  assumes "length (concat cs) < 2147483648"
  shows "\<exists>out. wc_line (concat cs) name out \<and> run (wc (cs, False) name p) e path fds = EvWrite (fds ! 1) out # run p e path fds"
proof -
  let ?bs = "concat cs"
  have s: "wc_loop cs = \<lparr>nl = of_nat (count_list ?bs 10), nw = of_nat (card (word_starts ?bs)), nc = of_nat (length ?bs),
      inword = (?bs \<noteq> [] \<and> \<not> wc_blank (last ?bs))\<rparr>"
    unfolding wc_loop_def fold_concat by (rule wc_fold)
  have b: "count_list ?bs 10 < 2147483648" "card (word_starts ?bs) < 2147483648"
    using assms count_le_length [of ?bs 10] word_starts_le [of ?bs] by linarith+
  define out where "out = rev (printint_loop 10 (count_list ?bs 10)) @ [32] @ rev (printint_loop 10 (card (word_starts ?bs))) @ [32]
    @ rev (printint_loop 10 (length ?bs)) @ [32] @ name @ [10]"
  have "wc_line ?bs name out" unfolding wc_line_def out_def by (intro exI conjI) (rule refl, simp_all add: printint_loop_val)
  moreover have "run (wc (cs, False) name p) e path fds = EvWrite (fds ! 1) out # run p e path fds"
    unfolding out_def printint_small [OF b(1), symmetric] printint_small [OF b(2), symmetric] printint_small [OF assms, symmetric]
    by (simp add: wc_def Let_def s run_say [OF wc_format])
  ultimately show ?thesis by blast
qed

section \<open>Properties\<close>

text \<open>
  \<^bold>\<open>C37.\<close> \<^verbatim>\<open>wc\<close> counts. For files that can be opened and read, it writes one line for each file, in order, with the number
  of newlines, of words and of bytes in decimal, and the name of the file. A word is a longest run of bytes that are not
  blank, however the reads cut the file into pieces.
\<close>

theorem wc_counts:
  assumes "stdio fds" and "lowest fds \<noteq> None" and "as \<noteq> []"
    and "\<forall>a \<in> set as. e_open e a 0 = Some (fc a, False) \<and> length (concat (fc a)) < 2147483648"
  shows "\<exists>outs. run (wc_main inp (prog # as)) e path fds = map (EvWrite (fds ! 1)) outs
    \<and> list_all2 (\<lambda>a. wc_line (concat (fc a)) a) as outs"
proof -
  have "\<exists>outs. run (wc_files as) e path fds = map (EvWrite (fds ! 1)) outs \<and> list_all2 (\<lambda>a. wc_line (concat (fc a)) a) as outs"
    using assms(4)
  proof (induction as)
    case (Cons a as)
    obtain n where n: "lowest fds = Some n" using assms(2) by blast
    note l = lowest_stdio [OF assms(1) n]
    have same: "fds[n := Some (UFile a 0)] ! 1 = fds ! 1" "fds[n := Some (UFile a 0), n := None] = fds"
      using l by (auto simp: list_update_same_conv)
    obtain outs where o: "run (wc_files as) e path fds = map (EvWrite (fds ! 1)) outs" "list_all2 (\<lambda>a. wc_line (concat (fc a)) a) as outs"
      using Cons by auto
    obtain out where "wc_line (concat (fc a)) a out" "run (wc (fc a, False) a (UDo (UClose n) (\<lambda>_. wc_files as))) e path (fds[n := Some (UFile a 0)])
        = EvWrite (fds[n := Some (UFile a 0)] ! 1) out # run (UDo (UClose n) (\<lambda>_. wc_files as)) e path (fds[n := Some (UFile a 0)])"
      using wc_events [of "fc a" a] Cons.prems by fastforce
    then show ?case using Cons.prems n same o by (intro exI [of _ "out # outs"]) simp
  qed simp
  then show ?thesis using assms(3) by (cases as) (simp_all add: wc_main_def)
qed

theorem wc_counts_witness:
  "\<exists>out. run (wc_main ([], False) [[119, 99], [97]]) (plain_env\<lparr>e_open := \<lambda>_ _. Some ([[104, 105], [32, 119, 10]], False)\<rparr>) [] plain_fds
      = [EvWrite (Some (UGiven 1)) out] \<and> wc_line [104, 105, 32, 119, 10] [97] out"
proof -
  let ?e = "plain_env\<lparr>e_open := \<lambda>_ _. Some ([[104, 105], [32, 119, 10]], False)\<rparr>"
  have "lowest plain_fds = Some 3" by (simp add: lowest_Some plain_fds_def NOFILE_def nth_Cons' )
  then show ?thesis
    using wc_counts [OF plain_fds_stdio, of "[[97]]" ?e "\<lambda>_. [[104, 105], [32, 119, 10]]" "([], False)" "[119, 99]" "[]"]
    by (auto simp: list_all2_Cons1 plain_fds_def)
qed

end
