(* ===== verification/Sh_Run.thy ===== *)
theory Sh_Run
  imports Sh_Spec Uprogs
begin

text \<open>
  How the shell runs commands (\<^verbatim>\<open>runcmd\<close>, \<^verbatim>\<open>getcmd\<close> and \<^verbatim>\<open>main\<close> of \<^verbatim>\<open>sh.c\<close>, \<^verbatim>\<open>gets\<close> of \<^verbatim>\<open>ulib.c\<close>). The words of a
  command are strings in the line after \<^verbatim>\<open>nulterminate\<close>. What is typed is the list of bytes that the reads from
  descriptor 0 deliver one by one.
\<close>

section \<open>Running a command\<close>

definition str_at :: "u8 list \<Rightarrow> nat \<Rightarrow> u8 list" where
  "str_at b q = takeWhile (\<lambda>c. c \<noteq> 0) (drop q b)"

definition sh_panic :: "string \<Rightarrow> uprog" where
  "sh_panic s = say 2 (chars ''%s'' @ [10]) [ArgStr (chars s)] UExit"

definition fork1 :: "(int \<Rightarrow> uprog) \<Rightarrow> uprog" where
  "fork1 k = UDo UFork (\<lambda>a. case a of Ret pid \<Rightarrow> if pid = -1 then sh_panic ''fork'' else k pid | _ \<Rightarrow> UExit)"

primrec runcmd :: "u8 list \<Rightarrow> cmd \<Rightarrow> uprog" where
  "runcmd b (EXEC ws) =
     (if ws = [] then UExit
      else let argv = map (\<lambda>w. str_at b (fst w)) ws in
        UDo (UExec (hd argv) argv) (\<lambda>_. say 2 (chars ''exec %s failed'' @ [10]) [ArgStr (hd argv)] UExit))"
| "runcmd b (REDIR c q eq mode fd) =
     UDo (UClose fd) (\<lambda>_.
     UDo (UOpen (str_at b q) mode) (\<lambda>a.
     if failed a then say 2 (chars ''open %s failed'' @ [10]) [ArgStr (str_at b q)] UExit
     else runcmd b c))"
| "runcmd b (LIST c1 c2) = fork1 (\<lambda>pid. if pid = 0 then runcmd b c1 else UDo UWait (\<lambda>_. runcmd b c2))"
| "runcmd b (PIPE c1 c2) =
     UDo UPipe (\<lambda>a. case a of
       Fds p0 p1 \<Rightarrow>
         fork1 (\<lambda>pid. if pid = 0 then
             UDo (UClose 1) (\<lambda>_. UDo (UDup p1) (\<lambda>_. UDo (UClose p0) (\<lambda>_. UDo (UClose p1) (\<lambda>_. runcmd b c1))))
           else fork1 (\<lambda>pid. if pid = 0 then
             UDo (UClose 0) (\<lambda>_. UDo (UDup p0) (\<lambda>_. UDo (UClose p0) (\<lambda>_. UDo (UClose p1) (\<lambda>_. runcmd b c2))))
           else UDo (UClose p0) (\<lambda>_. UDo (UClose p1) (\<lambda>_. UDo UWait (\<lambda>_. UDo UWait (\<lambda>_. UExit))))))
     | _ \<Rightarrow> sh_panic ''pipe'')"
| "runcmd b (BACK c) = fork1 (\<lambda>pid. if pid = 0 then runcmd b c else UExit)"

section \<open>Reading commands\<close>

text \<open>\<^verbatim>\<open>gets\<close> into a buffer of \<open>Suc n\<close> bytes: the line, and what is left of the input.\<close>

fun gets :: "nat \<Rightarrow> u8 list \<Rightarrow> u8 list \<times> u8 list" where
  "gets 0 inp = ([], inp)"
| "gets (Suc n) [] = ([], [])"
| "gets (Suc n) (c # inp) =
     (if c = 10 \<or> c = 13 then ([c], inp) else case gets n inp of (l, inp') \<Rightarrow> (c # l, inp'))"

text \<open>\<^verbatim>\<open>getcmd\<close> after its prompt: nothing if the first byte of the buffer is NUL.\<close>

definition getcmd :: "nat \<Rightarrow> u8 list \<Rightarrow> (u8 list \<times> u8 list) option" where
  "getcmd nbuf inp = (case gets (nbuf - 1) inp of (l, inp') \<Rightarrow> if l = [] \<or> hd l = 0 then None else Some (l, inp'))"

lemma gets_Nil [simp]: "gets n [] = ([], [])"
  by (cases n) simp_all

lemma gets_length: "length (snd (gets n inp)) + length (fst (gets n inp)) = length inp"
  by (induction n inp rule: gets.induct) (auto split: prod.splits)

lemma getcmd_shorter: "getcmd nbuf inp = Some (l, inp') \<Longrightarrow> length inp' < length inp"
  using gets_length [of "nbuf - 1" inp] by (auto simp: getcmd_def neq_Nil_conv split: prod.splits if_splits)

text \<open>The child of \<^verbatim>\<open>main\<close>: it parses the line up to the NUL and runs the command.\<close>

definition sh_child :: "u8 list \<Rightarrow> uprog" where
  "sh_child l =
     (let s = takeWhile (\<lambda>c. c \<noteq> 0) l in
      case parsecmd (4 * length s + 4) s of
        Some (Inr (c, b)) \<Rightarrow> runcmd b c
      | Some (Inl msg) \<Rightarrow> sh_panic msg
      | None \<Rightarrow> UExit)"

text \<open>The directory of a line \<^verbatim>\<open>cd dir\<close>: what follows, without the last byte.\<close>

definition cd_dir :: "u8 list \<Rightarrow> u8 list" where
  "cd_dir l = drop 3 (butlast (takeWhile (\<lambda>c. c \<noteq> 0) l))"

function sh_loop :: "u8 list \<Rightarrow> uprog" where
  "sh_loop inp =
     say 2 (chars ''$ '') []
       (case getcmd 100 inp of
          None \<Rightarrow> UExit
        | Some (l, inp') \<Rightarrow>
            if take 3 l = chars ''cd '' then
              UDo (UChdir (cd_dir l)) (\<lambda>a.
                if failed a then say 2 (chars ''cannot cd %s'' @ [10]) [ArgStr (cd_dir l)] (sh_loop inp') else sh_loop inp')
            else fork1 (\<lambda>pid. if pid = 0 then sh_child l else UDo UWait (\<lambda>_. sh_loop inp')))"
  by pat_completeness auto
termination by (relation "measure length") (auto dest: getcmd_shorter)

declare sh_loop.simps [simp del]

text \<open>
  The first loop of \<^verbatim>\<open>main\<close>, for at most \<open>n\<close> rounds; every round but the last takes a descriptor, so that
  \<^verbatim>\<open>NOFILE\<close> + 1 rounds are enough.
\<close>

primrec open_console :: "nat \<Rightarrow> uprog \<Rightarrow> uprog" where
  "open_console 0 p = p"
| "open_console (Suc n) p =
     UDo (UOpen (chars ''console'') O_RDWR) (\<lambda>a.
       case a of Opened fd rs \<Rightarrow> if fd \<ge> 3 then UDo (UClose fd) (\<lambda>_. p) else open_console n p | _ \<Rightarrow> p)"

definition sh_main :: "u8 list \<Rightarrow> uprog" where
  "sh_main inp = open_console (NOFILE + 1) (sh_loop inp)"

section \<open>Plumbing\<close>

text \<open>
  What running a command should do: which programs are executed, with which files as descriptors, and which
  descriptors the processes of the shell hold while they wait.
\<close>

primrec plumb :: "u8 list \<Rightarrow> cmd \<Rightarrow> uenv \<Rightarrow> nat list \<Rightarrow> fdt \<Rightarrow> uevent list" where
  "plumb b (EXEC ws) e path fds =
     (let argv = map (\<lambda>w. str_at b (fst w)) ws in
      if ws = [] then []
      else if e_exec e (hd argv) argv then [EvExec (hd argv) argv fds]
      else [EvWrite (fds ! 2) (chars ''exec '' @ hd argv @ chars '' failed'' @ [10])])"
| "plumb b (REDIR c q eq mode fd) e path fds =
     (if e_open e (str_at b q) mode = None
      then [EvWrite (fds ! 2) (chars ''open '' @ str_at b q @ chars '' failed'' @ [10])]
      else plumb b c e path (fds[fd := Some (UFile (str_at b q) mode)]))"
| "plumb b (LIST c1 c2) e path fds = plumb b c1 e (0 # path) fds @ [EvWait fds] @ plumb b c2 e (1 # path) fds"
| "plumb b (PIPE c1 c2) e path fds =
     plumb b c1 e (0 # 2 # path) (fds[1 := Some (UPipeW path)])
     @ plumb b c2 e (0 # 1 # 2 # path) (fds[0 := Some (UPipeR path)]) @ [EvWait fds, EvWait fds]"
| "plumb b (BACK c) e path fds = plumb b c e (0 # path) fds"

text \<open>Redirections are of standard input and output, as the parser makes them.\<close>

primrec redirs_ok :: "cmd \<Rightarrow> bool" where
  "redirs_ok (EXEC ws) = True"
| "redirs_ok (REDIR c q eq mode fd) = (fd < 2 \<and> redirs_ok c)"
| "redirs_ok (LIST c1 c2) = (redirs_ok c1 \<and> redirs_ok c2)"
| "redirs_ok (PIPE c1 c2) = (redirs_ok c1 \<and> redirs_ok c2)"
| "redirs_ok (BACK c) = redirs_ok c"

text \<open>Two descriptors are free for a pipe.\<close>

definition pipe_room :: "fdt \<Rightarrow> bool" where
  "pipe_room fds \<longleftrightarrow> (\<exists>a b. a < NOFILE \<and> b < NOFILE \<and> a \<noteq> b \<and> fds ! a = None \<and> fds ! b = None)"

lemma pipe_room_update: "stdio fds \<Longrightarrow> pipe_room fds \<Longrightarrow> fd \<le> 2 \<Longrightarrow> pipe_room (fds[fd := Some f])"
proof -
  assume a: "stdio fds" "pipe_room fds" "fd \<le> 2"
  have "fds ! fd \<noteq> None" using a(1,3) by (auto simp: stdio_def le_Suc_eq numeral_2_eq_2)
  then show ?thesis using a(2) unfolding pipe_room_def by (metis nth_list_update_neq)
qed

lemma lowest_exists: "n < NOFILE \<Longrightarrow> fds ! n = None \<Longrightarrow> \<exists>m. lowest fds = Some m"
  by (rule ccontr) (auto simp: lowest_def first_idx_None simp flip: not_None_eq)

lemma pipe_fds:
  assumes "stdio fds" and "pipe_room fds"
  obtains a b where "lowest fds = Some a" and "lowest (fds[a := Some f]) = Some b" and "3 \<le> a" and "3 \<le> b" and "a \<noteq> b"
    and "a < length fds" and "b < length fds" and "fds ! a = None" and "fds ! b = None"
proof -
  obtain x y where xy: "x < NOFILE" "y < NOFILE" "x \<noteq> y" "fds ! x = None" "fds ! y = None" using assms(2) by (auto simp: pipe_room_def)
  obtain a where a: "lowest fds = Some a" using lowest_exists [OF xy(1,4)] by blast
  have "fds[a := Some f] ! x = None \<or> fds[a := Some f] ! y = None" using xy by (metis nth_list_update_neq)
  then obtain b where b: "lowest (fds[a := Some f]) = Some b" using lowest_exists xy by blast
  note l = lowest_stdio [OF assms(1) a] lowest_stdio [OF stdio_update [OF assms(1)] b]
  then have "a \<noteq> b" by auto
  then show thesis using that [OF a b] l by simp
qed

lemma shell_messages:
  "printf (chars ''exec %s failed'' @ [10]) [ArgStr w] = Inr (chars ''exec '' @ w @ chars '' failed'' @ [10])"
  "printf (chars ''open %s failed'' @ [10]) [ArgStr w] = Inr (chars ''open '' @ w @ chars '' failed'' @ [10])"
  by (simp_all add: chars_def printf_def putc_def arg_str_def)

lemma run_fork1:
  "run (fork1 k) e path fds = run (k 0) e (0 # path) fds @ run (if e_pid e path = -1 then sh_panic ''fork'' else k (e_pid e path)) e (1 # path) fds"
  by (simp add: fork1_def)

text \<open>After the copies of the pipe are closed the descriptors are as before, but for the one that was replaced.\<close>

lemma close_pipe:
  assumes "fds ! a = None" and "fds ! b = None" and "fd \<noteq> a" and "fd \<noteq> b" and "a \<noteq> b"
  shows "fds[a := x, b := y, fd := z, fd := v, a := None, b := None] = fds[fd := v]"
  using assms by (intro nth_equalityI) (auto simp: nth_update_if)

lemma plumbing:
  assumes "stdio fds" and "pipe_room fds" and "redirs_ok c" and "\<And>p. 0 < e_pid e p"
  shows "run (runcmd b c) e path fds = plumb b c e path fds"
  using assms(1-3)
proof (induction c arbitrary: path fds)
  case (EXEC ws)
  then show ?case by (simp add: Let_def run_say [OF shell_messages(1)])
next
  case (REDIR c q eq mode fd)
  have fd: "fd \<le> 2" "fd \<noteq> 2" using REDIR.prems by auto
  have "run (runcmd b c) e path (fds[fd := Some (UFile (str_at b q) mode)]) = plumb b c e path (fds[fd := Some (UFile (str_at b q) mode)])"
    using REDIR.prems fd by (intro REDIR.IH stdio_update pipe_room_update) auto
  then show ?case
    using lowest_freed [OF REDIR.prems(1) fd(1)] fd
    by (auto simp: failed_def run_say [OF shell_messages(2)] split: option.splits)
next
  case (LIST c1 c2)
  have "e_pid e path \<noteq> -1" "e_pid e path \<noteq> 0" using assms(4) [of path] by auto
  then show ?case using LIST by (simp add: run_fork1)
next
  case (BACK c)
  have "e_pid e path \<noteq> -1" "e_pid e path \<noteq> 0" using assms(4) [of path] by auto
  then show ?case using BACK by (simp add: run_fork1)
next
  case (PIPE c1 c2)
  let ?R = "Some (UPipeR path)" and ?W = "Some (UPipeW path)"
  obtain a b' where ab: "lowest fds = Some a" "lowest (fds[a := ?R]) = Some b'" "3 \<le> a" "3 \<le> b'" "a \<noteq> b'"
      "a < length fds" "b' < length fds" "fds ! a = None" "fds ! b' = None"
    using pipe_fds [OF PIPE.prems(1,2)] by blast
  have pid: "e_pid e p \<noteq> -1" "e_pid e p \<noteq> 0" for p using assms(4) [of p] by auto
  let ?f = "fds[a := ?R, b' := ?W]"
  have sf: "stdio ?f" using PIPE.prems(1) by (intro stdio_update)
  have n: "?f ! a = ?R" "?f ! b' = ?W" using ab by simp_all
  have l: "run (runcmd b c1) e (0 # 2 # path) (fds[1 := ?W]) = plumb b c1 e (0 # 2 # path) (fds[1 := ?W])"
    and r: "run (runcmd b c2) e (0 # 1 # 2 # path) (fds[0 := ?R]) = plumb b c2 e (0 # 1 # 2 # path) (fds[0 := ?R])"
    using PIPE.prems by (auto intro!: PIPE.IH stdio_update pipe_room_update)
  have "?f[a := None, b' := None] = fds" using ab by (intro nth_equalityI) (auto simp: nth_update_if)
  then show ?case
    using ab pid n l r lowest_freed [OF sf, of 1] lowest_freed [OF sf, of 0]
      close_pipe [of fds a b' 1 ?R ?W None ?W] close_pipe [of fds a b' 0 ?R ?W None ?R]
    by (simp add: run_fork1)
qed

section \<open>What the parser makes\<close>

definition redirs_std :: "redir list \<Rightarrow> bool" where
  "redirs_std rs \<longleftrightarrow> list_all (\<lambda>(q, eq, m, fd). fd < 2) rs"

lemma redirs_std_simps [simp]:
  "redirs_std []" "redirs_std ((q, eq, m, fd) # rs) \<longleftrightarrow> fd < 2 \<and> redirs_std rs" "redirs_std (rs @ rs') \<longleftrightarrow> redirs_std rs \<and> redirs_std rs'"
  by (auto simp: redirs_std_def)

lemma parseredirs_std: "parseredirs buf ps = Inr (rs, s) \<Longrightarrow> redirs_std rs"
proof (induction "length buf - ps" arbitrary: ps rs rule: less_induct)
  case less
  from less(2) show ?case by (cases rule: parseredirs_step) (use less(1) in auto)
qed

lemma parseargs_std: "parseargs buf argc ps = Inr (ws, rs, s) \<Longrightarrow> redirs_std rs"
proof (induction "MAXARGS - argc" arbitrary: argc ps ws rs rule: less_induct)
  case less
  from less(2) show ?case
    by (cases rule: parseargs_step) (use less(1) [of "argc + 1"] in \<open>auto dest: parseredirs_std\<close>)
qed

lemma redirs_ok_fold: "redirs_ok (foldl redircmd c rs) \<longleftrightarrow> redirs_ok c \<and> redirs_std rs"
proof (induction rs arbitrary: c)
  case (Cons r rs)
  obtain q eq m fd where "r = (q, eq, m, fd)" by (cases r)
  then show ?case using Cons by (auto simp: redircmd_def)
qed simp

definition sane :: "(cmd \<times> nat) parse option \<Rightarrow> bool" where
  "sane r \<longleftrightarrow> (\<forall>c s. r = Some (Inr (c, s)) \<longrightarrow> redirs_ok c)"

lemma sane_simps [simp]: "sane None" "sane (Some (Inl m))" "sane (Some (Inr (c, s))) \<longleftrightarrow> redirs_ok c"
  by (auto simp: sane_def)

lemma sane_bind: "sane r \<Longrightarrow> (\<And>c s. redirs_ok c \<Longrightarrow> sane (f (c, s))) \<Longrightarrow> sane (pbind r f)"
  unfolding sane_def pbind_def by (auto split: option.splits sum.splits) blast

lemma redirs_sane: "redirs_ok c \<Longrightarrow> sane (pbind (Some (parseredirs buf p)) (\<lambda>(rs, s). Some (Inr (foldl redircmd c rs, s))))"
  by (auto simp: pbind_def redirs_ok_fold split: sum.splits dest: parseredirs_std)

lemma parsebacks_redirs: "parsebacks buf c ps = (c1, s) \<Longrightarrow> redirs_ok c \<Longrightarrow> redirs_ok c1"
proof (induction "length buf - ps" arbitrary: ps c rule: less_induct)
  case less
  obtain b s0 where pk: "peek [38] buf ps = (b, s0)" by (cases "peek [38] buf ps")
  obtain tok a d s1 where g: "gettoken buf s0 = (tok, a, d, s1)" by (cases "gettoken buf s0")
  show ?case
  proof (cases b)
    case True
    then have "length buf - s1 < length buf - ps" using token_dec [of s0 _ buf ps] pk g by metis
    then show ?thesis using less(1) [of s1 "BACK c"] less(2,3) True pk g by (subst (asm) (2) parsebacks.simps) simp
  next
    case False
    then show ?thesis using less(2,3) pk by (subst (asm) parsebacks.simps) simp
  qed
qed

lemma parse_sane:
  "sane (parseline k buf ps) \<and> sane (parsepipe k buf ps) \<and> sane (parseexec k buf ps) \<and> sane (parseblock k buf ps)"
proof (induction k arbitrary: ps)
  case (Suc k)
  then have IH: "sane (parseline k buf q)" "sane (parsepipe k buf q)" "sane (parseexec k buf q)" "sane (parseblock k buf q)" for q
    by blast+
  have "sane (parseline (Suc k) buf ps)"
    using IH by (auto split: prod.splits intro!: sane_bind) (metis parsebacks_redirs)+
  moreover have "sane (parsepipe (Suc k) buf ps)"
    using IH by (auto split: prod.splits intro!: sane_bind)
  moreover have "sane (parseblock (Suc k) buf ps)"
    using IH by (auto split: prod.splits intro!: sane_bind redirs_sane)
  moreover have "sane (parseexec (Suc k) buf ps)"
    using IH by (auto split: prod.splits sum.splits simp: pbind_def redirs_ok_fold dest: parseredirs_std parseargs_std)
  ultimately show ?case by blast
qed simp

lemma parsecmd_sane: "parsecmd k buf = Some (Inr (c, b)) \<Longrightarrow> redirs_ok c"
  using parse_sane [of k buf 0]
  by (auto simp: parsecmd_def pbind_def sane_def split: option.splits sum.splits prod.splits if_splits)

section \<open>The main loop\<close>

lemma gets_line:
  assumes "10 \<notin> set xs" and "13 \<notin> set xs" and "length xs < n"
  shows "gets n (xs @ 10 # inp) = (xs @ [10], inp)"
  using assms
proof (induction xs arbitrary: n)
  case Nil
  then show ?case by (cases n) simp_all
next
  case (Cons x xs)
  then show ?case by (cases n) auto
qed

lemma panic_message: "printf (chars ''%s'' @ [10]) [ArgStr w] = Inr (w @ [10])"
  by (simp add: chars_def printf_def putc_def arg_str_def)

lemma prompt: "printf (chars ''$ '') [] = Inr (chars ''$ '')"
  by (simp add: chars_def printf_def putc_def)

text \<open>What the child does with a line.\<close>

definition line_events :: "u8 list \<Rightarrow> uenv \<Rightarrow> nat list \<Rightarrow> fdt \<Rightarrow> (cmd \<times> u8 list) parse \<Rightarrow> uevent list" where
  "line_events l e path fds r =
     (case r of Inl m \<Rightarrow> [EvWrite (fds ! 2) (chars m @ [10])] | Inr (c, b) \<Rightarrow> plumb b c e path fds)"

lemma child_events:
  assumes "stdio fds" and "pipe_room fds" and "\<And>p. 0 < e_pid e p" and "0 \<notin> set l"
  shows "\<exists>r. parsecmd (4 * length l + 4) l = Some r \<and> run (sh_child l) e path fds = line_events l e path fds r"
proof -
  have "comes_out (parsecmd (4 * length l + 4) l)"
    unfolding parsecmd_def using parse_total [of l 0 "4 * length l + 4"] by (auto split: prod.splits intro!: pbind_total)
  then obtain r where r: "parsecmd (4 * length l + 4) l = Some r" by (auto simp: comes_out_def)
  have tw: "takeWhile (\<lambda>c. c \<noteq> 0) l = l" using assms(4) by (auto simp: takeWhile_eq_all_conv)
  have "run (sh_child l) e path fds = line_events l e path fds r"
  proof (cases r)
    case (Inl m)
    then show ?thesis using r by (simp add: sh_child_def tw line_events_def sh_panic_def run_say [OF panic_message])
  next
    case (Inr x)
    obtain c b where x: "x = (c, b)" by (cases x)
    then have "redirs_ok c" using r Inr parsecmd_sane by blast
    then show ?thesis using r Inr x plumbing [OF assms(1,2) _ assms(3)] by (simp add: sh_child_def tw line_events_def)
  qed
  then show ?thesis using r by blast
qed

section \<open>From init to the prompt\<close>

text \<open>The descriptors that \<^verbatim>\<open>init\<close> gives to the shell: three times the console.\<close>

definition console_fds :: fdt where
  "console_fds = replicate 3 (Some (UFile (chars ''console'') O_RDWR)) @ replicate 13 None"

lemma console_fds_ok: "stdio console_fds" "pipe_room console_fds"
proof -
  show "stdio console_fds" by (simp add: stdio_def console_fds_def NOFILE_def nth_append)
  show "pipe_room console_fds"
    unfolding pipe_room_def by (intro exI [of _ 3] exI [of _ 4]) (simp add: console_fds_def NOFILE_def nth_append)
qed

lemma init_message: "printf (chars ''init: starting sh'' @ [10]) [] = Inr (chars ''init: starting sh'' @ [10])"
  by (simp add: chars_def printf_def putc_def)

lemma init_opens:
  fixes f :: ufile
  shows "lowest (replicate NOFILE None) = Some 0" "lowest (Some f # replicate 15 None) = Some 1"
    "lowest (Some f # Some f # replicate 14 None) = Some 2"
  by (auto simp: lowest_Some NOFILE_def less_Suc_eq numeral_2_eq_2)

text \<open>In a process without open files, \<^verbatim>\<open>init\<close> starts the shell with these descriptors.\<close>

lemma init_starts_shell:
  assumes "e_open e (chars ''console'') O_RDWR = Some rs" and "e_exec e (chars ''sh'') [chars ''sh'']" and "\<And>p. 0 < e_pid e p"
  shows "run (init_main (Suc n) m) e path (replicate NOFILE None) =
    [EvWrite (console_fds ! 1) (chars ''init: starting sh'' @ [10]), EvExec (chars ''sh'') [chars ''sh''] console_fds]
    @ run (init_wait m (e_pid e path) (init_loop n m)) e (1 # path) console_fds"
proof -
  define c where "c = Some (UFile (chars ''console'') O_RDWR)"
  define f1 f2 where "f1 = c # replicate 15 None" and "f2 = c # c # replicate 14 None"
  have u: "(replicate NOFILE None)[0 := c] = f1" "f1[1 := c] = f2" "f2[2 := c] = console_fds" "f1 ! 0 = c" "f2 ! 0 = c"
    by (simp_all add: NOFILE_def console_fds_def f1_def f2_def numeral_eq_Suc flip: c_def)
  have l: "lowest f1 = Some 1" "lowest f2 = Some 2" unfolding f1_def f2_def c_def by (rule init_opens)+
  have "\<not> e_pid e path < 0" "e_pid e path \<noteq> 0" using assms(3) [of path] by auto
  then show ?thesis
    using assms(1,2) u l by (simp add: init_main_def Let_def failed_def init_opens run_say [OF init_message] c_def)
qed

text \<open>The shell then opens the console once more, closes it again, and starts its loop.\<close>

lemma sh_main_starts:
  assumes "stdio fds" and "lowest fds = Some n" and "e_open e (chars ''console'') O_RDWR = Some rs"
  shows "run (sh_main inp) e path fds = run (sh_loop inp) e path fds"
proof -
  note l = lowest_stdio [OF assms(1,2)]
  have "fds[n := Some f, n := None] = fds" for f using l by (simp add: list_update_same_conv)
  then show ?thesis using assms(2,3) l(1) by (simp add: sh_main_def)
qed

section \<open>Properties\<close>

text \<open>
  \<^bold>\<open>C19.\<close> The shell runs what is typed. For a line that is not a \<^verbatim>\<open>cd\<close>, it writes the prompt, a child runs the
  parsed command, and the shell waits, with its own descriptors unchanged, and goes on with the next line. In the
  child, each program is executed with exactly the descriptors the command asks for: those of the shell, with the files of the
  redirections and the one end of each pipe in place of standard input and output, and no other descriptor of a pipe left
  open anywhere, also not in the processes of the shell that wait. A line that is not a command is answered with an
  error message.
\<close>

theorem shell_runs_line:
  assumes "stdio fds" and "pipe_room fds" and "\<And>p. 0 < e_pid e p"
    and "set xs \<inter> {0, 10, 13} = {}" and "length xs < 99" and "l = xs @ [10]" and "take 3 l \<noteq> chars ''cd ''"
  shows "\<exists>r. parsecmd (4 * length l + 4) l = Some r
    \<and> run (sh_loop (l @ inp)) e path fds = [EvWrite (fds ! 2) (chars ''$ '')] @ line_events l e (0 # path) fds r
        @ [EvWait fds] @ run (sh_loop inp) e (1 # path) fds"
proof -
  have "0 \<notin> set l" using assms(4,6) by auto
  then obtain r where r: "parsecmd (4 * length l + 4) l = Some r" "run (sh_child l) e (0 # path) fds = line_events l e (0 # path) fds r"
    using child_events [OF assms(1-3)] by blast
  have "getcmd 100 (l @ inp) = Some (l, inp)"
    using gets_line [of xs 99 inp] assms(4-6) by (cases xs) (auto simp: getcmd_def)
  moreover have "e_pid e path \<noteq> -1" "e_pid e path \<noteq> 0" using assms(3) [of path] by auto
  ultimately have "run (sh_loop (l @ inp)) e path fds = [EvWrite (fds ! 2) (chars ''$ '')] @ line_events l e (0 # path) fds r
        @ [EvWait fds] @ run (sh_loop inp) e (1 # path) fds"
    using r(2) assms(7) by (simp add: sh_loop.simps [of "l @ inp"] run_say [OF prompt] run_fork1)
  then show ?thesis using r(1) by blast
qed

text \<open>The line \<^verbatim>\<open>ls|wc\<close> with two programs that exist.\<close>

lemma ls_wc: "parsecmd 28 [108, 115, 124, 119, 99, 10]
    = Some (Inr (PIPE (EXEC [(0, 2)]) (EXEC [(3, 5)]), [108, 115, 0, 119, 99, 0, 0]))"
  by code_simp

lemma plain_fds_room: "pipe_room plain_fds"
  unfolding pipe_room_def by (intro exI [of _ 3] exI [of _ 4]) (simp add: plain_fds_def NOFILE_def)

theorem shell_runs_line_witness:
  "run (sh_loop [108, 115, 124, 119, 99, 10]) plain_env [] plain_fds =
     [EvWrite (Some (UGiven 2)) (chars ''$ ''),
      EvExec [108, 115] [[108, 115]] (plain_fds[1 := Some (UPipeW [0])]), EvExec [119, 99] [[119, 99]] (plain_fds[0 := Some (UPipeR [0])]),
      EvWait plain_fds, EvWait plain_fds, EvWait plain_fds, EvWrite (Some (UGiven 2)) (chars ''$ '')]"
proof -
  have "0 < e_pid plain_env p" for p by (simp add: plain_env_def)
  from shell_runs_line [OF plain_fds_stdio plain_fds_room this, of "[108, 115, 124, 119, 99]" "[108, 115, 124, 119, 99, 10]" "[]" "[]"]
  have "run (sh_loop [108, 115, 124, 119, 99, 10]) plain_env [] plain_fds = [EvWrite (plain_fds ! 2) (chars ''$ '')]
      @ line_events [108, 115, 124, 119, 99, 10] plain_env [0] plain_fds (Inr (PIPE (EXEC [(0, 2)]) (EXEC [(3, 5)]), [108, 115, 0, 119, 99, 0, 0]))
      @ [EvWait plain_fds] @ run (sh_loop []) plain_env [1] plain_fds"
    using ls_wc by (simp add: chars_def)
  moreover have "run (sh_loop []) plain_env [1] plain_fds = [EvWrite (plain_fds ! 2) (chars ''$ '')]"
    by (simp add: sh_loop.simps [of "[]"] run_say [OF prompt] getcmd_def)
  ultimately show ?thesis by (simp add: line_events_def str_at_def plain_env_def plain_fds_def)
qed

end
