(* ===== verification/Mkfs.thy ===== *)
theory Mkfs
  imports Fs_Dir
begin

text \<open>
  The program \<^verbatim>\<open>mkfs.c\<close> of the host, which builds the file system image that the kernel boots from. The
  image is the list of its sectors; structures on it are those of \<open>Fs\<close>. The host is little-endian, its
  \<^verbatim>\<open>lseek\<close> and \<^verbatim>\<open>write\<close> succeed, and a read behind the end of the image fails. A failed assertion and
  \<^verbatim>\<open>exit(1)\<close> after a message are the result \<open>Inl (Panic msg)\<close>.
\<close>

section \<open>Parameters and state\<close>

definition mk_nblocks :: u32 where "mk_nblocks = 995"
definition mk_ninodes :: u32 where "mk_ninodes = 200"
definition mk_size :: u32 where "mk_size = 1024"

record mkfs =
  m_img :: "u8 list list"
  m_freeblock :: u32
  m_usedblocks :: u32
  m_freeinode :: u32

text \<open>Conversion to the byte order of the Intel, through the bytes of the result.\<close>

definition xshort :: "u16 \<Rightarrow> u16" where
  "xshort x = get16 0 [ucast x, ucast (drop_bit 8 x)]"

definition xint :: "u32 \<Rightarrow> u32" where
  "xint x = le32 (ucast x) (ucast (drop_bit 8 x)) (ucast (drop_bit 16 x)) (ucast (drop_bit 24 x))"

section \<open>Sectors\<close>

text \<open>Writing behind the end of the file extends it, with zeros in between.\<close>

definition wsect :: "u32 \<Rightarrow> u8 list \<Rightarrow> mkfs \<Rightarrow> mkfs" where
  "wsect sec buf st =
     (let img = m_img st @ replicate (unat sec + 1 - length (m_img st)) (replicate 512 0)
      in st\<lparr>m_img := img[unat sec := buf]\<rparr>)"

definition rsect :: "u32 \<Rightarrow> mkfs \<Rightarrow> u8 list res" where
  "rsect sec st = (if unat sec < length (m_img st) then Inr (m_img st ! unat sec) else Inl (Panic ''read''))"

definition i2b :: "u32 \<Rightarrow> u32" where
  "i2b inum = inum div of_nat IPB + 2"

definition winode :: "u32 \<Rightarrow> dinode \<Rightarrow> mkfs \<Rightarrow> mkfs res" where
  "winode inum di st =
     rbind (rsect (i2b inum) st) (\<lambda>buf.
     Inr (wsect (i2b inum) (put_dinode (64 * (unat inum mod IPB)) di buf) st))"

definition rinode :: "u32 \<Rightarrow> mkfs \<Rightarrow> dinode res" where
  "rinode inum st = rbind (rsect (i2b inum) st) (\<lambda>buf. Inr (get_dinode (64 * (unat inum mod IPB)) buf))"

section \<open>Allocation\<close>

definition mk_ialloc :: "u16 \<Rightarrow> mkfs \<Rightarrow> (u32 \<times> mkfs) res" where
  "mk_ialloc type st =
     (let inum = m_freeinode st; st1 = st\<lparr>m_freeinode := inum + 1\<rparr>;
          din = \<lparr>d_type = xshort type, d_major = 0, d_minor = 0, d_nlink = xshort 1, d_size = xint 0, d_addrs = replicate NADDRS 0\<rparr>
      in rbind (winode inum din st1) (\<lambda>st2. Inr (inum, st2)))"

text \<open>The bitmap with the first \<open>used\<close> blocks marked.\<close>

definition mk_bitmap :: "nat \<Rightarrow> u8 list" where
  "mk_bitmap used = fold (\<lambda>i buf. buf[i div 8 := buf ! (i div 8) OR push_bit (i mod 8) 1]) [0..<used] (replicate 512 0)"

definition mk_balloc :: "u32 \<Rightarrow> mkfs \<Rightarrow> mkfs res" where
  "mk_balloc used st =
     (if \<not> sint used < 512 then Inl (Panic ''assert'')
      else Inr (wsect (mk_ninodes div of_nat IPB + 3) (mk_bitmap (nat (sint used))) st))"

section \<open>Appending to a file\<close>

definition take_block :: "mkfs \<Rightarrow> mkfs" where
  "take_block st = st\<lparr>m_freeblock := m_freeblock st + 1, m_usedblocks := m_usedblocks st + 1\<rparr>"

text \<open>The block \<^verbatim>\<open>x\<close> of the image for block \<^verbatim>\<open>fbn\<close> of the file, allocated where there is none.\<close>

definition mk_slot :: "nat \<Rightarrow> dinode \<Rightarrow> mkfs \<Rightarrow> dinode \<times> mkfs" where
  "mk_slot k din st =
     (if xint (d_addrs din ! k) = 0 then (din\<lparr>d_addrs := (d_addrs din)[k := xint (m_freeblock st)]\<rparr>, take_block st)
      else (din, st))"

definition iappend_block :: "nat \<Rightarrow> dinode \<Rightarrow> mkfs \<Rightarrow> (u32 \<times> dinode \<times> mkfs) res" where
  "iappend_block fbn din st =
     (if fbn < NDIRECT then
        let (din1, st1) = mk_slot fbn din st in Inr (xint (d_addrs din1 ! fbn), din1, st1)
      else
        let (din1, st1) = mk_slot INDIRECT din st; a = xint (d_addrs din1 ! INDIRECT); pos = 4 * (fbn - NDIRECT) in
        rbind (rsect a st1) (\<lambda>indirect.
        if get32 pos indirect = 0 then
          let indirect1 = put32 pos (xint (m_freeblock st1)) indirect
          in Inr (xint (get32 pos indirect1), din1, wsect a indirect1 (take_block st1))
        else Inr (xint (get32 pos indirect), din1, st1)))"

definition bcopy :: "u8 list \<Rightarrow> nat \<Rightarrow> u8 list \<Rightarrow> u8 list" where
  "bcopy p pos buf = take pos buf @ p @ drop (pos + length p) buf"

lemma block_rest: "0 < (unat off div 512 + 1) * 512 - unat (off :: u32)"
  using dividend_less_div_times [of 512 "unat off"] by simp

function iappend_loop :: "u8 list \<Rightarrow> u32 \<Rightarrow> dinode \<Rightarrow> mkfs \<Rightarrow> (u32 \<times> dinode \<times> mkfs) res" where
  "iappend_loop p off din st =
     (if p = [] then Inr (off, din, st)
      else
        let fbn = unat off div 512; n1 = min (length p) ((fbn + 1) * 512 - unat off) in
        if \<not> fbn < MAXFILE then Inl (Panic ''assert'')
        else
          rbind (iappend_block fbn din st) (\<lambda>(x, din1, st1).
          rbind (rsect x st1) (\<lambda>buf.
          iappend_loop (drop n1 p) (off + of_nat n1) din1 (wsect x (bcopy (take n1 p) (unat off - fbn * 512) buf) st1))))"
  by pat_completeness auto

termination
proof (relation "measure (\<lambda>(p, _). length p)", goal_cases)
  case (2 p off)
  then show ?case using block_rest [of off] by (cases p) (auto simp: Let_def)
qed simp

declare iappend_loop.simps [simp del]

definition iappend :: "u32 \<Rightarrow> u8 list \<Rightarrow> mkfs \<Rightarrow> mkfs res" where
  "iappend inum p st =
     rbind (rinode inum st) (\<lambda>din.
     rbind (iappend_loop p (xint (d_size din)) din st) (\<lambda>(off, din1, st1).
     winode inum (din1\<lparr>d_size := xint off\<rparr>) st1))"

section \<open>The program\<close>

definition mk_dirent :: "u32 \<Rightarrow> u8 list \<Rightarrow> u8 list" where
  "mk_dirent inum name =
     (let nm = take DIRSIZ name in put16 0 (xshort (ucast inum)) (replicate 2 0 @ nm @ replicate (DIRSIZ - length nm) 0))"

text \<open>The copying loop of \<^verbatim>\<open>main\<close>; the chunks are what \<^verbatim>\<open>read(fd, buf, 512)\<close> gives until the end of the file.\<close>

primrec mk_copy :: "u32 \<Rightarrow> u8 list list \<Rightarrow> mkfs \<Rightarrow> mkfs res" where
  "mk_copy inum [] st = Inr st"
| "mk_copy inum (c # cs) st = (if c = [] then Inr st else rbind (iappend inum c st) (mk_copy inum cs))"

definition skip_underscore :: "u8 list \<Rightarrow> u8 list" where
  "skip_underscore name = (case name of [] \<Rightarrow> [] | c # cs \<Rightarrow> if c = 95 then cs else name)"

text \<open>\<open>host\<close> opens a file of the host: \<^verbatim>\<open>None\<close> if it cannot be opened.\<close>

primrec mk_files :: "(u8 list \<Rightarrow> u8 list list option) \<Rightarrow> u32 \<Rightarrow> u8 list list \<Rightarrow> mkfs \<Rightarrow> mkfs res" where
  "mk_files host rootino [] st = Inr st"
| "mk_files host rootino (a # as) st =
     (if slash \<in> set a then Inl (Panic ''assert'')
      else case host a of None \<Rightarrow> Inl (Panic ''open'') | Some chunks \<Rightarrow>
        rbind (mk_ialloc T_FILE st) (\<lambda>(inum, st1).
        rbind (iappend rootino (mk_dirent inum (skip_underscore a)) st1) (\<lambda>st2.
        rbind (mk_copy inum chunks st2) (mk_files host rootino as))))"

definition fix_root :: "u32 \<Rightarrow> mkfs \<Rightarrow> mkfs res" where
  "fix_root rootino st =
     rbind (rinode rootino st) (\<lambda>din.
     winode rootino (din\<lparr>d_size := xint ((xint (d_size din) div of_nat BSIZE + 1) * of_nat BSIZE)\<rparr>) st)"

text \<open>
  \<open>argv\<close> has the name of the program at its head. \<open>opened\<close> says whether the image could be created;
  \<open>junk\<close> are the 500 bytes that follow the superblock in the memory of the program and are written with it.
\<close>

definition mkfs_main :: "bool \<Rightarrow> u8 list \<Rightarrow> (u8 list \<Rightarrow> u8 list list option) \<Rightarrow> u8 list list \<Rightarrow> mkfs res" where
  "mkfs_main opened junk host argv =
     (if length argv < 2 then Inl (Panic ''Usage: mkfs fs.img files...'')
      else if \<not> opened then Inl (Panic ''open'')
      else
        let bitblocks = mk_size div (512 * 8) + 1;
            usedblocks = mk_ninodes div of_nat IPB + 3 + bitblocks;
            st0 = \<lparr>m_img = [], m_freeblock = usedblocks, m_usedblocks = usedblocks, m_freeinode = 1\<rparr> in
        if mk_nblocks + usedblocks \<noteq> mk_size then Inl (Panic ''assert'')
        else
          let st1 = fold (\<lambda>i. wsect (of_nat i) (replicate 512 0)) [0..<unat (mk_nblocks + usedblocks)] st0;
              sb = put32 0 (xint mk_size) (put32 4 (xint mk_nblocks) (put32 8 (xint mk_ninodes) (replicate 12 0)));
              st2 = wsect 1 (sb @ junk) st1 in
          rbind (mk_ialloc T_DIR st2) (\<lambda>(rootino, st3).
          if rootino \<noteq> 1 then Inl (Panic ''assert'')
          else
            rbind (iappend rootino (mk_dirent rootino [46]) st3) (\<lambda>st4.
            rbind (iappend rootino (mk_dirent rootino [46, 46]) st4) (\<lambda>st5.
            rbind (mk_files host rootino (drop 2 argv) st5) (\<lambda>st6.
            rbind (fix_root rootino st6) (\<lambda>st7.
            mk_balloc (m_usedblocks st7) st7))))))"

end
