(* ===== verification/Mkfs_Append.thy ===== *)
theory Mkfs_Append
  imports Mkfs Fs_Grow
begin

text \<open>
  Files on the image of \<^verbatim>\<open>mkfs\<close>: which blocks a file owns, and how \<^verbatim>\<open>iappend\<close> extends it, through the
  direct blocks and the indirect block.
\<close>

section \<open>Byte order, sectors, inodes\<close>

lemma xshort_id [simp]: "xshort x = x"
  using get16_put16_same [of 0 "[0, 0]" x] by (simp add: xshort_def put16_def)

lemma xint_id [simp]: "xint x = x"
  using get32_put32_same [of 0 "[0, 0, 0, 0]" x] by (simp add: xint_def get32_def put32_def byte_of_def)

lemma wsect_img [simp]: "unat sec < length (m_img st) \<Longrightarrow> m_img (wsect sec buf st) = (m_img st)[unat sec := buf]"
  by (simp add: wsect_def Let_def)

lemma wsect_rest [simp]:
  "m_freeblock (wsect sec buf st) = m_freeblock st" "m_usedblocks (wsect sec buf st) = m_usedblocks st"
  "m_freeinode (wsect sec buf st) = m_freeinode st"
  by (simp_all add: wsect_def Let_def)

lemma rsect_ok [simp]: "unat sec < length (m_img st) \<Longrightarrow> rsect sec st = Inr (m_img st ! unat sec)"
  by (simp add: rsect_def)

lemma take_block_rest [simp]:
  "m_img (take_block st) = m_img st" "m_freeinode (take_block st) = m_freeinode st"
  "m_freeblock (take_block st) = m_freeblock st + 1" "m_usedblocks (take_block st) = m_usedblocks st + 1"
  by (simp_all add: take_block_def)

section \<open>Contents in blocks\<close>

text \<open>Block \<open>k\<close> of a file with the bytes \<open>c\<close>, filled up with zeros.\<close>

definition padded :: "u8 list \<Rightarrow> nat \<Rightarrow> u8 list" where
  "padded c k = take 512 (drop (512 * k) c @ replicate 512 0)"

lemma padded_length [simp]: "length (padded c k) = 512"
  by (simp add: padded_def)

lemma padded_nth: "j < 512 \<Longrightarrow> padded c k ! j = (if 512 * k + j < length c then c ! (512 * k + j) else 0)"
  by (auto simp: padded_def nth_append)

lemma padded_zero: "length c \<le> 512 * k \<Longrightarrow> padded c k = replicate 512 0"
  by (simp add: padded_def)

text \<open>Appending bytes that fit into the last block changes that block only.\<close>

lemma padded_append:
  assumes "length c div 512 = b" and "length c mod 512 + length p \<le> 512"
  shows "padded (c @ p) k = (if k = b then bcopy p (length c mod 512) (padded c b) else padded c k)"
proof (rule nth_equalityI)
  have len: "length (bcopy p (length c mod 512) (padded c b)) = 512" using assms(2) by (simp add: bcopy_def)
  then show "length (padded (c @ p) k) = length (if k = b then bcopy p (length c mod 512) (padded c b) else padded c k)" by simp
  fix j assume "j < length (padded (c @ p) k)"
  then have j: "j < 512" by simp
  have c: "length c = 512 * b + length c mod 512" unfolding assms(1) [symmetric] by simp
  show "padded (c @ p) k ! j = (if k = b then bcopy p (length c mod 512) (padded c b) else padded c k) ! j"
  proof (cases "k = b")
    case True
    moreover have "512 * b + j - length c = j - length c mod 512" using c by linarith
    ultimately show ?thesis
      using j c assms(2) by (auto simp: padded_nth bcopy_def nth_append)
  next
    case False
    then have "k < b \<or> b < k" by auto
    then have "512 * k + j < length c \<or> length (c @ p) \<le> 512 * k + j"
    proof
      assume "k < b"
      then have "512 * k + 512 \<le> 512 * b" by simp
      then show ?thesis using j c by linarith
    next
      assume "b < k"
      then have "512 * b + 512 \<le> 512 * k" by simp
      then show ?thesis using c assms(2) by simp
    qed
    then show ?thesis using False j by (auto simp: padded_nth nth_append)
  qed
qed

section \<open>The blocks of a file\<close>

definition mapped :: "u8 list list \<Rightarrow> dinode \<Rightarrow> nat list \<Rightarrow> nat \<Rightarrow> u8 list \<Rightarrow> bool" where
  "mapped img di ds ind c \<longleftrightarrow> length (d_addrs di) = NADDRS \<and> length ds \<le> MAXFILE
     \<and> (\<forall>k < NDIRECT. d_addrs di ! k = (if k < length ds then of_nat (ds ! k) else 0))
     \<and> d_addrs di ! INDIRECT = of_nat ind \<and> (ind \<noteq> 0 \<longleftrightarrow> NDIRECT < length ds)
     \<and> (ind \<noteq> 0 \<longrightarrow> (\<forall>j < NINDIRECT. get32 (4 * j) (img ! ind) = (if NDIRECT + j < length ds then of_nat (ds ! (NDIRECT + j)) else 0)))
     \<and> (\<forall>k < length ds. img ! (ds ! k) = padded c k)"

abbreviation fbk :: "mkfs \<Rightarrow> nat" where "fbk st \<equiv> unat (m_freeblock st)"

definition image_ok :: "mkfs \<Rightarrow> bool" where
  "image_ok st \<longleftrightarrow> length (m_img st) = 1024 \<and> (\<forall>b < 1024. length (m_img st ! b) = 512) \<and> m_usedblocks st = m_freeblock st
     \<and> 29 \<le> fbk st \<and> fbk st \<le> 1024 \<and> (\<forall>b. fbk st \<le> b \<longrightarrow> b < 1024 \<longrightarrow> m_img st ! b = replicate 512 0)"

definition owns :: "mkfs \<Rightarrow> nat list \<Rightarrow> nat \<Rightarrow> bool" where
  "owns st ds ind \<longleftrightarrow> distinct (own_list ds ind) \<and> set (own_list ds ind) \<subseteq> {29..<fbk st}"

text \<open>A file has grown: it owns new blocks only, and only its blocks have changed.\<close>

definition grown :: "mkfs \<Rightarrow> nat list \<Rightarrow> nat \<Rightarrow> mkfs \<Rightarrow> nat list \<Rightarrow> nat \<Rightarrow> bool" where
  "grown st ds ind st' ds' ind' \<longleftrightarrow> fbk st \<le> fbk st' \<and> m_freeinode st' = m_freeinode st
     \<and> (\<forall>b < fbk st. b \<notin> set (own_list ds ind) \<longrightarrow> m_img st' ! b = m_img st ! b)
     \<and> set (own_list ds' ind') \<subseteq> set (own_list ds ind) \<union> {fbk st..<fbk st'}"

lemma grown_refl [simp]: "grown st ds ind st ds ind"
  by (simp add: grown_def)

lemma grown_trans:
  assumes "grown st ds ind st1 ds1 ind1" and "grown st1 ds1 ind1 st2 ds2 ind2"
  shows "grown st ds ind st2 ds2 ind2"
proof -
  have "m_img st2 ! b = m_img st ! b" if "b < fbk st" "b \<notin> set (own_list ds ind)" for b
  proof -
    have "b \<notin> set (own_list ds1 ind1)" "b < fbk st1" using assms(1) that by (auto simp: grown_def)
    then show ?thesis using assms that by (simp add: grown_def)
  qed
  moreover have "set (own_list ds2 ind2) \<subseteq> set (own_list ds ind) \<union> {fbk st..<fbk st2}"
  proof
    fix b assume "b \<in> set (own_list ds2 ind2)"
    then have "b \<in> set (own_list ds1 ind1) \<union> {fbk st1..<fbk st2}" using assms(2) by (auto simp: grown_def)
    then show "b \<in> set (own_list ds ind) \<union> {fbk st..<fbk st2}" using assms unfolding grown_def by fastforce
  qed
  ultimately show ?thesis using assms by (simp add: grown_def)
qed

definition same_meta :: "dinode \<Rightarrow> dinode \<Rightarrow> bool" where
  "same_meta di di' \<longleftrightarrow> (\<exists>as. di' = di\<lparr>d_addrs := as\<rparr>)"

lemma same_meta_refl [simp]: "same_meta di di"
  unfolding same_meta_def by (rule exI [of _ "d_addrs di"]) simp

lemma same_meta_trans: "same_meta a b \<Longrightarrow> same_meta b c \<Longrightarrow> same_meta a c"
  unfolding same_meta_def by force

section \<open>Finding or allocating a block\<close>

lemma take_block_ok: "image_ok st \<Longrightarrow> fbk st < 1024 \<Longrightarrow> image_ok (take_block st) \<and> fbk (take_block st) = fbk st + 1"
  by (auto simp: image_ok_def unat_add_u32)

text \<open>The block is there already.\<close>

lemma block_there:
  assumes "image_ok st" and "mapped (m_img st) di ds ind c" and "owns st ds ind" and "fbn < length ds"
  shows "iappend_block fbn di st = Inr (of_nat (ds ! fbn), di, st)"
proof -
  have b: "ds ! fbn \<in> {29..<fbk st}" using assms(3,4) nth_mem unfolding owns_def own_list_def by fastforce
  have r: "29 \<le> fbk st" "fbk st \<le> 1024" "length (m_img st) = 1024" using assms(1) by (auto simp: image_ok_def)
  have nz: "(of_nat (ds ! fbn) :: u32) \<noteq> 0"
    using b r of_nat_eq_u32 [of "ds ! fbn" 0] by auto
  show ?thesis
  proof (cases "fbn < NDIRECT")
    case True
    then have "d_addrs di ! fbn = of_nat (ds ! fbn)" using assms(2,4) by (simp add: mapped_def)
    then show ?thesis using True nz by (simp add: iappend_block_def mk_slot_def)
  next
    case False
    then have i0: "ind \<noteq> 0" using assms(2,4) by (simp add: mapped_def)
    then have i: "ind \<in> {29..<fbk st}" using assms(3) by (auto simp: owns_def own_list_def)
    have iz: "(of_nat ind :: u32) \<noteq> 0" "unat (of_nat ind :: u32) = ind" using i r of_nat_eq_u32 [of ind 0] by auto
    have "length ds \<le> NDIRECT + NINDIRECT" using assms(2) by (simp add: mapped_def MAXFILE_def)
    then have "fbn - NDIRECT < NINDIRECT" using False assms(4) by linarith
    then have "get32 (4 * (fbn - NDIRECT)) (m_img st ! ind) = of_nat (ds ! fbn)"
      using False i0 assms(2,4) by (simp add: mapped_def)
    then show ?thesis
      using False assms(2) nz iz i r by (simp add: iappend_block_def mk_slot_def mapped_def Let_def)
  qed
qed

text \<open>A new data block; \<open>d\<close> is the changed inode or indirect block.\<close>

lemma mapped_cong:
  assumes "mapped img di ds ind c" and "\<And>b. b \<in> set (own_list ds ind) \<Longrightarrow> img' ! b = img ! b"
  shows "mapped img' di ds ind c"
  using assms by (auto simp: mapped_def own_list_def)

lemma owns_add:
  assumes "owns st ds ind" and "fbk st' = fbk st + 1" and "29 \<le> fbk st"
  shows "owns st' (ds @ [fbk st]) ind"
  using assms by (fastforce simp: owns_def own_list_def)

lemma direct_new:
  assumes "image_ok st" and "mapped (m_img st) di ds ind c" and "owns st ds ind" and "fbn = length ds" and "fbn < NDIRECT"
    and "length c \<le> 512 * fbn" and "fbk st < 1024"
    and "di1 = di\<lparr>d_addrs := (d_addrs di)[fbn := m_freeblock st]\<rparr>" and "ds1 = ds @ [fbk st]" and "st1 = take_block st"
  shows "iappend_block fbn di st = Inr (of_nat (ds1 ! fbn), di1, st1)" and "mapped (m_img st1) di1 ds1 ind c"
proof -
  have l: "length (d_addrs di) = NADDRS" "fbn < NADDRS" "ind = 0"
    using assms(2,4,5) by (auto simp: mapped_def NADDRS_def)
  have z: "d_addrs di ! fbn = 0" using assms(2,4,5) by (simp add: mapped_def)
  show "iappend_block fbn di st = Inr (of_nat (ds1 ! fbn), di1, st1)"
    using assms(4,5,8,9,10) l z by (simp add: iappend_block_def mk_slot_def)
  have "m_img st ! fbk st = padded c fbn"
    using assms(1,6,7) by (simp add: image_ok_def padded_zero)
  moreover have "d_addrs di1 ! INDIRECT = d_addrs di ! INDIRECT"
    using assms(5,8) by (simp add: INDIRECT_def NDIRECT_def)
  ultimately show "mapped (m_img st1) di1 ds1 ind c"
    using assms(2,4,5,8,9,10) l
    by (auto simp: mapped_def nth_append nth_list_update less_Suc_eq MAXFILE_def)
qed

lemma indirect_new:
  assumes "image_ok st" and "mapped (m_img st) di ds ind c" and "owns st ds ind" and "fbn = length ds" and "NDIRECT < fbn"
    and "fbn < MAXFILE" and "length c \<le> 512 * fbn" and "fbk st < 1024"
    and "ds1 = ds @ [fbk st]"
    and "st1 = wsect (of_nat ind) (put32 (4 * (fbn - NDIRECT)) (m_freeblock st) (m_img st ! ind)) (take_block st)"
  shows "iappend_block fbn di st = Inr (of_nat (ds1 ! fbn), di, st1)" and "mapped (m_img st1) di ds1 ind c"
    and "m_img st1 = (m_img st)[ind := put32 (4 * (fbn - NDIRECT)) (m_freeblock st) (m_img st ! ind)]"
proof -
  have r: "29 \<le> fbk st" "fbk st \<le> 1024" "length (m_img st) = 1024" "\<forall>b < 1024. length (m_img st ! b) = 512"
    using assms(1) by (auto simp: image_ok_def)
  have i0: "ind \<noteq> 0" using assms(2,4,5) by (simp add: mapped_def)
  then have i: "ind \<in> {29..<fbk st}" using assms(3) by (auto simp: owns_def own_list_def)
  have iz: "(of_nat ind :: u32) \<noteq> 0" "unat (of_nat ind :: u32) = ind" using i r of_nat_eq_u32 [of ind 0] by auto
  have j: "fbn - NDIRECT < NINDIRECT" using assms(5,6) by (simp add: MAXFILE_def)
  then have z: "get32 (4 * (fbn - NDIRECT)) (m_img st ! ind) = 0"
    using assms(2,4,5) i0 by (simp add: mapped_def)
  have ndi: "\<not> fbn < NDIRECT" using assms(5) by simp
  have p: "4 * (fbn - NDIRECT) + 3 < length (m_img st ! ind)" using j i r by (simp add: NINDIRECT_def)
  show "iappend_block fbn di st = Inr (of_nat (ds1 ! fbn), di, st1)"
    using assms(2,4,9,10) ndi iz i r z p by (simp add: iappend_block_def mk_slot_def mapped_def Let_def)
  show img: "m_img st1 = (m_img st)[ind := put32 (4 * (fbn - NDIRECT)) (m_freeblock st) (m_img st ! ind)]"
    using assms(10) iz i r by simp
  have nin: "ind \<notin> set ds1" using assms(3,9) i0 i by (auto simp: owns_def own_list_def)
  have "m_img st ! fbk st = padded c fbn"
    using assms(1,7,8) by (simp add: image_ok_def padded_zero)
  then have old: "m_img st ! (ds1 ! k) = padded c k" if "k < length ds1" for k
    using assms(2,4,9) that by (auto simp: mapped_def nth_append less_Suc_eq)
  have cont: "\<forall>k < length ds1. m_img st1 ! (ds1 ! k) = padded c k"
  proof (intro allI impI)
    fix k assume k: "k < length ds1"
    then have "ds1 ! k \<noteq> ind" using nin nth_mem by metis
    then show "m_img st1 ! (ds1 ! k) = padded c k" using old [OF k] img by simp
  qed
  have "get32 (4 * k) (m_img st1 ! ind) = (if NDIRECT + k < length ds1 then of_nat (ds1 ! (NDIRECT + k)) else 0)" if "k < NINDIRECT" for k
  proof (cases "k = fbn - NDIRECT")
    case True
    then show ?thesis using img p i r assms(4,5,9) by (simp add: nth_append)
  next
    case False
    then have "get32 (4 * k) (m_img st1 ! ind) = get32 (4 * k) (m_img st ! ind)"
      using img i r get_put_apart(4) [of "4 * k" "4 * (fbn - NDIRECT)"] by (auto simp: nat_neq_iff)
    then show ?thesis using False that i0 assms(2,4,5,9) by (auto simp: mapped_def nth_append)
  qed
  then show "mapped (m_img st1) di ds1 ind c"
    using assms(2,4,5,6,9) i0 cont unfolding mapped_def by (auto simp: nth_append)
qed

lemma indirect_first:
  assumes "image_ok st" and "mapped (m_img st) di ds ind c" and "owns st ds ind" and "NDIRECT = length ds"
    and "length c \<le> 512 * NDIRECT" and "fbk st + 1 < 1024"
    and "di1 = di\<lparr>d_addrs := (d_addrs di)[INDIRECT := m_freeblock st]\<rparr>" and "ds1 = ds @ [fbk st + 1]"
    and "st1 = wsect (m_freeblock st) (put32 0 (m_freeblock st + 1) (replicate 512 0)) (take_block (take_block st))"
  shows "iappend_block NDIRECT di st = Inr (of_nat (ds1 ! NDIRECT), di1, st1)" and "mapped (m_img st1) di1 ds1 (fbk st) c"
    and "m_img st1 = (m_img st)[fbk st := put32 0 (m_freeblock st + 1) (replicate 512 0)]"
proof -
  have r: "29 \<le> fbk st" "length (m_img st) = 1024" "m_img st ! fbk st = replicate 512 0" "m_img st ! (fbk st + 1) = replicate 512 0"
    using assms(1,6) by (auto simp: image_ok_def)
  have l: "length (d_addrs di) = NADDRS" "INDIRECT < NADDRS" "ind = 0"
    using assms(2,4) by (auto simp: mapped_def NADDRS_def INDIRECT_def NDIRECT_def)
  have z: "d_addrs di ! INDIRECT = 0" using assms(2) l by (simp add: mapped_def)
  have nz: "m_freeblock st \<noteq> 0" using r(1) by auto
  have f1: "m_freeblock st + 1 = of_nat (fbk st + 1)" by simp
  have "ds1 ! NDIRECT = fbk st + 1" unfolding assms(4,8) by simp
  then show "iappend_block NDIRECT di st = Inr (of_nat (ds1 ! NDIRECT), di1, st1)"
    using assms(6,7,9) l z nz r by (simp add: iappend_block_def mk_slot_def Let_def get32_zero)
  show img: "m_img st1 = (m_img st)[fbk st := put32 0 (m_freeblock st + 1) (replicate 512 0)]"
    using assms(6,9) r by simp
  have "m_img st ! (fbk st + 1) = padded c NDIRECT" using r(4) assms(5) by (simp add: padded_zero)
  then have old: "m_img st ! (ds1 ! k) = padded c k" if "k < length ds1" for k
    using assms(2,4,8) that by (auto simp: mapped_def nth_append less_Suc_eq)
  have nin: "fbk st \<notin> set ds1" using assms(3,8) by (auto simp: owns_def own_list_def)
  have cont: "\<forall>k < length ds1. m_img st1 ! (ds1 ! k) = padded c k"
  proof (intro allI impI)
    fix k assume k: "k < length ds1"
    then have "ds1 ! k \<noteq> fbk st" using nin nth_mem by metis
    then show "m_img st1 ! (ds1 ! k) = padded c k" using old [OF k] img by simp
  qed
  have "get32 (4 * k) (m_img st1 ! fbk st) = (if NDIRECT + k < length ds1 then of_nat (ds1 ! (NDIRECT + k)) else 0)" if "k < NINDIRECT" for k
  proof (cases "k = 0")
    case True
    then show ?thesis using img r assms(4,6,8) by (simp add: nth_append)
  next
    case False
    then have "get32 (4 * k) (m_img st1 ! fbk st) = 0"
      using img r that assms(6) by (simp add: get_put_apart get32_zero NINDIRECT_def)
    then show ?thesis using False assms(4,8) by simp
  qed
  then show "mapped (m_img st1) di1 ds1 (fbk st) c"
    using assms(2,4,7,8) l r cont unfolding mapped_def
    by (auto simp: nth_append nth_list_update MAXFILE_def NINDIRECT_def INDIRECT_def NDIRECT_def)
qed

text \<open>Together: after \<^verbatim>\<open>iappend_block\<close> the file owns its block \<open>fbn\<close>.\<close>

lemma block_got:
  assumes "image_ok st" and "mapped (m_img st) di ds ind c" and "owns st ds ind" and "fbn \<le> length ds" and "fbn < MAXFILE"
    and "length c \<le> 512 * length ds" and "fbk st + new_blocks (length ds) fbn \<le> 1024"
  shows "\<exists>di1 st1 ds1 ind1. iappend_block fbn di st = Inr (of_nat (ds1 ! fbn), di1, st1) \<and> image_ok st1
    \<and> mapped (m_img st1) di1 ds1 ind1 c \<and> owns st1 ds1 ind1 \<and> length ds1 = max (length ds) (Suc fbn)
    \<and> fbk st1 = fbk st + new_blocks (length ds) fbn \<and> grown st ds ind st1 ds1 ind1 \<and> same_meta di di1"
proof -
  have r: "29 \<le> fbk st" using assms(1) by (simp add: image_ok_def)
  consider "fbn < length ds" | "fbn = length ds" "fbn < NDIRECT" | "fbn = length ds" "NDIRECT < fbn" | "fbn = length ds" "fbn = NDIRECT"
    using assms(4) by linarith
  then show ?thesis
  proof cases
    case 1
    then show ?thesis using block_there [OF assms(1-3)] assms(1-3) by (auto simp: new_blocks_def intro!: exI)
  next
    case 2
    then have fb: "fbk st < 1024" using assms(7) by (simp add: new_blocks_def)
    note t = take_block_ok [OF assms(1) fb]
    have "owns (take_block st) (ds @ [fbk st]) ind" using owns_add [OF assms(3)] t r by simp
    moreover have "grown st ds ind (take_block st) (ds @ [fbk st]) ind" using t by (auto simp: grown_def own_list_def)
    ultimately show ?thesis
      using direct_new [OF assms(1-3) 2 _ fb refl refl refl] assms(6) t 2
      by (intro exI [of _ "di\<lparr>d_addrs := (d_addrs di)[fbn := m_freeblock st]\<rparr>"] exI [of _ "take_block st"] exI [of _ "ds @ [fbk st]"] exI [of _ ind])
         (auto simp: new_blocks_def same_meta_def)
  next
    case 3
    then have fb: "fbk st < 1024" using assms(7) by (simp add: new_blocks_def)
    note t = take_block_ok [OF assms(1) fb]
    define st1 where "st1 = wsect (of_nat ind) (put32 (4 * (fbn - NDIRECT)) (m_freeblock st) (m_img st ! ind)) (take_block st)"
    note n = indirect_new [OF assms(1-3) 3 assms(5) _ fb refl st1_def]
    have i: "ind \<in> set (own_list ds ind)" "ind \<in> {29..<fbk st}" using assms(2,3) 3 by (auto simp: mapped_def owns_def own_list_def)
    have fbe: "fbk st1 = fbk st + 1" using t by (simp add: st1_def)
    have "owns st1 (ds @ [fbk st]) ind" using owns_add [OF assms(3)] fbe r by simp
    moreover have "image_ok st1" "grown st ds ind st1 (ds @ [fbk st]) ind"
      using n(3) assms(1,6) 3 t i fbe by (auto simp: image_ok_def grown_def own_list_def nth_list_update st1_def)
    ultimately show ?thesis
      using n(1,2) assms(6) fbe 3
      by (intro exI [of _ di] exI [of _ st1] exI [of _ "ds @ [fbk st]"] exI [of _ ind]) (auto simp: new_blocks_def)
  next
    case 4
    then have fb: "fbk st + 1 < 1024" using assms(7) by (simp add: new_blocks_def)
    define st1 where "st1 = wsect (m_freeblock st) (put32 0 (m_freeblock st + 1) (replicate 512 0)) (take_block (take_block st))"
    have NL: "NDIRECT = length ds" using 4 by simp
    have le: "length c \<le> 512 * NDIRECT" using assms(6) NL by simp
    have ind: "ind = 0" using assms(2) NL by (simp add: mapped_def)
    note n = indirect_first [OF assms(1-3) NL le fb refl refl st1_def]
    have t: "image_ok (take_block (take_block st))" "fbk (take_block (take_block st)) = fbk st + 2"
      using take_block_ok [OF assms(1)] take_block_ok [of "take_block st"] fb by auto
    have fbe: "fbk st1 = fbk st + 2" using t(2) by (simp add: st1_def)
    have "owns st1 (ds @ [fbk st + 1]) (fbk st)"
      using assms(3) fbe r ind by (fastforce simp: owns_def own_list_def)
    moreover have "image_ok st1" "grown st ds ind st1 (ds @ [fbk st + 1]) (fbk st)"
      using n(3) t assms(1) fb fbe by (auto simp: image_ok_def grown_def own_list_def nth_list_update st1_def)
    ultimately show ?thesis
      using n(1,2) fbe 4 fb
      by (intro exI [of _ "di\<lparr>d_addrs := (d_addrs di)[INDIRECT := m_freeblock st]\<rparr>"] exI [of _ st1] exI [of _ "ds @ [fbk st + 1]"] exI [of _ "fbk st"])
         (auto simp: new_blocks_def same_meta_def)
  qed
qed

section \<open>Appending\<close>

definition file_at :: "mkfs \<Rightarrow> dinode \<Rightarrow> nat list \<Rightarrow> nat \<Rightarrow> u8 list \<Rightarrow> bool" where
  "file_at st di ds ind c \<longleftrightarrow> image_ok st \<and> mapped (m_img st) di ds ind c \<and> owns st ds ind \<and> length ds = nblk (length c)"

text \<open>One round of the loop: the bytes go into the last block of the file, or a new one.\<close>

lemma append_step:
  assumes "file_at st di ds ind c" and "p \<noteq> []" and "length c mod 512 + length p \<le> 512" and "length c < MAXFILE * 512"
    and "fbk st + need (length c + length p) \<le> 1024 + need (length c)"
  shows "\<exists>x di1 st1 buf ds1 ind1 st2. iappend_block (length c div 512) di st = Inr (x, di1, st1) \<and> rsect x st1 = Inr buf
    \<and> st2 = wsect x (bcopy p (length c mod 512) buf) st1 \<and> file_at st2 di1 ds1 ind1 (c @ p)
    \<and> fbk st2 + need (length c) = fbk st + need (length c + length p) \<and> grown st ds ind st2 ds1 ind1 \<and> same_meta di di1"
proof -
  let ?b = "length c div 512"
  have f: "image_ok st" "mapped (m_img st) di ds ind c" "owns st ds ind" and lds: "length ds = nblk (length c)"
    using assms(1) by (auto simp: file_at_def)
  have p: "0 < length p" using assms(2) by simp
  note nb = nblk_step [OF p assms(3)] and ns = need_step [OF p assms(3)]
  have b: "?b \<le> length ds" "?b < MAXFILE" using nb(2) lds assms(4) by (auto simp: div_less_iff_less_mult)
  have cl: "length c \<le> 512 * length ds" unfolding lds nb(2) using div_mult_mod_eq [of "length c" 512] by (auto simp: algebra_simps)
  obtain di1 st1 ds1 ind1 where g: "iappend_block ?b di st = Inr (of_nat (ds1 ! ?b), di1, st1)" "image_ok st1"
      "mapped (m_img st1) di1 ds1 ind1 c" "owns st1 ds1 ind1" "length ds1 = max (length ds) (Suc ?b)"
      "fbk st1 = fbk st + new_blocks (length ds) ?b" "grown st ds ind st1 ds1 ind1" "same_meta di di1"
    using block_got [OF f b cl] assms(5) ns lds by auto
  have x1: "ds1 ! ?b \<in> set (own_list ds1 ind1)" using g(5) nth_mem [of ?b ds1] by (auto simp: own_list_def)
  then have x: "ds1 ! ?b \<in> {29..<fbk st1}" using g(4) unfolding owns_def by blast
  have l: "length (m_img st1) = 1024" "fbk st1 \<le> 1024" using g(2) by (auto simp: image_ok_def)
  have ux: "unat (of_nat (ds1 ! ?b) :: u32) = ds1 ! ?b" "ds1 ! ?b < 1024" using x l by auto
  have buf: "m_img st1 ! (ds1 ! ?b) = padded c ?b" using g(3,5) by (simp add: mapped_def)
  define st2 where "st2 = wsect (of_nat (ds1 ! ?b)) (bcopy p (length c mod 512) (padded c ?b)) st1"
  have img: "m_img st2 = (m_img st1)[ds1 ! ?b := padded (c @ p) ?b]"
    using ux l by (simp add: st2_def padded_append [OF refl assms(3)])
  have dis: "distinct ds1" "ind1 \<notin> set ds1 \<or> ind1 = 0" using g(4) by (auto simp: owns_def own_list_def split: if_splits)
  have "mapped (m_img st2) di1 ds1 ind1 (c @ p)"
  proof -
    have "m_img st2 ! (ds1 ! k) = padded (c @ p) k" if "k < length ds1" for k
    proof (cases "k = ?b")
      case True
      then show ?thesis using img ux l by simp
    next
      case False
      then have "ds1 ! k \<noteq> ds1 ! ?b" using dis(1) that g(5) by (simp add: nth_eq_iff_index_eq)
      then show ?thesis using img False g(3) that padded_append [OF refl assms(3)] by (simp add: mapped_def)
    qed
    moreover have "m_img st2 ! ind1 = m_img st1 ! ind1" if "ind1 \<noteq> 0"
      using img dis(2) that g(5) nth_mem [of ?b ds1] by (cases "ind1 = ds1 ! ?b") auto
    ultimately show ?thesis using g(3) by (auto simp: mapped_def)
  qed
  moreover have "image_ok st2"
    using g(2) img x by (auto simp: image_ok_def st2_def nth_list_update)
  moreover have "owns st2 ds1 ind1" using g(4) by (simp add: owns_def st2_def)
  moreover have "length ds1 = nblk (length (c @ p))" using g(5) lds nb by simp
  moreover have "grown st ds ind st2 ds1 ind1"
  proof (rule grown_trans [OF g(7)])
    have "m_img st2 ! b = m_img st1 ! b" if "b \<notin> set (own_list ds1 ind1)" for b
      using x1 that by (cases "b = ds1 ! ?b") (auto simp: img)
    then show "grown st1 ds1 ind1 st2 ds1 ind1" by (simp add: grown_def st2_def)
  qed
  moreover have "fbk st2 + need (length c) = fbk st + need (length c + length p)" using g(6) ns lds by (simp add: st2_def)
  ultimately show ?thesis
    using g(1,8) buf ux l by (intro exI [of _ "of_nat (ds1 ! ?b)"] exI [of _ di1] exI [of _ st1] exI [of _ "padded c ?b"] exI [of _ ds1] exI [of _ ind1] exI [of _ st2])
      (simp add: file_at_def st2_def)
qed

lemma append_loop:
  assumes "file_at st di ds ind c" and "length c + length p \<le> MAXFILE * 512"
    and "fbk st + need (length c + length p) \<le> 1024 + need (length c)"
  shows "\<exists>di1 st1 ds1 ind1. iappend_loop p (of_nat (length c)) di st = Inr (of_nat (length (c @ p)), di1, st1)
    \<and> file_at st1 di1 ds1 ind1 (c @ p) \<and> fbk st1 + need (length c) = fbk st + need (length c + length p)
    \<and> grown st ds ind st1 ds1 ind1 \<and> same_meta di di1"
  using assms
proof (induction "length p" arbitrary: p c st di ds ind rule: less_induct)
  case less
  show ?case
  proof (cases "p = []")
    case True
    then show ?thesis using less.prems by (subst iappend_loop.simps) (auto intro!: exI)
  next
    case False
    let ?n1 = "min (length p) (512 - length c mod 512)"
    define q where "q = take ?n1 p"
    define r where "r = drop ?n1 p"
    have qr: "p = q @ r" by (simp add: q_def r_def)
    have lc: "length c < 4294967296" using less.prems(2) by (simp add: MAXFILE_def NDIRECT_def NINDIRECT_def)
    have m: "length c mod 512 < 512" by simp
    have q: "q \<noteq> []" "length c mod 512 + length q \<le> 512" "length c < MAXFILE * 512" "length r < length p"
      using False m less.prems(2) length_greater_0_conv [of p] by (auto simp: q_def r_def min_def Suc_le_eq simp del: length_greater_0_conv)
    have room: "fbk st + need (length c + length q) \<le> 1024 + need (length c)"
      using less.prems(3) need_mono [of "length c + length q" "length c + length p"] by (simp add: qr)
    obtain x di1 st1 buf ds1 ind1 st2 where s: "iappend_block (length c div 512) di st = Inr (x, di1, st1)" "rsect x st1 = Inr buf"
        "st2 = wsect x (bcopy q (length c mod 512) buf) st1" "file_at st2 di1 ds1 ind1 (c @ q)"
        "fbk st2 + need (length c) = fbk st + need (length c + length q)" "grown st ds ind st2 ds1 ind1" "same_meta di di1"
      using append_step [OF less.prems(1) q(1-3) room] by blast
    have "\<exists>di3 st3 ds3 ind3. iappend_loop r (of_nat (length (c @ q))) di1 st2 = Inr (of_nat (length ((c @ q) @ r)), di3, st3)
        \<and> file_at st3 di3 ds3 ind3 ((c @ q) @ r) \<and> fbk st3 + need (length (c @ q)) = fbk st2 + need (length (c @ q) + length r)
        \<and> grown st2 ds1 ind1 st3 ds3 ind3 \<and> same_meta di1 di3"
      using less.prems(2,3) s(5) by (intro less.hyps [OF q(4) s(4)]) (auto simp: qr add.assoc)
    then obtain di3 st3 ds3 ind3 where t: "iappend_loop r (of_nat (length (c @ q))) di1 st2 = Inr (of_nat (length (c @ p)), di3, st3)"
        "file_at st3 di3 ds3 ind3 (c @ p)" "fbk st3 + need (length (c @ q)) = fbk st2 + need (length (c @ q) + length r)"
        "grown st2 ds1 ind1 st3 ds3 ind3" "same_meta di1 di3"
      by (auto simp: qr)
    have d: "512 + length c div 512 * 512 - length c = 512 - length c mod 512" "length c - length c div 512 * 512 = length c mod 512"
      using div_mult_mod_eq [of "length c" 512] by linarith+
    have bb: "length c div 512 < MAXFILE" using q(3) by (simp add: div_less_iff_less_mult)
    have "of_nat (length c) + of_nat ?n1 = (of_nat (length (c @ q)) :: u32)" by (simp add: q_def)
    then have "iappend_loop p (of_nat (length c)) di st = Inr (of_nat (length (c @ p)), di3, st3)"
      using False lc bb s(1-3) t(1) unfolding iappend_loop.simps [of p] by (simp add: Let_def d q_def r_def)
    then show ?thesis
      using t(2,3) s(5) grown_trans [OF s(6) t(4)] same_meta_trans [OF s(7) t(5)]
      by (intro exI [of _ di3] exI [of _ st3] exI [of _ ds3] exI [of _ ind3]) (simp add: qr add.assoc)
  qed
qed

end
