(* ===== verification/Mkfs_Spec.thy ===== *)
theory Mkfs_Spec
  imports Mkfs_Append
begin

text \<open>
  The image that \<^verbatim>\<open>mkfs\<close> builds as a whole: the inodes, the files of the command line, the directory and
  the bitmap, and that the kernel finds and reads on the image the files that were put there.
\<close>

section \<open>The inode table\<close>

definition dino :: "u8 list list \<Rightarrow> nat \<Rightarrow> dinode" where
  "dino img i = get_dinode (64 * (i mod 8)) (img ! (i div 8 + 2))"

lemma i2b_nat: "i < 200 \<Longrightarrow> unat (i2b (of_nat i)) = i div 8 + 2"
  using unat_IBLOCK [of "of_nat i"] by (simp add: i2b_def IBLOCK_def IPB_def)

lemma inode_block: "i < 200 \<Longrightarrow> i div 8 + 2 < (27 :: nat)"
  by linarith

lemma rinode_ok:
  assumes "image_ok st" and "i < 200"
  shows "rinode (of_nat i) st = Inr (dino (m_img st) i)"
proof -
  have "i div 8 + 2 < length (m_img st)" using inode_block [OF assms(2)] assms(1) by (simp add: image_ok_def)
  then show ?thesis using assms(2) by (simp add: rinode_def i2b_nat dino_def IPB_def)
qed

lemma winode_ok:
  assumes "image_ok st" and "i < 200" and "length (d_addrs di) = NADDRS"
  shows "\<exists>st'. winode (of_nat i) di st = Inr st' \<and> image_ok st' \<and> m_freeblock st' = m_freeblock st \<and> m_freeinode st' = m_freeinode st
    \<and> (\<forall>b. b < 2 \<or> 27 \<le> b \<longrightarrow> m_img st' ! b = m_img st ! b) \<and> (\<forall>j < 200. dino (m_img st') j = (if j = i then di else dino (m_img st) j))"
proof -
  let ?b = "i div 8 + 2" and ?p = "64 * (i mod 8)"
  have b: "?b < length (m_img st)" "?b < 27" "length (m_img st ! ?b) = 512"
    using inode_block [OF assms(2)] assms(1) by (simp_all add: image_ok_def)
  define st' where "st' = wsect (i2b (of_nat i)) (put_dinode ?p di (m_img st ! ?b)) st"
  have w: "winode (of_nat i) di st = Inr st'"
    using b assms(2) by (simp add: winode_def i2b_nat st'_def IPB_def)
  have img: "m_img st' = (m_img st)[?b := put_dinode ?p di (m_img st ! ?b)]" using b assms(2) by (simp add: st'_def i2b_nat)
  have "dino (m_img st') j = (if j = i then di else dino (m_img st) j)" if "j < 200" for j
  proof (cases "j div 8 = i div 8")
    case True
    show ?thesis
    proof (cases "j = i")
      case False
      then have "j mod 8 \<noteq> i mod 8" using True by (metis div_mult_mod_eq)
      then have "64 * (j mod 8) + 64 \<le> ?p \<or> ?p + 64 \<le> 64 * (j mod 8)" by linarith
      then show ?thesis using False True b(1) img get_put_dinode_other [OF _ assms(3)] by (simp add: dino_def)
    qed (use b img get_put_dinode [of ?p "m_img st ! ?b" di] assms(3) in \<open>simp add: dino_def\<close>)
  qed (auto simp: dino_def img)
  moreover have "image_ok st'"
    using assms(1) img b(2) by (auto simp: image_ok_def st'_def nth_list_update)
  ultimately show ?thesis using w img b(2) by (auto simp: st'_def)
qed

section \<open>All files\<close>

text \<open>
  The image holds the files \<open>fs\<close>, as types and contents, in the inodes from 1 on. File \<open>i\<close> owns the data
  blocks \<open>D i\<close> and the indirect block \<open>N i\<close>, or none if that is 0.
\<close>

definition blocks_used :: "(u16 \<times> u8 list) list \<Rightarrow> nat" where
  "blocks_used fs = 29 + sum_list (map (\<lambda>(t, c). need (length c)) fs)"

definition inode_ok :: "mkfs \<Rightarrow> nat \<Rightarrow> u16 \<Rightarrow> u8 list \<Rightarrow> nat list \<Rightarrow> nat \<Rightarrow> bool" where
  "inode_ok st i t c ds ind \<longleftrightarrow> file_at st (dino (m_img st) i) ds ind c \<and> length c \<le> MAXFILE * 512
     \<and> (\<exists>as. dino (m_img st) i = \<lparr>d_type = t, d_major = 0, d_minor = 0, d_nlink = 1, d_size = of_nat (length c), d_addrs = as\<rparr>)"

definition fsys :: "u8 list \<Rightarrow> mkfs \<Rightarrow> (u16 \<times> u8 list) list \<Rightarrow> (nat \<Rightarrow> nat list) \<Rightarrow> (nat \<Rightarrow> nat) \<Rightarrow> bool" where
  "fsys sb st fs D N \<longleftrightarrow> image_ok st \<and> m_img st ! 1 = sb \<and> m_freeinode st = of_nat (length fs + 1) \<and> length fs < 200
     \<and> fbk st = blocks_used fs
     \<and> (\<forall>i < length fs. inode_ok st (i + 1) (fst (fs ! i)) (snd (fs ! i)) (D i) (N i))
     \<and> (\<forall>i < length fs. \<forall>j < length fs. i \<noteq> j \<longrightarrow> set (own_list (D i) (N i)) \<inter> set (own_list (D j) (N j)) = {})"

lemma blocks_used_update:
  assumes "i < length fs" and "fs ! i = (t, c)"
  shows "blocks_used (fs[i := (t, c')]) + need (length c) = blocks_used fs + need (length c')"
  using assms
proof (induction fs arbitrary: i)
  case (Cons f fs)
  then show ?case by (cases i) (auto simp: blocks_used_def)
qed simp

text \<open>A file that did not grow is still there.\<close>

lemma inode_ok_other:
  assumes "inode_ok st i t c ds ind" and "image_ok st'" and "dino (m_img st') i = dino (m_img st) i" and "fbk st \<le> fbk st'"
    and "\<And>b. b \<in> set (own_list ds ind) \<Longrightarrow> m_img st' ! b = m_img st ! b"
  shows "inode_ok st' i t c ds ind"
proof -
  have f: "mapped (m_img st) (dino (m_img st) i) ds ind c" "owns st ds ind" "length ds = nblk (length c)"
    using assms(1) by (auto simp: inode_ok_def file_at_def)
  have "mapped (m_img st') (dino (m_img st) i) ds ind c" using f(1) assms(5) by (rule mapped_cong)
  moreover have "owns st' ds ind" using f(2) assms(4) by (fastforce simp: owns_def)
  ultimately show ?thesis using assms(1-3) f(3) by (simp add: inode_ok_def file_at_def)
qed

lemma dino_same:
  assumes "\<And>b. b < 29 \<Longrightarrow> m_img st' ! b = m_img st ! b" and "j < 200"
  shows "dino (m_img st') j = dino (m_img st) j"
  using assms(1) [of "j div 8 + 2"] inode_block [OF assms(2)] by (simp add: dino_def)

lemma grown_disjoint:
  assumes "grown st ds ind st' ds' ind'" and "B \<subseteq> {..<fbk st}" and "set (own_list ds ind) \<inter> B = {}"
  shows "set (own_list ds' ind') \<inter> B = {}"
proof -
  have "set (own_list ds' ind') \<subseteq> set (own_list ds ind) \<union> {fbk st..<fbk st'}" using assms(1) by (simp add: grown_def)
  then show ?thesis using assms(2,3) by fastforce
qed

lemma fsys_own:
  assumes "fsys sb st fs D N" and "j < length fs" and "b \<in> set (own_list (D j) (N j))"
  shows "b \<in> {29..<fbk st}"
proof -
  have "owns st (D j) (N j)" using assms(1,2) by (simp add: fsys_def inode_ok_def file_at_def)
  then show ?thesis using assms(3) by (auto simp: owns_def)
qed

text \<open>One file is replaced by another that owns its blocks and new ones.\<close>

lemma fsys_replace:
  assumes "fsys sb st fs D N" and "i < length fs" and "image_ok st'" and "m_freeinode st' = m_freeinode st" and "m_img st' ! 1 = m_img st ! 1"
    and "\<And>j. j < 200 \<Longrightarrow> j \<noteq> i + 1 \<Longrightarrow> dino (m_img st') j = dino (m_img st) j"
    and "\<And>b. b \<in> {29..<fbk st} \<Longrightarrow> b \<notin> set (own_list (D i) (N i)) \<Longrightarrow> m_img st' ! b = m_img st ! b"
    and "inode_ok st' (i + 1) t c ds ind" and "set (own_list ds ind) \<subseteq> set (own_list (D i) (N i)) \<union> {fbk st..<fbk st'}"
    and "fbk st \<le> fbk st'" and "fbk st' = blocks_used (fs[i := (t, c)])"
  shows "fsys sb st' (fs[i := (t, c)]) (D(i := ds)) (N(i := ind))"
proof -
  have dis: "set (own_list (D j) (N j)) \<inter> set (own_list (D k) (N k)) = {}" if "j < length fs" "k < length fs" "j \<noteq> k" for j k
    using assms(1) that by (simp add: fsys_def)
  have other: "inode_ok st' (j + 1) (fst (fs ! j)) (snd (fs ! j)) (D j) (N j)" if j: "j < length fs" "j \<noteq> i" for j
  proof (rule inode_ok_other [OF _ assms(3)])
    show "inode_ok st (j + 1) (fst (fs ! j)) (snd (fs ! j)) (D j) (N j)" using assms(1) j(1) by (simp add: fsys_def)
    show "dino (m_img st') (j + 1) = dino (m_img st) (j + 1)" using assms(1,6) j by (simp add: fsys_def)
    fix b assume "b \<in> set (own_list (D j) (N j))"
    then show "m_img st' ! b = m_img st ! b" using fsys_own [OF assms(1) j(1)] dis [OF j(1) assms(2) j(2)] by (intro assms(7)) auto
  qed (rule assms(10))
  have new: "set (own_list ds ind) \<inter> set (own_list (D m) (N m)) = {}" if "m < length fs" "m \<noteq> i" for m
    using dis [OF assms(2) that(1)] that(2) fsys_own [OF assms(1) that(1)] assms(9) by fastforce
  have "inode_ok st' (j + 1) (fst (fs[i := (t, c)] ! j)) (snd (fs[i := (t, c)] ! j)) ((D(i := ds)) j) ((N(i := ind)) j)" if "j < length fs" for j
    using other [OF that] assms(2,8) by (cases "j = i") auto
  moreover have "set (own_list ((D(i := ds)) j) ((N(i := ind)) j)) \<inter> set (own_list ((D(i := ds)) k) ((N(i := ind)) k)) = {}"
    if "j < length fs" "k < length fs" "j \<noteq> k" for j k
    using dis [OF that] new that by (auto simp: Int_commute)
  ultimately show ?thesis using assms(1,3,4,5,11) by (simp add: fsys_def)
qed

lemma iappend_ok:
  assumes "fsys sb st fs D N" and "i < length fs" and "fs ! i = (t, c)" and "length c + length p \<le> MAXFILE * 512"
    and "blocks_used (fs[i := (t, c @ p)]) \<le> 1024"
  shows "\<exists>st' D' N'. iappend (of_nat (i + 1)) p st = Inr st' \<and> fsys sb st' (fs[i := (t, c @ p)]) D' N'"
proof -
  have st: "image_ok st" "i + 1 < 200" "fbk st = blocks_used fs" using assms(1,2) by (auto simp: fsys_def)
  define di where "di = dino (m_img st) (i + 1)"
  have "inode_ok st (i + 1) t c (D i) (N i)" using assms(1-3) by (auto simp: fsys_def)
  then have f: "file_at st di (D i) (N i) c" and size: "d_size di = of_nat (length c)"
    and meta: "\<exists>as. di = \<lparr>d_type = t, d_major = 0, d_minor = 0, d_nlink = 1, d_size = of_nat (length c), d_addrs = as\<rparr>"
    by (auto simp: inode_ok_def di_def)
  have tot: "blocks_used (fs[i := (t, c @ p)]) + need (length c) = blocks_used fs + need (length c + length p)"
    using blocks_used_update [OF assms(2,3), of "c @ p"] by simp
  then have "fbk st + need (length c + length p) \<le> 1024 + need (length c)" using assms(5) st(3) by simp
  then obtain di1 st1 ds1 ind1 where l: "iappend_loop p (of_nat (length c)) di st = Inr (of_nat (length (c @ p)), di1, st1)"
      "file_at st1 di1 ds1 ind1 (c @ p)" "fbk st1 + need (length c) = fbk st + need (length c + length p)"
      "grown st (D i) (N i) st1 ds1 ind1" "same_meta di di1"
    using append_loop [OF f assms(4)] by blast
  define di2 where "di2 = di1\<lparr>d_size := of_nat (length (c @ p))\<rparr>"
  have l1: "image_ok st1" "mapped (m_img st1) di1 ds1 ind1 (c @ p)" "owns st1 ds1 ind1" "length ds1 = nblk (length (c @ p))"
    using l(2) by (auto simp: file_at_def)
  then have "length (d_addrs di2) = NADDRS" by (simp add: di2_def mapped_def)
  then obtain st2 where w: "winode (of_nat (i + 1)) di2 st1 = Inr st2" "image_ok st2" "m_freeblock st2 = m_freeblock st1"
      "m_freeinode st2 = m_freeinode st1" "\<forall>b. b < 2 \<or> 27 \<le> b \<longrightarrow> m_img st2 ! b = m_img st1 ! b"
      "\<forall>j < 200. dino (m_img st2) j = (if j = i + 1 then di2 else dino (m_img st1) j)"
    using winode_ok [OF l1(1) st(2)] by blast
  have run: "iappend (of_nat (i + 1)) p st = Inr st2"
    using rinode_ok [OF st(1,2)] l(1) w(1) size by (simp add: iappend_def di_def di2_def)
  have same: "m_img st1 ! b = m_img st ! b" if "b < fbk st" "b \<notin> set (own_list (D i) (N i))" for b
    using l(4) that by (simp add: grown_def)
  have low: "m_img st1 ! b = m_img st ! b" if "b < 29" for b
    using st(1) that fsys_own [OF assms(1,2), of b] by (intro same) (auto simp: image_ok_def)
  have "m_img st2 ! b = m_img st1 ! b" if "b \<in> set (own_list ds1 ind1)" for b
  proof -
    have "b \<in> {29..<fbk st1}" using l1(3) that unfolding owns_def by blast
    then show ?thesis using w(5) by simp
  qed
  then have "mapped (m_img st2) di1 ds1 ind1 (c @ p)" by (rule mapped_cong [OF l1(2)])
  then have "mapped (m_img st2) di2 ds1 ind1 (c @ p)" by (simp add: mapped_def di2_def)
  moreover have "owns st2 ds1 ind1" using l1(3) w(3) by (simp add: owns_def)
  moreover have "\<exists>as. di2 = \<lparr>d_type = t, d_major = 0, d_minor = 0, d_nlink = 1, d_size = of_nat (length (c @ p)), d_addrs = as\<rparr>"
    using meta l(5) by (auto simp: same_meta_def di2_def)
  ultimately have ino: "inode_ok st2 (i + 1) t (c @ p) ds1 ind1"
    using w(2,6) l1(4) assms(4) st(2) by (simp add: inode_ok_def file_at_def)
  have "fsys sb st2 (fs[i := (t, c @ p)]) (D(i := ds1)) (N(i := ind1))"
  proof (rule fsys_replace [OF assms(1,2) w(2) _ _ _ _ ino])
    show "fbk st2 = blocks_used (fs[i := (t, c @ p)])" using w(3) l(3) tot st(3) by simp
    show "dino (m_img st2) j = dino (m_img st) j" if "j < 200" "j \<noteq> i + 1" for j
      using w(6) that dino_same [OF low that(1)] by simp
  qed (use w l(4) low same in \<open>simp_all add: grown_def\<close>)
  then show ?thesis using run by blast
qed

lemma ialloc_ok:
  assumes "fsys sb st fs D N" and "length fs < 199"
  shows "\<exists>st'. mk_ialloc t st = Inr (of_nat (length fs + 1), st') \<and> fsys sb st' (fs @ [(t, [])]) (D(length fs := [])) (N(length fs := 0))"
proof -
  let ?n = "length fs"
  define st0 where "st0 = st\<lparr>m_freeinode := of_nat (?n + 2)\<rparr>"
  define di where "di = \<lparr>d_type = t, d_major = 0, d_minor = 0, d_nlink = 1, d_size = 0, d_addrs = replicate NADDRS 0\<rparr>"
  have st: "image_ok st" "m_freeinode st = of_nat (?n + 1)" using assms(1) by (auto simp: fsys_def)
  have "image_ok st0" using st(1) by (simp add: image_ok_def st0_def)
  then obtain st' where w: "winode (of_nat (?n + 1)) di st0 = Inr st'" "image_ok st'" "m_freeblock st' = m_freeblock st"
      "m_freeinode st' = of_nat (?n + 2)" "\<forall>b. b < 2 \<or> 27 \<le> b \<longrightarrow> m_img st' ! b = m_img st ! b"
      "\<forall>j < 200. dino (m_img st') j = (if j = ?n + 1 then di else dino (m_img st) j)"
    using winode_ok [of st0 "?n + 1" di] assms(2) by (auto simp: di_def st0_def)
  have run: "mk_ialloc t st = Inr (of_nat (?n + 1), st')"
    using w(1) st(2) by (simp add: mk_ialloc_def Let_def di_def st0_def add.commute)
  have new: "inode_ok st' (?n + 1) t [] [] 0"
    using w(2,6) assms(2) by (auto simp: inode_ok_def file_at_def mapped_def di_def nblk_def owns_def NADDRS_def INDIRECT_def NDIRECT_def)
  have "inode_ok st' (j + 1) (fst (fs ! j)) (snd (fs ! j)) (D j) (N j)" if "j < ?n" for j
  proof (rule inode_ok_other [OF _ w(2)])
    show "inode_ok st (j + 1) (fst (fs ! j)) (snd (fs ! j)) (D j) (N j)" using assms(1) that by (simp add: fsys_def)
    fix b assume "b \<in> set (own_list (D j) (N j))"
    then show "m_img st' ! b = m_img st ! b" using fsys_own [OF assms(1) that, of b] w(5) by simp
  qed (use w that assms(2) in simp_all)
  then have "inode_ok st' (j + 1) (fst ((fs @ [(t, [])]) ! j)) (snd ((fs @ [(t, [])]) ! j)) ((D(?n := [])) j) ((N(?n := 0)) j)"
    if "j < length (fs @ [(t, [])])" for j
    using new that by (cases "j < ?n") (simp_all add: nth_append less_Suc_eq)
  moreover have "blocks_used (fs @ [(t, [])]) = blocks_used fs" by (simp add: blocks_used_def need_def nblk_def)
  ultimately have "fsys sb st' (fs @ [(t, [])]) (D(?n := [])) (N(?n := 0))"
    using assms w(2-5) unfolding fsys_def by (auto simp: less_Suc_eq)
  then show ?thesis using run by blast
qed

lemma blocks_used_mono:
  assumes "i < length fs" and "fs ! i = (t, c)" and "length c' \<le> length c''"
  shows "blocks_used (fs[i := (t, c')]) \<le> blocks_used (fs[i := (t, c'')])"
  using blocks_used_update [OF assms(1,2), of c'] blocks_used_update [OF assms(1,2), of c''] need_mono [OF assms(3)] by simp

lemma copy_ok:
  assumes "fsys sb st fs D N" and "i < length fs" and "fs ! i = (t, c)" and "[] \<notin> set cs" and "length c + length (concat cs) \<le> MAXFILE * 512"
    and "blocks_used (fs[i := (t, c @ concat cs)]) \<le> 1024"
  shows "\<exists>st' D' N'. mk_copy (of_nat (i + 1)) cs st = Inr st' \<and> fsys sb st' (fs[i := (t, c @ concat cs)]) D' N'"
  using assms
proof (induction cs arbitrary: st fs D N c)
  case Nil
  then have "fs[i := (t, c)] = fs" by (metis list_update_id)
  then show ?case using Nil.prems(1) by auto
next
  case (Cons p cs)
  have "blocks_used (fs[i := (t, c @ p)]) \<le> 1024"
    using blocks_used_mono [OF Cons.prems(2,3), of "c @ p" "c @ concat (p # cs)"] Cons.prems(6) by simp
  then obtain st1 D1 N1 where s: "iappend (of_nat (i + 1)) p st = Inr st1" "fsys sb st1 (fs[i := (t, c @ p)]) D1 N1"
    using iappend_ok [OF Cons.prems(1-3), of p] Cons.prems(5) by auto
  obtain st2 D2 N2 where "mk_copy (of_nat (i + 1)) cs st1 = Inr st2" "fsys sb st2 ((fs[i := (t, c @ p)])[i := (t, (c @ p) @ concat cs)]) D2 N2"
    using Cons.IH [OF s(2), of "c @ p"] Cons.prems by auto
  then show ?case using s(1) Cons.prems(4) by auto
qed

section \<open>The files of the command line\<close>

primrec dirents :: "nat \<Rightarrow> u8 list list \<Rightarrow> u8 list" where
  "dirents n [] = []"
| "dirents n (a # as) = mk_dirent (of_nat n) (skip_underscore a) @ dirents (Suc n) as"

definition contents :: "(u8 list \<Rightarrow> u8 list list option) \<Rightarrow> u8 list \<Rightarrow> u8 list" where
  "contents host a = concat (the (host a))"

text \<open>A file that can be copied: it exists, its name has no slash, and it is not too long.\<close>

definition source_ok :: "(u8 list \<Rightarrow> u8 list list option) \<Rightarrow> u8 list \<Rightarrow> bool" where
  "source_ok host a \<longleftrightarrow> slash \<notin> set a \<and> (\<exists>cs. host a = Some cs \<and> [] \<notin> set cs) \<and> length (contents host a) \<le> MAXFILE * 512"

definition fs_after :: "(u8 list \<Rightarrow> u8 list list option) \<Rightarrow> u8 list \<Rightarrow> (u16 \<times> u8 list) list \<Rightarrow> u8 list list \<Rightarrow> (u16 \<times> u8 list) list" where
  "fs_after host r gs as = (T_DIR, r @ dirents (length gs + 2) as) # gs @ map (\<lambda>a. (T_FILE, contents host a)) as"

lemma mk_dirent_length [simp]: "length (mk_dirent i a) = 16"
  by (simp add: mk_dirent_def Let_def DIRSIZ_def)

lemma dirents_length [simp]: "length (dirents n as) = 16 * length as"
  by (induction as arbitrary: n) simp_all

lemma files_ok:
  assumes "fsys sb st ((T_DIR, r) # gs) D N" and "\<forall>a \<in> set as. source_ok host a" and "length gs + length as < 199"
    and "length r + 16 * length as \<le> MAXFILE * 512" and "blocks_used (fs_after host r gs as) \<le> 1024"
  shows "\<exists>st' D' N'. mk_files host 1 as st = Inr st' \<and> fsys sb st' (fs_after host r gs as) D' N'"
  using assms
proof (induction as arbitrary: st r gs D N)
  case Nil
  then show ?case by (auto simp: fs_after_def)
next
  case (Cons a as)
  let ?n = "length gs" and ?d = "mk_dirent (of_nat (length gs + 2)) (skip_underscore a)"
  obtain cs where a: "slash \<notin> set a" "host a = Some cs" "[] \<notin> set cs" "contents host a = concat cs" "length (concat cs) \<le> MAXFILE * 512"
    using Cons.prems(2) by (auto simp: source_ok_def contents_def)
  have step: "fs_after host r gs (a # as) = fs_after host (r @ ?d) (gs @ [(T_FILE, concat cs)]) as"
    using a(4) by (simp add: fs_after_def)
  have used: "blocks_used ((T_DIR, r @ ?d) # gs @ [(T_FILE, concat cs)]) \<le> 1024"
    using Cons.prems(5) need_mono [of "length r + 16" "length r + (16 + 16 * length as)"] unfolding step
    by (simp add: fs_after_def blocks_used_def)
  obtain st1 D1 N1 where s1: "mk_ialloc T_FILE st = Inr (of_nat (?n + 2), st1)" "fsys sb st1 ((T_DIR, r) # gs @ [(T_FILE, [])]) D1 N1"
    using ialloc_ok [OF Cons.prems(1), of T_FILE] Cons.prems(3) by (auto simp: add.commute)
  obtain st2 D2 N2 where s2: "iappend 1 ?d st1 = Inr st2" "fsys sb st2 ((T_DIR, r @ ?d) # gs @ [(T_FILE, [])]) D2 N2"
    using iappend_ok [OF s1(2), of 0 T_DIR r ?d] used Cons.prems(4) by (auto simp: blocks_used_def)
  obtain st3 D3 N3 where s3: "mk_copy (of_nat (?n + 2)) cs st2 = Inr st3" "fsys sb st3 ((T_DIR, r @ ?d) # gs @ [(T_FILE, concat cs)]) D3 N3"
    using copy_ok [OF s2(2), of "?n + 1" T_FILE "[]" cs] a(3,5) used by (auto simp: nth_append list_update_append)
  obtain st4 D4 N4 where s4: "mk_files host 1 as st3 = Inr st4" "fsys sb st4 (fs_after host r gs (a # as)) D4 N4"
    using Cons.IH [OF s3(2)] Cons.prems unfolding step by auto
  have "mk_files host 1 (a # as) st = Inr st4" using a(1,2) s1(1) s2(1) s3(1) s4(1) by simp
  then show ?case using s4(2) by blast
qed

section \<open>The finished image\<close>

lemma fsys_cong:
  assumes "fsys sb st fs D N" and "image_ok st'" and "m_freeblock st' = m_freeblock st" and "m_freeinode st' = m_freeinode st"
    and "\<And>b. b \<noteq> 28 \<Longrightarrow> m_img st' ! b = m_img st ! b"
  shows "fsys sb st' fs D N"
proof -
  have "inode_ok st' (j + 1) (fst (fs ! j)) (snd (fs ! j)) (D j) (N j)" if "j < length fs" for j
  proof (rule inode_ok_other [OF _ assms(2)])
    have "j + 1 < 200" using assms(1) that by (simp add: fsys_def)
    then show "dino (m_img st') (j + 1) = dino (m_img st) (j + 1)"
      using assms(5) [of "(j + 1) div 8 + 2"] inode_block [of "j + 1"] by (simp add: dino_def)
    show "inode_ok st (j + 1) (fst (fs ! j)) (snd (fs ! j)) (D j) (N j)" using assms(1) that by (simp add: fsys_def)
    fix b assume "b \<in> set (own_list (D j) (N j))"
    then show "m_img st' ! b = m_img st ! b" using fsys_own [OF assms(1) that, of b] by (intro assms(5)) auto
  qed (use assms(3) in simp)
  then show ?thesis using assms by (simp add: fsys_def)
qed

lemma padded_zeros: "padded (c @ replicate m 0) k = padded c k"
  by (rule nth_equalityI) (auto simp: padded_nth nth_append)

text \<open>The directory is filled up to the end of its last block.\<close>

definition fill :: "u8 list \<Rightarrow> u8 list" where
  "fill r = r @ replicate (512 - length r mod 512) 0"

lemma fill_length: "length (fill r) = (length r div 512 + 1) * 512"
proof -
  define q m where "q = length r div 512" and "m = length r mod 512"
  have "length r = q * 512 + m" "m < 512" by (simp_all add: q_def m_def)
  then show ?thesis unfolding q_def [symmetric] by (simp add: fill_def m_def [symmetric])
qed

lemma fix_root_ok:
  assumes "fsys sb st ((t, r) # fs) D N" and "length r mod 512 \<noteq> 0"
  shows "\<exists>st'. fix_root 1 st = Inr st' \<and> fsys sb st' ((t, fill r) # fs) D N \<and> m_freeblock st' = m_freeblock st"
proof -
  let ?di = "dino (m_img st) 1"
  have st: "image_ok st" using assms(1) by (simp add: fsys_def)
  have ino: "inode_ok st 1 t r (D 0) (N 0)" using assms(1) by (auto simp: fsys_def)
  have r: "length r \<le> MAXFILE * 512" "d_size ?di = of_nat (length r)" "mapped (m_img st) ?di (D 0) (N 0) r" "owns st (D 0) (N 0)"
      "length (D 0) = nblk (length r)"
    using ino by (auto simp: inode_ok_def file_at_def)
  have rl: "length r < 4294967296" using r(1) by (simp add: MAXFILE_def NDIRECT_def NINDIRECT_def)
  have "length r div 512 < 4294967296" using rl by (simp add: div_less_iff_less_mult)
  then have "of_nat (length r) div 512 = (of_nat (length r div 512) :: u32)" using rl by (simp add: word_unat_eq_iff unat_div)
  then have size: "(of_nat (length r) div of_nat BSIZE + 1) * of_nat BSIZE = (of_nat (length (fill r)) :: u32)"
    unfolding fill_length by (simp add: BSIZE_def)
  define di where "di = ?di\<lparr>d_size := of_nat (length (fill r))\<rparr>"
  have la: "length (d_addrs di) = NADDRS" using r(3) by (simp add: mapped_def di_def)
  obtain st' where w: "winode (of_nat 1) di st = Inr st'" "image_ok st'" "m_freeblock st' = m_freeblock st" "m_freeinode st' = m_freeinode st"
      "\<forall>b. b < 2 \<or> 27 \<le> b \<longrightarrow> m_img st' ! b = m_img st ! b" "\<forall>j < 200. dino (m_img st') j = (if j = 1 then di else dino (m_img st) j)"
    using winode_ok [OF st _ la, of 1] by auto
  have run: "fix_root 1 st = Inr st'"
    using rinode_ok [OF st, of 1] w(1) r(2) size by (simp add: fix_root_def di_def)
  have nb: "nblk (length (fill r)) = nblk (length r)"
    using nblk_step [of "512 - length r mod 512" "length r"] assms(2) by (simp add: fill_def)
  have "mapped (m_img st) di (D 0) (N 0) (fill r)"
    using r(3) by (simp add: mapped_def di_def fill_def padded_zeros)
  moreover have "m_img st' ! b = m_img st ! b" if "b \<in> set (own_list (D 0) (N 0))" for b
    using fsys_own [OF assms(1) _ that] w(5) by simp
  ultimately have "mapped (m_img st') di (D 0) (N 0) (fill r)" by (rule mapped_cong)
  moreover have "length r \<noteq> MAXFILE * 512" using assms(2) by auto
  then have "length r div 512 < MAXFILE" using r(1) by (simp add: div_less_iff_less_mult)
  then have "length (fill r) \<le> MAXFILE * 512" unfolding fill_length by simp
  moreover have "owns st' (D 0) (N 0)" using r(4) w(3) by (simp add: owns_def)
  ultimately have ino': "inode_ok st' (0 + 1) t (fill r) (D 0) (N 0)"
    using w(2,6) ino r(5) nb by (auto simp: inode_ok_def file_at_def di_def)
  have "fsys sb st' (((t, r) # fs)[0 := (t, fill r)]) (D(0 := D 0)) (N(0 := N 0))"
  proof (rule fsys_replace [OF assms(1) _ w(2) _ _ _ _ ino'])
    show "fbk st' = blocks_used (((t, r) # fs)[0 := (t, fill r)])"
      using w(3) assms(1) nb by (simp add: fsys_def blocks_used_def need_def)
  qed (use w in auto)
  then show ?thesis using run w(3) by auto
qed

text \<open>
  A directory whose entries fill its blocks exactly is made one block longer all the same, and
  that block has no address: the kernel's \<^verbatim>\<open>bmap\<close> gives -1 for it.
\<close>

lemma fix_root_hole:
  assumes "fsys sb st ((t, r) # fs) D N" and "length r mod 512 = 0" and "length r div 512 < NDIRECT"
  shows "\<exists>st'. fix_root 1 st = Inr st' \<and> d_size (dino (m_img st') 1) = of_nat (length r + 512)
    \<and> d_addrs (dino (m_img st') 1) ! (length r div 512) = 0"
proof -
  let ?di = "dino (m_img st) 1"
  have st: "image_ok st" using assms(1) by (simp add: fsys_def)
  have "inode_ok st 1 t r (D 0) (N 0)" using assms(1) by (auto simp: fsys_def)
  then have r: "d_size ?di = of_nat (length r)" "mapped (m_img st) ?di (D 0) (N 0) r" "length (D 0) = nblk (length r)"
    by (auto simp: inode_ok_def file_at_def)
  have z: "d_addrs ?di ! (length r div 512) = 0"
    using r(2,3) assms(2,3) nblk_step(2) [of 1 "length r"] by (simp add: mapped_def)
  have q: "length r = length r div 512 * 512" using assms(2) by auto
  have "length r div 512 < 4294967296" "length r < 4294967296" using assms(3) q by (simp_all add: NDIRECT_def)
  then have "of_nat (length r) div 512 = (of_nat (length r div 512) :: u32)" by (simp add: word_unat_eq_iff unat_div)
  then have "(of_nat (length r) div of_nat BSIZE + 1) * of_nat BSIZE = (of_nat (length r div 512 * 512 + 512) :: u32)"
    by (simp add: BSIZE_def algebra_simps)
  then have size: "(of_nat (length r) div of_nat BSIZE + 1) * of_nat BSIZE = (of_nat (length r + 512) :: u32)" unfolding q [symmetric] .
  have la: "length (d_addrs (?di\<lparr>d_size := of_nat (length r + 512)\<rparr>)) = NADDRS" using r(2) by (simp add: mapped_def)
  show ?thesis
    using winode_ok [OF st _ la, of 1] rinode_ok [OF st, of 1] r(1) size z by (auto simp: fix_root_def)
qed

lemma mk_bitmap_Suc: "mk_bitmap (Suc n) = set_bit_used n (mk_bitmap n)"
  by (simp add: mk_bitmap_def set_bit_used_def bit_mask_def)

lemma mk_bitmap_ok: "n \<le> 4096 \<Longrightarrow> length (mk_bitmap n) = 512 \<and> (\<forall>b < 4096. block_free (mk_bitmap n) b \<longleftrightarrow> n \<le> b)"
proof (induction n)
  case 0
  then show ?case by (simp add: mk_bitmap_def block_free_def)
next
  case (Suc n)
  then have "n div 8 < length (mk_bitmap n)" by (simp add: div_less_iff_less_mult)
  then show ?case using Suc by (auto simp: mk_bitmap_Suc block_free_used)
qed

lemma mk_balloc_ok:
  assumes "fsys sb st fs D N" and "blocks_used fs < 512"
  shows "\<exists>st'. mk_balloc (m_usedblocks st) st = Inr st' \<and> fsys sb st' fs D N
    \<and> (\<forall>b < 4096. block_free (m_img st' ! 28) b \<longleftrightarrow> blocks_used fs \<le> b)"
proof -
  have st: "image_ok st" "fbk st = blocks_used fs" using assms(1) by (auto simp: fsys_def)
  have len: "length (m_img st) = 1024" "m_usedblocks st = m_freeblock st" "29 \<le> fbk st" using st(1) by (simp_all add: image_ok_def)
  have u: "sint (m_usedblocks st) = int (blocks_used fs)" using assms(2) st(2) len by (simp add: sint_u32 del: of_nat_unat)
  define st' where "st' = wsect 28 (mk_bitmap (blocks_used fs)) st"
  have sec: "mk_ninodes div of_nat IPB + 3 = 28" by (simp add: mk_ninodes_def IPB_def)
  have run: "mk_balloc (m_usedblocks st) st = Inr st'" using assms(2) u by (simp add: mk_balloc_def st'_def sec)
  have img: "m_img st' = (m_img st)[28 := mk_bitmap (blocks_used fs)]" using len by (simp add: st'_def)
  have bm: "length (mk_bitmap (blocks_used fs)) = 512 \<and> (\<forall>b < 4096. block_free (mk_bitmap (blocks_used fs)) b \<longleftrightarrow> blocks_used fs \<le> b)"
    using mk_bitmap_ok assms(2) by simp
  have "image_ok st'" using st(1) img bm by (auto simp: image_ok_def st'_def nth_list_update)
  then have "fsys sb st' fs D N" using fsys_cong [OF assms(1)] img by (simp add: st'_def)
  then show ?thesis using run img len bm by simp
qed

definition sb_bytes :: "u8 list" where
  "sb_bytes = put32 0 (xint mk_size) (put32 4 (xint mk_nblocks) (put32 8 (xint mk_ninodes) (replicate 12 0)))"

lemma zero_sectors:
  assumes "m_img st = []" and "n < 4294967296"
  shows "fold (\<lambda>i. wsect (of_nat i) (replicate 512 0)) [0..<n] st = st\<lparr>m_img := replicate n (replicate 512 0)\<rparr>"
  using assms(2)
proof (induction n)
  case 0
  then show ?case using assms(1) by simp
next
  case (Suc n)
  then show ?case by (simp add: wsect_def Let_def replicate_append_same [symmetric] list_update_append)
qed

lemma fresh_image:
  assumes "length junk = 500" and "st0 = \<lparr>m_img = [], m_freeblock = 29, m_usedblocks = 29, m_freeinode = 1\<rparr>"
    and "st = wsect 1 (sb_bytes @ junk) (fold (\<lambda>i. wsect (of_nat i) (replicate 512 0)) [0..<1024] st0)"
  shows "fsys (sb_bytes @ junk) st [] D N"
proof -
  have z: "fold (\<lambda>i. wsect (of_nat i) (replicate 512 0)) [0..<1024] st0 = st0\<lparr>m_img := replicate 1024 (replicate 512 0)\<rparr>"
    using zero_sectors [of st0 1024] assms(2) by simp
  have "m_img st = (replicate 1024 (replicate 512 0))[1 := sb_bytes @ junk]" unfolding assms(3) z by simp
  moreover have "m_freeblock st = 29" "m_usedblocks st = 29" "m_freeinode st = 1" unfolding assms(3) z by (simp_all add: assms(2))
  moreover have "length sb_bytes = 12" by (simp add: sb_bytes_def)
  ultimately show ?thesis using assms(1) by (auto simp: fsys_def image_ok_def blocks_used_def nth_list_update)
qed

definition root_dir :: "u8 list list \<Rightarrow> u8 list" where
  "root_dir as = mk_dirent 1 [46] @ mk_dirent 1 [46, 46] @ dirents 2 as"

text \<open>The files of the finished image: the root directory, then the files of the command line.\<close>

definition final_fs :: "(u8 list \<Rightarrow> u8 list list option) \<Rightarrow> u8 list list \<Rightarrow> (u16 \<times> u8 list) list" where
  "final_fs host as = (T_DIR, fill (root_dir as)) # map (\<lambda>a. (T_FILE, contents host a)) as"

text \<open>What can be put on an image. A directory whose entries fill its blocks exactly is excluded, see below.\<close>

definition mkfs_fits :: "(u8 list \<Rightarrow> u8 list list option) \<Rightarrow> u8 list list \<Rightarrow> bool" where
  "mkfs_fits host as \<longleftrightarrow> (\<forall>a \<in> set as. source_ok host a) \<and> length as < 199 \<and> (length as + 2) mod 32 \<noteq> 0
     \<and> blocks_used (final_fs host as) < 512"

lemma mkfs_ok:
  assumes "length junk = 500" and "mkfs_fits host as"
  shows "\<exists>st D N. mkfs_main True junk host (prog # fsimg # as) = Inr st \<and> fsys (sb_bytes @ junk) st (final_fs host as) D N
    \<and> (\<forall>b < 4096. block_free (m_img st ! 28) b \<longleftrightarrow> blocks_used (final_fs host as) \<le> b)"
proof -
  define st0 where "st0 = \<lparr>m_img = [], m_freeblock = (29 :: u32), m_usedblocks = (29 :: u32), m_freeinode = (1 :: u32)\<rparr>"
  define st2 where "st2 = wsect 1 (sb_bytes @ junk) (fold (\<lambda>i. wsect (of_nat i) (replicate 512 0)) [0..<1024] st0)"
  let ?r0 = "mk_dirent 1 [46]" and ?r1 = "mk_dirent 1 [46] @ mk_dirent 1 [46, 46]"
  have len: "length (root_dir as) = 16 * (length as + 2)" by (simp add: root_dir_def)
  have "16 * (length as + 2) mod 512 = 16 * ((length as + 2) mod 32)" using mult_mod_right [of 16 "length as + 2" 32] by simp
  then have odd: "length (root_dir as) mod 512 \<noteq> 0" using assms(2) len by (simp add: mkfs_fits_def)
  have "nblk (length (fill (root_dir as))) = nblk (length (root_dir as))"
    using nblk_step [of "512 - length (root_dir as) mod 512" "length (root_dir as)"] odd by (simp add: fill_def)
  then have after: "blocks_used (fs_after host ?r1 [] as) = blocks_used (final_fs host as)"
    by (simp add: fs_after_def final_fs_def root_dir_def blocks_used_def need_def)
  have small: "need 32 = 1" "need 16 = 1" by (simp_all add: need_def nblk_def NDIRECT_def)
  obtain D3 N3 st3 where s3: "mk_ialloc T_DIR st2 = Inr (1, st3)" "fsys (sb_bytes @ junk) st3 [(T_DIR, [])] D3 N3"
    using ialloc_ok [OF fresh_image [OF assms(1) st0_def st2_def, of "\<lambda>_. []" "\<lambda>_. 0"], of T_DIR] by auto
  obtain D4 N4 st4 where s4: "iappend 1 ?r0 st3 = Inr st4" "fsys (sb_bytes @ junk) st4 [(T_DIR, ?r0)] D4 N4"
    using iappend_ok [OF s3(2), of 0 T_DIR "[]" ?r0] small by (auto simp: blocks_used_def MAXFILE_def NDIRECT_def NINDIRECT_def)
  obtain D5 N5 st5 where s5: "iappend 1 (mk_dirent 1 [46, 46]) st4 = Inr st5" "fsys (sb_bytes @ junk) st5 [(T_DIR, ?r1)] D5 N5"
    using iappend_ok [OF s4(2), of 0 T_DIR ?r0 "mk_dirent 1 [46, 46]"] small by (auto simp: blocks_used_def MAXFILE_def NDIRECT_def NINDIRECT_def)
  obtain D6 N6 st6 where s6: "mk_files host 1 as st5 = Inr st6" "fsys (sb_bytes @ junk) st6 (fs_after host ?r1 [] as) D6 N6"
    using files_ok [OF s5(2), of as host] assms(2) after by (auto simp: mkfs_fits_def MAXFILE_def NDIRECT_def NINDIRECT_def)
  have fin: "fs_after host ?r1 [] as = (T_DIR, root_dir as) # map (\<lambda>a. (T_FILE, contents host a)) as"
    by (simp add: fs_after_def root_dir_def numeral_2_eq_2)
  obtain st7 where s7: "fix_root 1 st6 = Inr st7" "fsys (sb_bytes @ junk) st7 (final_fs host as) D6 N6"
    using fix_root_ok [OF s6(2) [unfolded fin] odd] by (auto simp: final_fs_def)
  obtain st8 where s8: "mk_balloc (m_usedblocks st7) st7 = Inr st8" "fsys (sb_bytes @ junk) st8 (final_fs host as) D6 N6"
      "\<forall>b < 4096. block_free (m_img st8 ! 28) b \<longleftrightarrow> blocks_used (final_fs host as) \<le> b"
    using mk_balloc_ok [OF s7(2)] assms(2) by (auto simp: mkfs_fits_def)
  have "mkfs_main True junk host (prog # fsimg # as) = Inr st8"
  proof -
    have u: "mk_ninodes div of_nat IPB + 3 + (mk_size div (512 * 8) + 1) = 29" "mk_nblocks + 29 = mk_size" "unat mk_size = 1024"
      by (simp_all add: mk_ninodes_def mk_size_def mk_nblocks_def IPB_def)
    show ?thesis
      using s3(1) s4(1) s5(1) s6(1) s7(1) s8(1)
      unfolding mkfs_main_def u(1) Let_def u(2) u(3) st0_def [symmetric] sb_bytes_def [symmetric] st2_def [symmetric] by simp
  qed
  then show ?thesis using s8(2,3) by blast
qed

section \<open>The image in the kernel\<close>

definition holds_image :: "'a blk_scheme \<Rightarrow> u32 \<Rightarrow> mkfs \<Rightarrow> bool" where
  "holds_image s dev st \<longleftrightarrow> unat dev \<le> 1 \<and> (\<forall>k < 1024. block s dev (of_nat k) = m_img st ! k)"

lemma disk_inode_dino:
  assumes "holds_image s dev st" and "i < 200"
  shows "disk_inode s dev (of_nat i) = dino (m_img st) i"
proof -
  define b where "b = i div 8 + 2"
  have u: "unat (IBLOCK (of_nat i)) = b" using unat_IBLOCK [of "of_nat i"] assms(2) by (simp add: b_def IPB_def)
  have "IBLOCK (of_nat i) = of_nat b" unfolding u [symmetric] by simp
  moreover have "b < 1024" using inode_block [OF assms(2)] unfolding b_def by linarith
  ultimately show ?thesis
    using assms unfolding disk_inode_def dino_def b_def [symmetric] by (simp add: holds_image_def inode_off_def IPB_def)
qed

lemma kernel_file:
  assumes "fsys sb st fs D N" and "holds_image s dev st" and "i < length fs" and "fs ! i = (t, c)"
    and "ip = load_inode (disk_inode s dev (of_nat (i + 1))) ip0" and "i_dev ip0 = dev"
  shows "file_ok {} s ip \<and> unat (i_size ip) = length c \<and> i_type ip = t \<and> i_dev ip = dev \<and> (\<forall>k. has_block ip k \<longrightarrow> file_block s ip k = padded c k)"
proof -
  have i: "i + 1 < 200" using assms(1,3) by (simp add: fsys_def)
  have "inode_ok st (i + 1) t c (D i) (N i)" using assms(1,3,4) by (auto simp: fsys_def)
  then obtain as where di: "dino (m_img st) (i + 1) = \<lparr>d_type = t, d_major = 0, d_minor = 0, d_nlink = 1, d_size = of_nat (length c), d_addrs = as\<rparr>"
    and m: "mapped (m_img st) (dino (m_img st) (i + 1)) (D i) (N i) c" "owns st (D i) (N i)" "length (D i) = nblk (length c)" "length c \<le> MAXFILE * 512"
    and im: "image_ok st"
    by (auto simp: inode_ok_def file_at_def)
  have ip: "i_size ip = of_nat (length c)" "i_type ip = t" "i_dev ip = dev" "i_addrs ip = as"
    using assms(5,6) disk_inode_dino [OF assms(2) i] di by (simp_all add: load_inode_def)
  have sz: "unat (i_size ip) = length c" using m(4) ip(1) by (simp add: MAXFILE_def NDIRECT_def NINDIRECT_def)
  have blk: "block s dev (of_nat b) = m_img st ! b" "usable {} s dev (of_nat b)" if "b \<in> set (own_list (D i) (N i))" for b
  proof -
    have "b \<in> {29..<fbk st}" "fbk st \<le> 1024" using m(2) that im by (auto simp: owns_def image_ok_def)
    then show "block s dev (of_nat b) = m_img st ! b" "usable {} s dev (of_nat b)"
      using assms(2) of_nat_eq_u32 [of b 0] by (auto simp: holds_image_def usable_def loc_ok_def unheld_def)
  qed
  have hb: "k < length (D i)" if "has_block ip k" for k
    using that sz m(3) unfolding has_block_def nblk_def BSIZE_def by linarith
  have ind: "N i \<in> set (own_list (D i) (N i))" "NDIRECT < length (D i) \<Longrightarrow> N i \<noteq> 0" if "N i \<noteq> 0 \<or> NDIRECT < length (D i)"
    using that m(1) by (auto simp: own_list_def mapped_def)
  have mp: "\<forall>k < NDIRECT. as ! k = (if k < length (D i) then of_nat (D i ! k) else 0)" "as ! INDIRECT = of_nat (N i)" "length (D i) \<le> MAXFILE"
      "\<forall>k < length (D i). m_img st ! (D i ! k) = padded c k"
      "N i \<noteq> 0 \<Longrightarrow> \<forall>j < NINDIRECT. get32 (4 * j) (m_img st ! N i) = (if NDIRECT + j < length (D i) then of_nat (D i ! (NDIRECT + j)) else 0)"
    using m(1) di by (auto simp: mapped_def)
  have bn: "file_bn s ip k = of_nat (D i ! k)" if "k < length (D i)" for k
  proof (cases "k < NDIRECT")
    case True
    then show ?thesis using mp(1) that ip(4) by (simp add: file_bn_def)
  next
    case False
    then have n: "NDIRECT < length (D i)" "k - NDIRECT < NINDIRECT" using that mp(3) by (simp_all add: MAXFILE_def)
    then have "block s dev (as ! INDIRECT) = m_img st ! N i" using ind blk(1) mp(2) by simp
    then show ?thesis using False n that ind mp(5) ip by (simp add: file_bn_def)
  qed
  have own: "D i ! k \<in> set (own_list (D i) (N i))" if "k < length (D i)" for k using that by (simp add: own_list_def)
  have fb: "file_block s ip k = padded c k" "usable {} s dev (file_bn s ip k)" if "has_block ip k" for k
    using bn [OF hb [OF that]] blk [OF own [OF hb [OF that]]] mp(4) hb [OF that] ip(3) by (simp_all add: file_block_def)
  moreover have "usable {} s dev (as ! INDIRECT)" if "has_block ip NDIRECT"
    using hb [OF that] ind blk(2) mp(2) by simp
  ultimately show ?thesis using sz ip m(4) by (simp add: file_ok_def BSIZE_def)
qed

section \<open>The directory\<close>

definition entries :: "u8 list list \<Rightarrow> (nat \<times> u8 list) list" where
  "entries as = [(1, [46]), (1, [46, 46])] @ zip [2..<length as + 2] (map skip_underscore as)"

lemma entries_length [simp]: "length (entries as) = length as + 2"
  by (simp add: entries_def del: upt_Suc)

lemma dirents_concat:
  "dirents n as = concat (map (\<lambda>(i, a). mk_dirent (of_nat i) a) (zip [n..<length as + n] (map skip_underscore as)))"
proof (induction as arbitrary: n)
  case (Cons a as)
  have "[n..<length (a # as) + n] = n # [Suc n..<length as + Suc n]"
    using upt_conv_Cons [of n "length (a # as) + n"] by simp
  then show ?case using Cons [of "Suc n"] by simp
qed simp

lemma root_dir_concat: "root_dir as = concat (map (\<lambda>(i, a). mk_dirent (of_nat i) a) (entries as))"
  by (simp add: root_dir_def entries_def dirents_concat)

lemma concat_nth:
  assumes "\<forall>x \<in> set xs. length x = (16 :: nat)" and "k < length xs" and "j < 16"
  shows "16 * k + j < length (concat xs) \<and> concat xs ! (16 * k + j) = xs ! k ! j"
  using assms
proof (induction xs arbitrary: k)
  case (Cons x xs)
  then show ?case by (cases k) (auto simp: nth_append)
qed simp

lemma mk_dirent_nth:
  "get16 0 (mk_dirent (of_nat i) a) = of_nat i" "drop 2 (mk_dirent i' a) = take DIRSIZ a @ replicate (DIRSIZ - length a) 0"
proof -
  have "(ucast (of_nat i :: u32) :: u16) = of_nat i" by transfer (simp add: take_bit_take_bit)
  then show "get16 0 (mk_dirent (of_nat i) a) = of_nat i" by (simp add: mk_dirent_def Let_def)
qed (auto simp: mk_dirent_def Let_def min_def put16_def)

text \<open>Entry \<open>k\<close> of the root directory as the kernel decodes it.\<close>

lemma root_entry:
  assumes "k < length as + 2" and "d = padded (fill (root_dir as)) (k div 32)" and "entries as ! k = (i, a)"
  shows "de_inum (k mod 32) d = of_nat i" and "de_name (k mod 32) d = take DIRSIZ a @ replicate (DIRSIZ - length a) 0"
proof -
  let ?es = "map (\<lambda>(i, a). mk_dirent (of_nat i) a) (entries as)"
  have all: "\<forall>x \<in> set ?es. length x = 16" by auto
  have e: "?es ! k = mk_dirent (of_nat i) a" using assms(1,3) by simp
  have km: "k mod 32 < 32" by simp
  have byte: "d ! (16 * (k mod 32) + j) = mk_dirent (of_nat i) a ! j" if "j < 16" for j
  proof -
    have pos: "512 * (k div 32) + (16 * (k mod 32) + j) = 16 * k + j" using div_mult_mod_eq [of k 32] by linarith
    have "16 * (k mod 32) + j < 512" using km that by linarith
    then have "d ! (16 * (k mod 32) + j) = (if 16 * k + j < length (fill (root_dir as)) then fill (root_dir as) ! (16 * k + j) else 0)"
      using padded_nth [of "16 * (k mod 32) + j" "fill (root_dir as)" "k div 32"] unfolding assms(2) pos by blast
    moreover have "16 * k + j < length (root_dir as)" "root_dir as ! (16 * k + j) = mk_dirent (of_nat i) a ! j"
      using concat_nth [OF all, of k j] assms(1) that e by (simp_all add: root_dir_concat)
    moreover have "16 * k + j < length (fill (root_dir as))"
      using calculation(2) unfolding fill_def length_append by (rule trans_less_add1)
    ultimately show ?thesis by (simp add: fill_def nth_append)
  qed
  have "get16 (16 * (k mod 32)) d = get16 0 (mk_dirent (of_nat i) a)" using byte [of 0] byte [of 1] by (simp add: get16_def)
  then show "de_inum (k mod 32) d = of_nat i" by (simp add: de_inum_def mk_dirent_nth)
  have "length d = 512" by (simp add: assms(2))
  then have "take DIRSIZ (drop (16 * (k mod 32) + 2) d) = drop 2 (mk_dirent (of_nat i) a)"
    using km byte [of "2 + _"] by (intro nth_equalityI) (auto simp: DIRSIZ_def add.assoc)
  then show "de_name (k mod 32) d = take DIRSIZ a @ replicate (DIRSIZ - length a) 0" by (simp add: de_name_def mk_dirent_nth)
qed

section \<open>Properties\<close>

text \<open>Names the kernel can tell apart.\<close>

definition names_ok :: "u8 list list \<Rightarrow> bool" where
  "names_ok as \<longleftrightarrow> distinct (map (\<lambda>a. take DIRSIZ (skip_underscore a)) as)
     \<and> (\<forall>a \<in> set as. 0 \<notin> set a \<and> take DIRSIZ (skip_underscore a) \<notin> {[46], [46, 46]})"

lemma ucast_inum: "m < 65536 \<Longrightarrow> ucast (of_nat m :: u16) = (of_nat m :: u32)"
  by (simp add: word_unat_eq_iff unsigned_ucast_eq unat_of_nat take_bit_nat_eq_self)

lemma skip_underscore_set: "set (skip_underscore a) \<subseteq> set a"
  by (auto simp: skip_underscore_def split: list.splits if_splits)

lemma entries_nth: "m < length as \<Longrightarrow> entries as ! (m + 2) = (m + 2, skip_underscore (as ! m))"
  by (simp add: entries_def del: upt_Suc)

lemma entry_name:
  assumes "names_ok as" and "k < length as + 2" and "entries as ! k = (i, a)"
  shows "0 \<notin> set a" and "0 < i" and "i < length as + 2"
proof -
  consider "k = 0" | "k = 1" | m where "k = m + 2" "m < length as"
    using assms(2) less_iff_Suc_add by (cases k; cases "k - 1") auto
  then have "0 \<notin> set a \<and> 0 < i \<and> i < length as + 2"
  proof cases
    case (3 m)
    then have "i = m + 2" "a = skip_underscore (as ! m)" using assms(3) entries_nth [OF 3(2)] by simp_all
    then show ?thesis using assms(1) 3 skip_underscore_set [of "as ! m"] nth_mem [OF 3(2)] by (auto simp: names_ok_def)
  qed (use assms(3) in \<open>auto simp: entries_def\<close>)
  then show "0 \<notin> set a" "0 < i" "i < length as + 2" by auto
qed

lemma takeWhile_padded: "0 \<notin> set a \<Longrightarrow> takeWhile (\<lambda>c. c \<noteq> 0) (take n a @ replicate m (0 :: u8)) = take n a"
  by (subst takeWhile_append2) (auto dest: in_set_takeD)

text \<open>The kernel finds file \<open>i\<close> in entry \<open>i + 2\<close> of the root directory.\<close>

lemma root_lookup:
  assumes "names_ok as" and "i < length as" and "length as < 199" and "unat (i_size ip) = length (fill (root_dir as))"
    and "\<And>k. has_block ip k \<Longrightarrow> file_block s ip k = padded (fill (root_dir as)) k"
  shows "first_idx (dir_match s ip (skip_underscore (as ! i))) [0..<dir_nblocks ip * 32] = Some (i + 2)" and "dir_inum s ip (i + 2) = of_nat (i + 2)"
proof -
  let ?nm = "\<lambda>k. snd (entries as ! k)"
  have len: "length (root_dir as) = 16 * (length as + 2)" by (simp add: root_dir_def)
  have "16 * (length as + 2) div 512 = (length as + 2) div 32" using div_mult_mult1 [of 16 "length as + 2" 32] by simp
  then have nb: "dir_nblocks ip = (length as + 2) div 32 + 1"
    using assms(4) unfolding fill_length len dir_nblocks_def BSIZE_def by simp
  have kb: "k < dir_nblocks ip * 32" if "k < length as + 2" for k
    using that dividend_less_div_times [of 32 "length as + 2"] unfolding nb by (simp only: algebra_simps)
  have ent: "dir_inum s ip k = of_nat (fst (entries as ! k))"
      "dir_name s ip k = take DIRSIZ (?nm k) @ replicate (DIRSIZ - length (?nm k)) 0" if "k < length as + 2" for k
  proof -
    have "has_block ip (k div 32)" using kb [OF that] by (simp add: has_block_nblocks div_less_iff_less_mult)
    then show "dir_inum s ip k = of_nat (fst (entries as ! k))" "dir_name s ip k = take DIRSIZ (?nm k) @ replicate (DIRSIZ - length (?nm k)) 0"
      using root_entry [OF that refl, of "fst (entries as ! k)" "?nm k"] assms(5) by (simp_all add: dir_inum_def dir_name_def)
  qed
  have nz: "(of_nat m :: u16) \<noteq> 0" if "0 < m" "m < 201" for m
    using that word_of_nat_eq_0_iff [where 'a = 16, of m] by (auto dest: dvd_imp_le)
  have m: "dir_match s ip name k \<longleftrightarrow> take DIRSIZ name = take DIRSIZ (?nm k)" if "k < length as + 2" "0 \<notin> set name" for k name
  proof -
    note e = entry_name [OF assms(1) that(1), of "fst (entries as ! k)" "?nm k", simplified]
    have tw: "takeWhile (\<lambda>c. c \<noteq> 0) name = name" using that(2) by (auto simp: takeWhile_eq_all_conv)
    show ?thesis
      using ent [OF that(1)] nz [OF e(2)] e assms(3) takeWhile_padded [OF e(1)]
      by (simp add: dir_match_def namecmp_def strncmp_list_eq_0 tw)
  qed
  let ?a = "skip_underscore (as ! i)"
  have a0: "0 \<notin> set ?a" using assms(1,2) skip_underscore_set [of "as ! i"] nth_mem [OF assms(2)] by (auto simp: names_ok_def)
  have "\<not> dir_match s ip ?a k" if "k < i + 2" for k
  proof -
    consider "k = 0" | "k = 1" | l where "k = l + 2" "l < i" using \<open>k < i + 2\<close> less_iff_Suc_add by (cases k; cases "k - 1") auto
    then have "take DIRSIZ (?nm k) \<noteq> take DIRSIZ ?a"
    proof cases
      case (3 l)
      then have "take DIRSIZ (skip_underscore (as ! l)) \<noteq> take DIRSIZ ?a"
        using assms(1,2) unfolding names_ok_def by (auto simp: distinct_conv_nth)
      then show ?thesis using 3 assms(2) entries_nth [of l as] by simp
    qed (use assms(1) nth_mem [OF assms(2)] in \<open>auto simp: names_ok_def entries_def DIRSIZ_def\<close>)
    then show ?thesis using m [OF _ a0, of k] that assms(2) by simp
  qed
  moreover have "dir_match s ip ?a (i + 2)" using m [OF _ a0, of "i + 2"] assms(2) entries_nth [OF assms(2)] by simp
  ultimately show "first_idx (dir_match s ip ?a) [0..<dir_nblocks ip * 32] = Some (i + 2)"
    using kb [of "i + 2"] assms(2) by (simp add: first_idx_Some)
  show "dir_inum s ip (i + 2) = of_nat (i + 2)" using ent(1) [of "i + 2"] entries_nth [OF assms(2)] assms(2) by simp
qed

text \<open>
  \<^bold>\<open>C18.\<close> \<^verbatim>\<open>mkfs\<close> builds a sound file system. For files that fit, the program comes to its end, with the right
  superblock; the bitmap marks exactly the blocks in use; inode 1 is the root directory and the next ones hold the files, each
  with its type, one link, its size and its contents, in blocks behind the bitmap that no two files share.
\<close>

theorem mkfs_builds_image:
  assumes "length junk = 500" and "mkfs_fits host as"
  shows "\<exists>st D N. mkfs_main True junk host (prog # fsimg # as) = Inr st
    \<and> the_sb (m_img st ! 1) = \<lparr>sb_size = 1024, sb_nblocks = 995, sb_ninodes = 200\<rparr>
    \<and> (\<forall>b < 4096. block_free (m_img st ! 28) b \<longleftrightarrow> blocks_used (final_fs host as) \<le> b)
    \<and> fsys (sb_bytes @ junk) st (final_fs host as) D N"
proof -
  obtain st D N where m: "mkfs_main True junk host (prog # fsimg # as) = Inr st" "fsys (sb_bytes @ junk) st (final_fs host as) D N"
      "\<forall>b < 4096. block_free (m_img st ! 28) b \<longleftrightarrow> blocks_used (final_fs host as) \<le> b"
    using mkfs_ok [OF assms] by blast
  have l: "length sb_bytes = 12" "get32 0 sb_bytes = mk_size" "get32 4 sb_bytes = mk_nblocks" "get32 8 sb_bytes = mk_ninodes"
    by (simp_all add: sb_bytes_def get_put_apart)
  have "get32 p (sb_bytes @ junk) = get32 p sb_bytes" if "p + 3 < 12" for p using that l(1) by (simp add: get32_def nth_append)
  then have "the_sb (m_img st ! 1) = \<lparr>sb_size = 1024, sb_nblocks = 995, sb_ninodes = 200\<rparr>"
    using m(2) l by (simp add: the_sb_def fsys_def mk_size_def mk_nblocks_def mk_ninodes_def)
  then show ?thesis by (intro exI conjI) (rule m(1), assumption, rule m(3), rule m(2))
qed

text \<open>
  \<^bold>\<open>C17.\<close> The kernel reads what \<^verbatim>\<open>mkfs\<close> wrote. With the image on its disk, and the inodes loaded from
  it, \<^verbatim>\<open>dirlookup\<close> in the root directory finds each file under its name (without a leading underscore, cut off at 14 bytes) and
  gets its inode, and \<^verbatim>\<open>readi\<close> of that inode delivers the bytes of the file of the host.
\<close>

theorem kernel_reads_image:
  assumes "length junk = 500" and "mkfs_fits host as" and "mkfs_main True junk host (prog # fsimg # as) = Inr st"
    and "holds_image s dev st" and "bio_ok {} s" and "names_ok as" and "i < length as"
    and "inode_at r s = load_inode (disk_inode s dev 1) rp" and "i_dev rp = dev"
    and "inode_at j s = load_inode (disk_inode s dev (of_nat (i + 2))) fp" and "i_dev fp = dev"
    and "k = min (unat n) (length (contents host (as ! i)))"
  shows "(\<exists>s'. block s' = block s \<and> dirlookup r (skip_underscore (as ! i)) s
       = rbind (iget dev (of_nat (i + 2)) s') (\<lambda>(j, s2). Inr (Some (j, of_nat (16 * (i + 2))), s2)))
    \<and> (\<exists>s'. readi dsw j 0 n s = Inr (of_nat k, take k (contents host (as ! i)), s') \<and> block s' = block s)"
proof -
  let ?c = "contents host (as ! i)"
  obtain st' D N where m: "mkfs_main True junk host (prog # fsimg # as) = Inr st'" "fsys (sb_bytes @ junk) st' (final_fs host as) D N"
    using mkfs_ok [OF assms(1,2), of prog fsimg] by blast
  then have f: "fsys (sb_bytes @ junk) st (final_fs host as) D N" using assms(3) by simp
  have len: "length as < 199" using assms(2) by (simp add: mkfs_fits_def)
  have root: "file_ok {} s (inode_at r s)" "unat (i_size (inode_at r s)) = length (fill (root_dir as))" "i_type (inode_at r s) = T_DIR"
      "i_dev (inode_at r s) = dev" "\<And>k. has_block (inode_at r s) k \<Longrightarrow> file_block s (inode_at r s) k = padded (fill (root_dir as)) k"
    using kernel_file [OF f assms(4), of 0 _ _ "inode_at r s" rp] assms(8,9) by (auto simp: final_fs_def)
  have fl: "file_ok {} s (inode_at j s)" "unat (i_size (inode_at j s)) = length ?c" "i_type (inode_at j s) = T_FILE"
      "\<And>k. has_block (inode_at j s) k \<Longrightarrow> file_block s (inode_at j s) k = padded ?c k"
    using kernel_file [OF f assms(4), of "i + 1" _ _ "inode_at j s" fp] assms(7,10,11) by (auto simp: final_fs_def)
  note look = root_lookup [OF assms(6,7) len root(2,5)]
  have "ucast (of_nat (i + 2) :: u16) = (of_nat (i + 2) :: u32)" using assms(7) len by (intro ucast_inum) simp
  then have "\<exists>s'. block s' = block s \<and> dirlookup r (skip_underscore (as ! i)) s
       = rbind (iget dev (of_nat (i + 2)) s') (\<lambda>(j, s2). Inr (Some (j, of_nat (16 * (i + 2))), s2))"
    using dirlookup_loop_ok [OF assms(5) room_empty refl root(1) le0 refl, of "skip_underscore (as ! i)"] look root(3,4)
    unfolding dirlookup_def dir_blocks_def dir_nblocks_def [symmetric] by (auto simp del: of_nat_add of_nat_mult)
  moreover have "\<exists>s'. readi dsw j 0 n s = Inr (of_nat k, take k ?c, s') \<and> block s' = block s"
  proof -
    obtain s' where s': "readi_loop k j 0 s = Inr (map (file_byte s (inode_at j s)) [0..<k], s')" "block s' = block s"
      using readi_loop_ok [OF assms(5) room_empty refl fl(1), of 0 k] fl(2) assms(12) by auto
    have "file_byte s (inode_at j s) p = ?c ! p" if "p < length ?c" for p
      using that has_block_div [of p "inode_at j s"] fl(2,4) div_mult_mod_eq [of p 512]
      by (simp add: file_byte_def BSIZE_def padded_nth mult.commute)
    then have bytes: "map (file_byte s (inode_at j s)) [0..<k] = take k ?c"
      using assms(12) by (intro nth_equalityI) auto
    define n1 where "n1 = (if n > i_size (inode_at j s) then i_size (inode_at j s) else n)"
    have n1: "unat n1 = k" using assms(12) fl(2) by (auto simp: n1_def word_less_nat_alt)
    then have "n1 = of_nat k" by auto
    moreover have "readi dsw j 0 n s = Inr (n1, take k ?c, s')"
      using s'(1) bytes fl(3) n1 unfolding readi_def Let_def n1_def by (simp add: T_FILE_def T_DEV_def split: if_splits)
    ultimately show ?thesis using s'(2) by blast
  qed
  ultimately show ?thesis ..
qed

text \<open>An image with one file, and a kernel that has it on its disk, with the inodes of the root directory and of the file.\<close>

definition one_host :: "u8 list \<Rightarrow> u8 list list option" where
  "one_host a = (if a = [95, 97] then Some [[104, 105]] else None)"

lemma one_host_fits: "mkfs_fits one_host [[95, 97]]"
proof -
  have "length (root_dir [[95, 97]]) = 48" by (simp add: root_dir_def)
  then have "length (fill (root_dir [[95, 97]])) = 512" unfolding fill_length by simp
  then show ?thesis
    by (simp add: mkfs_fits_def final_fs_def source_ok_def contents_def one_host_def slash_def blocks_used_def need_def nblk_def
        MAXFILE_def NDIRECT_def NINDIRECT_def)
qed

definition with_image :: "mkfs \<Rightarrow> fs" where
  "with_image st = formatted\<lparr>disk := (\<lambda>_ sec. m_img st ! unat sec),
     inodes := [load_inode (dino (m_img st) 1) open_file, load_inode (dino (m_img st) 2) open_file]\<rparr>"

lemma with_image_ok: "bio_ok {} (with_image st)"
  using formatted_ok by (simp add: with_image_def bio_ok_def buf_at_def drive_ready_def formatted_def)

lemma small_sector: "k < 1024 \<Longrightarrow> (of_nat k :: u32) AND 0x0fffffff = of_nat k"
proof -
  assume "k < 1024"
  then have k: "take_bit 28 k = k" by (simp add: take_bit_nat_eq_self)
  have m: "(0x0fffffff :: u32) = mask 28" by (simp add: mask_eq_exp_minus_1)
  show ?thesis unfolding m take_bit_eq_mask [symmetric] by (simp add: take_bit_of_nat k)
qed

lemma with_image_holds: "holds_image (with_image st) 1 st"
  by (simp add: holds_image_def block_def with_image_def small_sector)

theorem mkfs_builds_image_witness:
  "\<exists>st. mkfs_main True (replicate 500 0) one_host [[], [], [95, 97]] = Inr st \<and> \<not> block_free (m_img st ! 28) 30 \<and> block_free (m_img st ! 28) 31"
proof -
  have "blocks_used (final_fs one_host [[95, 97]]) = 31"
    using one_host_fits by (simp add: mkfs_fits_def final_fs_def blocks_used_def need_def nblk_def fill_length root_dir_def contents_def one_host_def NDIRECT_def)
  then show ?thesis using mkfs_builds_image [OF _ one_host_fits, of "replicate 500 0" "[]" "[]"] by auto
qed

theorem kernel_reads_image_witness:
  "\<exists>st s'. mkfs_main True (replicate 500 0) one_host [[], [], [95, 97]] = Inr st
     \<and> readi (\<lambda>_. \<lparr>dev_read = None, dev_write = None\<rparr>) 1 0 100 (with_image st) = Inr (2, [104, 105], s')"
proof -
  obtain st D N where m: "mkfs_main True (replicate 500 0) one_host [[], [], [95, 97]] = Inr st"
    using mkfs_ok [OF _ one_host_fits, of "replicate 500 0" "[]" "[]"] by auto
  have d: "inode_at 0 (with_image st) = load_inode (disk_inode (with_image st) 1 1) open_file"
      "inode_at 1 (with_image st) = load_inode (disk_inode (with_image st) 1 (of_nat (0 + 2))) open_file"
    using disk_inode_dino [OF with_image_holds, of 1 st] disk_inode_dino [OF with_image_holds, of 2 st]
    by (simp_all add: inode_at_def with_image_def)
  have "names_ok [[95, 97]]" by (simp add: names_ok_def skip_underscore_def DIRSIZ_def)
  then show ?thesis
    using m kernel_reads_image [OF _ one_host_fits m with_image_holds with_image_ok _ _ d(1) _ d(2), of 2 100 "\<lambda>_. \<lparr>dev_read = None, dev_write = None\<rparr>"]
    by (auto simp: open_file_def contents_def one_host_def)
qed

end
