(* ===== verification/Umalloc.thy ===== *)
theory Umalloc
  imports Kalloc
begin

text \<open>
  The memory allocator of user programs (\<^verbatim>\<open>umalloc.c\<close>). A header of 8 bytes, a pointer and a
  size in units of 8 bytes, precedes every block; the free blocks form a circular list in the
  order of their addresses that starts at the static header \<^verbatim>\<open>base\<close>, whose address is an argument.
\<close>

section \<open>State\<close>

record uheap =
  umem :: mem
  freep :: addr
  brk :: addr

definition hptr :: "mem \<Rightarrow> addr \<Rightarrow> addr" where
  "hptr m h = read32 m h"

definition hsize :: "mem \<Rightarrow> addr \<Rightarrow> u32" where
  "hsize m h = read32 m (h + 4)"

definition set_hptr :: "addr \<Rightarrow> addr \<Rightarrow> mem \<Rightarrow> mem" where
  "set_hptr h v m = write32 h v m"

definition set_hsize :: "addr \<Rightarrow> u32 \<Rightarrow> mem \<Rightarrow> mem" where
  "set_hsize h v m = write32 (h + 4) v m"

section \<open>free\<close>

text \<open>The loop that looks for the block behind which \<^verbatim>\<open>bp\<close> belongs.\<close>

partial_function (option) free_find :: "mem \<Rightarrow> addr \<Rightarrow> addr \<Rightarrow> addr option" where
  "free_find m bp p =
     (if bp > p \<and> bp < hptr m p then Some p
      else if p \<ge> hptr m p \<and> (bp > p \<or> bp < hptr m p) then Some p
      else free_find m bp (hptr m p))"

text \<open>The two halves of the rest: the block is joined to the one behind it, then to the one before it.\<close>

definition free_upper :: "addr \<Rightarrow> addr \<Rightarrow> mem \<Rightarrow> mem" where
  "free_upper bp p m =
     (if bp + 8 * hsize m bp = hptr m p
      then let m1 = set_hsize bp (hsize m bp + hsize m (hptr m p)) m
        in set_hptr bp (hptr m1 (hptr m1 p)) m1
      else set_hptr bp (hptr m p) m)"

definition free_lower :: "addr \<Rightarrow> addr \<Rightarrow> mem \<Rightarrow> mem" where
  "free_lower bp p m =
     (if p + 8 * hsize m p = bp
      then let m1 = set_hsize p (hsize m p + hsize m bp) m in set_hptr p (hptr m1 bp) m1
      else set_hptr p bp m)"

definition free :: "addr \<Rightarrow> uheap \<Rightarrow> uheap option" where
  "free ap h =
     (let bp = ap - 8 in
      map_option (\<lambda>p. h\<lparr>umem := free_lower bp p (free_upper bp p (umem h)), freep := p\<rparr>)
        (free_find (umem h) bp (freep h)))"

section \<open>malloc\<close>

text \<open>
  \<^verbatim>\<open>sbrk\<close> as \<^verbatim>\<open>sys_sbrk\<close>, \<^verbatim>\<open>growproc\<close> and the check of \<^verbatim>\<open>kalloc\<close> have it, seen by the process: its
  addresses start at 0, so that \<^verbatim>\<open>cp->sz\<close> is the end of its memory. The kernel panics unless the
  new size is a positive number of whole pages. Whether the allocator has a block of that size is
  the parameter \<open>avail\<close>; if not, the result is -1. If the new size is less than the old one,
  \<^verbatim>\<open>growproc\<close> copies and clears beyond the new block, with \<open>n\<close> as an unsigned count, and so writes
  over the kernel: nothing is defined then. Otherwise the memory grows by zeros and the result is
  the old end, or -1 if that is negative as an \<^verbatim>\<open>int\<close>.
\<close>

definition whole_pages :: "u32 \<Rightarrow> bool" where
  "whole_pages n \<longleftrightarrow> unat n mod 4096 = 0 \<and> sint n > 0"

definition sbrk :: "(uheap \<Rightarrow> u32 \<Rightarrow> bool) \<Rightarrow> u32 \<Rightarrow> uheap \<Rightarrow> (addr \<times> uheap) res" where
  "sbrk avail n h =
     (let sz = brk h + n in
      if \<not> whole_pages sz then Inl (Panic ''kalloc'')
      else if \<not> avail h n then Inr (-1, h)
      else if sz < brk h then Inl Diverges
      else Inr (if sint (brk h) < 0 then -1 else brk h, h\<lparr>brk := sz, umem := memset (brk h) 0 n (umem h)\<rparr>))"

definition morecore :: "(uheap \<Rightarrow> u32 \<Rightarrow> bool) \<Rightarrow> u32 \<Rightarrow> uheap \<Rightarrow> (addr \<times> uheap) res option" where
  "morecore avail nu h =
     (let nu1 = (if nu < PAGE then PAGE else nu) in
      case sbrk avail (nu1 * 8) h of
        Inl e \<Rightarrow> Some (Inl e)
      | Inr (p, h1) \<Rightarrow>
          if p = -1 then Some (Inr (0, h1))
          else map_option (\<lambda>h2. Inr (freep h2, h2)) (free (p + 8) (h1\<lparr>umem := set_hsize p nu1 (umem h1)\<rparr>)))"

definition malloc_units :: "u32 \<Rightarrow> u32" where
  "malloc_units nbytes = (nbytes + 8 - 1) div 8 + 1"

text \<open>A block that is large enough is taken as a whole, or its upper end is cut off.\<close>

definition malloc_take :: "u32 \<Rightarrow> addr \<Rightarrow> addr \<Rightarrow> uheap \<Rightarrow> addr \<times> uheap" where
  "malloc_take nunits prevp p h =
     (if hsize (umem h) p = nunits
      then (p + 8, h\<lparr>umem := set_hptr prevp (hptr (umem h) p) (umem h), freep := prevp\<rparr>)
      else let m1 = set_hsize p (hsize (umem h) p - nunits) (umem h);
               q = p + 8 * hsize m1 p
        in (q + 8, h\<lparr>umem := set_hsize q nunits m1, freep := prevp\<rparr>))"

partial_function (option) malloc_loop ::
    "(uheap \<Rightarrow> u32 \<Rightarrow> bool) \<Rightarrow> u32 \<Rightarrow> addr \<Rightarrow> addr \<Rightarrow> uheap \<Rightarrow> (addr \<times> uheap) res option" where
  "malloc_loop avail nunits prevp p h =
     (if hsize (umem h) p \<ge> nunits then Some (Inr (malloc_take nunits prevp p h))
      else if p = freep h then
        Option.bind (morecore avail nunits h) (\<lambda>r. case r of
            Inl e \<Rightarrow> Some (Inl e)
          | Inr (q, h1) \<Rightarrow>
              if q = 0 then Some (Inr (0, h1))
              else malloc_loop avail nunits q (hptr (umem h1) q) h1)
      else malloc_loop avail nunits p (hptr (umem h) p) h)"

text \<open>The first call makes \<^verbatim>\<open>base\<close> an empty block that points to itself.\<close>

definition malloc_init :: "addr \<Rightarrow> uheap \<Rightarrow> uheap" where
  "malloc_init base h =
     (if freep h = 0 then h\<lparr>freep := base, umem := set_hsize base 0 (set_hptr base base (umem h))\<rparr> else h)"

definition malloc :: "(uheap \<Rightarrow> u32 \<Rightarrow> bool) \<Rightarrow> addr \<Rightarrow> u32 \<Rightarrow> uheap \<Rightarrow> (addr \<times> uheap) res option" where
  "malloc avail base nbytes h =
     (let h1 = malloc_init base h
      in malloc_loop avail (malloc_units nbytes) (freep h1) (hptr (umem h1) (freep h1)) h1)"

end
