(* ===== verification/Kalloc_List.thy ===== *)
theory Kalloc_List
  imports Kalloc
begin

text \<open>
  The abstract view of the free list of \<^verbatim>\<open>kalloc.c\<close>: a list of \<open>(address, length)\<close> pairs,
  its well-formedness, the set of bytes it describes, and the insertion and first-fit
  algorithms on such lists with their correctness.
\<close>

section \<open>Abstract free lists\<close>

type_synonym runs = "(nat \<times> nat) list"

primrec runs :: "mem \<Rightarrow> addr \<Rightarrow> runs \<Rightarrow> bool" where
  "runs m p [] \<longleftrightarrow> p = 0"
| "runs m p (r # rs) \<longleftrightarrow>
     p \<noteq> 0 \<and> unat p = fst r \<and> unat (run_len m p) = snd r \<and> runs m (run_next m p) rs"

text \<open>
  The shape \<^verbatim>\<open>kalloc.c\<close> promises: page-aligned runs in ascending order, with a gap between
  neighbours (adjacent runs have been combined), all below 2 GB.
\<close>

primrec wf_runs :: "nat \<Rightarrow> runs \<Rightarrow> bool" where
  "wf_runs b [] = True"
| "wf_runs b (r # rs) \<longleftrightarrow>
     b < fst r \<and> 4096 dvd fst r \<and> 4096 dvd snd r \<and> 0 < snd r
     \<and> fst r + snd r < 2147483648 \<and> wf_runs (fst r + snd r) rs"

definition free_bytes :: "runs \<Rightarrow> nat set" where
  "free_bytes rs = (\<Union>(a, l) \<in> set rs. {a..<a + l})"

fun kfree_l :: "nat \<Rightarrow> nat \<Rightarrow> runs \<Rightarrow> runs option" where
  "kfree_l p n [] = Some [(p, n)]"
| "kfree_l p n ((a, l) # rs) =
     (if p + n < a then Some ((p, n) # (a, l) # rs)
      else if a \<le> p \<and> p < a + l then None
      else if p + n = a then Some ((p, n + l) # rs)
      else if a + l = p then
        (case rs of
           (a2, l2) # rs2 \<Rightarrow> if a2 = p + n then Some ((a, l + n + l2) # rs2) else Some ((a, l + n) # rs)
         | [] \<Rightarrow> Some [(a, l + n)])
      else map_option ((#) (a, l)) (kfree_l p n rs))"

fun kalloc_l :: "nat \<Rightarrow> runs \<Rightarrow> (nat \<times> runs) option" where
  "kalloc_l n [] = None"
| "kalloc_l n ((a, l) # rs) =
     (if l = n then Some (a, rs)
      else if n < l then Some (a + (l - n), (a, l - n) # rs)
      else map_option (map_prod id ((#) (a, l))) (kalloc_l n rs))"

section \<open>The abstract allocator\<close>

lemma free_bytes_Nil [simp]: "free_bytes [] = {}"
  by (simp add: free_bytes_def)

lemma free_bytes_Cons [simp]: "free_bytes ((a, l) # rs) = {a..<a + l} \<union> free_bytes rs"
  by (simp add: free_bytes_def)

lemma wf_runs_mono: "wf_runs b rs \<Longrightarrow> c \<le> b \<Longrightarrow> wf_runs c rs"
  by (cases rs) auto

lemma wf_runs_above: "wf_runs b rs \<Longrightarrow> x \<in> free_bytes rs \<Longrightarrow> b < x \<and> x < 2147483648"
proof (induction rs arbitrary: b)
  case (Cons r rs)
  then show ?case by (cases r) fastforce
qed simp

lemma disjoint_run:
  assumes "{p..<p + n} \<inter> {a..<a + l} = {}" and "0 < n" and "0 < l"
  shows "p + n \<le> a \<or> a + l \<le> (p :: nat)"
proof (rule ccontr)
  assume "\<not> ?thesis"
  then have "max p a \<in> {p..<p + n} \<inter> {a..<a + l}" using assms(2,3) by auto
  then show False using assms(1) by blast
qed

lemma kfree_l_correct:
  assumes "wf_runs b rs" and "b < p" and "4096 dvd p" and "4096 dvd n" and "0 < n"
    and "p + n < 2147483648" and "{p..<p + n} \<inter> free_bytes rs = {}"
  shows "\<exists>rs'. kfree_l p n rs = Some rs' \<and> wf_runs b rs'
           \<and> free_bytes rs' = free_bytes rs \<union> {p..<p + n}"
  using assms
proof (induction rs arbitrary: b)
  case (Cons r rs)
  obtain a l where r: "r = (a, l)" by (cases r)
  have w: "b < a" "4096 dvd a" "4096 dvd l" "0 < l" "a + l < 2147483648" "wf_runs (a + l) rs"
    using Cons.prems(1) r by auto
  have da: "{p..<p + n} \<inter> {a..<a + l} = {}" and dr: "{p..<p + n} \<inter> free_bytes rs = {}"
    using Cons.prems(7) r by (simp_all add: Int_Un_distrib)
  have d: "p + n \<le> a \<or> a + l \<le> p" using da Cons.prems(5) w(4) by (rule disjoint_run)
  consider (before) "p + n < a" | (left) "p + n = a" | (right) "a + l = p" | (after) "a + l < p"
    using d by linarith
  then show ?case
  proof cases
    case before
    then show ?thesis using Cons.prems w r by auto
  next
    case left
    then show ?thesis using Cons.prems w r by (auto simp: add.assoc)
  next
    case right
    show ?thesis
    proof (cases rs)
      case Nil
      then show ?thesis using right Cons.prems w r by auto
    next
      case (Cons r2 rs2)
      obtain a2 l2 where r2: "r2 = (a2, l2)" by (cases r2)
      show ?thesis
      proof (cases "a2 = p + n")
        case True
        then show ?thesis using right Cons r2 \<open>wf_runs b (r # rs)\<close> w r Cons.prems
          by (auto simp: add.assoc)
      next
        case False
        have "{p..<p + n} \<inter> {a2..<a2 + l2} = {}" using dr Cons r2 by (simp add: Int_Un_distrib)
        moreover have "a + l < a2" "0 < l2" using w(6) Cons r2 by auto
        ultimately have "p + n < a2" using False right \<open>0 < n\<close> disjoint_run [of p n a2 l2] by linarith
        then show ?thesis using False right Cons r2 w r Cons.prems by auto
      qed
    qed
  next
    case after
    obtain rs' where "kfree_l p n rs = Some rs'" "wf_runs (a + l) rs'"
      "free_bytes rs' = free_bytes rs \<union> {p..<p + n}"
      using Cons.IH [OF w(6) after] Cons.prems dr by auto
    then show ?thesis using after w r by auto
  qed
qed simp

lemma kfree_l_double_free:
  assumes "wf_runs b rs" and "p \<in> free_bytes rs" and "0 < n"
  shows "kfree_l p n rs = None"
  using assms
proof (induction rs arbitrary: b)
  case (Cons r rs)
  obtain a l where r: "r = (a, l)" by (cases r)
  have w: "wf_runs (a + l) rs" using Cons.prems(1) r by auto
  show ?case
  proof (cases "p \<in> {a..<a + l}")
    case False
    then have p: "p \<in> free_bytes rs" using Cons.prems(2) r by auto
    then have "a + l < p" using wf_runs_above [OF w] by blast
    then show ?thesis using Cons.IH [OF w p] Cons.prems(3) r by auto
  qed (use r Cons.prems in auto)
qed simp

lemma kalloc_l_correct:
  assumes "wf_runs b rs" and "4096 dvd n" and "0 < n" and "kalloc_l n rs = Some (p, rs')"
  shows "wf_runs b rs' \<and> b < p \<and> 4096 dvd p \<and> {p..<p + n} \<subseteq> free_bytes rs
     \<and> free_bytes rs' = free_bytes rs - {p..<p + n}"
  using assms
proof (induction rs arbitrary: b rs')
  case (Cons r rs)
  obtain a l where r: "r = (a, l)" by (cases r)
  have w: "b < a" "4096 dvd a" "4096 dvd l" "0 < l" "a + l < 2147483648" "wf_runs (a + l) rs"
    using Cons.prems(1) r by auto
  have above: "x \<in> free_bytes rs \<Longrightarrow> a + l < x" for x using wf_runs_above [OF w(6)] by blast
  consider (eq) "l = n" | (split) "n < l" | (next_run) "l < n" by linarith
  then show ?case
  proof cases
    case eq
    then have p: "p = a" "rs' = rs" using Cons.prems(4) r by auto
    then show ?thesis using w r eq wf_runs_mono [OF w(6), of b] above by (fastforce)
  next
    case split
    then have p: "p = a + (l - n)" "rs' = (a, l - n) # rs" using Cons.prems(4) r by auto
    have "4096 dvd l - n" using w(3) Cons.prems(2) by (rule dvd_diff_nat)
    then have "4096 dvd p" using w(2) p(1) by simp
    moreover have "{p..<p + n} \<inter> free_bytes rs = {}" using above p(1) split by fastforce
    ultimately show ?thesis
      using w r split p wf_runs_mono [OF w(6), of "a + (l - n)"] Cons.prems(3) \<open>4096 dvd l - n\<close>
      by auto
  next
    case next_run
    then obtain rs2 where rs2: "kalloc_l n rs = Some (p, rs2)" "rs' = (a, l) # rs2"
      using Cons.prems(4) r by auto
    have "wf_runs (a + l) rs2 \<and> a + l < p \<and> 4096 dvd p \<and> {p..<p + n} \<subseteq> free_bytes rs
      \<and> free_bytes rs2 = free_bytes rs - {p..<p + n}"
      using Cons.IH [OF w(6) Cons.prems(2,3) rs2(1)] .
    then show ?thesis using w r rs2(2) by auto
  qed
qed simp

lemma kalloc_l_None: "kalloc_l n rs = None \<longleftrightarrow> (\<forall>(a, l) \<in> set rs. l < n)"
  by (induction n rs rule: kalloc_l.induct) auto

end
