(* ===== verification/Kalloc_Refine.thy ===== *)
theory Kalloc_Refine
  imports Kalloc_List
begin

text \<open>
  The pointer manipulations of \<^verbatim>\<open>kalloc.c\<close> implement the list algorithms of
  \<^verbatim>\<open>Kalloc_List\<close>. The loops hold a pointer to a pointer \<open>rp\<close>; the refinement is proved for
  the sublist that hangs off \<open>rp\<close>, together with a frame: only run headers, the new run at
  \<open>p\<close> and the link \<open>rp\<close> itself are written.
\<close>

section \<open>Frames of the run headers\<close>

lemma write32_frame:
  assumes "unat a + 4 \<le> 4294967296" and "unat x < unat a \<or> unat a + 4 \<le> unat x"
  shows "write32 a v m x = m x"
proof (rule write32_other)
  show "4 \<le> unat (x - a)" using assms unat_lt_2p32 [of x] by (auto simp: unat_sub_u32)
qed

lemma read32_frame:
  assumes "unat y + 4 \<le> 4294967296"
    and "\<And>x. unat y \<le> unat x \<Longrightarrow> unat x < unat y + 4 \<Longrightarrow> m x = m' x"
  shows "read32 m y = read32 m' y"
proof -
  have "m (y + of_nat i) = m' (y + of_nat i)" if "i < 4" for i
    using assms that by (intro assms(2)) (simp_all add: unat_add_u32)
  from this [of 0] this [of 1] this [of 2] this [of 3] show ?thesis by (simp add: read32_def)
qed

text \<open>Two memories agree on the eight bytes of the header at \<open>a\<close>.\<close>

definition same_hdr :: "mem \<Rightarrow> mem \<Rightarrow> nat \<Rightarrow> bool" where
  "same_hdr m m' a \<longleftrightarrow> (\<forall>x. a \<le> unat x \<and> unat x < a + 8 \<longrightarrow> m x = m' x)"

lemma same_hdrD:
  assumes "same_hdr m m' (unat p)" and "unat p + 8 \<le> 4294967296"
  shows "run_next m p = run_next m' p" and "run_len m p = run_len m' p"
proof -
  show "run_next m p = run_next m' p"
    unfolding run_next_def using assms by (intro read32_frame) (auto simp: same_hdr_def)
  have "unat (p + 4) = unat p + 4" using assms(2) by (simp add: unat_add_u32)
  then show "run_len m p = run_len m' p"
    unfolding run_len_def using assms by (intro read32_frame) (auto simp: same_hdr_def)
qed

lemma runs_cong:
  assumes "wf_runs b rs" and "\<And>a l. (a, l) \<in> set rs \<Longrightarrow> same_hdr m m' a"
  shows "runs m p rs \<longleftrightarrow> runs m' p rs"
  using assms
proof (induction rs arbitrary: b p)
  case (Cons r rs)
  show ?case
  proof (cases "unat p = fst r")
    case True
    then have "same_hdr m m' (unat p)" using Cons.prems(2) by (cases r) auto
    moreover have "unat p + 8 \<le> 4294967296" using Cons.prems(1) True by simp
    ultimately have "run_next m p = run_next m' p" "run_len m p = run_len m' p"
      by (rule same_hdrD)+
    moreover have "runs m q rs \<longleftrightarrow> runs m' q rs" for q
      using Cons.prems by (intro Cons.IH [of "fst r + snd r"]) auto
    ultimately show ?thesis by simp
  qed simp
qed simp

lemma pages_apart: "4096 dvd a \<Longrightarrow> 4096 dvd b \<Longrightarrow> a \<noteq> b \<Longrightarrow> a + 4096 \<le> b \<or> b + 4096 \<le> (a :: nat)"
  by (auto simp: dvd_def)

lemma run_next_set_next [simp]: "run_next (pmem (set_next r q k)) r = q"
  by (simp add: run_next_def set_next_def)

lemma run_len_set_len [simp]: "run_len (pmem (set_len r n k)) r = n"
  by (simp add: run_len_def set_len_def)

lemma run_len_set_next [simp]:
  "unat r + 8 \<le> 4294967296 \<Longrightarrow> run_len (pmem (set_next r q k)) r = run_len (pmem k) r"
  unfolding run_len_def set_next_def
  by (simp, rule read32_frame) (auto simp: unat_add_u32 write32_frame)

lemma run_next_set_len [simp]:
  "unat r + 8 \<le> 4294967296 \<Longrightarrow> run_next (pmem (set_len r n k)) r = run_next (pmem k) r"
  unfolding run_next_def set_len_def
  by (simp, rule read32_frame) (auto simp: unat_add_u32 write32_frame)

lemma freelist_set [simp]: "freelist (set_next r q k) = freelist k" "freelist (set_len r n k) = freelist k"
  by (simp_all add: set_next_def set_len_def)

text \<open>Bytes outside the header at \<open>r\<close> survive both stores.\<close>

lemma set_next_outside:
  "unat r + 8 \<le> 4294967296 \<Longrightarrow> unat x < unat r \<or> unat r + 4 \<le> unat x \<Longrightarrow>
     pmem (set_next r q k) x = pmem k x"
  by (simp add: set_next_def write32_frame)

lemma set_len_outside:
  "unat r + 8 \<le> 4294967296 \<Longrightarrow> unat x < unat r + 4 \<or> unat r + 8 \<le> unat x \<Longrightarrow>
     pmem (set_len r q k) x = pmem k x"
  unfolding set_len_def by (simp, rule write32_frame) (auto simp: unat_add_u32)

lemmas hdr_outside = set_next_outside set_len_outside

section \<open>The pointer code implements the abstract allocator\<close>

lemma wf_runs_member: "wf_runs b rs \<Longrightarrow> (a, l) \<in> set rs \<Longrightarrow> b < a \<and> 4096 dvd a \<and> 0 < l \<and> a + l < 2147483648"
  by (induction rs arbitrary: b) fastforce+

definition page_addr :: "addr \<Rightarrow> bool" where
  "page_addr p \<longleftrightarrow> p \<noteq> 0 \<and> 4096 dvd unat p \<and> unat p < 2147483648"

lemma page_addr_room: "page_addr p \<Longrightarrow> unat p + 8 \<le> 4294967296"
  by (simp add: page_addr_def)

lemma same_hdr_refl [simp]: "same_hdr m m a"
  by (simp add: same_hdr_def)

lemma same_hdr_trans: "same_hdr m m' a \<Longrightarrow> same_hdr m' m'' a \<Longrightarrow> same_hdr m m'' a"
  by (simp add: same_hdr_def)

lemma same_hdr_set:
  assumes "page_addr r" and "4096 dvd a" and "a \<noteq> unat r"
  shows "same_hdr (pmem k) (pmem (set_next r q k)) a" "same_hdr (pmem k) (pmem (set_len r n k)) a"
  using pages_apart [of a "unat r"] assms page_addr_room [OF assms(1)]
  by (auto simp: same_hdr_def page_addr_def hdr_outside)

text \<open>The location \<open>rp\<close> is usable for a list that starts above \<open>b\<close>.\<close>

definition rp_ok :: "loc \<Rightarrow> nat \<Rightarrow> bool" where
  "rp_ok rp b \<longleftrightarrow> (case rp of Freelist \<Rightarrow> True | NextOf q \<Rightarrow> page_addr q \<and> unat q < b)"

definition rp_avoids :: "loc \<Rightarrow> nat \<Rightarrow> bool" where
  "rp_avoids rp a \<longleftrightarrow> (case rp of Freelist \<Rightarrow> True | NextOf q \<Rightarrow> unat q \<noteq> a)"

lemma get_set_loc [simp]: "get_loc (set_loc rp p k) rp = p"
  by (cases rp) simp_all

lemma same_hdr_set_loc:
  assumes "rp_ok rp b" and "4096 dvd a" and "rp_avoids rp a"
  shows "same_hdr (pmem k) (pmem (set_loc rp q k)) a"
  using assms by (cases rp) (auto simp: rp_ok_def rp_avoids_def intro: same_hdr_set(1))

lemma rp_avoids_above: "rp_ok rp b \<Longrightarrow> b \<le> a \<Longrightarrow> rp_avoids rp a"
  by (cases rp) (auto simp: rp_ok_def rp_avoids_def)

lemma run_hdr_cong:
  assumes "same_hdr m m' (unat p)" and "page_addr p"
  shows "run_next m' p = run_next m p" "run_len m' p = run_len m p"
  using same_hdrD [OF assms(1) page_addr_room [OF assms(2)]] by simp_all

text \<open>Linking in a run at \<open>p\<close> in front of \<open>rs\<close>.\<close>

lemma insert_run:
  assumes "runs (pmem k) r rs" and "wf_runs c rs" and "page_addr p" and "unat p \<notin> fst ` set rs"
    and "rp_ok rp b" and "rp_avoids rp (unat p)" and "b \<le> c" and "unat n = l"
  shows "runs (pmem (set_loc rp p (set_next p r (set_len p n k))))
           (get_loc (set_loc rp p (set_next p r (set_len p n k))) rp) ((unat p, l) # rs)"
proof -
  let ?k1 = "set_len p n k" let ?k2 = "set_next p r ?k1" let ?k3 = "set_loc rp p ?k2"
  have hp: "same_hdr (pmem ?k2) (pmem ?k3) (unat p)"
    using assms(3,5,6) by (intro same_hdr_set_loc) (auto simp: page_addr_def)
  have room: "unat p + 8 \<le> 4294967296" using assms(3) by (rule page_addr_room)
  have "same_hdr (pmem k) (pmem ?k3) a" if "(a, l') \<in> set rs" for a l'
  proof -
    have a: "4096 dvd a" "c < a" using wf_runs_member [OF assms(2) that] by auto
    moreover have "a \<noteq> unat p" using that assms(4) by force
    ultimately have "same_hdr (pmem k) (pmem ?k2) a"
      using assms(3) by (metis same_hdr_set same_hdr_trans)
    moreover have "same_hdr (pmem ?k2) (pmem ?k3) a"
      using assms(5,7) a by (intro same_hdr_set_loc rp_avoids_above) auto
    ultimately show ?thesis by (rule same_hdr_trans)
  qed
  then have "runs (pmem ?k3) r rs" using assms(1) runs_cong [OF assms(2)] by blast
  then show ?thesis
    using run_hdr_cong [OF hp assms(3)] room assms(3,8) by (simp add: page_addr_def)
qed

text \<open>Bytes that neither the header at \<open>p\<close>, nor the location \<open>rp\<close>, nor a header of \<open>rs\<close> covers.\<close>

definition untouched :: "loc \<Rightarrow> addr \<Rightarrow> runs \<Rightarrow> addr \<Rightarrow> bool" where
  "untouched rp p rs x \<longleftrightarrow>
     (case rp of Freelist \<Rightarrow> True | NextOf q \<Rightarrow> unat x < unat q \<or> unat q + 4 \<le> unat x)
     \<and> (unat x < unat p \<or> unat p + 8 \<le> unat x)
     \<and> (\<forall>(a, l) \<in> set rs. unat x < a \<or> a + 8 \<le> unat x)"

definition kept :: "kmem \<Rightarrow> kmem \<Rightarrow> loc \<Rightarrow> addr \<Rightarrow> runs \<Rightarrow> bool" where
  "kept k k' rp p rs \<longleftrightarrow>
     (\<forall>x. untouched rp p rs x \<longrightarrow> pmem k' x = pmem k x)
     \<and> (rp \<noteq> Freelist \<longrightarrow> freelist k' = freelist k)"

lemma set_loc_outside:
  "rp_ok rp b \<Longrightarrow> untouched rp p rs x \<Longrightarrow> pmem (set_loc rp q k) x = pmem k x"
  by (cases rp) (auto simp: rp_ok_def untouched_def page_addr_room set_next_outside)

lemma kept_insert:
  assumes "page_addr p" and "rp_ok rp b"
  shows "kept k (set_loc rp p (set_next p r (set_len p n k))) rp p rs"
proof -
  have "pmem (set_loc rp p (set_next p r (set_len p n k))) x = pmem k x"
    if "untouched rp p rs x" for x
    using set_loc_outside [OF assms(2) that] that page_addr_room [OF assms(1)]
    by (auto simp: untouched_def hdr_outside)
  then show ?thesis by (cases rp) (auto simp: kept_def)
qed

lemma runs_ConsD:
  assumes "runs m r ((a, l) # rs)" and "wf_runs b ((a, l) # rs)"
  shows "page_addr r" "unat r = a" "unat (run_len m r) = l" "runs m (run_next m r) rs"
    "unat (r + run_len m r) = a + l"
  using assms by (auto simp: page_addr_def unat_add_u32)

lemma get_loc_cong:
  assumes "rp_ok rp b" and "\<And>q. rp = NextOf q \<Longrightarrow> same_hdr (pmem k) (pmem k') (unat q)"
    and "rp = Freelist \<Longrightarrow> freelist k' = freelist k"
  shows "get_loc k' rp = get_loc k rp"
  using assms by (cases rp) (auto simp: rp_ok_def dest: run_hdr_cong)

lemma get_loc_set_hdr:
  assumes "rp_ok rp b" and "page_addr r" and "b < unat r"
  shows "get_loc (set_len r n k) rp = get_loc k rp" "get_loc (set_next r q k) rp = get_loc k rp"
  by (rule get_loc_cong [OF assms(1)];
      use assms in \<open>auto intro!: same_hdr_set simp: rp_ok_def page_addr_def\<close>)+

lemma set_hdr_runs:
  assumes "page_addr r" and "wf_runs c rs" and "unat r \<le> c" and "runs (pmem k) q rs"
  shows "runs (pmem (set_len r n k)) q rs" "runs (pmem (set_next r q' k)) q rs"
proof -
  have "4096 dvd a" "a \<noteq> unat r" if "(a, l) \<in> set rs" for a l
    using wf_runs_member [OF assms(2) that] assms(3) by auto
  then have "same_hdr (pmem k) (pmem (set_len r n k)) a" "same_hdr (pmem k) (pmem (set_next r q' k)) a"
    if "(a, l) \<in> set rs" for a l
    using that same_hdr_set [OF assms(1)] by metis+
  then show "runs (pmem (set_len r n k)) q rs" "runs (pmem (set_next r q' k)) q rs"
    using assms(4) runs_cong [OF assms(2)] by metis+
qed

text \<open>Growing the run at \<open>r\<close>, and merging it with its successor.\<close>

lemma relen_run:
  assumes "runs (pmem k) r ((a, l) # rs)" and "wf_runs b ((a, l) # rs)" and "rp_ok rp b"
    and "r = get_loc k rp" and "unat n = l'"
  shows "runs (pmem (set_len r n k)) (get_loc (set_len r n k) rp) ((a, l') # rs)"
proof -
  note r = runs_ConsD [OF assms(1,2)]
  have "get_loc (set_len r n k) rp = r"
    using get_loc_set_hdr(1) [OF assms(3) r(1)] assms(2,4) r(2) by simp
  moreover have "runs (pmem (set_len r n k)) (run_next (pmem k) r) rs"
    using set_hdr_runs(1) [OF r(1) _ _ r(4)] assms(2) r(2) by auto
  ultimately show ?thesis
    using r(1,2) page_addr_room [OF r(1)] assms(5) by (simp add: page_addr_def)
qed

lemma kept_hdr:
  assumes "page_addr r" and "(unat r, l) \<in> set rs"
  shows "kept k (set_len r n k) rp p rs" "kept k (set_next r q k) rp p rs"
  using assms page_addr_room [OF assms(1)]
  by (auto simp: kept_def untouched_def intro!: hdr_outside)

lemma kept_trans: "kept k k1 rp p rs \<Longrightarrow> kept k1 k2 rp p rs \<Longrightarrow> kept k k2 rp p rs"
  by (auto simp: kept_def)

lemma kfree_loop_cases:
  assumes "get_loc k rp = r"
  shows "\<not> (r \<noteq> 0 \<and> r \<le> p + n) \<Longrightarrow>
      kfree_loop k p n rp = Some (Inr (set_loc rp p (set_next p r (set_len p n k))))"
    and "r \<noteq> 0 \<and> r \<le> p + n \<Longrightarrow> r \<le> p \<and> p < r + run_len (pmem k) r \<Longrightarrow>
      kfree_loop k p n rp = Some (Inl (Panic ''freeing free page''))"
    and "r \<noteq> 0 \<and> r \<le> p + n \<Longrightarrow> \<not> (r \<le> p \<and> p < r + run_len (pmem k) r) \<Longrightarrow> p + n = r \<Longrightarrow>
      kfree_loop k p n rp = Some (Inr (set_loc rp p
        (set_next p (run_next (pmem k) r) (set_len p (n + run_len (pmem k) r) k))))"
    and "r \<noteq> 0 \<and> r \<le> p + n \<Longrightarrow> \<not> (r \<le> p \<and> p < r + run_len (pmem k) r) \<Longrightarrow> p + n \<noteq> r \<Longrightarrow>
      r + run_len (pmem k) r \<noteq> p \<Longrightarrow> kfree_loop k p n rp = kfree_loop k p n (NextOf r)"
  by (subst kfree_loop.simps, simp only: assms Let_def if_True if_False simp_thms)+

lemma kfree_loop_merge:
  assumes "get_loc k rp = r" and "r \<noteq> 0 \<and> r \<le> p + n" and "p + n \<noteq> r" and "r + run_len (pmem k) r = p"
    and "set_len r (run_len (pmem k) r + n) k = k1" and "run_next (pmem k1) r = q"
  shows "kfree_loop k p n rp = Some (Inr (if q \<noteq> 0 \<and> q = p + n
    then set_next r (run_next (pmem (set_len r (run_len (pmem k1) r + run_len (pmem k1) q) k1)) q)
           (set_len r (run_len (pmem k1) r + run_len (pmem k1) q) k1)
    else k1))"
proof -
  have "\<not> (r \<le> p \<and> p < r + run_len (pmem k) r)" using assms(4) by auto
  then show ?thesis
    by (subst kfree_loop.simps)
       (simp only: assms Let_def if_True if_False simp_thms refl if_distrib [of Some] if_distrib [of Inr])
qed

text \<open>One lemma per way through the body of the loop.\<close>

lemma kfree_step_before:
  assumes "runs (pmem k) r ((a, l) # rs)" and "wf_runs b ((a, l) # rs)" and "get_loc k rp = r"
    and "page_addr p" and "0 < unat n" and "unat p + unat n < 2147483648" and "rp_ok rp b"
    and "b < unat p" and "unat p + unat n < a"
  shows "\<exists>k'. kfree_loop k p n rp = Some (Inr k')
     \<and> runs (pmem k') (get_loc k' rp) ((unat p, unat n) # (a, l) # rs) \<and> kept k k' rp p ((a, l) # rs)"
proof -
  note r = runs_ConsD [OF assms(1,2)]
  have "unat (p + n) = unat p + unat n" using assms(6) by (simp add: unat_add_u32)
  then have "kfree_loop k p n rp = Some (Inr (set_loc rp p (set_next p r (set_len p n k))))"
    using assms(9) r(2) by (intro kfree_loop_cases(1) [OF assms(3)]) (simp add: word_le_nat_alt)
  moreover have "unat p \<notin> fst ` set ((a, l) # rs)"
    using wf_runs_member [OF assms(2)] assms(9,2) wf_runs_member [of "a + l" rs] by fastforce
  moreover have "rp_avoids rp (unat p)" using assms(7,8) by (simp add: rp_avoids_above)
  ultimately show ?thesis
    using insert_run [OF assms(1,2,4) _ assms(7) _ order_refl refl] kept_insert [OF assms(4,7)] by blast
qed

lemma kfree_step_left:
  assumes "runs (pmem k) r ((a, l) # rs)" and "wf_runs b ((a, l) # rs)" and "get_loc k rp = r"
    and "page_addr p" and "0 < unat n" and "unat p + unat n < 2147483648" and "rp_ok rp b"
    and "b < unat p" and "unat p + unat n = a"
  shows "\<exists>k'. kfree_loop k p n rp = Some (Inr k')
     \<and> runs (pmem k') (get_loc k' rp) ((unat p, unat n + l) # rs) \<and> kept k k' rp p ((a, l) # rs)"
proof -
  note r = runs_ConsD [OF assms(1,2)]
  have w: "wf_runs (a + l) rs" "a + l < 2147483648" "b \<le> a + l" using assms(2) by auto
  have "unat (p + n) = unat p + unat n" using assms(6) by (simp add: unat_add_u32)
  then have "p + n = r" using assms(9) r(2) by (simp add: word_unat_eq_iff)
  then have "kfree_loop k p n rp = Some (Inr (set_loc rp p
      (set_next p (run_next (pmem k) r) (set_len p (n + run_len (pmem k) r) k))))"
    using assms(1,5,9) r(2) by (intro kfree_loop_cases(3) [OF assms(3)]) (auto simp: word_le_nat_alt)
  moreover have "unat p \<notin> fst ` set rs" using wf_runs_member [OF w(1)] assms(9) by fastforce
  moreover have "rp_avoids rp (unat p)" using assms(7,8) by (simp add: rp_avoids_above)
  moreover have "unat (n + run_len (pmem k) r) = unat n + l"
    using r(3) w(2) assms(9) by (simp add: unat_add_u32)
  ultimately show ?thesis
    using insert_run [OF r(4) w(1) assms(4) _ assms(7) _ w(3)] kept_insert [OF assms(4,7)] by blast
qed

lemma kfree_right_conds:
  assumes "runs (pmem k) r ((a, l) # rs)" and "wf_runs b ((a, l) # rs)"
    and "0 < unat n" and "unat p + unat n < 2147483648" and "a + l = unat p"
  shows "r + run_len (pmem k) r = p" "r \<noteq> 0 \<and> r \<le> p + n" "p + n \<noteq> r"
    "unat (run_len (pmem k) r + n) = l + unat n"
proof -
  note r = runs_ConsD [OF assms(1,2)]
  show "r + run_len (pmem k) r = p" using assms(5) r(5) by (simp add: word_unat_eq_iff)
  have "unat (p + n) = unat p + unat n" using assms(4) by (simp add: unat_add_u32)
  then show "r \<noteq> 0 \<and> r \<le> p + n" "p + n \<noteq> r"
    using r(1,2) assms(3,5) by (auto simp: word_le_nat_alt page_addr_def)
  show "unat (run_len (pmem k) r + n) = l + unat n"
    using r(3) assms(4,5) by (simp add: unat_add_u32)
qed

lemma kfree_step_grow:
  assumes "runs (pmem k) r ((a, l) # rs)" and "wf_runs b ((a, l) # rs)" and "get_loc k rp = r"
    and "0 < unat n" and "unat p + unat n < 2147483648" and "rp_ok rp b"
    and "a + l = unat p" and "\<not> (rs \<noteq> [] \<and> fst (hd rs) = unat p + unat n)"
  shows "\<exists>k'. kfree_loop k p n rp = Some (Inr k')
     \<and> runs (pmem k') (get_loc k' rp) ((a, l + unat n) # rs) \<and> kept k k' rp p ((a, l) # rs)"
proof -
  note r = runs_ConsD [OF assms(1,2)] and c = kfree_right_conds [OF assms(1,2,4,5,7)]
  let ?k1 = "set_len r (run_len (pmem k) r + n) k"
  have q: "run_next (pmem ?k1) r = run_next (pmem k) r" using page_addr_room [OF r(1)] by simp
  have "unat (p + n) = unat p + unat n" using assms(5) by (simp add: unat_add_u32)
  then have "\<not> (run_next (pmem k) r \<noteq> 0 \<and> run_next (pmem k) r = p + n)"
    using r(4) assms(8) by (cases rs) auto
  then have "kfree_loop k p n rp = Some (Inr ?k1)"
    using kfree_loop_merge [OF assms(3) c(2,3,1) refl q] by (simp only: if_False)
  moreover have "kept k ?k1 rp p ((a, l) # rs)"
    using r(2) by (intro kept_hdr(1) [OF r(1), of l]) simp
  ultimately show ?thesis
    using relen_run [OF assms(1,2,6) assms(3) [symmetric] c(4)] by blast
qed

lemma kfree_step_merge:
  assumes "runs (pmem k) r ((a, l) # (a2, l2) # rs)" and "wf_runs b ((a, l) # (a2, l2) # rs)"
    and "get_loc k rp = r" and "0 < unat n" and "unat p + unat n < 2147483648" and "rp_ok rp b"
    and "a + l = unat p" and "a2 = unat p + unat n"
  shows "\<exists>k'. kfree_loop k p n rp = Some (Inr k')
     \<and> runs (pmem k') (get_loc k' rp) ((a, l + unat n + l2) # rs) \<and> kept k k' rp p ((a, l) # (a2, l2) # rs)"
proof -
  note r = runs_ConsD [OF assms(1,2)] and c = kfree_right_conds [OF assms(1,2,4,5,7)]
  define q where "q = run_next (pmem k) r"
  define k1 where "k1 = set_len r (run_len (pmem k) r + n) k"
  define k2 where "k2 = set_len r (run_len (pmem k1) r + run_len (pmem k1) q) k1"
  define k3 where "k3 = set_next r (run_next (pmem k) q) k2"
  have w2: "wf_runs (a + l) ((a2, l2) # rs)" and b: "b < unat r" and w: "wf_runs (a2 + l2) rs" "unat r \<le> a2 + l2"
    using assms(2) r(2) by auto
  note r2 = runs_ConsD [OF r(4) w2, folded q_def]
  note room = page_addr_room [OF r(1)]
  have hq: "same_hdr (pmem k) (pmem k1) (unat q)" "same_hdr (pmem k1) (pmem k2) (unat q)"
    unfolding k1_def k2_def using assms(2) r(2) r2(2) by (intro same_hdr_set(2) [OF r(1)]; simp)+
  have q1: "run_next (pmem k1) r = q" unfolding k1_def q_def using room by simp
  have "unat (p + n) = unat p + unat n" using assms(5) by (simp add: unat_add_u32)
  then have q: "q \<noteq> 0 \<and> q = p + n" using r2(1,2) assms(8) by (simp add: word_unat_eq_iff page_addr_def)
  have nq: "run_next (pmem k2) q = run_next (pmem k) q"
    using run_hdr_cong(1) [OF same_hdr_trans [OF hq] r2(1)] .
  have "kfree_loop k p n rp = Some (Inr k3)"
    unfolding k3_def kfree_loop_merge [OF assms(3) c(2,3,1) k1_def [symmetric] q1, folded k2_def]
    by (simp only: if_P [OF q] nq)
  moreover have "runs (pmem k3) (run_next (pmem k) q) rs"
    unfolding k3_def k2_def k1_def using r2(4) by (intro set_hdr_runs [OF r(1) w])
  moreover have "get_loc k3 rp = r"
    unfolding k3_def k2_def k1_def by (simp add: get_loc_set_hdr [OF assms(6) r(1) b] assms(3))
  moreover have "unat (run_len (pmem k1) r + run_len (pmem k1) q) = l + unat n + l2"
    using run_hdr_cong(2) [OF hq(1) r2(1)] c(4) r2(3) assms(2,7,8) by (simp add: k1_def unat_add_u32)
  moreover have "kept k k3 rp p ((a, l) # (a2, l2) # rs)"
    unfolding k3_def k2_def k1_def using r(2)
    by (intro kept_trans [OF kept_hdr(1) kept_trans [OF kept_hdr(1) kept_hdr(2)]]) (auto intro: r(1))
  ultimately show ?thesis
    using r(1,2) room by (simp add: page_addr_def k3_def k2_def)
qed

lemma untouched_hdr:
  assumes "page_addr y" and "wf_runs b ((a, l) # rs)" and "unat y < b" and "b < unat p" and "page_addr p"
    and "unat r = a" and "unat y \<le> unat x" and "unat x < unat y + 8"
  shows "untouched (NextOf r) p rs x"
proof -
  have far: "unat x < c" if "4096 dvd c" "unat y < c" for c
    using pages_apart [of c "unat y"] that assms(1,8) by (auto simp: page_addr_def)
  have "unat x < c" if "(c, l') \<in> set rs" for c l'
    using wf_runs_member [of "a + l" rs c l'] assms(2,3) that by (intro far) auto
  moreover have "unat x < unat p" "unat x < a" using assms by (auto intro!: far simp: page_addr_def)
  ultimately show ?thesis using assms(6) by (auto simp: untouched_def)
qed

lemma kept_run_len:
  assumes "runs (pmem k) r ((a, l) # rs)" and "wf_runs b ((a, l) # rs)" and "page_addr p"
    and "a + l < unat p" and "kept k k' (NextOf r) p rs"
  shows "run_len (pmem k') r = run_len (pmem k) r"
  unfolding run_len_def
proof (rule read32_frame)
  note r = runs_ConsD [OF assms(1,2)]
  show "unat (r + 4) + 4 \<le> 4294967296" using page_addr_room [OF r(1)] by (simp add: unat_add_u32)
  fix x :: addr assume "unat (r + 4) \<le> unat x" and "unat x < unat (r + 4) + 4"
  then have x: "a + 4 \<le> unat x" "unat x < a + 8"
    using page_addr_room [OF r(1)] r(2) by (simp_all add: unat_add_u32)
  have far: "unat x < c" if "4096 dvd c" "a < c" for c
    using pages_apart [of c a] that x(2) r(1,2) by (auto simp: page_addr_def)
  have "unat x < c" if "(c, l') \<in> set rs" for c l'
    using wf_runs_member [of "a + l" rs c l'] assms(2) that by (intro far) auto
  moreover have "unat x < unat p" using assms(3,4) by (intro far) (auto simp: page_addr_def)
  ultimately have "untouched (NextOf r) p rs x" using x(1) r(2) by (auto simp: untouched_def)
  then show "pmem k' x = pmem k x" using assms(5) by (simp add: kept_def)
qed

lemma kfree_step_after:
  assumes "runs (pmem k) r ((a, l) # rs)" and "wf_runs b ((a, l) # rs)" and "get_loc k rp = r"
    and "page_addr p" and "unat p + unat n < 2147483648" and "rp_ok rp b" and "b < unat p"
    and "a + l < unat p"
    and "kfree_loop k p n (NextOf r) = Some (Inr k')" and "runs (pmem k') (run_next (pmem k') r) rs'"
    and "kept k k' (NextOf r) p rs"
  shows "kfree_loop k p n rp = Some (Inr k') \<and> runs (pmem k') (get_loc k' rp) ((a, l) # rs')
     \<and> kept k k' rp p ((a, l) # rs)"
proof (intro conjI)
  note r = runs_ConsD [OF assms(1,2)]
  have "unat (p + n) = unat p + unat n" using assms(5) by (simp add: unat_add_u32)
  then have "kfree_loop k p n rp = kfree_loop k p n (NextOf r)"
    using assms(8) r(1,2,5)
    by (intro kfree_loop_cases(4) [OF assms(3)]) (auto simp: word_le_nat_alt word_less_nat_alt page_addr_def)
  then show "kfree_loop k p n rp = Some (Inr k')" using assms(9) by simp
  have "same_hdr (pmem k) (pmem k') (unat y)" if "page_addr y" "unat y < b" for y
    using untouched_hdr [OF that(1) assms(2) that(2) assms(7,4) r(2)] assms(11)
    by (auto simp: same_hdr_def kept_def)
  then have "get_loc k' rp = r"
    using assms(3,6,11) get_loc_cong [OF assms(6), of k k'] by (auto simp: rp_ok_def kept_def split: loc.splits)
  moreover have "run_len (pmem k') r = run_len (pmem k) r"
    using kept_run_len [OF assms(1,2,4,8,11)] .
  ultimately show "runs (pmem k') (get_loc k' rp) ((a, l) # rs')"
    using assms(10) r(1-3) by (simp add: page_addr_def)
  show "kept k k' rp p ((a, l) # rs)"
    using assms(11) r(2) by (auto simp: kept_def untouched_def)
qed


lemma kfree_loop_refines:
  assumes "runs (pmem k) (get_loc k rp) rs" and "wf_runs b rs"
    and "kfree_l (unat p) (unat n) rs = Some rs'"
    and "page_addr p" and "0 < unat n" and "unat p + unat n < 2147483648"
    and "{unat p..<unat p + unat n} \<inter> free_bytes rs = {}"
    and "rp_ok rp b" and "b < unat p"
  shows "\<exists>k'. kfree_loop k p n rp = Some (Inr k') \<and> runs (pmem k') (get_loc k' rp) rs'
     \<and> kept k k' rp p rs"
  using assms
proof (induction rs arbitrary: k rp b rs')
  case Nil
  have "kfree_loop k p n rp = Some (Inr (set_loc rp p (set_next p 0 (set_len p n k))))"
    using Nil.prems(1) by (intro kfree_loop_cases(1)) simp_all
  then show ?case
    using insert_run [of k 0 "[]" b p rp b n "unat n"] kept_insert [of p rp b k 0 n "[]"] Nil.prems
    by (auto simp: rp_avoids_above)
next
  case (Cons r0 rs)
  obtain a l where r0: "r0 = (a, l)" by (cases r0)
  note prems = Cons.prems [unfolded r0]
  note R = prems(1) and W = prems(2) and r = runs_ConsD [OF prems(1,2)]
  have w: "0 < l" "wf_runs (a + l) rs" using W by auto
  have da: "{unat p..<unat p + unat n} \<inter> {a..<a + l} = {}"
    and dr: "{unat p..<unat p + unat n} \<inter> free_bytes rs = {}"
    using prems(7) by (simp_all add: Int_Un_distrib)
  consider (before) "unat p + unat n < a" | (left) "unat p + unat n = a"
    | (right) "a + l = unat p" | (after) "a + l < unat p"
    using disjoint_run [OF da prems(5) w(1)] by linarith
  then show ?case
  proof cases
    case before
    then show ?thesis
      using kfree_step_before [OF R W refl prems(4,5,6,8,9)] prems(3) by (auto simp: r0)
  next
    case left
    then show ?thesis
      using kfree_step_left [OF R W refl prems(4,5,6,8,9)] prems(3,5) by (auto simp: r0)
  next
    case right
    show ?thesis
    proof (cases "rs \<noteq> [] \<and> fst (hd rs) = unat p + unat n")
      case True
      then obtain l2 rs2 where rs: "rs = (unat p + unat n, l2) # rs2"
        by (cases rs) (auto simp: prod_eq_iff)
      then have "rs' = (a, l + unat n + l2) # rs2" using prems(3) right w(1) prems(5) by auto
      then show ?thesis
        using kfree_step_merge [OF R [unfolded rs] W [unfolded rs] refl prems(5,6,8) right] rs
        by (simp add: r0)
    next
      case False
      then have "rs' = (a, l + unat n) # rs"
        using prems(3) right w(1) prems(5) by (auto split: list.splits if_splits)
      then show ?thesis
        using kfree_step_grow [OF R W refl prems(5,6,8) right False] by (simp add: r0)
    qed
  next
    case after
    then obtain rs2 where rs2: "kfree_l (unat p) (unat n) rs = Some rs2" "rs' = (a, l) # rs2"
      using prems(3) w(1) by auto
    let ?rp = "NextOf (get_loc k rp)"
    have "rp_ok ?rp (a + l)" using r(1,2) w(1) by (simp add: rp_ok_def)
    then obtain k' where "kfree_loop k p n ?rp = Some (Inr k')"
      "runs (pmem k') (get_loc k' ?rp) rs2" "kept k k' ?rp p rs"
      using Cons.IH [of k ?rp "a + l" rs2] r(4) w(2) rs2(1) prems(4,5,6) dr after by auto
    then show ?thesis
      using kfree_step_after [OF R W refl prems(4,6,8,9) after] rs2(2) by (auto simp: r0)
  qed
qed

section \<open>Double frees, and allocation\<close>

lemma kfree_loop_double_free:
  assumes "runs (pmem k) r rs" and "wf_runs b rs" and "get_loc k1 rp = r"
    and "unat p \<in> free_bytes rs" and "page_addr p" and "unat p + unat n < 2147483648"
    and "\<And>a. 4096 dvd a \<Longrightarrow> a < unat p \<Longrightarrow> same_hdr (pmem k) (pmem k1) a"
    and "p < p + run_len (pmem k1) p"
  shows "kfree_loop k1 p n rp = Some (Inl (Panic ''freeing free page''))"
  using assms(1-4)
proof (induction rs arbitrary: b r rp)
  case (Cons r0 rs)
  obtain a l where r0: "r0 = (a, l)" by (cases r0)
  note prems = Cons.prems [unfolded r0] and r = runs_ConsD [OF Cons.prems(1,2) [unfolded r0]]
  have w: "wf_runs (a + l) rs" "4096 dvd a" using prems(2) by auto
  have ap: "a \<le> unat p" using prems(4) wf_runs_above [OF w(1), of "unat p"] by auto
  have pend: "unat (p + n) = unat p + unat n" using assms(6) by (simp add: unat_add_u32)
  have c: "r \<noteq> 0 \<and> r \<le> p + n" using r(1,2) ap pend by (auto simp: page_addr_def word_le_nat_alt)
  show ?case
  proof (cases "a = unat p")
    case True
    then have "r = p" using r(2) by (simp add: word_unat_eq_iff)
    then show ?thesis using kfree_loop_cases(2) [OF prems(3) c] assms(8) by simp
  next
    case False
    then have "same_hdr (pmem k) (pmem k1) (unat r)" using ap w(2) r(2) assms(7) by simp
    note hdr = run_hdr_cong [OF this r(1)]
    show ?thesis
    proof (cases "unat p < a + l")
      case True
      then show ?thesis
        using kfree_loop_cases(2) [OF prems(3) c] hdr(2) r(2,5) ap
        by (simp add: word_le_nat_alt word_less_nat_alt)
    next
      case out: False
      then have p: "unat p \<in> free_bytes rs" using prems(4) by auto
      then have "a + l < unat p" using wf_runs_above [OF w(1)] by blast
      then have "kfree_loop k1 p n rp = kfree_loop k1 p n (NextOf r)"
        using hdr(2) r(2,5) pend
        by (intro kfree_loop_cases(4) [OF prems(3) c]) (auto simp: word_le_nat_alt word_less_nat_alt)
      then show ?thesis using Cons.IH [OF r(4) w(1) _ p, of "NextOf r"] hdr(1) by simp
    qed
  qed
qed simp

lemma kalloc_loop_cases:
  assumes "get_loc k rp = r"
  shows "r = 0 \<Longrightarrow> kalloc_loop k n rp = Some (0, k)"
    and "r \<noteq> 0 \<Longrightarrow> run_len (pmem k) r = n \<Longrightarrow>
      kalloc_loop k n rp = Some (r, set_loc rp (run_next (pmem k) r) k)"
    and "r \<noteq> 0 \<Longrightarrow> run_len (pmem k) r \<noteq> n \<Longrightarrow> sint n < sint (run_len (pmem k) r) \<Longrightarrow>
      kalloc_loop k n rp = Some (r + (run_len (pmem k) r - n), set_len r (run_len (pmem k) r - n) k)"
    and "r \<noteq> 0 \<Longrightarrow> run_len (pmem k) r \<noteq> n \<Longrightarrow> \<not> sint n < sint (run_len (pmem k) r) \<Longrightarrow>
      kalloc_loop k n rp = kalloc_loop k n (NextOf r)"
  by (subst kalloc_loop.simps, simp only: assms Let_def if_True if_False simp_thms run_len_set_len)+

lemma set_loc_runs:
  assumes "runs (pmem k) q rs" and "wf_runs b rs" and "rp_ok rp b"
  shows "runs (pmem (set_loc rp q k)) (get_loc (set_loc rp q k) rp) rs"
proof -
  have "same_hdr (pmem k) (pmem (set_loc rp q k)) a" if "(a, l) \<in> set rs" for a l
    using wf_runs_member [OF assms(2) that] assms(3) by (intro same_hdr_set_loc rp_avoids_above) auto
  then show ?thesis using assms(1) runs_cong [OF assms(2)] by (metis get_set_loc)
qed

lemma kept_set_loc:
  assumes "rp_ok rp b" shows "kept k (set_loc rp q k) rp p rs"
  using set_loc_outside [OF assms] by (cases rp) (auto simp: kept_def)

lemma kalloc_step_next:
  assumes "runs (pmem k) r ((a, l) # rs)" and "wf_runs b ((a, l) # rs)" and "get_loc k rp = r"
    and "rp_ok rp b" and "runs (pmem k') (run_next (pmem k') r) rs'"
    and "kept k k' (NextOf r) p rs" and "page_addr p" and "a + l < unat p"
  shows "runs (pmem k') (get_loc k' rp) ((a, l) # rs') \<and> kept k k' rp p ((a, l) # rs)"
proof -
  note r = runs_ConsD [OF assms(1,2)]
  have bp: "b < unat p" using assms(2,8) by auto
  have "same_hdr (pmem k) (pmem k') (unat y)" if "page_addr y" "unat y < b" for y
    using untouched_hdr [OF that(1) assms(2) that(2) bp assms(7) r(2)] assms(6)
    by (auto simp: same_hdr_def kept_def)
  then have "get_loc k' rp = r"
    using assms(3,4,6) get_loc_cong [OF assms(4), of k k'] by (auto simp: rp_ok_def kept_def split: loc.splits)
  moreover have "run_len (pmem k') r = run_len (pmem k) r"
    using kept_run_len [OF assms(1,2,7,8,6)] .
  ultimately have "runs (pmem k') (get_loc k' rp) ((a, l) # rs')"
    using assms(5) r(1-3) by (simp add: page_addr_def)
  moreover have "kept k k' rp p ((a, l) # rs)"
    using assms(6) r(2) by (auto simp: kept_def untouched_def)
  ultimately show ?thesis ..
qed

lemma kalloc_loop_refines:
  assumes "runs (pmem k) (get_loc k rp) rs" and "wf_runs b rs" and "rp_ok rp b"
    and "0 < sint n" and "4096 dvd unat n"
  shows "case kalloc_l (unat n) rs of
      None \<Rightarrow> kalloc_loop k n rp = Some (0, k)
    | Some (a, rs') \<Rightarrow> (\<exists>p k'. kalloc_loop k n rp = Some (p, k') \<and> unat p = a \<and> page_addr p
         \<and> runs (pmem k') (get_loc k' rp) rs' \<and> kept k k' rp p rs)"
  using assms(1-3)
proof (induction rs arbitrary: k rp b)
  case Nil
  then show ?case by (simp add: kalloc_loop_cases(1))
next
  case (Cons r0 rs)
  obtain a l where r0: "r0 = (a, l)" by (cases r0)
  note prems = Cons.prems [unfolded r0] and r = runs_ConsD [OF Cons.prems(1,2) [unfolded r0]]
  let ?r = "get_loc k rp"
  have w: "b < a" "4096 dvd l" "a + l < 2147483648" "wf_runs (a + l) rs" "wf_runs b rs"
    using prems(2) wf_runs_mono [of "a + l" rs b] by auto
  have n: "0 < unat n" "unat n < 2147483648" using assms(4) by (auto simp: sint_pos)
  have sl: "sint n < sint (run_len (pmem k) ?r) \<longleftrightarrow> unat n < l"
    using n w(3) r(3) by (simp add: sint_u32 del: of_nat_unat)
  have rn0: "?r \<noteq> 0" using r(1) by (simp add: page_addr_def)
  consider (eq) "l = unat n" | (split) "unat n < l" | (skip) "l < unat n" by linarith
  then show ?case
  proof cases
    case eq
    then have "run_len (pmem k) ?r = n" using r(3) by (simp add: word_unat_eq_iff)
    then have "kalloc_loop k n rp = Some (?r, set_loc rp (run_next (pmem k) ?r) k)"
      by (rule kalloc_loop_cases(2) [OF refl rn0])
    then show ?thesis
      using eq r(1,2) set_loc_runs [OF r(4) w(5) prems(3)] kept_set_loc [OF prems(3)] by (simp add: r0)
  next
    case split
    let ?m = "run_len (pmem k) ?r - n"
    have m: "unat ?m = l - unat n" using split r(3) by (simp add: unat_sub_u32)
    have p: "unat (?r + ?m) = a + (l - unat n)" using m r(2) w(3) by (simp add: unat_add_u32)
    have "4096 dvd l - unat n" using w(2) assms(5) by (rule dvd_diff_nat)
    then have "page_addr (?r + ?m)"
      using p w(3) r(1,2) n by (auto simp: page_addr_def word_unat_eq_iff)
    moreover have "kalloc_loop k n rp = Some (?r + ?m, set_len ?r ?m k)"
      using split sl r(3) by (intro kalloc_loop_cases(3) [OF refl rn0]) auto
    moreover have "kept k (set_len ?r ?m k) rp (?r + ?m) ((a, l) # rs)"
      using r(2) by (intro kept_hdr(1) [OF r(1), of l]) simp
    ultimately show ?thesis
      using split p relen_run [OF prems(1,2,3) refl m] by (simp add: r0)
  next
    case skip
    have next_rp: "rp_ok (NextOf ?r) (a + l)" using r(1,2) prems(2) by (simp add: rp_ok_def)
    have "kalloc_loop k n rp = kalloc_loop k n (NextOf ?r)"
      using skip sl r(3) by (intro kalloc_loop_cases(4) [OF refl rn0]) auto
    then show ?thesis
      using Cons.IH [of k "NextOf ?r" "a + l"] r(4) w(4) next_rp skip
        kalloc_step_next [OF prems(1,2) refl prems(3)]
        kalloc_l_correct [OF w(4) assms(5) n(1)]
      by (fastforce simp: r0 split: option.splits)
  qed
qed

end
