(* ===== verification/Umalloc_Free.thy ===== *)
theory Umalloc_Free
  imports Umalloc Kalloc_Refine
begin

text \<open>
  The circular list of \<^verbatim>\<open>umalloc.c\<close> as a list of blocks, and what \<^verbatim>\<open>free\<close> does to
  the set of free bytes.
\<close>

section \<open>Headers\<close>

definition hdr_fits :: "addr \<Rightarrow> bool" where
  "hdr_fits a \<longleftrightarrow> unat a + 8 \<le> 4294967296"

definition hdr_apart :: "addr \<Rightarrow> addr \<Rightarrow> bool" where
  "hdr_apart a b \<longleftrightarrow> unat a + 8 \<le> unat b \<or> unat b + 8 \<le> unat a"

named_theorems hdr_simps \<open>reading headers after writing them\<close>

lemma hdr_same [hdr_simps]:
  "hptr (set_hptr a v m) a = v" "hsize (set_hsize a n m) a = n"
  "hdr_fits a \<Longrightarrow> hsize (set_hptr a v m) a = hsize m a" "hdr_fits a \<Longrightarrow> hptr (set_hsize a n m) a = hptr m a"
  unfolding hptr_def hsize_def set_hptr_def set_hsize_def hdr_fits_def
  by (simp, simp, rule read32_frame, simp_all add: unat_add_u32 write32_frame, rule read32_frame,
      simp_all add: unat_add_u32 write32_frame)

lemma hdr_other [hdr_simps]:
  assumes "hdr_fits a" and "hdr_fits b" and "hdr_apart a b"
  shows "hptr (set_hptr a v m) b = hptr m b" "hsize (set_hptr a v m) b = hsize m b"
    "hptr (set_hsize a n m) b = hptr m b" "hsize (set_hsize a n m) b = hsize m b"
  using assms unfolding hptr_def hsize_def set_hptr_def set_hsize_def hdr_fits_def hdr_apart_def
  by (auto intro!: read32_frame write32_frame simp: unat_add_u32)

section \<open>The circular list\<close>

type_synonym blocks = "(addr \<times> u32) list"

primrec lseg :: "mem \<Rightarrow> addr \<Rightarrow> blocks \<Rightarrow> addr \<Rightarrow> bool" where
  "lseg m p [] q \<longleftrightarrow> p = q"
| "lseg m p (b # bs) q \<longleftrightarrow> p = fst b \<and> hsize m p = snd b \<and> lseg m (hptr m p) bs q"

lemma lseg_append: "lseg m p (bs @ cs) q \<longleftrightarrow> (\<exists>r. lseg m p bs r \<and> lseg m r cs q)"
  by (induction bs arbitrary: p) auto

lemma lseg_cong:
  "(\<And>b. b \<in> set bs \<Longrightarrow> hptr m (fst b) = hptr m' (fst b) \<and> hsize m (fst b) = hsize m' (fst b)) \<Longrightarrow> lseg m p bs q = lseg m' p bs q"
proof (induction bs arbitrary: p)
  case (Cons b bs)
  have "hptr m (fst b) = hptr m' (fst b)" "hsize m (fst b) = hsize m' (fst b)" using Cons.prems [of b] by auto
  then show ?case using Cons by (cases "p = fst b") simp_all
qed simp

text \<open>Blocks lie in order, with a gap behind every one but \<^verbatim>\<open>base\<close>, the first, which is empty.\<close>

definition sep :: "addr \<times> u32 \<Rightarrow> addr \<times> u32 \<Rightarrow> bool" where
  "sep x y \<longleftrightarrow> unat (fst x) + 8 \<le> unat (fst y) \<and> unat (fst x) + 8 * unat (snd x) < unat (fst y)"

definition in_memory :: "addr \<times> u32 \<Rightarrow> bool" where
  "in_memory x \<longleftrightarrow> unat (fst x) + 8 \<le> 4294967296 \<and> unat (fst x) + 8 * unat (snd x) < 4294967296"

definition wf_blocks :: "blocks \<Rightarrow> bool" where
  "wf_blocks ns \<longleftrightarrow> ns \<noteq> [] \<and> snd (hd ns) = 0 \<and> (\<forall>b \<in> set (tl ns). snd b \<noteq> 0) \<and> sorted_wrt sep ns \<and> list_all in_memory ns"

definition arena :: "uheap \<Rightarrow> blocks \<Rightarrow> bool" where
  "arena h ns \<longleftrightarrow> wf_blocks ns \<and> lseg (umem h) (fst (hd ns)) ns (fst (hd ns)) \<and> freep h \<in> fst ` set ns"

definition extent :: "addr \<times> u32 \<Rightarrow> nat set" where
  "extent b = {unat (fst b)..<unat (fst b) + 8 * unat (snd b)}"

definition free_units :: "blocks \<Rightarrow> nat set" where
  "free_units ns = (\<Union>b \<in> set ns. extent b)"

text \<open>A block that is not free: it touches no block of the list and not the header \<^verbatim>\<open>base\<close>.\<close>

definition outside :: "addr \<times> u32 \<Rightarrow> blocks \<Rightarrow> bool" where
  "outside x ns \<longleftrightarrow> snd x \<noteq> 0 \<and> in_memory x \<and> unat (fst (hd ns)) + 8 \<le> unat (fst x) \<and> extent x \<inter> free_units ns = {}"

section \<open>free\<close>

lemma wf_split:
  assumes "wf_blocks (us @ b # vs)"
  shows "\<And>u. u \<in> set us \<Longrightarrow> sep u b" "\<And>v. v \<in> set vs \<Longrightarrow> sep b v" "in_memory b" "us \<noteq> [] \<Longrightarrow> snd b \<noteq> 0"
  using assms by (auto simp: wf_blocks_def sorted_wrt_append)

lemma hd_least:
  assumes "wf_blocks ns" and "b \<in> set ns"
  shows "unat (fst (hd ns)) \<le> unat (fst b)"
  using assms by (cases ns) (auto simp: wf_blocks_def sep_def)

text \<open>The pointer of a block leads to the next one, or from the last back to the first.\<close>

lemma next_block:
  assumes "lseg m (fst (hd (us @ b # vs))) (us @ b # vs) (fst (hd (us @ b # vs)))"
  shows "hptr m (fst b) = (case vs of [] \<Rightarrow> fst (hd (us @ b # vs)) | v # _ \<Rightarrow> fst v)" "hsize m (fst b) = snd b"
  using assms by (auto simp: lseg_append split: list.splits)

text \<open>The place of a block in the list.\<close>

lemma outside_cases:
  assumes "wf_blocks ns" and "outside x ns" and "b \<in> set ns"
  shows "unat (fst b) + 8 \<le> unat (fst x) \<and> unat (fst b) + 8 * unat (snd b) \<le> unat (fst x)
    \<or> unat (fst x) + 8 * unat (snd x) \<le> unat (fst b)"
proof (cases "b = hd ns")
  case True
  then show ?thesis using assms by (auto simp: wf_blocks_def outside_def)
next
  case False
  then have "snd b \<noteq> 0" using assms(1,3) by (cases ns) (auto simp: wf_blocks_def)
  then have n: "0 < unat (snd b)" "0 < unat (snd x)" using assms(2) by (auto simp: outside_def unat_gt_0)
  have "extent x \<inter> extent b = {}" using assms(2,3) by (auto simp: outside_def free_units_def)
  then have "unat (fst b) \<notin> extent x" "unat (fst x) \<notin> extent b" using n by (auto simp: extent_def)
  then show ?thesis using n by (auto simp: extent_def)
qed

lemma find_found:
  assumes "wf_blocks ns" and "lseg m (fst (hd ns)) ns (fst (hd ns))" and "outside x ns" and "ns = us @ b # vs"
  shows "free_find m (fst x) (fst b) =
    (if fst b < fst x \<and> (vs = [] \<or> fst x < fst (hd vs)) then Some (fst b)
     else free_find m (fst x) (case vs of [] \<Rightarrow> fst (hd ns) | v # _ \<Rightarrow> fst v))"
proof -
  have nx: "hptr m (fst b) = (case vs of [] \<Rightarrow> fst (hd ns) | v # _ \<Rightarrow> fst v)"
    using next_block(1) [of m us b vs] assms(2) unfolding assms(4) by blast
  have base: "fst (hd ns) < fst x" "fst (hd ns) \<le> fst b"
    using assms(3) hd_least [OF assms(1), of b] assms(4) by (auto simp: outside_def word_less_nat_alt word_le_nat_alt)
  have up: "fst b < fst v" if "v \<in> set vs" for v
    using wf_split(2) [of us b vs v] assms(1,4) that by (simp add: sep_def word_less_nat_alt)
  show ?thesis
  proof (cases vs)
    case Nil
    then show ?thesis using nx base by (subst free_find.simps) auto
  next
    case (Cons v vs1)
    then show ?thesis using nx up [of v] by (subst free_find.simps) auto
  qed
qed

text \<open>From every block of the list the search ends at the block behind which \<open>x\<close> belongs.\<close>

definition place :: "addr \<times> u32 \<Rightarrow> blocks \<Rightarrow> blocks \<Rightarrow> addr \<times> u32 \<Rightarrow> blocks \<Rightarrow> bool" where
  "place x ns us b vs \<longleftrightarrow> ns = us @ b # vs \<and> fst b < fst x \<and> (vs = [] \<or> fst x < fst (hd vs))"

lemma find_up:
  assumes "wf_blocks ns" and "lseg m (fst (hd ns)) ns (fst (hd ns))" and "outside x ns" and "ns = us @ b # vs" and "fst b < fst x"
  shows "\<exists>us' c vs'. place x ns us' c vs' \<and> free_find m (fst x) (fst b) = Some (fst c)"
  using assms(4,5)
proof (induction vs arbitrary: us b)
  case Nil
  then show ?case
    using find_found [OF assms(1-3) Nil(1)] by (intro exI [of _ us] exI [of _ b] exI [of _ "[]"]) (auto simp: place_def)
next
  case (Cons v vs)
  show ?case
  proof (cases "fst x < fst v")
    case True
    then show ?thesis
      using find_found [OF assms(1-3) Cons.prems(1)] Cons.prems
      by (intro exI [of _ us] exI [of _ b] exI [of _ "v # vs"]) (auto simp: place_def)
  next
    case False
    have "0 < unat (snd x)" using assms(3) by (auto simp: outside_def unat_gt_0)
    then have "fst v < fst x"
      using outside_cases [OF assms(1,3), of v] False Cons.prems(1) by (auto simp: word_less_nat_alt)
    then show ?thesis
      using Cons.IH [of "us @ [b]" v] find_found [OF assms(1-3) Cons.prems(1)] Cons.prems False by auto
  qed
qed

lemma find_any:
  assumes "wf_blocks ns" and "lseg m (fst (hd ns)) ns (fst (hd ns))" and "outside x ns" and "ns = us @ b # vs"
  shows "\<exists>us' c vs'. place x ns us' c vs' \<and> free_find m (fst x) (fst b) = Some (fst c)"
  using assms(4)
proof (induction vs arbitrary: us b)
  case Nil
  have "ns = [] @ hd ns # tl ns" using assms(1) by (simp add: wf_blocks_def)
  moreover have "fst (hd ns) < fst x" using assms(3) by (simp add: outside_def word_less_nat_alt)
  ultimately have "\<exists>us' c vs'. place x ns us' c vs' \<and> free_find m (fst x) (fst (hd ns)) = Some (fst c)"
    by (rule find_up [OF assms(1-3)])
  then show ?case
    using find_up [OF assms(1-3) Nil] find_found [OF assms(1-3) Nil] by (cases "fst b < fst x") auto
next
  case (Cons v vs)
  show ?case
  proof (cases "fst b < fst x")
    case True
    then show ?thesis by (rule find_up [OF assms(1-3) Cons.prems])
  next
    case False
    then show ?thesis using Cons.IH [of "us @ [b]" v] find_found [OF assms(1-3) Cons.prems] Cons.prems by auto
  qed
qed

subsection \<open>Joining blocks\<close>

abbreviation block_end :: "addr \<times> u32 \<Rightarrow> nat" where
  "block_end x \<equiv> unat (fst x) + 8 * unat (snd x)"

definition join_upper :: "addr \<times> u32 \<Rightarrow> blocks \<Rightarrow> (addr \<times> u32) \<times> blocks" where
  "join_upper x vs =
     (case vs of [] \<Rightarrow> (x, [])
      | v # vs1 \<Rightarrow> if block_end x = unat (fst v) then ((fst x, snd x + snd v), vs1) else (x, vs))"

definition join_lower :: "addr \<times> u32 \<Rightarrow> addr \<times> u32 \<Rightarrow> blocks" where
  "join_lower b x = (if block_end b = unat (fst x) then [(fst b, snd b + snd x)] else [b, x])"

lemma place_order:
  assumes "wf_blocks ns" and "outside x ns" and "place x ns us b vs"
  shows "unat (fst b) + 8 \<le> unat (fst x)" "block_end b \<le> unat (fst x)" "\<And>v. v \<in> set vs \<Longrightarrow> block_end x \<le> unat (fst v)"
    "\<And>u. u \<in> set us \<Longrightarrow> sep u x"
proof -
  have n: "0 < unat (snd x)" using assms(2) by (auto simp: outside_def unat_gt_0)
  have ns: "ns = us @ b # vs" "fst b < fst x" using assms(3) by (auto simp: place_def)
  show b: "unat (fst b) + 8 \<le> unat (fst x)" "block_end b \<le> unat (fst x)"
    using outside_cases [OF assms(1,2), of b] ns n by (auto simp: word_less_nat_alt)
  show "block_end x \<le> unat (fst v)" if "v \<in> set vs" for v
  proof -
    have "fst x < fst v"
    proof (cases vs)
      case (Cons w ws)
      have "fst x < fst w" using assms(3) Cons by (simp add: place_def)
      moreover have "v = w \<or> sep w v" using wf_split(2) [of "us @ [b]" w ws v] assms(1) ns(1) Cons that by auto
      ultimately show ?thesis by (auto simp: sep_def word_less_nat_alt)
    qed (use that in simp)
    then show ?thesis using outside_cases [OF assms(1,2), of v] ns(1) that by (auto simp: word_less_nat_alt)
  qed
  show "sep u x" if "u \<in> set us" for u
    using wf_split(1) [of us b vs u] assms(1) ns(1) that b by (auto simp: sep_def)
qed

lemma join_size: "block_end x = unat (fst v) \<Longrightarrow> block_end v < 4294967296 \<Longrightarrow> unat (snd x + snd v) = unat (snd x) + unat (snd v)"
  by (simp add: unat_add_u32)

lemma sep_trans: "sep x y \<Longrightarrow> sep y z \<Longrightarrow> sep x z"
  by (auto simp: sep_def)

lemma join_upper_ok:
  assumes "wf_blocks ns" and "outside x ns" and "place x ns us b vs" and "join_upper x vs = (x1, ws)"
  shows "fst x1 = fst x" "snd x1 \<noteq> 0" "in_memory x1" "\<And>w. w \<in> set ws \<Longrightarrow> sep x1 w" "set ws \<subseteq> set vs" "sorted_wrt sep ws"
    "extent x1 \<union> free_units ws = extent x \<union> free_units vs"
proof -
  have ns: "ns = us @ b # vs" using assms(3) by (simp add: place_def)
  have x: "snd x \<noteq> 0" "0 < unat (snd x)" "in_memory x" using assms(2) by (auto simp: outside_def unat_gt_0)
  have so: "sorted_wrt sep vs" using assms(1) ns by (auto simp: wf_blocks_def sorted_wrt_append)
  have "fst x1 = fst x \<and> snd x1 \<noteq> 0 \<and> in_memory x1 \<and> (\<forall>w \<in> set ws. sep x1 w) \<and> set ws \<subseteq> set vs \<and> sorted_wrt sep ws
    \<and> extent x1 \<union> free_units ws = extent x \<union> free_units vs"
  proof (cases vs)
    case Nil
    then show ?thesis using assms(4) x by (simp add: join_upper_def)
  next
    case (Cons v vs1)
    have v: "in_memory v" using assms(1) ns Cons by (simp add: wf_blocks_def)
    have le: "block_end x \<le> unat (fst v)" using place_order(3) [OF assms(1-3), of v] Cons by simp
    show ?thesis
    proof (cases "block_end x = unat (fst v)")
      case True
      have sz: "unat (snd x + snd v) = unat (snd x) + unat (snd v)" using join_size [OF True] v by (simp add: in_memory_def)
      then have "snd x + snd v \<noteq> 0" using x(2) by (metis add_gr_0 less_numeral_extra(3) unat_0)
      moreover have "extent (fst x, snd x + snd v) = extent x \<union> extent v" using True sz by (auto simp: extent_def)
      ultimately show ?thesis
        using True assms(4) Cons so v x sz by (auto simp: join_upper_def in_memory_def sep_def free_units_def)
    next
      case False
      then have "sep x v" using le x by (auto simp: sep_def)
      moreover have "\<forall>w \<in> set vs1. sep x w" using sep_trans [OF \<open>sep x v\<close>] so Cons by simp
      ultimately show ?thesis using False assms(4) Cons so x by (auto simp: join_upper_def)
    qed
  qed
  then show "fst x1 = fst x" "snd x1 \<noteq> 0" "in_memory x1" "\<And>w. w \<in> set ws \<Longrightarrow> sep x1 w" "set ws \<subseteq> set vs" "sorted_wrt sep ws"
    "extent x1 \<union> free_units ws = extent x \<union> free_units vs" by auto
qed

definition freed :: "addr \<times> u32 \<Rightarrow> blocks \<Rightarrow> addr \<times> u32 \<Rightarrow> blocks \<Rightarrow> blocks" where
  "freed x us b vs = (case join_upper x vs of (x1, ws) \<Rightarrow> us @ join_lower b x1 @ ws)"

lemma wf_parts:
  assumes "wf_blocks (us @ b # vs)"
  shows "sorted_wrt sep us" "list_all in_memory us" "list_all in_memory vs" "\<forall>v \<in> set vs. snd v \<noteq> 0"
    "us = [] \<Longrightarrow> snd b = 0" "us \<noteq> [] \<Longrightarrow> snd (hd us) = 0" "\<forall>u \<in> set (tl us). snd u \<noteq> 0" "sorted_wrt sep vs"
  using assms by (cases us; simp add: wf_blocks_def sorted_wrt_append)+

lemma wf_build:
  assumes "us \<noteq> [] \<Longrightarrow> snd (hd us) = 0" and "\<forall>u \<in> set (tl us). snd u \<noteq> 0" and "us = [] \<Longrightarrow> snd b = 0" and "us \<noteq> [] \<Longrightarrow> snd b \<noteq> 0"
    and "\<forall>v \<in> set vs. snd v \<noteq> 0" and "sorted_wrt sep us" and "sorted_wrt sep vs"
    and "\<forall>u \<in> set us. sep u b" and "\<forall>v \<in> set vs. sep b v"
    and "list_all in_memory us" and "in_memory b" and "list_all in_memory vs"
  shows "wf_blocks (us @ b # vs)"
proof -
  have "\<forall>u \<in> set us. \<forall>v \<in> set vs. sep u v" using assms(8,9) sep_trans by blast
  then have "sorted_wrt sep (us @ b # vs)" using assms by (simp add: sorted_wrt_append)
  then show ?thesis using assms by (cases us) (simp_all add: wf_blocks_def ball_Un)
qed

lemma freed_ok:
  assumes "wf_blocks ns" and "outside x ns" and "place x ns us b vs"
  shows "wf_blocks (freed x us b vs)" "fst (hd (freed x us b vs)) = fst (hd ns)" "fst b \<in> fst ` set (freed x us b vs)"
    "free_units (freed x us b vs) = free_units ns \<union> extent x"
proof -
  have ns: "ns = us @ b # vs" using assms(3) by (simp add: place_def)
  obtain x1 ws where x1: "join_upper x vs = (x1, ws)" by (cases "join_upper x vs")
  note up = join_upper_ok [OF assms x1]
  note po = place_order [OF assms(1-3)]
  have w: "wf_blocks (us @ b # vs)" using assms(1) ns by simp
  note wp = wf_parts [OF w] and ws = wf_split [OF w]
  have xw: "\<forall>c \<in> set ws. sep x1 c" "list_all in_memory ws" "\<forall>c \<in> set ws. snd c \<noteq> 0"
    using up(4,5) wp(3,4) by (auto simp: list_all_iff)
  have le: "block_end b \<le> unat (fst x1)" "unat (fst b) + 8 \<le> unat (fst x1)" using po(1,2) up(1) by simp_all
  show "wf_blocks (freed x us b vs)"
  proof (cases "block_end b = unat (fst x1)")
    case True
    then have us: "us \<noteq> []" using wp(5) le(2) by auto
    let ?c = "(fst b, snd b + snd x1)"
    have sz: "unat (snd ?c) = unat (snd b) + unat (snd x1)" using join_size [OF True] up(3) by (simp add: in_memory_def)
    have "0 < unat (snd x1)" using up(2) by (simp add: unat_gt_0)
    then have "snd ?c \<noteq> 0" using sz by (metis add_gr_0 less_numeral_extra(3) unat_0)
    moreover have "\<forall>c \<in> set ws. sep ?c c" using xw(1) True sz le by (auto simp: sep_def)
    moreover have "\<forall>u \<in> set us. sep u ?c" using ws(1) by (simp add: sep_def)
    moreover have "in_memory ?c" using up(3) True sz ws(3) by (simp add: in_memory_def)
    ultimately have "wf_blocks (us @ ?c # ws)" using us wp(1,2,6,7) xw up(6) by (intro wf_build) simp_all
    then show ?thesis using x1 True by (simp add: freed_def join_lower_def)
  next
    case False
    then have b: "sep b x1" using le by (simp add: sep_def)
    then have "\<forall>c \<in> set ws. sep b c" using xw(1) sep_trans by blast
    then have "wf_blocks (us @ b # x1 # ws)"
      using b wp ws xw up(2,3,6) by (intro wf_build) simp_all
    then show ?thesis using x1 False by (simp add: freed_def join_lower_def)
  qed
  show "fst (hd (freed x us b vs)) = fst (hd ns)"
    using x1 ns by (cases us) (simp_all add: freed_def join_lower_def)
  show "fst b \<in> fst ` set (freed x us b vs)" using x1 by (simp add: freed_def join_lower_def)
  have "free_units (join_lower b x1) = extent b \<union> extent x1"
  proof (cases "block_end b = unat (fst x1)")
    case True
    then have "extent (fst b, snd b + snd x1) = extent b \<union> extent x1"
      using join_size [OF True] up(3) by (auto simp: in_memory_def extent_def)
    then show ?thesis using True by (simp add: join_lower_def free_units_def)
  qed (simp add: join_lower_def free_units_def)
  moreover have "free_units (as @ cs) = free_units as \<union> free_units cs" for as cs by (simp add: free_units_def)
  ultimately have "free_units (freed x us b vs) = free_units us \<union> extent b \<union> (extent x1 \<union> free_units ws)"
    using x1 by (simp add: freed_def Un_assoc)
  then show "free_units (freed x us b vs) = free_units ns \<union> extent x"
    unfolding up(7) ns by (simp add: free_units_def Un_ac)
qed

subsection \<open>The memory after free\<close>

lemma end_word: "in_memory x \<Longrightarrow> fst x + 8 * snd x = a \<longleftrightarrow> block_end x = unat a"
proof -
  assume "in_memory x"
  then have "unat (8 * snd x) = 8 * unat (snd x)" by (simp add: in_memory_def unat_word_ariths(2))
  then have "unat (fst x + 8 * snd x) = block_end x" using \<open>in_memory x\<close> by (simp add: in_memory_def unat_add_u32)
  then show ?thesis by (auto simp: word_unat_eq_iff)
qed

lemma in_memory_fits: "in_memory x \<Longrightarrow> hdr_fits (fst x)"
  by (simp add: in_memory_def hdr_fits_def)

lemma sep_apart: "sep x y \<Longrightarrow> hdr_apart (fst x) (fst y)" "sep x y \<Longrightarrow> hdr_apart (fst y) (fst x)"
  by (simp_all add: sep_def hdr_apart_def)

lemma outside_apart:
  assumes "wf_blocks ns" and "outside x ns" and "c \<in> set ns"
  shows "hdr_fits (fst x)" "hdr_fits (fst c)" "hdr_apart (fst x) (fst c)" "hdr_apart (fst c) (fst x)"
proof -
  have "0 < unat (snd x)" using assms(2) by (auto simp: outside_def unat_gt_0)
  then show "hdr_apart (fst x) (fst c)" "hdr_apart (fst c) (fst x)" using outside_cases [OF assms] by (auto simp: hdr_apart_def)
  show "hdr_fits (fst x)" "hdr_fits (fst c)"
    using assms by (auto simp: outside_def wf_blocks_def list_all_iff intro: in_memory_fits)
qed

definition nxt :: "blocks \<Rightarrow> addr \<Rightarrow> addr" where
  "nxt ws q = (case ws of [] \<Rightarrow> q | w # _ \<Rightarrow> fst w)"

lemma lseg_nxt: "lseg m p ws q \<Longrightarrow> p = nxt ws q"
  by (cases ws) (simp_all add: nxt_def)

lemma ring_split:
  "lseg m (fst (hd (us @ b # vs))) (us @ b # vs) q \<longleftrightarrow>
     lseg m (fst (hd (us @ b # vs))) us (fst b) \<and> hsize m (fst b) = snd b \<and> hptr m (fst b) = nxt vs q \<and> lseg m (nxt vs q) vs q"
proof -
  have "lseg m (hptr m (fst b)) vs q \<longleftrightarrow> hptr m (fst b) = nxt vs q \<and> lseg m (nxt vs q) vs q"
    using lseg_nxt by metis
  then show ?thesis by (auto simp: lseg_append)
qed

lemma upper_mem:
  assumes "wf_blocks ns" and "lseg m (fst (hd ns)) ns (fst (hd ns))" and "outside x ns" and "place x ns us b vs"
    and "hsize m (fst x) = snd x" and "join_upper x vs = (x1, ws)" and "m1 = free_upper (fst x) (fst b) m"
  shows "hsize m1 (fst x) = snd x1" "hptr m1 (fst x) = nxt ws (fst (hd ns))" "lseg m (nxt ws (fst (hd ns))) ws (fst (hd ns))"
    "\<And>c. c \<in> set ns \<Longrightarrow> hptr m1 (fst c) = hptr m (fst c) \<and> hsize m1 (fst c) = hsize m (fst c)"
proof -
  let ?H = "fst (hd ns)"
  have ns: "ns = us @ b # vs" using assms(4) by (simp add: place_def)
  note ring = assms(2) [unfolded ns ring_split, folded ns]
  have x: "in_memory x" "0 < unat (snd x)" "unat ?H < unat (fst x)" using assms(3) by (auto simp: outside_def unat_gt_0)
  note ap = outside_apart(2-4) [OF assms(1,3)]
  have fx: "hdr_fits (fst x)" using x(1) by (rule in_memory_fits)
  have "hsize m1 (fst x) = snd x1 \<and> hptr m1 (fst x) = nxt ws ?H \<and> lseg m (nxt ws ?H) ws ?H
     \<and> (\<forall>c \<in> set ns. hptr m1 (fst c) = hptr m (fst c) \<and> hsize m1 (fst c) = hsize m (fst c))"
  proof (cases vs)
    case Nil
    then have "m1 = set_hptr (fst x) ?H m"
      using assms(5,7) ring x by (simp add: free_upper_def end_word nxt_def)
    then show ?thesis using assms(5,6) Nil ap fx by (auto simp add: join_upper_def hdr_simps nxt_def)
  next
    case (Cons v vs1)
    then have v: "hptr m (fst b) = fst v" "hsize m (fst v) = snd v" "lseg m (hptr m (fst v)) vs1 ?H" "v \<in> set ns" "b \<in> set ns"
      using ring ns by (auto simp: nxt_def)
    show ?thesis
    proof (cases "block_end x = unat (fst v)")
      case True
      then have "m1 = set_hptr (fst x) (hptr m (fst v)) (set_hsize (fst x) (snd x + snd v) m)"
        using assms(5,7) v ap fx x by (simp add: free_upper_def end_word hdr_simps)
      then show ?thesis
        using True assms(6) Cons ap fx v lseg_nxt [OF v(3)] by (auto simp add: join_upper_def hdr_simps)
    next
      case False
      then have "m1 = set_hptr (fst x) (fst v) m" using assms(5,7) v x by (simp add: free_upper_def end_word)
      then show ?thesis using False assms(5,6) Cons ap fx ring by (auto simp add: join_upper_def hdr_simps nxt_def)
    qed
  qed
  then show "hsize m1 (fst x) = snd x1" "hptr m1 (fst x) = nxt ws (fst (hd ns))" "lseg m (nxt ws (fst (hd ns))) ws (fst (hd ns))"
    "\<And>c. c \<in> set ns \<Longrightarrow> hptr m1 (fst c) = hptr m (fst c) \<and> hsize m1 (fst c) = hsize m (fst c)" by blast+
qed

lemma lower_mem:
  assumes "wf_blocks ns" and "lseg m (fst (hd ns)) ns (fst (hd ns))" and "outside x ns" and "place x ns us b vs"
    and "hsize m (fst x) = snd x" and "m2 = free_lower (fst x) (fst b) (free_upper (fst x) (fst b) m)"
  shows "lseg m2 (fst (hd ns)) (freed x us b vs) (fst (hd ns))"
proof -
  let ?H = "fst (hd ns)"
  obtain x1 ws where x1: "join_upper x vs = (x1, ws)" by (cases "join_upper x vs")
  define m1 where "m1 = free_upper (fst x) (fst b) m"
  have ns: "ns = us @ b # vs" using assms(4) by (simp add: place_def)
  have w: "wf_blocks (us @ b # vs)" using assms(1) ns by simp
  note ring = assms(2) [unfolded ns ring_split, folded ns]
  note up = upper_mem [OF assms(1-5) x1 m1_def] and ju = join_upper_ok [OF assms(1,3,4) x1]
  have fx: "hdr_fits (fst x)" "hdr_apart (fst b) (fst x)" "hdr_fits (fst b)" using outside_apart [OF assms(1,3), of b] ns by auto
  have ap: "hdr_fits (fst c) \<and> hdr_apart (fst b) (fst c) \<and> hdr_apart (fst x) (fst c)" if "c \<in> set us \<union> set ws" for c
  proof -
    have "c \<in> set ns" using that ju(5) ns by auto
    moreover have "sep c b \<or> sep b c" using wf_split(1,2) [OF w, of c] that ju(5) by blast
    ultimately show ?thesis using outside_apart [OF assms(1,3), of c] sep_apart by blast
  qed
  have cond: "fst b + 8 * hsize m1 (fst b) = fst x \<longleftrightarrow> block_end b = unat (fst x)"
    using up(4) [of b] ring end_word [OF wf_split(3) [OF w]] ns by simp
  have keep: "hptr m2 (fst c) = hptr m (fst c) \<and> hsize m2 (fst c) = hsize m (fst c)" if "c \<in> set us \<union> set ws" for c
    using ap [OF that] up(4) [of c] that ju(5) ns fx assms(6)
    by (auto simp: free_lower_def m1_def [symmetric] Let_def hdr_simps)
  have us: "lseg m2 ?H us (fst b)" using ring lseg_cong [of us m2 m ?H "fst b"] keep by simp
  have ws: "lseg m2 (nxt ws ?H) ws ?H" using up(3) lseg_cong [of ws m2 m] keep by simp
  have hd: "?H = fst (hd (us @ c # cs))" if "fst c = fst b" for c cs using ns that by (cases us) simp_all
  show ?thesis
  proof (cases "block_end b = unat (fst x)")
    case True
    have "hsize m2 (fst b) = snd b + snd x1" "hptr m2 (fst b) = nxt ws ?H"
      using True cond assms(6) up(1,2) up(4) [of b] ring ns fx by (simp_all add: free_lower_def m1_def [symmetric] Let_def hdr_simps)
    then show ?thesis
      using us ws hd [of "(fst b, snd b + snd x1)" ws] True x1 ju(1)
      by (simp add: freed_def join_lower_def lseg_append)
  next
    case False
    then have m2: "m2 = set_hptr (fst b) (fst x) m1" using cond assms(6) by (simp add: free_lower_def m1_def [symmetric])
    have "hsize m2 (fst b) = snd b" "hptr m2 (fst b) = fst x1" "hptr m2 (fst x1) = nxt ws ?H" "hsize m2 (fst x1) = snd x1"
      unfolding m2 using up(1,2) up(4) [of b] ring ns fx ju(1) by (simp_all add: hdr_simps)
    then show ?thesis using us ws False x1 ju(1) by (simp add: freed_def join_lower_def lseg_append)
  qed
qed

lemma set_hdr_frame:
  assumes "hdr_fits h" and "unat a < unat h \<or> unat h + 8 \<le> unat a"
  shows "set_hptr h v m a = m a" "set_hsize h n m a = m a"
  using assms unfolding set_hptr_def set_hsize_def hdr_fits_def by (auto intro!: write32_frame simp: unat_add_u32)

lemma free_frame:
  assumes "hdr_fits p" and "hdr_fits q" and "unat a < unat p \<or> unat p + 8 \<le> unat a" and "unat a < unat q \<or> unat q + 8 \<le> unat a"
  shows "free_lower p q (free_upper p q m) a = m a"
  using assms by (simp add: free_lower_def free_upper_def Let_def set_hdr_frame)

text \<open>The bytes the allocator may write: the free blocks and the header \<^verbatim>\<open>base\<close>.\<close>

definition owned :: "blocks \<Rightarrow> nat set" where
  "owned ns = free_units ns \<union> {unat (fst (hd ns))..<unat (fst (hd ns)) + 8}"

lemma hdr_owned:
  assumes "wf_blocks ns" and "b \<in> set ns" and "unat a \<notin> owned ns"
  shows "unat a < unat (fst b) \<or> unat (fst b) + 8 \<le> unat a"
proof (cases "b = hd ns")
  case True
  then show ?thesis using assms(3) by (auto simp: owned_def)
next
  case False
  then have "snd b \<noteq> 0" using assms(1,2) by (cases ns) (auto simp: wf_blocks_def)
  then have "0 < unat (snd b)" by (simp add: unat_gt_0)
  moreover have "unat a \<notin> extent b" using assms(2,3) by (auto simp: owned_def free_units_def)
  ultimately show ?thesis by (auto simp: extent_def)
qed

lemma free_arena:
  assumes "arena h ns" and "outside x ns" and "hsize (umem h) (fst x) = snd x"
  shows "\<exists>h' ns'. free (fst x + 8) h = Some h' \<and> arena h' ns' \<and> free_units ns' = free_units ns \<union> extent x
    \<and> fst (hd ns') = fst (hd ns) \<and> brk h' = brk h \<and> (\<forall>a. unat a \<in> owned ns \<union> extent x \<or> umem h' a = umem h a)"
proof -
  let ?m = "umem h"
  have ar: "wf_blocks ns" "lseg ?m (fst (hd ns)) ns (fst (hd ns))" using assms(1) by (auto simp: arena_def)
  obtain us0 b0 vs0 where "ns = us0 @ b0 # vs0" "fst b0 = freep h"
    using assms(1) by (auto simp: arena_def in_set_conv_decomp)
  then obtain us b vs where pl: "place x ns us b vs" and f: "free_find ?m (fst x) (freep h) = Some (fst b)"
    using find_any [OF ar assms(2), of us0 b0 vs0] by auto
  define m2 where "m2 = free_lower (fst x) (fst b) (free_upper (fst x) (fst b) ?m)"
  let ?h = "h\<lparr>umem := m2, freep := fst b\<rparr>"
  have bn: "b \<in> set ns" using pl by (simp add: place_def)
  note fo = freed_ok [OF ar(1) assms(2) pl]
  have "free (fst x + 8) h = Some ?h" using f by (simp add: free_def m2_def Let_def)
  moreover have "arena ?h (freed x us b vs)"
    using fo(1,3) lower_mem [OF ar assms(2) pl assms(3) m2_def] by (simp add: arena_def fo(2))
  moreover have "unat a \<in> owned ns \<union> extent x \<or> m2 a = ?m a" for a
  proof (cases "unat a \<in> owned ns \<union> extent x")
    case False
    have "0 < unat (snd x)" using assms(2) by (auto simp: outside_def unat_gt_0)
    then have "unat a < unat (fst x) \<or> unat (fst x) + 8 \<le> unat a" using False by (auto simp: extent_def)
    then show ?thesis
      using hdr_owned [OF ar(1) bn, of a] False outside_apart(1,2) [OF ar(1) assms(2) bn] by (simp add: m2_def free_frame)
  qed simp
  ultimately show ?thesis using fo(2,4) by (intro exI [of _ ?h] exI [of _ "freed x us b vs"]) simp
qed

end
