(* ===== verification/Umalloc_Spec.thy ===== *)
theory Umalloc_Spec
  imports Umalloc_Free
begin

text \<open>
  What \<^verbatim>\<open>malloc\<close> of \<^verbatim>\<open>umalloc.c\<close> does to the set of free bytes: taking a block, the search along the
  circular list, more memory from the kernel, and the properties of \<^verbatim>\<open>malloc\<close> and \<^verbatim>\<open>free\<close>.
\<close>

section \<open>malloc\<close>

subsection \<open>Taking a block\<close>

text \<open>The block \<open>x\<close> leaves the free memory.\<close>

definition took :: "uheap \<Rightarrow> blocks \<Rightarrow> addr \<times> u32 \<Rightarrow> uheap \<Rightarrow> blocks \<Rightarrow> bool" where
  "took h ns x h' ns' \<longleftrightarrow>
     arena h' ns' \<and> outside x ns' \<and> hsize (umem h') (fst x) = snd x \<and> free_units ns = free_units ns' \<union> extent x
     \<and> fst (hd ns') = fst (hd ns) \<and> brk h' = brk h \<and> (\<forall>a. unat a \<in> owned ns \<or> umem h' a = umem h a)"

lemma sep_extent: "sep x y \<Longrightarrow> extent x \<inter> extent y = {}" "sep x y \<Longrightarrow> extent y \<inter> extent x = {}"
  by (auto simp: sep_def extent_def)

lemma disjoint_units:
  assumes "\<And>u. u \<in> set us \<Longrightarrow> sep u v" and "\<And>u. u \<in> set vs \<Longrightarrow> sep v u"
  shows "extent v \<inter> free_units (us @ vs) = {}"
proof -
  have "extent v \<inter> extent b = {}" if "b \<in> set (us @ vs)" for b using assms [of b] sep_extent [of b v] sep_extent [of v b] that by auto
  then show ?thesis by (auto simp: free_units_def)
qed

lemma take_whole:
  assumes "arena h (us @ c # v # vs)" and "snd v = n" and "n \<noteq> 0"
  shows "took h (us @ c # v # vs) v (snd (malloc_take n (fst c) (fst v) h)) (us @ c # vs)"
    "fst (malloc_take n (fst c) (fst v) h) = fst v + 8"
proof -
  let ?ns = "us @ c # v # vs" let ?H = "fst (hd ?ns)" let ?m = "umem h"
  have w: "wf_blocks ?ns" and ring: "lseg ?m ?H ?ns ?H" using assms(1) by (simp_all add: arena_def)
  have w2: "wf_blocks ((us @ [c]) @ v # vs)" using w by simp
  note pc = wf_split [OF w] wf_parts [OF w] and pv = wf_split [OF w2] wf_parts [OF w2]
  have lv: "hsize ?m (fst v) = snd v" "hptr ?m (fst v) = nxt vs ?H" "lseg ?m (nxt vs ?H) vs ?H"
      and lc: "lseg ?m ?H us (fst c)" "hsize ?m (fst c) = snd c"
    using ring ring_split [of ?m us c "v # vs" ?H] lseg_nxt by (auto simp: nxt_def)
  let ?h = "h\<lparr>umem := set_hptr (fst c) (hptr ?m (fst v)) ?m, freep := fst c\<rparr>"
  have t: "malloc_take n (fst c) (fst v) h = (fst v + 8, ?h)" using lv assms(2) by (simp add: malloc_take_def)
  then show "fst (malloc_take n (fst c) (fst v) h) = fst v + 8" by simp
  have w': "wf_blocks (us @ c # vs)"
    by (rule wf_build) (use pc pv in simp_all)
  have fc: "hdr_fits (fst c)" using pc(3) by (rule in_memory_fits)
  have keep: "hptr (umem ?h) (fst b) = hptr ?m (fst b) \<and> hsize (umem ?h) (fst b) = hsize ?m (fst b)" if "b \<in> set us \<union> set vs \<union> {v}" for b
  proof -
    have "sep b c \<or> sep c b" using pc(1,2) [of b] that by auto
    moreover have "in_memory b" using pc(6,7) that by (auto simp: list_all_iff)
    ultimately show ?thesis using fc sep_apart [of b c] sep_apart [of c b] in_memory_fits [of b] by (auto simp: hdr_simps)
  qed
  have hd: "fst (hd (us @ c # vs)) = ?H" by (cases us) simp_all
  have "arena ?h (us @ c # vs)"
    using w' lc lv keep lseg_cong [of us "umem ?h" ?m] lseg_cong [of vs "umem ?h" ?m] fc
    unfolding arena_def hd ring_split [of _ us c vs, unfolded hd] by (simp add: hdr_simps)
  moreover have "extent v \<inter> free_units ((us @ [c]) @ vs) = {}" by (rule disjoint_units [OF pv(1,2)])
  then have "outside v (us @ c # vs)"
    using pv(1) [of "hd (us @ [c])"] pv(3) assms(2,3) hd
    by (cases us) (simp_all add: outside_def sep_def)
  moreover have "\<forall>a. unat a \<in> owned ?ns \<or> umem ?h a = ?m a"
    using hdr_owned [OF w, of c] set_hdr_frame(1) [OF fc] by fastforce
  ultimately show "took h ?ns v (snd (malloc_take n (fst c) (fst v) h)) (us @ c # vs)"
    using t hd keep [of v] lv(1) by (auto simp: took_def free_units_def)
qed

lemma cut_block:
  assumes "in_memory v" and "n < snd v" and "n \<noteq> 0" and "k = snd v - n" and "x = (fst v + 8 * k, n)"
  shows "k \<noteq> 0" "in_memory (fst v, k)" "in_memory x" "unat (fst v) + 8 \<le> unat (fst x)" "unat (fst x) = unat (fst v) + 8 * unat k"
    "block_end x = block_end v" "extent v = extent (fst v, k) \<union> extent x" "extent x \<inter> extent (fst v, k) = {}"
    "unat (fst x) + 8 \<le> block_end v"
proof -
  have n: "0 < unat n" "unat n < unat (snd v)" using assms(2,3) by (auto simp: unat_gt_0 word_less_nat_alt)
  then have k: "unat k = unat (snd v) - unat n" "0 < unat k" by (auto simp: assms(4) unat_sub_u32)
  then show "k \<noteq> 0" by auto
  show iv: "in_memory (fst v, k)" using assms(1) k n by (auto simp: in_memory_def)
  show x: "unat (fst x) = unat (fst v) + 8 * unat k" using end_word [OF iv, of "fst x"] assms(5) by simp
  then show be: "block_end x = block_end v" using k n assms(5) by simp
  show "in_memory x" "unat (fst v) + 8 \<le> unat (fst x)" "extent v = extent (fst v, k) \<union> extent x" "extent x \<inter> extent (fst v, k) = {}"
    "unat (fst x) + 8 \<le> block_end v"
    using assms(1,5) be x n k by (auto simp: in_memory_def extent_def)
qed

lemma take_part:
  assumes "arena h (us @ c # v # vs)" and "n < snd v" and "n \<noteq> 0" and "k = snd v - n" and "x = (fst v + 8 * k, n)"
  shows "took h (us @ c # v # vs) x (snd (malloc_take n (fst c) (fst v) h)) (us @ c # (fst v, k) # vs)"
    "fst (malloc_take n (fst c) (fst v) h) = fst x + 8"
proof -
  let ?ns = "us @ c # v # vs" let ?H = "fst (hd ?ns)" let ?m = "umem h" let ?v = "(fst v, k)"
  have w: "wf_blocks ((us @ [c]) @ v # vs)" and ring: "lseg ?m ?H ((us @ [c]) @ v # vs) ?H"
    using assms(1) by (simp_all add: arena_def)
  note pv = wf_split [OF w] wf_parts [OF w] and cu = cut_block [OF wf_split(3) [OF w] assms(2-5)]
  have sx: "sep u ?v" "sep u x" if "u \<in> set (us @ [c])" for u using pv(1) [OF that] cu by (auto simp: sep_def)
  have sv: "sep ?v u" "sep x u" if "u \<in> set vs" for u using pv(2) [OF that] cu assms(5) by (auto simp: sep_def)
  let ?m1 = "set_hsize (fst x) n (set_hsize (fst v) k ?m)" let ?h = "h\<lparr>umem := ?m1, freep := fst c\<rparr>"
  have lv: "hsize ?m (fst v) = snd v" "hptr ?m (fst v) = nxt vs ?H" "lseg ?m (nxt vs ?H) vs ?H" "lseg ?m ?H (us @ [c]) (fst v)"
    using ring ring_split [of ?m "us @ [c]" v vs ?H] by simp_all
  have fv: "hdr_fits (fst v)" "hdr_fits (fst x)" "hdr_apart (fst x) (fst v)"
    using in_memory_fits [OF pv(3)] in_memory_fits [OF cu(3)] cu(4) by (simp_all add: hdr_apart_def)
  have t: "malloc_take n (fst c) (fst v) h = (fst x + 8, ?h)"
    using lv assms(2,4,5) by (auto simp: malloc_take_def Let_def hdr_simps)
  then show "fst (malloc_take n (fst c) (fst v) h) = fst x + 8" by simp
  have keep: "hptr ?m1 (fst b) = hptr ?m (fst b) \<and> hsize ?m1 (fst b) = hsize ?m (fst b)" if "b \<in> set (us @ [c]) \<union> set vs" for b
  proof -
    have "hdr_apart (fst v) (fst b)" "hdr_apart (fst x) (fst b)"
      using sx [of b] sv [of b] that sep_apart [of b ?v] sep_apart [of b x] sep_apart [of ?v b] sep_apart [of x b] by auto
    moreover have "hdr_fits (fst b)" using that in_memory_fits [of b] pv by (auto simp: list_all_iff)
    ultimately show ?thesis using fv by (simp add: hdr_simps)
  qed
  have ring': "lseg ?m1 ?H ((us @ [c]) @ ?v # vs) ?H"
    using lv keep lseg_cong [of "us @ [c]" ?m1 ?m ?H "fst v"] lseg_cong [of vs ?m1 ?m "nxt vs ?H" ?H] fv
    by (auto simp: lseg_append hdr_simps)
  have hd: "fst (hd (us @ c # ?v # vs)) = ?H" by (cases us) simp_all
  have "wf_blocks ((us @ [c]) @ ?v # vs)" by (rule wf_build) (use pv sx sv cu in simp_all)
  then have "arena ?h (us @ c # ?v # vs)" using ring' by (simp add: arena_def hd)
  moreover have "extent x \<inter> free_units ((us @ [c]) @ vs) = {}" by (rule disjoint_units [OF sx(2) sv(2)])
  then have "extent x \<inter> free_units (us @ c # ?v # vs) = {}" using cu(8) by (auto simp: free_units_def)
  then have "outside x (us @ c # ?v # vs)"
    using sx(2) [of "hd (us @ [c])"] cu(3) assms(3,5) hd by (cases us) (simp_all add: outside_def sep_def)
  moreover have "\<forall>a. unat a \<in> owned ?ns \<or> ?m1 a = ?m a"
  proof
    fix a :: addr
    have "unat a \<in> owned ?ns \<or> unat a \<notin> extent v" by (auto simp: owned_def free_units_def)
    moreover have "unat a \<notin> extent v \<Longrightarrow> ?m1 a = ?m a"
      using cu(4,9) fv set_hdr_frame(2) by (auto simp: extent_def)
    ultimately show "unat a \<in> owned ?ns \<or> ?m1 a = ?m a" by blast
  qed
  ultimately show "took h ?ns x (snd (malloc_take n (fst c) (fst v) h)) (us @ c # ?v # vs)"
    using t hd cu(7) assms(5) by (auto simp: took_def free_units_def hdr_simps)
qed

lemma take_ok:
  assumes "arena h ns" and "c \<in> set ns" and "d \<in> set ns" and "hptr (umem h) (fst c) = fst d" and "n \<le> snd d" and "n \<noteq> 0"
  shows "\<exists>x h' ns'. malloc_take n (fst c) (fst d) h = (fst x + 8, h') \<and> snd x = n \<and> took h ns x h' ns'"
proof -
  have w: "wf_blocks ns" and ring: "lseg (umem h) (fst (hd ns)) ns (fst (hd ns))" using assms(1) by (simp_all add: arena_def)
  obtain us vs where ns: "ns = us @ c # vs" using assms(2) by (auto simp: in_set_conv_decomp)
  have size: "hsize (umem h) (fst b) = snd b" if "b \<in> set ns" for b
    using that ring next_block(2) [of "umem h"] by (metis in_set_conv_decomp)
  have "d \<noteq> hd ns" using w assms(5,6) by (auto simp: wf_blocks_def)
  then have "sep (hd ns) d" using w assms(3) by (cases ns) (auto simp: wf_blocks_def)
  then have "fst d \<noteq> fst (hd ns)" by (auto simp: sep_def)
  then obtain e vs1 where e: "vs = e # vs1" "fst e = fst d"
    using next_block(1) [of "umem h" us c vs] ring assms(4) ns by (cases vs) auto
  then have n: "snd e = snd d" using size [of e] size [OF assms(3)] ns by simp
  have ar: "arena h (us @ c # e # vs1)" using assms(1) ns e by simp
  show ?thesis
  proof (cases "snd e = n")
    case True
    then show ?thesis using take_whole [OF ar True assms(6)] ns e by (metis prod.collapse)
  next
    case False
    then have lt: "n < snd e" using assms(5) n by simp
    show ?thesis using take_part [OF ar lt assms(6) refl refl] ns e by (metis prod.collapse snd_conv)
  qed
qed

subsection \<open>The search\<close>

text \<open>The rest of the loop once \<^verbatim>\<open>morecore\<close> is back.\<close>

definition after_more :: "(uheap \<Rightarrow> u32 \<Rightarrow> bool) \<Rightarrow> u32 \<Rightarrow> (addr \<times> uheap) res \<Rightarrow> (addr \<times> uheap) res option" where
  "after_more avail n r = (case r of
       Inl e \<Rightarrow> Some (Inl e)
     | Inr (q, h1) \<Rightarrow> if q = 0 then Some (Inr (0, h1)) else malloc_loop avail n q (hptr (umem h1) q) h1)"

lemma loop_search:
  assumes "lseg (umem h) p rs q" and "rs \<noteq> []" and "fst (last rs) = freep h" and "\<forall>r \<in> set (butlast rs). fst r \<noteq> freep h"
    and "hptr (umem h) (fst c) = p" and "insert c (set rs) \<subseteq> A"
  shows "(\<exists>b d. b \<in> A \<and> d \<in> set rs \<and> hptr (umem h) (fst b) = fst d \<and> n \<le> snd d
            \<and> malloc_loop avail n (fst c) p h = Some (Inr (malloc_take n (fst b) (fst d) h)))
       \<or> (\<forall>d \<in> set rs. snd d < n) \<and> malloc_loop avail n (fst c) p h =
           Option.bind (morecore avail n h) (after_more avail n)"
  using assms
proof (induction rs arbitrary: p c)
  case (Cons r rs)
  have r: "p = fst r" "hsize (umem h) (fst r) = snd r" "lseg (umem h) (hptr (umem h) (fst r)) rs q" using Cons.prems(1) by auto
  have "r \<in> A" using Cons.prems(6) by simp
  show ?case
  proof (cases "n \<le> snd r")
    case True
    then have "malloc_loop avail n (fst c) p h = Some (Inr (malloc_take n (fst c) (fst r) h))"
      using r by (subst malloc_loop.simps) simp
    then show ?thesis using True Cons.prems(5,6) r by (intro disjI1 exI [of _ c] exI [of _ r]) simp
  next
    case False
    show ?thesis
    proof (cases "rs = []")
      case True
      then have "malloc_loop avail n (fst c) p h =
           Option.bind (morecore avail n h) (after_more avail n)"
        using False Cons.prems(3) r by (subst malloc_loop.simps) (simp add: after_more_def [abs_def])
      then show ?thesis using True False by (intro disjI2) auto
    next
      case rs: False
      then have "fst r \<noteq> freep h" using Cons.prems(4) by simp
      then have "malloc_loop avail n (fst c) p h = malloc_loop avail n (fst r) (hptr (umem h) (fst r)) h"
        using False r by (subst malloc_loop.simps) simp
      then show ?thesis
        using Cons.IH [OF r(3) rs, of r] rs Cons.prems(3,4,6) False by auto
    qed
  qed
qed simp

definition finds :: "(uheap \<Rightarrow> u32 \<Rightarrow> bool) \<Rightarrow> u32 \<Rightarrow> uheap \<Rightarrow> blocks \<Rightarrow> bool" where
  "finds avail n h ns \<longleftrightarrow> (\<exists>x h' ns'. malloc_loop avail n (freep h) (hptr (umem h) (freep h)) h = Some (Inr (fst x + 8, h'))
     \<and> snd x = n \<and> took h ns x h' ns')"

lemma search_ring:
  assumes "arena h ns" and "n \<noteq> 0"
  shows "finds avail n h ns
    \<or> (\<forall>d \<in> set ns. snd d < n) \<and> malloc_loop avail n (freep h) (hptr (umem h) (freep h)) h =
           Option.bind (morecore avail n h) (after_more avail n)"
proof -
  let ?m = "umem h" let ?H = "fst (hd ns)"
  obtain us f vs where ns: "ns = us @ f # vs" and f: "fst f = freep h"
    using assms(1) by (auto simp: arena_def in_set_conv_decomp)
  have w: "wf_blocks (us @ f # vs)" and ring: "lseg ?m (fst (hd (us @ f # vs))) (us @ f # vs) ?H"
    using assms(1) ns by (simp_all add: arena_def)
  have "lseg ?m (hptr ?m (fst f)) (vs @ us @ [f]) (hptr ?m (fst f))"
    using ring unfolding ring_split by (auto simp: lseg_append ns)
  moreover have "fst r \<noteq> freep h" if "r \<in> set (butlast (vs @ us @ [f]))" for r
    using wf_split(1,2) [OF w, of r] that f by (auto simp: butlast_append sep_def)
  moreover have "insert f (set (vs @ us @ [f])) \<subseteq> set ns" "set (vs @ us @ [f]) = set ns" using ns by auto
  ultimately consider b d where "b \<in> set ns" "d \<in> set ns" "hptr ?m (fst b) = fst d" "n \<le> snd d"
      "malloc_loop avail n (freep h) (hptr ?m (freep h)) h = Some (Inr (malloc_take n (fst b) (fst d) h))"
    | "\<forall>d \<in> set ns. snd d < n" "malloc_loop avail n (freep h) (hptr (umem h) (freep h)) h =
           Option.bind (morecore avail n h) (after_more avail n)"
    using loop_search [of h "hptr ?m (fst f)" "vs @ us @ [f]" "hptr ?m (fst f)" f "set ns" n avail] f by auto
  then show ?thesis
  proof cases
    case 1
    then show ?thesis using take_ok [OF assms(1) 1(1-4) assms(2)] by (auto simp: finds_def)
  qed simp
qed

subsection \<open>More memory\<close>

definition below :: "addr \<Rightarrow> blocks \<Rightarrow> bool" where
  "below e ns \<longleftrightarrow> (\<forall>b \<in> set ns. unat (fst b) + 8 \<le> unat e \<and> block_end b \<le> unat e)"

lemma below_outside:
  assumes "below e ns" and "wf_blocks ns" and "n \<noteq> 0" and "unat e + 8 * unat n < 4294967296"
  shows "outside (e, n) ns"
proof -
  have "0 < unat n" using assms(3) by (simp add: unat_gt_0)
  moreover have "hd ns \<in> set ns" using assms(2) by (simp add: wf_blocks_def)
  ultimately show ?thesis
    using assms by (fastforce simp: outside_def in_memory_def below_def extent_def free_units_def)
qed

lemma arena_cong:
  assumes "arena h ns" and "below e ns" and "\<And>a. unat a < unat e \<Longrightarrow> m a = umem h a"
  shows "arena (h\<lparr>brk := b, umem := m\<rparr>) ns"
proof -
  have "hptr (umem h) (fst b) = hptr m (fst b) \<and> hsize (umem h) (fst b) = hsize m (fst b)" if "b \<in> set ns" for b
  proof -
    have "unat (fst b) + 8 \<le> unat e" using assms(2) that by (simp add: below_def)
    then show ?thesis
      using unat_lt_2p32 [of e] unfolding hptr_def hsize_def
      by (auto intro!: read32_frame simp: unat_add_u32 assms(3))
  qed
  then show ?thesis using assms(1) lseg_cong [of ns "umem h" m] by (simp add: arena_def)
qed

definition grants :: "(uheap \<Rightarrow> u32 \<Rightarrow> bool) \<Rightarrow> u32 \<Rightarrow> uheap \<Rightarrow> bool" where
  "grants avail n h \<longleftrightarrow> whole_pages (brk h + n) \<and> avail h n \<and> brk h \<le> brk h + n"

text \<open>A kernel that grants memory gives a size below 2 GB, without wrapping around.\<close>

lemma grants_bound:
  assumes "grants avail n h"
  shows "unat (brk h) + unat n < 2147483648" and "\<not> sint (brk h) < 0"
proof -
  have w: "unat (brk h + n) < 2147483648" "unat (brk h) \<le> unat (brk h + n)"
    using assms by (simp_all add: grants_def whole_pages_def sint_pos word_le_nat_alt)
  then show "unat (brk h) + unat n < 2147483648"
    using unat_lt_2p32 [of "brk h"] unat_lt_2p32 [of n] by (auto simp: unat_word_ariths(1) mod_if split: if_splits)
  show "\<not> sint (brk h) < 0" using w by (simp add: sint_u32)
qed

lemma morecore_grows:
  assumes "arena h ns" and "below (brk h) ns" and "nu = (if n < PAGE then PAGE else n)" and "unat nu < 536870912"
    and "grants avail (nu * 8) h"
  shows "\<exists>h' ns'. morecore avail n h = Some (Inr (freep h', h')) \<and> arena h' ns' \<and> fst (hd ns') = fst (hd ns)
    \<and> free_units ns' = free_units ns \<union> extent (brk h, nu) \<and> brk h' = brk h + nu * 8
    \<and> (\<forall>a. unat a \<in> owned ns \<union> extent (brk h, nu) \<or> umem h' a = umem h a)"
proof -
  have nz: "nu \<noteq> 0" using assms(3) by (auto simp: PAGE_def)
  have n8: "unat (nu * 8) = 8 * unat nu" using assms(4) by (simp add: unat_word_ariths(2))
  note gb = grants_bound [OF assms(5)]
  have lt: "unat (brk h) + 8 * unat nu < 4294967296" using gb(1) n8 by simp
  define m where "m = set_hsize (brk h) nu (memset (brk h) 0 (nu * 8) (umem h))"
  define h1 where "h1 = h\<lparr>brk := brk h + nu * 8, umem := m\<rparr>"
  have nz': "0 < unat nu" using nz by (simp add: unat_gt_0)
  then have fb: "hdr_fits (brk h)" using lt by (simp add: hdr_fits_def)
  have out: "m a = umem h a" if "unat a \<notin> extent (brk h, nu)" for a
  proof -
    have "unat a < unat (brk h) \<or> unat (brk h) + 8 * unat nu \<le> unat a" using that by (auto simp: extent_def)
    then have "\<not> in_range (brk h) (unat (nu * 8)) a" "unat a < unat (brk h) \<or> unat (brk h) + 8 \<le> unat a"
      using n8 nz' unat_lt_2p32 [of a] lt by (auto simp: in_range_def unat_sub_u32)
    then show ?thesis using fb by (simp add: m_def set_hdr_frame memset_def memset_loop_apply)
  qed
  have ar: "arena h1 ns" unfolding h1_def by (rule arena_cong [OF assms(1,2)]) (auto intro!: out simp: extent_def)
  have o: "outside (brk h, nu) ns" using below_outside [OF assms(2) _ nz lt] assms(1) by (simp add: arena_def)
  have "hsize (umem h1) (brk h) = nu" by (simp add: h1_def m_def hdr_simps)
  then obtain h' ns' where f: "free (brk h + 8) h1 = Some h'" "arena h' ns'" "free_units ns' = free_units ns \<union> extent (brk h, nu)"
      "fst (hd ns') = fst (hd ns)" "brk h' = brk h1" "\<forall>a. unat a \<in> owned ns \<union> extent (brk h, nu) \<or> umem h' a = umem h1 a"
    using free_arena [OF ar o] by auto
  have "brk h \<noteq> - 1" using fb by (auto simp: hdr_fits_def)
  moreover have "sbrk avail (nu * 8) h = Inr (brk h, h\<lparr>brk := brk h + nu * 8, umem := memset (brk h) 0 (nu * 8) (umem h)\<rparr>)"
    using assms(5) gb(2) by (auto simp: grants_def sbrk_def Let_def)
  ultimately have "morecore avail n h = Some (Inr (freep h', h'))"
    using f(1) unfolding morecore_def assms(3) [symmetric] by (simp add: h1_def m_def Let_def)
  moreover have "unat a \<in> owned ns \<union> extent (brk h, nu) \<or> umem h' a = umem h a" for a
    using f(6) [rule_format, of a] out [of a] by (cases "unat a \<in> extent (brk h, nu)") (auto simp: h1_def)
  ultimately show ?thesis using f(2-5) by (intro exI [of _ h'] exI [of _ ns']) (simp add: h1_def)
qed

text \<open>A stretch of free memory lies in one block, since the blocks have gaps between them.\<close>

lemma one_block:
  assumes "wf_blocks ns" and "extent x \<subseteq> free_units ns" and "snd x \<noteq> 0"
  shows "\<exists>d \<in> set ns. snd x \<le> snd d"
proof -
  have "unat (fst x) \<in> extent x" using assms(3) by (simp add: extent_def unat_gt_0)
  then obtain b where b: "b \<in> set ns" "unat (fst x) \<in> extent b" using assms(2) by (auto simp: free_units_def)
  have "block_end x \<le> block_end b"
  proof (rule ccontr)
    assume "\<not> block_end x \<le> block_end b"
    then have "block_end b \<in> extent x" using b(2) by (auto simp: extent_def)
    then obtain c where c: "c \<in> set ns" "block_end b \<in> extent c" using assms(2) by (auto simp: free_units_def)
    obtain us vs where ns: "ns = us @ b # vs" using b(1) by (auto simp: in_set_conv_decomp)
    then have "c = b \<or> sep c b \<or> sep b c" using c(1) wf_split(1,2) [of us b vs c] assms(1) by auto
    then show False using c(2) by (auto simp: extent_def sep_def)
  qed
  then have "unat (snd x) \<le> unat (snd b)" using b(2) by (auto simp: extent_def)
  then show ?thesis using b(1) by (auto simp: word_le_nat_alt)
qed

lemma below_units:
  assumes "wf_blocks ns" and "free_units ns \<subseteq> {..<unat e}" and "unat (fst (hd ns)) + 8 \<le> unat e"
  shows "below e ns"
  unfolding below_def
proof
  fix b assume b: "b \<in> set ns"
  show "unat (fst b) + 8 \<le> unat e \<and> block_end b \<le> unat e"
  proof (cases "b = hd ns")
    case True
    then show ?thesis using assms(1,3) by (simp add: wf_blocks_def)
  next
    case False
    then have "snd b \<noteq> 0" using assms(1) b by (cases ns) (auto simp: wf_blocks_def)
    then have n: "0 < unat (snd b)" by (simp add: unat_gt_0)
    have "extent b \<subseteq> {..<unat e}" using assms(2) b by (auto simp: free_units_def)
    moreover have "block_end b - 1 \<in> extent b" using n by (simp add: extent_def)
    ultimately have "block_end b - 1 < unat e" by auto
    then show ?thesis using n by linarith
  qed
qed

subsection \<open>malloc\<close>

text \<open>
  The heap of a process: nothing yet before the first call, then the circular list; all of it
  between \<^verbatim>\<open>base\<close> and the end of the memory of the process.
\<close>

definition heap :: "addr \<Rightarrow> uheap \<Rightarrow> blocks \<Rightarrow> bool" where
  "heap base h ns \<longleftrightarrow> base \<noteq> 0 \<and> fst (hd ns) = base \<and> below (brk h) ns
     \<and> (if freep h = 0 then ns = [(base, 0)] else arena h ns)"

text \<open>The block \<open>x\<close> is given out for a request of \<open>nbytes\<close> bytes.\<close>

definition allocated :: "addr \<Rightarrow> u32 \<Rightarrow> uheap \<Rightarrow> blocks \<Rightarrow> addr \<times> u32 \<Rightarrow> uheap \<Rightarrow> blocks \<Rightarrow> bool" where
  "allocated base nbytes h ns x h' ns' \<longleftrightarrow>
     heap base h' ns' \<and> freep h' \<noteq> 0 \<and> outside x ns' \<and> hsize (umem h') (fst x) = snd x \<and> block_end x \<le> unat (brk h')
     \<and> unat nbytes + 8 \<le> 8 * unat (snd x)
     \<and> free_units ns' \<union> extent x = free_units ns \<union> {unat (brk h)..<unat (brk h')}
     \<and> (\<forall>a. unat a \<in> owned ns \<union> {unat (brk h)..<unat (brk h')} \<or> umem h' a = umem h a)"

lemma malloc_init_arena:
  assumes "heap base h ns"
  shows "arena (malloc_init base h) ns" "brk (malloc_init base h) = brk h" "\<forall>a. unat a \<in> owned ns \<or> umem (malloc_init base h) a = umem h a"
proof -
  have b: "fst (hd ns) = base" "base \<noteq> 0" using assms by (simp_all add: heap_def)
  have "arena (malloc_init base h) ns \<and> brk (malloc_init base h) = brk h
     \<and> (\<forall>a. unat a \<in> owned ns \<or> umem (malloc_init base h) a = umem h a)"
  proof (cases "freep h = 0")
    case True
    then have ns: "ns = [(base, 0)]" using assms by (simp add: heap_def)
    then have "unat base + 8 \<le> unat (brk h)" using assms by (simp add: heap_def below_def)
    then have fb: "hdr_fits base" using unat_lt_2p32 [of "brk h"] by (simp add: hdr_fits_def)
    have "unat a \<in> owned ns \<or> set_hsize base 0 (set_hptr base base m) a = m a" for a m
      using set_hdr_frame [OF fb, of a] ns by (cases "unat a \<in> {unat base..<unat base + 8}") (auto simp: owned_def)
    moreover have "wf_blocks ns" using fb ns by (simp add: wf_blocks_def in_memory_def hdr_fits_def)
    ultimately show ?thesis using True fb ns by (simp add: malloc_init_def arena_def hdr_simps)
  next
    case False
    then show ?thesis using assms by (simp add: malloc_init_def heap_def)
  qed
  then show "arena (malloc_init base h) ns" "brk (malloc_init base h) = brk h" "\<forall>a. unat a \<in> owned ns \<or> umem (malloc_init base h) a = umem h a"
    by blast+
qed

lemma malloc_units_enough:
  assumes "nbytes \<le> 4294967280"
  shows "malloc_units nbytes \<noteq> 0" "unat nbytes + 8 \<le> 8 * unat (malloc_units nbytes)" "unat (malloc_units nbytes) < 536870912"
proof -
  have le: "unat nbytes \<le> 4294967280" using assms by (simp add: word_le_nat_alt)
  have "unat (nbytes + 7) = unat nbytes + 7" using le by (simp add: unat_add_u32)
  then have "unat ((nbytes + 7) div 8) = (unat nbytes + 7) div 8" by (simp add: unat_div)
  then have u: "unat (malloc_units nbytes) = (unat nbytes + 7) div 8 + 1"
    using le by (simp add: malloc_units_def unat_add_u32 add.commute)
  show "unat nbytes + 8 \<le> 8 * unat (malloc_units nbytes)" "unat (malloc_units nbytes) < 536870912" using le unfolding u by simp_all
  show "malloc_units nbytes \<noteq> 0" using u by auto
qed

lemma arena_freep:
  assumes "arena h ns" and "fst (hd ns) \<noteq> 0"
  shows "freep h \<noteq> 0"
proof -
  obtain b where "b \<in> set ns" "freep h = fst b" using assms(1) by (auto simp: arena_def)
  then show ?thesis using hd_least [of ns b] assms by (auto simp: arena_def unat_eq_zero)
qed

lemma took_allocated:
  assumes "heap base h ns" and "arena h1 ns1" and "fst (hd ns1) = base" and "unat (brk h) \<le> unat (brk h1)"
    and "free_units ns1 = free_units ns \<union> {unat (brk h)..<unat (brk h1)}"
    and "\<forall>a. unat a \<in> owned ns \<union> {unat (brk h)..<unat (brk h1)} \<or> umem h1 a = umem h a"
    and "took h1 ns1 x h' ns'" and "unat nbytes + 8 \<le> 8 * unat (snd x)"
  shows "allocated base nbytes h ns x h' ns'"
proof -
  have t: "arena h' ns'" "outside x ns'" "hsize (umem h') (fst x) = snd x" "free_units ns1 = free_units ns' \<union> extent x"
      "fst (hd ns') = base" "brk h' = brk h1" "\<forall>a. unat a \<in> owned ns1 \<or> umem h' a = umem h1 a"
    using assms(3,7) by (simp_all add: took_def)
  have b: "below (brk h) ns" "base \<noteq> 0" "fst (hd ns) = base" "ns \<noteq> []"
    using assms(1) by (auto simp: heap_def arena_def wf_blocks_def split: if_splits)
  have "unat base + 8 \<le> unat (brk h)" using b by (auto simp: below_def)
  moreover have "free_units ns \<subseteq> {..<unat (brk h)}" using b(1) by (fastforce simp: below_def free_units_def extent_def)
  then have fu: "free_units ns1 \<subseteq> {..<unat (brk h1)}" using assms(4) unfolding assms(5) by auto
  ultimately have "below (brk h') ns'" using t assms(4) by (intro below_units) (auto simp: arena_def)
  then have heap: "heap base h' ns'" "freep h' \<noteq> 0" using t(1,5) b(2) arena_freep [OF t(1)] by (simp_all add: heap_def)
  have n: "0 < unat (snd x)" using t(2) by (auto simp: outside_def unat_gt_0)
  have "block_end x - 1 \<in> extent x" using n by (simp add: extent_def)
  then have "block_end x - 1 \<in> free_units ns1" unfolding t(4) by simp
  then have "block_end x - 1 < unat (brk h')" using fu t(6) by auto
  then have "block_end x \<le> unat (brk h')" using n by linarith
  moreover have "owned ns1 = owned ns \<union> {unat (brk h)..<unat (brk h1)}" using assms(3,5) b(3) by (auto simp: owned_def)
  then have "unat a \<in> owned ns \<union> {unat (brk h)..<unat (brk h1)} \<or> umem h' a = umem h a" for a
    using t(7) [rule_format, of a] assms(6) [rule_format, of a] by auto
  ultimately show ?thesis using heap t(2,3,4,6) assms(5,8) by (simp add: allocated_def)
qed

definition more_units :: "u32 \<Rightarrow> u32" where
  "more_units nbytes = (if malloc_units nbytes < PAGE then PAGE else malloc_units nbytes)"

lemma malloc_found:
  assumes "heap base h ns" and "nbytes \<le> 4294967280" and "finds avail (malloc_units nbytes) (malloc_init base h) ns"
  shows "\<exists>x h' ns'. malloc avail base nbytes h = Some (Inr (fst x + 8, h')) \<and> allocated base nbytes h ns x h' ns'"
proof -
  note ini = malloc_init_arena [OF assms(1)]
  obtain x h' ns' where m: "malloc avail base nbytes h = Some (Inr (fst x + 8, h'))" "snd x = malloc_units nbytes"
      "took (malloc_init base h) ns x h' ns'"
    using assms(3) by (auto simp: finds_def malloc_def Let_def)
  have "fst (hd ns) = base" using assms(1) by (simp add: heap_def)
  then have "allocated base nbytes h ns x h' ns'"
    using took_allocated [OF assms(1) ini(1) _ _ _ _ m(3)] ini(2,3) m(2) malloc_units_enough(2) [OF assms(2)] by simp
  then show ?thesis using m(1) by blast
qed

lemma finds_fits:
  assumes "arena h ns" and "finds avail n h ns" and "n \<noteq> 0"
  shows "\<exists>d \<in> set ns. n \<le> snd d"
proof -
  obtain x h' ns' where x: "snd x = n" "took h ns x h' ns'" using assms(2) by (auto simp: finds_def)
  then have "extent x \<subseteq> free_units ns" by (simp add: took_def)
  then show ?thesis using one_block [of ns x] assms(1,3) x(1) by (simp add: arena_def)
qed

lemma malloc_grown:
  assumes "heap base h ns" and "nbytes \<le> 4294967280" and "\<forall>d \<in> set ns. snd d < malloc_units nbytes"
    and "grants avail (more_units nbytes * 8) (malloc_init base h)"
  shows "\<exists>x h' ns'. malloc avail base nbytes h = Some (Inr (fst x + 8, h')) \<and> allocated base nbytes h ns x h' ns'"
proof -
  let ?n = "malloc_units nbytes" let ?nu = "more_units nbytes" let ?h = "malloc_init base h"
  note ini = malloc_init_arena [OF assms(1)] and mu = malloc_units_enough [OF assms(2)]
  have b: "fst (hd ns) = base" "base \<noteq> 0" "below (brk ?h) ns" using assms(1) ini(2) by (simp_all add: heap_def)
  have n8: "unat (?nu * 8) = 8 * unat ?nu" using mu(3) by (auto simp: more_units_def PAGE_def unat_word_ariths(2))
  have nu: "?n \<le> ?nu" "?nu \<noteq> 0" "unat ?nu < 536870912" using mu(3) by (auto simp: more_units_def PAGE_def)
  have lt: "unat (brk h) + unat (?nu * 8) < 4294967296" using grants_bound(1) [OF assms(4)] ini(2) by simp
  from morecore_grows [where n = ?n, OF ini(1) b(3) more_units_def [of nbytes] nu(3) assms(4)] ini(2)
  obtain h2 ns2 where g: "morecore avail ?n ?h = Some (Inr (freep h2, h2))" "arena h2 ns2" "fst (hd ns2) = fst (hd ns)"
      "free_units ns2 = free_units ns \<union> extent (brk h, ?nu)" "brk h2 = brk h + ?nu * 8"
      "\<forall>a. unat a \<in> owned ns \<union> extent (brk h, ?nu) \<or> umem h2 a = umem ?h a" by auto
  have ub: "unat (brk h2) = unat (brk h) + 8 * unat ?nu" using g(5) lt n8 by (simp add: unat_add_u32)
  then have ex: "extent (brk h, ?nu) = {unat (brk h)..<unat (brk h2)}" by (simp add: extent_def)
  obtain d where "d \<in> set ns2" "?nu \<le> snd d"
    using one_block [of ns2 "(brk h, ?nu)"] g(2,4) nu(2) by (auto simp: arena_def)
  then have "\<not> (\<forall>d \<in> set ns2. snd d < ?n)" using nu(1) by (meson le_less_trans less_le_not_le)
  then have "finds avail ?n h2 ns2" using search_ring [OF g(2) mu(1), of avail] by blast
  moreover have "\<not> finds avail ?n ?h ns" using finds_fits [OF ini(1) _ mu(1)] assms(3) by (meson leD)
  ultimately obtain x h' ns' where m: "malloc avail base nbytes h = Some (Inr (fst x + 8, h'))" "snd x = ?n" "took h2 ns2 x h' ns'"
    using search_ring [OF ini(1) mu(1), of avail] g(1) arena_freep [OF g(2)] g(3) b by (auto simp: finds_def malloc_def Let_def after_more_def)
  have fr: "unat a \<in> owned ns \<union> {unat (brk h)..<unat (brk h2)} \<or> umem h2 a = umem h a" for a
    using g(6) [rule_format, of a] ini(3) [rule_format, of a] ex by auto
  have "allocated base nbytes h ns x h' ns'"
    using took_allocated [OF assms(1) g(2) _ _ _ _ m(3)] fr g(3,4) b(1) ub ex m(2) mu(2) by simp
  then show ?thesis using m(1) by blast
qed

text \<open>Without a block that is large enough, what \<^verbatim>\<open>sbrk\<close> says decides.\<close>

lemma malloc_refused:
  assumes "heap base h ns" and "nbytes \<le> 4294967280" and "\<forall>d \<in> set ns. snd d < malloc_units nbytes"
    and "sz = brk h + more_units nbytes * 8"
  shows "\<not> whole_pages sz \<Longrightarrow> malloc avail base nbytes h = Some (Inl (Panic ''kalloc''))"
    and "whole_pages sz \<Longrightarrow> \<not> avail (malloc_init base h) (more_units nbytes * 8) \<Longrightarrow>
      malloc avail base nbytes h = Some (Inr (0, malloc_init base h))"
    and "whole_pages sz \<Longrightarrow> avail (malloc_init base h) (more_units nbytes * 8) \<Longrightarrow> sz < brk h \<Longrightarrow>
      malloc avail base nbytes h = Some (Inl Diverges)"
proof -
  let ?h = "malloc_init base h"
  note ini = malloc_init_arena [OF assms(1)] and mu = malloc_units_enough [OF assms(2)]
  have "\<not> finds avail (malloc_units nbytes) ?h ns"
    using finds_fits [OF ini(1) _ mu(1)] assms(3) by (meson leD)
  then have m: "malloc avail base nbytes h = Option.bind (morecore avail (malloc_units nbytes) ?h) (after_more avail (malloc_units nbytes))"
    using search_ring [OF ini(1) mu(1), of avail] by (auto simp: malloc_def Let_def)
  have mc: "morecore avail (malloc_units nbytes) ?h = Some r" "after_more avail (malloc_units nbytes) r = Some r"
    if "sbrk avail (more_units nbytes * 8) ?h = r'" "r' = Inl e \<and> r = Inl e \<or> r' = Inr (-1, ?h) \<and> r = Inr (0, ?h)" for r r' e
    using that unfolding morecore_def more_units_def [symmetric] by (auto simp: Let_def after_more_def)
  have sz: "brk ?h + more_units nbytes * 8 = sz" using assms(4) ini(2) by simp
  show "malloc avail base nbytes h = Some (Inl (Panic ''kalloc''))" if "\<not> whole_pages sz"
  proof -
    have "sbrk avail (more_units nbytes * 8) ?h = Inl (Panic ''kalloc'')" using that unfolding sbrk_def Let_def sz by simp
    from mc [OF this] show ?thesis using m by simp
  qed
  show "malloc avail base nbytes h = Some (Inr (0, ?h))" if "whole_pages sz" "\<not> avail ?h (more_units nbytes * 8)"
  proof -
    have "sbrk avail (more_units nbytes * 8) ?h = Inr (-1, ?h)" using that unfolding sbrk_def Let_def sz by simp
    from mc [OF this, of undefined "Inr (0, ?h)"] show ?thesis using m by simp
  qed
  show "malloc avail base nbytes h = Some (Inl Diverges)" if "whole_pages sz" "avail ?h (more_units nbytes * 8)" "sz < brk h"
  proof -
    have "sbrk avail (more_units nbytes * 8) ?h = Inl Diverges" using that ini(2) unfolding sbrk_def Let_def sz by simp
    from mc [OF this] show ?thesis using m by simp
  qed
qed

lemma malloc_init_heap:
  assumes "heap base h ns"
  shows "heap base (malloc_init base h) ns"
  using malloc_init_arena [OF assms] arena_freep [of "malloc_init base h" ns] assms by (simp add: heap_def)

text \<open>For the largest requests the rounding wraps, and the block is the header alone.\<close>

lemma malloc_units_wraps:
  assumes "4294967289 \<le> nbytes"
  shows "malloc_units nbytes = 1"
proof -
  have "4294967289 \<le> unat nbytes" using assms by (simp add: word_le_nat_alt)
  then have "unat (nbytes + 7) < 8" using unat_lt_2p32 [of nbytes] by (simp add: unat_word_ariths(1) le_mod_geq)
  then have "unat ((nbytes + 7) div 8) = 0" by (simp add: unat_div)
  then show ?thesis by (simp add: malloc_units_def unat_eq_zero add.commute)
qed

section \<open>Properties\<close>

text \<open>
  \<^bold>\<open>C12.\<close> \<^verbatim>\<open>malloc\<close> searches the free blocks without looping, for every request of at most
  \<^verbatim>\<open>0xFFFFFFF0\<close> bytes. If one of them is large enough, or the kernel grants more memory, the result
  is a block outside the free ones with room for the request behind its header, taken from the
  free memory and from what \<^verbatim>\<open>sbrk\<close> added, and no other memory changes. Otherwise the new size
  that \<^verbatim>\<open>morecore\<close> asks for decides: the kernel panics if it is not a positive number of whole
  pages; the result is null and the free memory stays as it is if the kernel has no such
  block; and nothing is defined if the new size has wrapped around to less than the old one.
\<close>

theorem malloc_correct:
  assumes "heap base h ns" and "nbytes \<le> 4294967280" and "sz = brk h + more_units nbytes * 8"
    and "has = avail (malloc_init base h) (more_units nbytes * 8)"
  shows "if (\<exists>d \<in> set ns. malloc_units nbytes \<le> snd d) \<or> whole_pages sz \<and> has \<and> brk h \<le> sz
    then \<exists>x h' ns'. malloc avail base nbytes h = Some (Inr (fst x + 8, h')) \<and> allocated base nbytes h ns x h' ns'
    else if \<not> whole_pages sz then malloc avail base nbytes h = Some (Inl (Panic ''kalloc''))
    else if \<not> has then \<exists>h'. malloc avail base nbytes h = Some (Inr (0, h')) \<and> heap base h' ns
    else malloc avail base nbytes h = Some (Inl Diverges)"
proof (cases "finds avail (malloc_units nbytes) (malloc_init base h) ns")
  case True
  note f = finds_fits [OF malloc_init_arena(1) [OF assms(1)] True malloc_units_enough(1) [OF assms(2)]]
  show ?thesis using malloc_found [OF assms(1,2) True] f by simp
next
  case False
  then have no: "\<forall>d \<in> set ns. snd d < malloc_units nbytes"
    using search_ring [OF malloc_init_arena(1) [OF assms(1)] malloc_units_enough(1) [OF assms(2)], of avail] by blast
  then have nf: "\<not> (\<exists>d \<in> set ns. malloc_units nbytes \<le> snd d)" by (simp add: not_le)
  have gr: "grants avail (more_units nbytes * 8) (malloc_init base h) \<longleftrightarrow> whole_pages sz \<and> has \<and> brk h \<le> sz"
    using malloc_init_arena(2) [OF assms(1)] assms(3,4) by (simp add: grants_def)
  note refused = malloc_refused [where avail = avail, OF assms(1,2) no assms(3), folded assms(4)]
  show ?thesis
  proof (cases "whole_pages sz \<and> has \<and> brk h \<le> sz")
    case True
    then show ?thesis using malloc_grown [OF assms(1,2) no] gr by auto
  next
    case False
    then show ?thesis using nf refused malloc_init_heap [OF assms(1)] by (auto simp: not_le)
  qed
qed

theorem malloc_correct_witness:
  "let h = \<lparr>umem = \<lambda>_. 0, freep = 0, brk = 8192\<rparr>
   in (\<exists>x h' ns'. malloc (\<lambda>_ _. True) 4096 100 h = Some (Inr (fst x + 8, h')) \<and> allocated 4096 100 h [(4096, 0)] x h' ns')
     \<and> malloc (\<lambda>_ _. True) 4096 40000 h = Some (Inl (Panic ''kalloc''))"
proof -
  let ?h = "\<lparr>umem = \<lambda>_. 0, freep = 0, brk = 8192\<rparr>"
  have h: "heap 4096 ?h [(4096, 0)]" by (simp add: heap_def below_def)
  have u: "more_units 100 = 4096" "more_units 40000 = 5001" "malloc_units 40000 = 5001"
    by (simp_all add: more_units_def malloc_units_def PAGE_def)
  have "whole_pages 40960" "\<not> whole_pages 48200" by (simp_all add: whole_pages_def sint_u32)
  then show ?thesis
    using malloc_correct [OF h, of 100 40960 True "\<lambda>_ _. True"] malloc_correct [OF h, of 40000 48200 True "\<lambda>_ _. True"] u
    by (simp add: Let_def)
qed

text \<open>
  \<^bold>\<open>C13.\<close> \<^verbatim>\<open>free\<close> returns, and adds exactly the block to the free memory: the list stays sorted, joined where
  blocks touch, and only free memory, the block itself and the header \<^verbatim>\<open>base\<close> are written.
\<close>

theorem free_correct:
  assumes "heap base h ns" and "freep h \<noteq> 0" and "outside x ns" and "hsize (umem h) (fst x) = snd x" and "block_end x \<le> unat (brk h)"
  shows "\<exists>h' ns'. free (fst x + 8) h = Some h' \<and> heap base h' ns' \<and> free_units ns' = free_units ns \<union> extent x
    \<and> brk h' = brk h \<and> (\<forall>a. unat a \<in> owned ns \<union> extent x \<or> umem h' a = umem h a)"
proof -
  have ar: "arena h ns" "fst (hd ns) = base" "base \<noteq> 0" "below (brk h) ns" using assms(1,2) by (simp_all add: heap_def)
  then obtain h' ns' where f: "free (fst x + 8) h = Some h'" "arena h' ns'" "free_units ns' = free_units ns \<union> extent x"
      "fst (hd ns') = base" "brk h' = brk h" "\<forall>a. unat a \<in> owned ns \<union> extent x \<or> umem h' a = umem h a"
    using free_arena [OF ar(1) assms(3,4)] by auto
  have "ns \<noteq> []" using ar(1) by (auto simp: arena_def wf_blocks_def)
  then have "unat base + 8 \<le> unat (brk h)" using ar by (auto simp: below_def)
  moreover have "free_units ns' \<subseteq> {..<unat (brk h')}"
    using ar(4) assms(5) f(3,5) by (fastforce simp: below_def free_units_def extent_def)
  ultimately have "below (brk h') ns'" using f by (intro below_units) (auto simp: arena_def)
  then have "heap base h' ns'" using f(2,4) ar(3) arena_freep [OF f(2)] by (simp add: heap_def)
  then show ?thesis using f by blast
qed

theorem free_correct_witness:
  "let m = set_hsize 8192 2 (set_hsize 4096 0 (set_hptr 4096 4096 (\<lambda>_. 0))); h = \<lparr>umem = m, freep = 4096, brk = 12288\<rparr>
   in \<exists>h' ns'. free 8200 h = Some h' \<and> heap 4096 h' ns' \<and> free_units ns' = free_units [(4096, 0)] \<union> extent (8192, 2)
     \<and> brk h' = 12288 \<and> (\<forall>a. unat a \<in> owned [(4096, 0)] \<union> extent (8192, 2) \<or> umem h' a = m a)"
proof -
  let ?m = "set_hsize 8192 2 (set_hsize 4096 0 (set_hptr 4096 4096 (\<lambda>_. 0)))" let ?h = "\<lparr>umem = ?m, freep = 4096, brk = 12288\<rparr>"
  have fa: "hdr_fits 4096" "hdr_fits 8192" "hdr_apart 8192 4096" by (simp_all add: hdr_fits_def hdr_apart_def)
  have "heap 4096 ?h [(4096, 0)]"
    using fa by (simp add: heap_def below_def arena_def wf_blocks_def in_memory_def hdr_simps)
  moreover have "outside (8192, 2) [(4096, 0)]" by (simp add: outside_def in_memory_def free_units_def extent_def)
  ultimately show ?thesis using free_correct [of 4096 ?h "[(4096, 0)]" "(8192, 2)"] by (simp add: Let_def hdr_simps)
qed

end
