(* ===== verification/Frame.thy ===== *)
theory Frame
  imports Fs_Inode Fs_Dir
begin

text \<open>
  What the file system leaves alone, whatever it does and whatever state it starts in: apart
  from waking up processes it changes nothing of the process table, and nothing of the parts of
  the kernel state that are added on top of it; \<open>g\<close> selects the parts that the devices keep as
  well. Every routine that returns has this frame, so
  the system calls can rely on it without assumptions about the disk.
\<close>

section \<open>What holds if a routine returns\<close>

definition ensures :: "('b \<Rightarrow> bool) \<Rightarrow> 'b res \<Rightarrow> bool" where
  "ensures Q r \<longleftrightarrow> (case r of Inl _ \<Rightarrow> True | Inr x \<Rightarrow> Q x)"

lemma ensures_simps [simp]: "ensures Q (Inl e)" "ensures Q (Inr x) \<longleftrightarrow> Q x"
  by (simp_all add: ensures_def)

lemma ensuresD: "ensures Q r \<Longrightarrow> r = Inr x \<Longrightarrow> Q x"
  by simp

lemma ensures_bind: "ensures P r \<Longrightarrow> (\<And>x. P x \<Longrightarrow> ensures Q (f x)) \<Longrightarrow> ensures Q (rbind r f)"
  by (cases r) simp_all

lemma ensures_weaken: "ensures P r \<Longrightarrow> (\<And>x. P x \<Longrightarrow> Q x) \<Longrightarrow> ensures Q r"
  by (cases r) simp_all

lemma ensures_if: "(b \<Longrightarrow> ensures Q r) \<Longrightarrow> (\<not> b \<Longrightarrow> ensures Q r') \<Longrightarrow> ensures Q (if b then r else r')"
  by simp

section \<open>The frame\<close>

definition frame :: "('a \<Rightarrow> 'c) \<Rightarrow> 'a fs_scheme \<Rightarrow> 'a fs_scheme \<Rightarrow> bool" where
  "frame g s s' \<longleftrightarrow> length (procs s') = length (procs s) \<and> nextpid s' = nextpid s \<and> initproc s' = initproc s
     \<and> (\<forall>j < length (procs s). woken (proc_at j s) (proc_at j s')) \<and> g (fs.more s') = g (fs.more s)
     \<and> length (inodes s') = length (inodes s)"

abbreviation kept :: "('a \<Rightarrow> 'c) \<Rightarrow> 'a fs_scheme \<Rightarrow> 'a fs_scheme res \<Rightarrow> bool" where
  "kept g s r \<equiv> ensures (frame g s) r"

abbreviation kept2 :: "('a \<Rightarrow> 'c) \<Rightarrow> 'a fs_scheme \<Rightarrow> ('x \<times> 'a fs_scheme) res \<Rightarrow> bool" where
  "kept2 g s r \<equiv> ensures (\<lambda>(x, s'). frame g s s') r"

named_theorems frames \<open>routines that keep the rest of the kernel\<close>

lemma frame_refl [simp]: "frame g s s"
  by (simp add: frame_def)

lemma frame_trans [trans]: "frame g s s' \<Longrightarrow> frame g s' s'' \<Longrightarrow> frame g s s''"
  by (auto simp: frame_def intro: woken_trans)

lemma frame_rest: "rest s s' \<Longrightarrow> frame g s s'"
  using rest_fs [of s s'] by (auto simp: frame_def rest_def)

lemma frame_upd [frames]:
  "frame g s0 s \<Longrightarrow> frame g s0 (upd_inode i f s)" "frame g s0 s \<Longrightarrow> frame g s0 (wakeup ch s)"
  "frame g s0 s \<Longrightarrow> frame g s0 (upd_buf j h s)" "frame g s0 s \<Longrightarrow> frame g s0 (set_data j d s)"
  "frame g s0 s \<Longrightarrow> frame g s0 (s\<lparr>ide_queue := q\<rparr>)" "frame g s0 s \<Longrightarrow> frame g s0 (s\<lparr>disk := dd\<rparr>)"
  "frame g s0 s \<Longrightarrow> frame g s0 (s\<lparr>lru := l\<rparr>)"
  by (erule frame_trans, simp add: frame_def upd_inode_def proc_at_def,
      erule frame_trans, rule frame_rest [OF rest_wakeup],
      (erule frame_trans, simp add: frame_def set_data_def upd_buf_def proc_at_def)+)

lemma kept_bind [frames]: "kept g s0 r \<Longrightarrow> (\<And>s. frame g s0 s \<Longrightarrow> ensures Q (f s)) \<Longrightarrow> ensures Q (rbind r f)"
  by (rule ensures_bind)

lemma kept2_bind [frames]:
  "kept2 g s0 r \<Longrightarrow> (\<And>x s. frame g s0 s \<Longrightarrow> ensures Q (f (x, s))) \<Longrightarrow> ensures Q (rbind r f)"
  by (rule ensures_bind [of "\<lambda>(x, s). frame g s0 s"]) auto

lemma split_frame [frames]: "frame g s0 (snd p) \<Longrightarrow> (case p of (x, s) \<Rightarrow> frame g s0 s)"
  by (cases p) simp

subsection \<open>Driver and buffer cache\<close>

lemma ready_bind: "(\<And>x. ensures Q (f x)) \<Longrightarrow> ensures Q (rbind (ide_wait_ready b s) f)"
  by (rule ensures_bind [of "\<lambda>_. True"]) (simp_all add: ide_wait_ready_def Let_def)

lemma kept_start [frames]: "frame g s0 s \<Longrightarrow> kept g s0 (ide_start_request b s)"
  by (auto simp: ide_start_request_def Let_def split: option.splits prod.splits intro!: ready_bind frames)

lemma kept_intr [frames]: "frame g s0 s \<Longrightarrow> kept g s0 (ide_intr s)"
  by (auto simp: ide_intr_def Let_def split: list.splits prod.splits
      intro!: ready_bind frames)

lemma kept_wait [frames]: "frame g s0 s \<Longrightarrow> kept g s0 (ide_wait n i s)"
  by (induction n arbitrary: s) (auto intro!: frames)

lemma kept_rw [frames]: "frame g s0 s \<Longrightarrow> kept g s0 (ide_rw i s)"
  by (auto simp: ide_rw_def Let_def intro!: frames)

lemma kept_bget [frames]: "frame g s0 s \<Longrightarrow> kept2 g s0 (bget dev sec s)"
  by (auto simp: bget_def split: option.splits intro!: frames)

lemma kept_bread [frames]: "frame g s0 s \<Longrightarrow> kept2 g s0 (bread dev sec s)"
  by (auto simp: bread_def intro!: frames)

lemma kept_bwrite [frames]: "frame g s0 s \<Longrightarrow> kept g s0 (bwrite i s)"
  by (auto simp: bwrite_def intro!: frames)

lemma kept_brelse [frames]: "frame g s0 s \<Longrightarrow> kept g s0 (brelse i s)"
  by (auto simp: brelse_def Let_def intro!: frames)

subsection \<open>Blocks\<close>

lemma kept_readsb [frames]: "frame g s0 s \<Longrightarrow> kept2 g s0 (readsb dev s)"
  by (auto simp: readsb_def Let_def intro!: frames)

lemma kept_bzero [frames]: "frame g s0 s \<Longrightarrow> kept g s0 (bzero dev b s)"
  by (auto simp: bzero_def Let_def intro!: frames)

lemma kept_balloc_loop [frames]: "frame g s0 s \<Longrightarrow> kept2 g s0 (balloc_loop bs dev sb s)"
  by (induction bs arbitrary: s) (auto simp: Let_def split: option.splits intro!: frames)

lemma kept_balloc [frames]: "frame g s0 s \<Longrightarrow> kept2 g s0 (balloc dev s)"
  by (auto simp: balloc_def intro!: frames)

lemma kept_bfree [frames]: "frame g s0 s \<Longrightarrow> kept g s0 (bfree dev b s)"
  by (auto simp: bfree_def Let_def intro!: frames)

subsection \<open>Inodes\<close>

lemma kept_iget [frames]: "frame g s0 s \<Longrightarrow> kept2 g s0 (iget dev inum s)"
  by (auto simp: iget_def split: option.splits intro!: frames)

lemma kept_idup [frames]: "frame g s0 s \<Longrightarrow> frame g s0 (idup i s)"
  by (auto simp: idup_def intro!: frames)

lemma kept_ilock [frames]: "frame g s0 s \<Longrightarrow> kept g s0 (ilock i s)"
  by (auto simp: ilock_def Let_def split: option.splits intro!: frames)

lemma kept_iunlock [frames]: "frame g s0 s \<Longrightarrow> kept g s0 (iunlock i s)"
  by (auto simp: iunlock_def Let_def split: option.splits intro!: frames)

lemma kept_iupdate [frames]: "frame g s0 s \<Longrightarrow> kept g s0 (iupdate i s)"
  by (auto simp: iupdate_def Let_def intro!: frames)

lemma kept_itrunc_direct [frames]: "frame g s0 s \<Longrightarrow> kept g s0 (itrunc_direct ks i s)"
  by (induction ks arbitrary: s) (auto intro!: frames)

lemma kept_itrunc_indirect [frames]: "frame g s0 s \<Longrightarrow> kept g s0 (itrunc_indirect js dev bp s)"
  by (induction js arbitrary: s) (auto simp: Let_def intro!: frames)

lemma kept_itrunc [frames]: "frame g s0 s \<Longrightarrow> kept g s0 (itrunc i s)"
  by (auto simp: itrunc_def Let_def intro!: frames)

lemma kept_iput [frames]: "frame g s0 s \<Longrightarrow> kept g s0 (iput i s)"
  by (auto simp: iput_def Let_def intro!: frames)

lemma kept_iunlockput [frames]: "frame g s0 s \<Longrightarrow> kept g s0 (iunlockput i s)"
  by (auto simp: iunlockput_def intro!: frames)

lemma kept_ialloc_loop [frames]: "frame g s0 s \<Longrightarrow> kept2 g s0 (ialloc_loop ns dev ty s)"
  by (induction ns arbitrary: s) (auto simp: Let_def intro!: frames)

lemma kept_ialloc [frames]: "frame g s0 s \<Longrightarrow> kept2 g s0 (ialloc dev ty s)"
  by (auto simp: ialloc_def intro!: frames)

subsection \<open>Contents, directories and paths\<close>

text \<open>Device routines are parameters; the ones that keep the frame are what the file system relies on.\<close>

definition dsw_kept :: "('a \<Rightarrow> 'c) \<Rightarrow> (u16 \<Rightarrow> 'a fs_scheme devsw) \<Rightarrow> bool" where
  "dsw_kept g dsw \<longleftrightarrow>
     (\<forall>m f i n s. dev_read (dsw m) = Some f \<longrightarrow> ensures (\<lambda>(r, bs, s'). frame g s s') (f i n s)) \<and>
     (\<forall>m f i bs s. dev_write (dsw m) = Some f \<longrightarrow> kept2 g s (f i bs s))"

lemma kept_bmap [frames]: "frame g s0 s \<Longrightarrow> kept2 g s0 (bmap i bn alloc s)"
  by (auto simp: bmap_def Let_def split: option.splits intro!: frames)

lemma kept_readi_loop [frames]: "frame g s0 s \<Longrightarrow> kept2 g s0 (readi_loop left i off s)"
proof (induction left i off s rule: readi_loop.induct)
  case (1 left i off s)
  show ?case
    by (subst readi_loop.simps) (auto simp: Let_def intro!: frames 1)
qed

lemma kept_writei_loop [frames]: "frame g s0 s \<Longrightarrow> kept2 g s0 (writei_loop left i src off s)"
proof (induction left i src off s rule: writei_loop.induct)
  case (1 left i src off s)
  show ?case
    by (subst writei_loop.simps) (auto simp: Let_def intro!: frames 1)
qed

lemma kept_readi:
  assumes "dsw_kept g dsw" and "frame g s0 s"
  shows "ensures (\<lambda>(r, bs, s'). frame g s0 s') (readi dsw i off n s)"
proof (cases "i_type (inode_at i s) = T_DEV \<and> \<not> bad_major (i_major (inode_at i s))")
  case True
  have "ensures (\<lambda>(r, bs, s'). frame g s s') (f i n s)" if "dev_read (dsw m) = Some f" for m f
    using assms(1) that by (auto simp: dsw_kept_def)
  then have "ensures (\<lambda>(r, bs, s'). frame g s0 s') (f i n s)" if "dev_read (dsw m) = Some f" for m f
    by (rule ensures_weaken) (use that in \<open>auto intro: frame_trans [OF assms(2)]\<close>)
  then show ?thesis using True assms(2) by (auto simp: readi_def Let_def split: option.splits)
next
  case False
  then show ?thesis using assms(2) by (auto simp: readi_def Let_def intro!: frames)
qed

lemma kept_writei:
  assumes "dsw_kept g dsw" and "frame g s0 s"
  shows "kept2 g s0 (writei dsw i src off s)"
proof (cases "i_type (inode_at i s) = T_DEV \<and> \<not> bad_major (i_major (inode_at i s))")
  case True
  have "kept2 g s (f i src s)" if "dev_write (dsw m) = Some f" for m f
    using assms(1) that by (auto simp: dsw_kept_def)
  then have "kept2 g s0 (f i src s)" if "dev_write (dsw m) = Some f" for m f
    by (rule ensures_weaken) (use that in \<open>auto intro: frame_trans [OF assms(2)]\<close>)
  then show ?thesis using True assms(2) by (auto simp: writei_def Let_def split: option.splits)
next
  case False
  then show ?thesis using assms(2) by (auto simp: writei_def Let_def intro!: frames)
qed

lemma readi_bind [frames]:
  assumes "dsw_kept g dsw" and "frame g s0 s" and "\<And>r bs s'. frame g s0 s' \<Longrightarrow> ensures Q (f (r, bs, s'))"
  shows "ensures Q (rbind (readi dsw i off n s) f)"
  using kept_readi [OF assms(1,2)] by (rule ensures_bind) (use assms(3) in auto)

lemma writei_bind [frames]:
  assumes "dsw_kept g dsw" and "frame g s0 s" and "\<And>r s'. frame g s0 s' \<Longrightarrow> ensures Q (f (r, s'))"
  shows "ensures Q (rbind (writei dsw i src off s) f)"
  using kept_writei [OF assms(1,2)] by (rule ensures_bind) (use assms(3) in auto)

lemma kept_dirlookup_loop [frames]: "frame g s0 s \<Longrightarrow> kept2 g s0 (dirlookup_loop offs dp name s)"
  by (induction offs arbitrary: s) (auto simp: Let_def split: option.splits intro!: frames)

lemma kept_dirlookup [frames]: "frame g s0 s \<Longrightarrow> kept2 g s0 (dirlookup dp name s)"
  by (auto simp: dirlookup_def intro!: frames)

lemma kept_dirlink_scan: "dsw_kept g dsw \<Longrightarrow> frame g s0 s \<Longrightarrow> kept2 g s0 (dirlink_scan k off dsw dp s)"
  by (induction k arbitrary: off s) (auto intro!: readi_bind)

lemma kept_dirlink [frames]:
  assumes "dsw_kept g dsw" and "frame g s0 s" shows "kept2 g s0 (dirlink dsw dp name ino s)"
  using assms(2) unfolding dirlink_def
  by (auto split: option.splits intro!: kept2_bind [OF kept_dirlookup] kept2_bind [OF kept_dirlink_scan [OF assms(1)]]
      kept_bind [OF kept_iput] writei_bind [OF assms(1)])

lemma kept_namei_loop [frames]: "frame g s0 s \<Longrightarrow> kept2 g s0 (namei_loop path parent ip s)"
proof (induction "length path" arbitrary: path parent ip s rule: less_induct)
  case less
  show ?case
  proof (cases "skipelem path")
    case None
    then show ?thesis using less(2) by (subst namei_loop.simps) (auto intro!: frames)
  next
    case (Some np)
    obtain name p where np: "np = (name, p)" by (cases np)
    note rec = less(1) [OF skipelem_shorter [OF Some [unfolded np]]]
    show ?thesis
      using less(2) Some by (subst namei_loop.simps) (auto simp: np split: option.splits intro!: rec frames)
  qed
qed

lemma kept_namei0 [frames]: "frame g s0 s \<Longrightarrow> kept2 g s0 (namei0 cp path parent s)"
  by (auto simp: namei0_def Let_def intro!: frames)

lemma kept_namei [frames]: "frame g s0 s \<Longrightarrow> kept2 g s0 (namei cp path s)"
  by (auto simp: namei_def intro!: frames)

lemma kept_nameiparent [frames]: "frame g s0 s \<Longrightarrow> kept2 g s0 (nameiparent cp path s)"
  by (auto simp: nameiparent_def intro!: frames)

end
