(* ===== verification/Kbd.thy ===== *)
theory Kbd
  imports Xv6_Prelude
begin

text \<open>
  The keyboard driver (\<^verbatim>\<open>kbd.c\<close>, \<^verbatim>\<open>kbd.h\<close>): from the scan codes of the controller to
  characters, with the state of the shift keys and locks.
\<close>

section \<open>Tables\<close>

definition SHIFT :: u32 where "SHIFT = 1"
definition CTL :: u32 where "CTL = 2"
definition CAPSLOCK :: u32 where "CAPSLOCK = 8"
definition E0ESC :: u32 where "E0ESC = 64"
definition KBS_DIB :: u8 where "KBS_DIB = 1"

text \<open>An initialised array of 256 bytes: its first entries, and entries with designated indices.\<close>

definition table :: "u8 list \<Rightarrow> (nat \<times> u8) list \<Rightarrow> u8 list" where
  "table xs des = fold (\<lambda>(i, v) t. t[i := v]) des (xs @ replicate (256 - length xs) 0)"

definition shiftcode :: "u8 list" where
  "shiftcode = table
    []
    [(0x1D, 2), (0x2A, 1), (0x36, 1), (0x38, 4), (0x9D, 2), (0xB8, 4)]"

definition togglecode :: "u8 list" where
  "togglecode = table
    []
    [(0x3A, 8), (0x45, 16), (0x46, 32)]"

definition normalmap :: "u8 list" where
  "normalmap = table
    [0, 27, 49, 50, 51, 52, 53, 54, 55, 56, 57, 48, 45, 61, 8, 9,
     113, 119, 101, 114, 116, 121, 117, 105, 111, 112, 91, 93, 10, 0, 97, 115,
     100, 102, 103, 104, 106, 107, 108, 59, 39, 96, 0, 92, 122, 120, 99, 118,
     98, 110, 109, 44, 46, 47, 0, 42, 0, 32, 0, 0, 0, 0, 0, 0,
     0, 0, 0, 0, 0, 0, 0, 55, 56, 57, 45, 52, 53, 54, 43, 49,
     50, 51, 48, 46, 0, 0, 0, 0]
    [(0x9C, 10), (0xB5, 47), (0xC8, 226), (0xD0, 227), (0xC9, 230), (0xD1, 231), (0xCB, 228), (0xCD, 229),
     (0x97, 224), (0xCF, 225), (0xD2, 232), (0xD3, 233)]"

definition shiftmap :: "u8 list" where
  "shiftmap = table
    [0, 27, 33, 64, 35, 36, 37, 94, 38, 42, 40, 41, 95, 43, 8, 9,
     81, 87, 69, 82, 84, 89, 85, 73, 79, 80, 123, 125, 10, 0, 65, 83,
     68, 70, 71, 72, 74, 75, 76, 58, 34, 126, 0, 124, 90, 88, 67, 86,
     66, 78, 77, 60, 62, 63, 0, 42, 0, 32, 0, 0, 0, 0, 0, 0,
     0, 0, 0, 0, 0, 0, 0, 55, 56, 57, 45, 52, 53, 54, 43, 49,
     50, 51, 48, 46, 0, 0, 0, 0]
    [(0x9C, 10), (0xB5, 47), (0xC8, 226), (0xD0, 227), (0xC9, 230), (0xD1, 231), (0xCB, 228), (0xCD, 229),
     (0x97, 224), (0xCF, 225), (0xD2, 232), (0xD3, 233)]"

definition ctlmap :: "u8 list" where
  "ctlmap = table
    [0, 0, 0, 0, 0, 0, 0, 0, 0, 0, 0, 0, 0, 0, 0, 0,
     17, 23, 5, 18, 20, 25, 21, 9, 15, 16, 0, 0, 13, 0, 1, 19,
     4, 6, 7, 8, 10, 11, 12, 0, 0, 0, 0, 28, 26, 24, 3, 22,
     2, 14, 13, 0, 0, 239, 0, 0]
    [(0x9C, 13), (0xB5, 239), (0xC8, 226), (0xD0, 227), (0xC9, 230), (0xD1, 231), (0xCB, 228), (0xCD, 229),
     (0x97, 224), (0xCF, 225), (0xD2, 232), (0xD3, 233)]"

section \<open>Reading a key\<close>

text \<open>
  The status and data bytes the controller delivers, and the static \<^verbatim>\<open>shift\<close>. The result is
  -1 without a key, 0 for one without a character.
\<close>

definition charcode :: "u32 \<Rightarrow> u8 list" where
  "charcode i = (if i = 0 then normalmap else if i = 1 then shiftmap else ctlmap)"

definition swap_case :: "u32 \<Rightarrow> u32" where
  "swap_case c = (if 97 \<le> c \<and> c \<le> 122 then c + (65 - 97) else if 65 \<le> c \<and> c \<le> 90 then c + (97 - 65) else c)"

definition kbd_press :: "u32 \<Rightarrow> u32 \<Rightarrow> u32 \<times> u32" where
  "kbd_press dat shift =
     (let shift1 = shift OR ucast (shiftcode ! unat dat);
          shift2 = shift1 XOR ucast (togglecode ! unat dat);
          c = ucast (charcode (shift2 AND (CTL OR SHIFT)) ! unat dat)
      in (if shift2 AND CAPSLOCK \<noteq> 0 then swap_case c else c, shift2))"

definition kbd_getc :: "u8 \<Rightarrow> u8 \<Rightarrow> u32 \<Rightarrow> u32 \<times> u32" where
  "kbd_getc st d shift =
     (if st AND KBS_DIB = 0 then (-1, shift)
      else let dat = ucast d in
        if dat = 0xE0 then (0, shift OR E0ESC)
        else if dat AND 0x80 \<noteq> 0 then
          (let dat1 = (if shift AND E0ESC \<noteq> 0 then dat else dat AND 0x7F)
           in (0, shift AND NOT (ucast (shiftcode ! unat dat1) OR E0ESC)))
        else if shift AND E0ESC \<noteq> 0 then kbd_press (dat OR 0x80) (shift AND NOT E0ESC)
        else kbd_press dat shift)"

text \<open>The characters \<^verbatim>\<open>kbd_intr\<close> hands to the console: keys until the controller has no more.\<close>

primrec kbd_chars :: "(u8 \<times> u8) list \<Rightarrow> u32 \<Rightarrow> u32 list \<times> u32" where
  "kbd_chars [] shift = ([], shift)"
| "kbd_chars (p # ps) shift =
     (case kbd_getc (fst p) (snd p) shift of (c, shift1) \<Rightarrow>
      if sint c < 0 then ([], shift1)
      else case kbd_chars ps shift1 of (cs, shift2) \<Rightarrow> (c # cs, shift2))"

section \<open>Keys as a user sees them\<close>

text \<open>
  A key is a number below 256, the keys from 128 on being those whose scan codes follow the prefix
  \<^verbatim>\<open>0xE0\<close>. The keyboard sends the code when the key goes down, and the code with the top bit
  set when it goes up; no key has the code \<^verbatim>\<open>0x60\<close>, which would then look like the prefix.
\<close>

datatype key_event = Down nat | Up nat

primrec key_of :: "key_event \<Rightarrow> nat" where
  "key_of (Down k) = k"
| "key_of (Up k) = k"

definition key_ok :: "key_event \<Rightarrow> bool" where
  "key_ok e \<longleftrightarrow> key_of e < 256 \<and> key_of e mod 128 \<noteq> 0x60"

definition scan :: "key_event \<Rightarrow> u8 list" where
  "scan e = (if key_of e < 128 then [] else [0xE0])
     @ [of_nat (key_of e mod 128) OR (case e of Down _ \<Rightarrow> 0 | Up _ \<Rightarrow> 0x80)]"

text \<open>The controller has a byte for each of these, and then none.\<close>

definition keyboard :: "key_event list \<Rightarrow> (u8 \<times> u8) list" where
  "keyboard es = map (Pair 1) (concat (map scan es))"

text \<open>Whether a key of a group is held, as far as its last event says, and how often a key was pressed.\<close>

definition held :: "nat set \<Rightarrow> key_event list \<Rightarrow> bool" where
  "held ks es = foldl (\<lambda>b e. case e of Down k \<Rightarrow> b \<or> k \<in> ks | Up k \<Rightarrow> b \<and> k \<notin> ks) False es"

definition presses :: "nat \<Rightarrow> key_event list \<Rightarrow> nat" where
  "presses k es = length (filter (\<lambda>e. e = Down k) es)"

definition shift_keys :: "nat set" where "shift_keys = {0x2A, 0x36}"
definition ctl_keys :: "nat set" where "ctl_keys = {0x1D, 0x9D}"
definition caps_key :: nat where "caps_key = 0x3A"

text \<open>The letters of an American keyboard, by the key.\<close>

definition letter_keys :: "(nat \<times> char) list" where
  "letter_keys = zip [16..<26] ''qwertyuiop'' @ zip [30..<39] ''asdfghjkl'' @ zip [44..<51] ''zxcvbnm''"

text \<open>
  The character of the key \<open>k\<close> after the events \<open>es\<close>: the modifiers choose the map and the lock
  the case. A key that goes up has none, and the prefix counts as one of its own.
\<close>

definition key_char :: "key_event list \<Rightarrow> nat \<Rightarrow> u32" where
  "key_char es k =
     (let es1 = es @ [Down k];
          t = (if held ctl_keys es1 then ctlmap else if held shift_keys es1 then shiftmap else normalmap);
          c = ucast (t ! k)
      in if odd (presses caps_key es1) then swap_case c else c)"

primrec typed :: "key_event list \<Rightarrow> key_event list \<Rightarrow> u32 list" where
  "typed es [] = []"
| "typed es (e # fs) =
     (if key_of e < 128 then [] else [0])
     @ [case e of Down k \<Rightarrow> key_char es k | Up _ \<Rightarrow> 0] @ typed (es @ [e]) fs"

text \<open>The character a letter key means: a control character, a capital or a small letter.\<close>

definition letter_code :: "bool \<Rightarrow> bool \<Rightarrow> bool \<Rightarrow> char \<Rightarrow> u32" where
  "letter_code sh ctl caps l =
     (let c = of_char l in if ctl then c - 96 else if sh \<noteq> caps then c - 32 else c)"

section \<open>Properties\<close>

lemma table_lengths: "length shiftcode = 256" "length togglecode = 256" "length (charcode i) = 256"
  by (simp_all add: shiftcode_def togglecode_def charcode_def normalmap_def shiftmap_def ctlmap_def table_def)

lemma unat_byte: "unat (ucast (d :: u8) :: u32) = unat d" "unat (d :: u8) < 256"
proof -
  show u: "unat d < 256" using unsigned_less [of d] by simp
  then show "unat (ucast d :: u32) = unat d" by (simp add: unsigned_ucast_eq take_bit_eq_mod)
qed

text \<open>The tables of the modifier keys, and the rows of letters.\<close>

lemma shiftcode_nth:
  "k < 256 \<Longrightarrow> shiftcode ! k = (if k \<in> ctl_keys then 2 else if k \<in> shift_keys then 1 else if k = 0x38 \<or> k = 0xB8 then 4 else 0)"
  by (auto simp: shiftcode_def table_def nth_list_update ctl_keys_def shift_keys_def)

lemma togglecode_nth: "k < 256 \<Longrightarrow> togglecode ! k = (if k = caps_key then 8 else if k = 0x45 then 16 else if k = 0x46 then 32 else 0)"
  by (auto simp: togglecode_def table_def nth_list_update caps_key_def)

lemma key_bits:
  assumes "k < 256"
  shows "bit (shiftcode ! k) 0 \<longleftrightarrow> k \<in> shift_keys" "bit (shiftcode ! k) 1 \<longleftrightarrow> k \<in> ctl_keys"
    "\<not> bit (shiftcode ! k) 3" "\<not> bit (shiftcode ! k) 6"
    "\<not> bit (togglecode ! k) 0" "\<not> bit (togglecode ! k) 1" "bit (togglecode ! k) 3 \<longleftrightarrow> k = caps_key" "\<not> bit (togglecode ! k) 6"
  using assms by (auto simp: shiftcode_nth togglecode_nth ctl_keys_def shift_keys_def caps_key_def)

lemma letter_rows:
  assumes "(k, l) \<in> set letter_keys"
  shows "normalmap ! k = of_char l" "shiftmap ! k = of_char l - 32" "ctlmap ! k = of_char l - 96"
    "97 \<le> (of_char l :: u8)" "(of_char l :: u8) \<le> 122" "k < 128" "k \<notin> ctl_keys" "k \<notin> shift_keys" "k \<noteq> caps_key" "k \<noteq> 0x60"
proof -
  have "list_all (\<lambda>(k, l). normalmap ! k = of_char l \<and> shiftmap ! k = of_char l - 32 \<and> ctlmap ! k = of_char l - 96
      \<and> 97 \<le> (of_char l :: u8) \<and> (of_char l :: u8) \<le> 122 \<and> k < 128 \<and> k \<notin> ctl_keys \<and> k \<notin> shift_keys \<and> k \<noteq> caps_key \<and> k \<noteq> 0x60) letter_keys"
    by code_simp
  with assms show "normalmap ! k = of_char l" "shiftmap ! k = of_char l - 32" "ctlmap ! k = of_char l - 96"
    "97 \<le> (of_char l :: u8)" "(of_char l :: u8) \<le> 122" "k < 128" "k \<notin> ctl_keys" "k \<notin> shift_keys" "k \<noteq> caps_key" "k \<noteq> 0x60"
    by (auto simp: list_all_iff)
qed

text \<open>The bits of \<^verbatim>\<open>shift\<close> that say what was typed: bits 0, 1 and 3, and bit 6 for a prefix.\<close>

definition says :: "key_event list \<Rightarrow> u32 \<Rightarrow> bool" where
  "says es sh \<longleftrightarrow> (bit sh 0 \<longleftrightarrow> held shift_keys es) \<and> (bit sh 1 \<longleftrightarrow> held ctl_keys es)
     \<and> (bit sh 3 \<longleftrightarrow> odd (presses caps_key es)) \<and> \<not> bit sh 6"

lemma held_snoc:
  "held ks (es @ [Down k]) \<longleftrightarrow> held ks es \<or> k \<in> ks" "held ks (es @ [Up k]) \<longleftrightarrow> held ks es \<and> k \<notin> ks"
  by (simp_all add: held_def)

lemma presses_snoc: "presses j (es @ [e]) = presses j es + (if e = Down j then 1 else 0)"
  by (simp add: presses_def)

lemma scan_bytes:
  assumes "c < 128"
  shows "unat (ucast (of_nat c :: u8) :: u32) = c" "(ucast (of_nat c :: u8) :: u32) AND 0x80 = 0" "(ucast (of_nat c :: u8) :: u32) \<noteq> 0xE0"
    "unat ((ucast (of_nat c :: u8) :: u32) OR 0x80) = c + 128" "(ucast (of_nat c OR 0x80 :: u8) :: u32) AND 0x80 \<noteq> 0"
    "c = 0x60 \<or> (ucast (of_nat c OR 0x80 :: u8) :: u32) \<noteq> 0xE0" "unat ((ucast (of_nat c OR 0x80 :: u8) :: u32) AND 0x7F) = c"
    "unat (ucast (of_nat c OR 0x80 :: u8) :: u32) = c + 128"
proof -
  have "list_all (\<lambda>c. unat (ucast (of_nat c :: u8) :: u32) = c \<and> (ucast (of_nat c :: u8) :: u32) AND 0x80 = 0
      \<and> (ucast (of_nat c :: u8) :: u32) \<noteq> 0xE0 \<and> unat ((ucast (of_nat c :: u8) :: u32) OR 0x80) = c + 128
      \<and> (ucast (of_nat c OR 0x80 :: u8) :: u32) AND 0x80 \<noteq> 0 \<and> (c = 0x60 \<or> (ucast (of_nat c OR 0x80 :: u8) :: u32) \<noteq> 0xE0)
      \<and> unat ((ucast (of_nat c OR 0x80 :: u8) :: u32) AND 0x7F) = c \<and> unat (ucast (of_nat c OR 0x80 :: u8) :: u32) = c + 128) [0..<128]"
    by code_simp
  with assms show "unat (ucast (of_nat c :: u8) :: u32) = c" "(ucast (of_nat c :: u8) :: u32) AND 0x80 = 0" "(ucast (of_nat c :: u8) :: u32) \<noteq> 0xE0"
    "unat ((ucast (of_nat c :: u8) :: u32) OR 0x80) = c + 128" "(ucast (of_nat c OR 0x80 :: u8) :: u32) AND 0x80 \<noteq> 0"
    "c = 0x60 \<or> (ucast (of_nat c OR 0x80 :: u8) :: u32) \<noteq> 0xE0" "unat ((ucast (of_nat c OR 0x80 :: u8) :: u32) AND 0x7F) = c"
    "unat (ucast (of_nat c OR 0x80 :: u8) :: u32) = c + 128"
    by (simp_all add: list_all_iff)
qed

lemma and_exp_word: "(a :: u32) AND 2 ^ n \<noteq> 0 \<longleftrightarrow> bit a n"
  by (simp add: and_exp_eq_0_iff_not_bit)

lemma exp_bit_word: "m < 32 \<Longrightarrow> bit (2 ^ m :: u32) n \<longleftrightarrow> n = m"
  by (auto simp: bit_exp_iff)

lemma E0ESC_bit: "bit E0ESC n \<longleftrightarrow> n = 6" "sh AND E0ESC \<noteq> 0 \<longleftrightarrow> bit sh 6" "sh AND CAPSLOCK \<noteq> 0 \<longleftrightarrow> bit sh 3"
  using exp_bit_word [of 6 n] and_exp_word [of sh 6] and_exp_word [of sh 3] by (simp_all add: E0ESC_def CAPSLOCK_def)

lemma charcode_index:
  "charcode (sh AND (CTL OR SHIFT)) = (if bit sh 1 then ctlmap else if bit sh 0 then shiftmap else normalmap)"
proof -
  have m: "CTL OR SHIFT = mask 2" by (simp add: CTL_def SHIFT_def mask_eq_exp_minus_1)
  have b: "bit (sh AND mask 2) n \<longleftrightarrow> bit sh n \<and> (n = 0 \<or> n = 1)" for n
    using less_2_cases_iff [of n] by (auto simp: bit_and_iff bit_mask_iff)
  have e: "sh AND mask 2 = (if bit sh 0 then 1 else 0)" if "\<not> bit sh 1"
  proof (rule bit_word_eqI)
    fix n show "bit (sh AND mask 2) n \<longleftrightarrow> bit (if bit sh 0 then 1 else 0 :: u32) n"
      unfolding b using that by (cases "n = 0") (auto simp: bit_1_iff)
  qed
  have n: "sh AND mask 2 \<noteq> y" if "bit sh 1" "\<not> bit y 1" for y using that b [of 1] by blast
  have "\<not> bit (0 :: u32) 1" "\<not> bit (1 :: u32) 1" by (simp_all add: bit_1_iff)
  then show ?thesis using e n [of 0] n [of 1] unfolding charcode_def m by (cases "bit sh 1") simp_all
qed

text \<open>A key goes down: the modifiers it changes, and the character of a letter.\<close>

lemma kbd_press_bits:
  assumes "unat dat = k" and "k < 256" and "says es sh"
  shows "says (es @ [Down k]) (snd (kbd_press dat sh))"
proof -
  have s: "snd (kbd_press dat sh) = (sh OR ucast (shiftcode ! k)) XOR ucast (togglecode ! k)" using assms(1) by (simp add: kbd_press_def Let_def)
  have c: "bit (ucast (shiftcode ! k) :: u32) n \<longleftrightarrow> bit (shiftcode ! k) n" "bit (ucast (togglecode ! k) :: u32) n \<longleftrightarrow> bit (togglecode ! k) n"
    if "n < 8" for n using that by (simp_all add: bit_simps)
  note t = key_bits [OF assms(2)]
  show ?thesis using assms(3) t unfolding says_def s
    by (auto simp: bit_or_iff bit_xor_iff c held_snoc presses_snoc)
qed

lemma kbd_press_char:
  assumes "unat dat = k" and "k < 256" and "says es sh"
  shows "fst (kbd_press dat sh) = key_char es k"
proof -
  let ?s = "snd (kbd_press dat sh)"
  have "fst (kbd_press dat sh) = (let c = ucast (charcode (?s AND (CTL OR SHIFT)) ! k) in if ?s AND CAPSLOCK \<noteq> 0 then swap_case c else c)"
    using assms(1) by (simp add: kbd_press_def Let_def)
  then show ?thesis
    using kbd_press_bits [OF assms] unfolding charcode_index E0ESC_bit by (simp add: says_def key_char_def Let_def)
qed

lemma swap_case_byte: "c < 256 \<Longrightarrow> swap_case c < 256"
  by (auto simp: swap_case_def word_less_nat_alt word_le_nat_alt unat_add_u32 unat_sub_u32)

lemma key_char_byte: "\<not> sint (key_char es k) < 0"
proof -
  have "(ucast (x :: u8) :: u32) < 256" for x using unat_byte [of x] by (simp add: word_less_nat_alt)
  then have "key_char es k < 256" by (simp add: key_char_def Let_def swap_case_byte)
  then show ?thesis by (simp add: word_less_nat_alt sint_u32)
qed

text \<open>One event, through its one or two bytes.\<close>

lemma prefix_step: "kbd_getc 1 0xE0 sh = (0, sh OR E0ESC)"
  by (simp add: kbd_getc_def KBS_DIB_def)

lemma down_step:
  assumes "key_ok (Down k)" and "says es sh"
  shows "kbd_getc 1 (of_nat (k mod 128)) (if k < 128 then sh else sh OR E0ESC) = (key_char es k, sh')
    \<Longrightarrow> says (es @ [Down k]) sh'"
    and "fst (kbd_getc 1 (of_nat (k mod 128)) (if k < 128 then sh else sh OR E0ESC)) = key_char es k"
proof -
  let ?c = "k mod 128" let ?b = "ucast (of_nat (k mod 128) :: u8) :: u32"
  have k: "k < 256" "?c < 128" using assms(1) by (simp_all add: key_ok_def)
  note sb = scan_bytes [OF k(2)]
  have e: "says es ((sh OR E0ESC) AND NOT E0ESC)" using assms(2) by (auto simp: says_def bit_or_iff bit_and_iff bit_not_iff E0ESC_bit)
  have n6: "\<not> bit sh 6" "bit (sh OR E0ESC) 6" using assms(2) by (auto simp: says_def bit_or_iff E0ESC_bit)
  have g: "kbd_getc 1 (of_nat ?c) (if k < 128 then sh else sh OR E0ESC)
      = (if k < 128 then kbd_press ?b sh else kbd_press (?b OR 0x80) ((sh OR E0ESC) AND NOT E0ESC))"
    using sb(2,3) n6 E0ESC_bit(2) [of sh] E0ESC_bit(2) [of "sh OR E0ESC"] by (simp add: kbd_getc_def Let_def KBS_DIB_def)
  have u: "k < 128 \<Longrightarrow> unat ?b = k" "\<not> k < 128 \<Longrightarrow> unat (?b OR 0x80) = k" using sb(1,4) k by (auto simp: mod_if)
  show "fst (kbd_getc 1 (of_nat ?c) (if k < 128 then sh else sh OR E0ESC)) = key_char es k"
    unfolding g using kbd_press_char [OF u(1) k(1) assms(2)] kbd_press_char [OF u(2) k(1) e] by simp
  show "says (es @ [Down k]) sh'" if "kbd_getc 1 (of_nat ?c) (if k < 128 then sh else sh OR E0ESC) = (key_char es k, sh')"
    using that kbd_press_bits [OF u(1) k(1) assms(2)] kbd_press_bits [OF u(2) k(1) e] unfolding g by (auto split: if_splits)
qed

lemma up_step:
  assumes "key_ok (Up k)" and "says es sh"
  shows "\<exists>sh'. kbd_getc 1 (of_nat (k mod 128) OR 0x80) (if k < 128 then sh else sh OR E0ESC) = (0, sh') \<and> says (es @ [Up k]) sh'"
proof -
  let ?c = "k mod 128" let ?b = "ucast (of_nat (k mod 128) OR 0x80 :: u8) :: u32" let ?s = "if k < 128 then sh else sh OR E0ESC"
  have k: "k < 256" "?c < 128" "?c \<noteq> 0x60" using assms(1) by (simp_all add: key_ok_def)
  note sb = scan_bytes [OF k(2)]
  have n6: "\<not> bit sh 6" "bit (sh OR E0ESC) 6" using assms(2) by (auto simp: says_def bit_or_iff E0ESC_bit)
  have "unat (if ?s AND E0ESC \<noteq> 0 then ?b else ?b AND 0x7F) = k"
    unfolding E0ESC_bit using sb(7,8) n6 k by (auto simp: mod_if)
  then have g: "kbd_getc 1 (of_nat ?c OR 0x80) ?s = (0, ?s AND NOT (ucast (shiftcode ! k) OR E0ESC))"
    using sb(5,6) k(3) by (simp add: kbd_getc_def Let_def KBS_DIB_def)
  have c: "bit (ucast (shiftcode ! k) :: u32) n \<longleftrightarrow> bit (shiftcode ! k) n" if "n < 8" for n using that by (simp add: bit_simps)
  have "says (es @ [Up k]) (?s AND NOT (ucast (shiftcode ! k) OR E0ESC))"
    using assms(2) key_bits [OF k(1)] unfolding says_def
    by (auto simp: bit_or_iff bit_and_iff bit_not_iff c held_snoc presses_snoc E0ESC_bit)
  with g show ?thesis by blast
qed

lemma kbd_event:
  assumes "key_ok e" and "says es sh"
  shows "\<exists>sh'. says (es @ [e]) sh' \<and> (\<forall>qs. fst (kbd_chars (map (Pair 1) (scan e) @ qs) sh)
    = (if key_of e < 128 then [] else [0]) @ [case e of Down k \<Rightarrow> key_char es k | Up _ \<Rightarrow> 0] @ fst (kbd_chars qs sh'))"
proof -
  let ?k = "key_of e" and ?c = "case e of Down k \<Rightarrow> key_char es k | Up _ \<Rightarrow> 0"
    and ?d = "of_nat (key_of e mod 128) OR (case e of Down _ \<Rightarrow> 0 | Up _ \<Rightarrow> 0x80) :: u8"
  obtain sh' where g: "kbd_getc 1 ?d (if ?k < 128 then sh else sh OR E0ESC) = (?c, sh')" and s: "says (es @ [e]) sh'"
  proof (cases e)
    case (Down k)
    then show ?thesis using that down_step [of k es sh] assms
      by (cases "kbd_getc 1 (of_nat (k mod 128)) (if k < 128 then sh else sh OR E0ESC)") auto
  next
    case (Up k)
    then show ?thesis using that up_step [of k es sh] assms by auto
  qed
  have "\<not> sint ?c < 0" by (cases e) (simp_all add: key_char_byte)
  then have "fst (kbd_chars (map (Pair 1) (scan e) @ qs) sh) = (if ?k < 128 then [] else [0]) @ [?c] @ fst (kbd_chars qs sh')" for qs
    using g by (cases "?k < 128") (simp_all add: scan_def prefix_step split: prod.splits)
  with s show ?thesis by blast
qed

lemma kbd_events:
  assumes "\<forall>e \<in> set fs. key_ok e" and "says es sh"
  shows "\<exists>sh'. says (es @ fs) sh' \<and> (\<forall>qs. fst (kbd_chars (keyboard fs @ qs) sh) = typed es fs @ fst (kbd_chars qs sh'))"
  using assms
proof (induction fs arbitrary: es sh)
  case Nil
  then show ?case by (intro exI [of _ sh]) (simp add: keyboard_def)
next
  case (Cons e fs)
  obtain s1 where s1: "says (es @ [e]) s1" "\<forall>qs. fst (kbd_chars (map (Pair 1) (scan e) @ qs) sh)
      = (if key_of e < 128 then [] else [0]) @ [case e of Down k \<Rightarrow> key_char es k | Up _ \<Rightarrow> 0] @ fst (kbd_chars qs s1)"
    using kbd_event [of e es sh] Cons.prems by auto
  obtain s2 where s2: "says ((es @ [e]) @ fs) s2"
      "\<forall>qs. fst (kbd_chars (keyboard fs @ qs) s1) = typed (es @ [e]) fs @ fst (kbd_chars qs s2)"
    using Cons.IH [OF _ s1(1)] Cons.prems(1) by auto
  have "keyboard (e # fs) @ qs = map (Pair 1) (scan e) @ keyboard fs @ qs" for qs by (simp add: keyboard_def)
  then have "fst (kbd_chars (keyboard (e # fs) @ qs) sh) = typed es (e # fs) @ fst (kbd_chars qs s2)" for qs
    using s1(2) s2(2) by simp
  then show ?case using s2(1) by auto
qed

text \<open>Letters are not modifiers, and the lock changes their case only without the control key.\<close>

lemma letter_cases:
  assumes "(k, l) \<in> set letter_keys"
  shows "swap_case (ucast (of_char l :: u8)) = of_char l - 32" "ucast (of_char l :: u8) = (of_char l :: u32)"
    "ucast (of_char l - 32 :: u8) = (of_char l - 32 :: u32)" "swap_case (of_char l - 32) = of_char l"
    "ucast (of_char l - 96 :: u8) = (of_char l - 96 :: u32)" "swap_case (of_char l - 96) = of_char l - 96"
proof -
  have "list_all (\<lambda>(k, l). swap_case (ucast (of_char l :: u8)) = of_char l - 32 \<and> ucast (of_char l :: u8) = (of_char l :: u32)
      \<and> ucast (of_char l - 32 :: u8) = (of_char l - 32 :: u32) \<and> swap_case (of_char l - 32) = of_char l
      \<and> ucast (of_char l - 96 :: u8) = (of_char l - 96 :: u32) \<and> swap_case (of_char l - 96) = of_char l - 96) letter_keys"
    by code_simp
  with assms show "swap_case (ucast (of_char l :: u8)) = of_char l - 32" "ucast (of_char l :: u8) = (of_char l :: u32)"
    "ucast (of_char l - 32 :: u8) = (of_char l - 32 :: u32)" "swap_case (of_char l - 32) = of_char l"
    "ucast (of_char l - 96 :: u8) = (of_char l - 96 :: u32)" "swap_case (of_char l - 96) = of_char l - 96"
    by (auto simp: list_all_iff)
qed

lemma key_char_letter:
  assumes "(k, l) \<in> set letter_keys"
  shows "key_char es k = letter_code (held shift_keys es) (held ctl_keys es) (odd (presses caps_key es)) l"
  using letter_rows [OF assms] letter_cases [OF assms]
  by (simp add: key_char_def letter_code_def Let_def held_snoc presses_snoc)

text \<open>
  \<^bold>\<open>C38.\<close> The keyboard driver delivers what is typed. For every sequence of keys going down and up,
  plain and extended, the characters handed to the console until the controller has no more data
  are those of the keys: each is looked up in the map that the modifiers held at that moment
  choose, whatever was pressed and released before. In particular a letter key gives the control
  character while a control key is held, and otherwise the letter, as a capital if exactly one of
  the shift keys and the lock, pressed an odd number of times, is on.
\<close>

theorem kbd_delivers_keys:
  assumes "\<forall>e \<in> set es. key_ok e" and "st AND KBS_DIB = 0"
  shows "fst (kbd_chars (keyboard es @ (st, d) # ps) 0) = typed [] es
    \<and> (\<forall>(k, l) \<in> set letter_keys. fst (kbd_chars (keyboard (es @ [Down k]) @ (st, d) # ps) 0)
          = typed [] es @ [letter_code (held shift_keys es) (held ctl_keys es) (odd (presses caps_key es)) l])"
proof -
  have z: "says [] 0" by (simp add: says_def held_def presses_def)
  have stops: "fst (kbd_chars ((st, d) # ps) sh) = []" for sh using assms(2) by (simp add: kbd_getc_def)
  obtain s1 where s1: "says es s1" "\<forall>qs. fst (kbd_chars (keyboard es @ qs) 0) = typed [] es @ fst (kbd_chars qs s1)"
    using kbd_events [OF assms(1) z] by auto
  have "fst (kbd_chars (keyboard (es @ [Down k]) @ (st, d) # ps) 0)
      = typed [] es @ [letter_code (held shift_keys es) (held ctl_keys es) (odd (presses caps_key es)) l]"
    if kl: "(k, l) \<in> set letter_keys" for k l
  proof -
    have k: "k < 128" "key_ok (Down k)" using letter_rows(6,10) [OF kl] by (simp_all add: key_ok_def)
    obtain s2 where "\<forall>qs. fst (kbd_chars (map (Pair 1) (scan (Down k)) @ qs) s1) = [key_char es k] @ fst (kbd_chars qs s2)"
      using kbd_event [OF k(2) s1(1)] k(1) by auto
    moreover have "keyboard (es @ [Down k]) @ qs = keyboard es @ map (Pair 1) (scan (Down k)) @ qs" for qs by (simp add: keyboard_def)
    ultimately show ?thesis using s1(2) stops key_char_letter [OF kl] by simp
  qed
  then show ?thesis using s1(2) stops by auto
qed

theorem kbd_delivers_keys_witness:
  "fst (kbd_chars (keyboard [Down 0x2A, Down 30, Up 30, Up 0x2A, Down 0xC8, Up 0xC8, Down 30] @ [(0, 0)]) 0) = [0, 65, 0, 0, 0, 226, 0, 0, 97]"
proof -
  let ?es = "[Down 0x2A, Down 30, Up 30, Up 0x2A, Down 0xC8, Up 0xC8, Down 30]"
  have "\<forall>e \<in> set ?es. key_ok e" by (simp add: key_ok_def)
  moreover have "typed [] ?es = [0, 65, 0, 0, 0, 226, 0, 0, 97]" by code_simp
  ultimately show ?thesis using kbd_delivers_keys [of ?es 0 0 "[]"] by simp
qed

end
