(* ===== verification/Trap.thy ===== *)
theory Trap
  imports Sysfile Kbd
begin

text \<open>
  The way into the kernel (\<^verbatim>\<open>trap.c\<close>, the end of \<^verbatim>\<open>syscall.c\<close>): the console as a device, the
  table of system calls, and the handler of traps and interrupts. The acknowledgement of an
  interrupt at the local APIC changes nothing in the model and is left out.
\<close>

section \<open>The console device\<close>

definition CONSOLE :: u16 where "CONSOLE = 1"

text \<open>
  Both routines give up the inode's lock while they work. A reader that has to wait is blocked
  on the input buffer.
\<close>

definition console_dev_read :: "nat \<Rightarrow> nat \<Rightarrow> u32 \<Rightarrow> 'a sys_scheme \<Rightarrow> (u32 \<times> u8 list \<times> 'a sys_scheme) res" where
  "console_dev_read cp ip n s =
     rbind (iunlock (Some ip) s) (\<lambda>s1.
     case console_read (p_killed (proc_at cp s1)) n (cons s1) of (out, bs, k) \<Rightarrow>
     case out of
       ReadAsleep _ \<Rightarrow> Inl (Blocked ChanInput)
     | ReadKilled \<Rightarrow> rbind (ilock (Some ip) (s1\<lparr>cons := k\<rparr>)) (\<lambda>s2. Inr (-1, bs, s2))
     | ReadDone _ \<Rightarrow> rbind (ilock (Some ip) (s1\<lparr>cons := k\<rparr>)) (\<lambda>s2. Inr (of_nat (length bs), bs, s2)))"

text \<open>The length is an \<^verbatim>\<open>int\<close>: nothing is written if it is negative.\<close>

definition console_dev_write :: "nat \<Rightarrow> u8 list \<Rightarrow> 'a sys_scheme \<Rightarrow> (u32 \<times> 'a sys_scheme) res" where
  "console_dev_write ip buf s =
     (let n = of_nat (length buf) in
      rbind (iunlock (Some ip) s) (\<lambda>s1.
      rbind (console_write (take (nat (sint n)) buf) (cons s1)) (\<lambda>k.
      rbind (ilock (Some ip) (s1\<lparr>cons := k\<rparr>)) (\<lambda>s2. Inr (n, s2)))))"

definition dev_table :: "nat \<Rightarrow> u16 \<Rightarrow> 'a sys_scheme devsw" where
  "dev_table cp m =
     (if m = CONSOLE then \<lparr>dev_read = Some (console_dev_read cp), dev_write = Some console_dev_write\<rparr>
      else \<lparr>dev_read = None, dev_write = None\<rparr>)"

section \<open>System calls\<close>

text \<open>
  What the system calls take from the build and the machine: the address of \<^verbatim>\<open>forkret\<close>, that of
  the CPU's task state, and old contents of the kernel stack.
\<close>

record env =
  e_forkret :: addr
  e_ts :: addr
  e_junk :: "u8 list"

text \<open>The table, with no entry at 0; \<open>k\<close> is the iteration at which a write to a pipe goes on.\<close>

definition syscalls :: "env \<Rightarrow> nat \<Rightarrow> (nat \<Rightarrow> 'a sys_scheme \<Rightarrow> (sys_out \<times> 'a sys_scheme) res) option list" where
  "syscalls e k =
     [None, Some (sys_fork (e_forkret e)), Some sys_exit, Some sys_wait, Some sys_pipe,
      Some (\<lambda>cp. sys_write (dev_table cp) cp k), Some (\<lambda>cp. sys_read (dev_table cp) cp), Some sys_close, Some sys_kill,
      Some (\<lambda>cp. sys_exec (e_ts e) (e_junk e) (dev_table cp) cp), Some (\<lambda>cp. sys_open (dev_table cp) cp),
      Some (\<lambda>cp. sys_mknod (dev_table cp) cp), Some (\<lambda>cp. sys_unlink (dev_table cp) cp), Some sys_fstat,
      Some (\<lambda>cp. sys_link (dev_table cp) cp), Some (\<lambda>cp. sys_mkdir (dev_table cp) cp), Some sys_chdir, Some sys_dup,
      Some sys_getpid, Some (sys_sbrk (e_ts e)), Some sys_sleep]"

definition set_eax :: "nat \<Rightarrow> u32 \<Rightarrow> 'a sys_scheme \<Rightarrow> 'a sys_scheme" where
  "set_eax cp v = upd_proc cp (\<lambda>p. p\<lparr>p_tf := (p_tf p)\<lparr>tf_eax := v\<rparr>\<rparr>)"

definition k_printf :: "string \<Rightarrow> fmt_arg list \<Rightarrow> 'a sys_scheme \<Rightarrow> 'a sys_scheme res" where
  "k_printf fmt args s = rbind (cprintf (map of_char fmt @ [10]) args (cons s)) (\<lambda>k. Inr (s\<lparr>cons := k\<rparr>))"

definition name_arg :: "proc \<Rightarrow> fmt_arg" where
  "name_arg p = ArgStr (takeWhile (\<lambda>c. c \<noteq> 0) (p_name p))"

definition syscall :: "env \<Rightarrow> nat \<Rightarrow> nat \<Rightarrow> 'a sys_scheme \<Rightarrow> (sys_out \<times> 'a sys_scheme) res" where
  "syscall e k cp s =
     (let num = tf_eax (p_tf (proc_at cp s)); n = nat (sint num); tab = syscalls e k in
      case (if 0 \<le> sint num \<and> n < length tab then tab ! n else None) of
        Some f \<Rightarrow> rbind (f cp s) (\<lambda>(out, s1).
          Inr (out, case out of SysRet v \<Rightarrow> set_eax cp v s1 | _ \<Rightarrow> s1))
      | None \<Rightarrow>
          rbind (k_printf ''%d %s: unknown sys call %d''
                   [ArgWord (p_pid (proc_at cp s)), name_arg (proc_at cp s), ArgWord num] s) (\<lambda>s1.
          Inr (SysRet (-1), set_eax cp (-1) s1)))"

section \<open>Traps\<close>

text \<open>How a trap ends: back in the interrupted code, in \<^verbatim>\<open>yield\<close>, asleep in a system call, or with the process gone.\<close>

datatype trap_out = TrapReturns | TrapYields | TrapSleeps nat | TrapExits

definition trap_exit :: "nat \<Rightarrow> 'a sys_scheme \<Rightarrow> (trap_out \<times> 'a sys_scheme) res" where
  "trap_exit cp s = rbind (proc_exit cp s) (\<lambda>s1. Inr (TrapExits, s1))"

definition trap_syscall :: "env \<Rightarrow> nat \<Rightarrow> nat \<Rightarrow> trapframe \<Rightarrow> 'a sys_scheme \<Rightarrow> (trap_out \<times> 'a sys_scheme) res" where
  "trap_syscall e k cp tf s =
     (if p_killed (proc_at cp s) then trap_exit cp s
      else rbind (syscall e k cp (upd_proc cp (\<lambda>p. p\<lparr>p_tf := tf\<rparr>) s)) (\<lambda>(out, s1).
        case out of
          SysRet _ \<Rightarrow> if p_killed (proc_at cp s1) then trap_exit cp s1 else Inr (TrapReturns, s1)
        | SysSleep k' \<Rightarrow> Inr (TrapSleeps k', s1)
        | SysExit \<Rightarrow> Inr (TrapExits, s1)))"

definition timer_tick :: "nat \<Rightarrow> 'a sys_scheme \<Rightarrow> 'a sys_scheme" where
  "timer_tick c s = (if c = 0 then wakeup ChanTicks (s\<lparr>ticks := ticks s + 1\<rparr>) else s)"

text \<open>\<^verbatim>\<open>keys\<close> are the values read from the controller's status and data ports.\<close>

definition kbd_intr :: "(u8 \<times> u8) list \<Rightarrow> 'a sys_scheme \<Rightarrow> 'a sys_scheme res" where
  "kbd_intr keys s =
     (case kbd_chars keys (kbd_shift s) of (cs, shift) \<Rightarrow>
      rbind (console_intr (\<lambda>s1. procdump (memory s) (procs s1)) cs (cons s) s) (\<lambda>(k, s1).
      Inr (s1\<lparr>cons := k, kbd_shift := shift\<rparr>)))"

text \<open>The \<^verbatim>\<open>switch\<close> of \<^verbatim>\<open>trap\<close>, on CPU \<open>c\<close> with the current process \<open>cpo\<close>.\<close>

definition trap_switch :: "nat \<Rightarrow> (u8 \<times> u8) list \<Rightarrow> nat option \<Rightarrow> trapframe \<Rightarrow> 'a sys_scheme \<Rightarrow> 'a sys_scheme res" where
  "trap_switch c keys cpo tf s =
     (if tf_trapno tf = IRQ_OFFSET + IRQ_TIMER then Inr (timer_tick c s)
      else if tf_trapno tf = IRQ_OFFSET + IRQ_IDE then ide_intr s
      else if tf_trapno tf = IRQ_OFFSET + IRQ_KBD then kbd_intr keys s
      else if tf_trapno tf = IRQ_OFFSET + IRQ_SPURIOUS then
        k_printf ''cpu%d: spurious interrupt at %x:%x'' [ArgWord (of_nat c), ArgWord (ucast (tf_cs tf)), ArgWord (tf_eip tf)] s
      else case (if tf_cs tf AND 3 = 0 then None else cpo) of
        None \<Rightarrow>
          rbind (k_printf ''unexpected trap %d from cpu %d eip %x''
            [ArgWord (tf_trapno tf), ArgWord (of_nat c), ArgWord (tf_eip tf)] s) (\<lambda>_. Inl (Panic ''trap''))
      | Some cp \<Rightarrow>
          rbind (k_printf ''pid %d %s: trap %d err %d on cpu %d eip %x -- kill proc''
            [ArgWord (p_pid (proc_at cp s)), name_arg (proc_at cp s), ArgWord (tf_trapno tf), ArgWord (tf_err tf),
             ArgWord (of_nat c), ArgWord (tf_eip tf)] s) (\<lambda>s1. Inr (upd_proc cp (\<lambda>p. p\<lparr>p_killed := True\<rparr>) s1)))"

text \<open>
  \<^verbatim>\<open>trap\<close>. A system call is made by a process: there is no defined behaviour for one without.
\<close>

definition trap ::
    "env \<Rightarrow> nat \<Rightarrow> nat \<Rightarrow> (u8 \<times> u8) list \<Rightarrow> nat option \<Rightarrow> trapframe \<Rightarrow> 'a sys_scheme \<Rightarrow> (trap_out \<times> 'a sys_scheme) res" where
  "trap e k c keys cpo tf s =
     (if tf_trapno tf = of_nat T_SYSCALL then
        (case cpo of None \<Rightarrow> Inl Diverges | Some cp \<Rightarrow> trap_syscall e k cp tf s)
      else rbind (trap_switch c keys cpo tf s) (\<lambda>s1.
        case cpo of None \<Rightarrow> Inr (TrapReturns, s1) | Some cp \<Rightarrow>
        if p_killed (proc_at cp s1) \<and> tf_cs tf AND 3 = 3 then trap_exit cp s1
        else if p_state (proc_at cp s1) = RUNNING \<and> tf_trapno tf = IRQ_OFFSET + IRQ_TIMER then Inr (TrapYields, s1)
        else Inr (TrapReturns, s1)))"

end
