(* ===== verification/Fds.thy ===== *)
theory Fds
  imports Frame Trap
begin

text \<open>
  Open files are counted correctly: the reference count of every entry of the file table is the
  number of descriptors, over all processes, that name it. The invariant is stated with a
  correction \<open>E\<close>, the references that the running kernel code holds itself or has yet to give
  up, so that it holds between the steps of a system call as well.
\<close>

section \<open>The invariant\<close>

text \<open>What it depends on: the descriptors of the table with the entries that must have none, and the counts.\<close>

type_synonym slots = "(nat option list \<times> bool) list"

definition dead :: "proc_state \<Rightarrow> bool" where
  "dead st \<longleftrightarrow> st = UNUSED \<or> st = ZOMBIE"

definition fd_slots :: "'a ptable_scheme \<Rightarrow> slots" where
  "fd_slots s = map (\<lambda>p. (p_ofile p, dead (p_state p))) (procs s)"

definition fd_files :: "'a kern_scheme \<Rightarrow> (nat \<times> bool) list" where
  "fd_files s = map (\<lambda>f. (f_ref f, f_type f = FD_CLOSED)) (ftable s)"

definition fd_refs :: "slots \<Rightarrow> nat \<Rightarrow> int" where
  "fd_refs sl f = (\<Sum>p\<leftarrow>sl. int (count_list (fst p) (Some f)))"

definition slot_ok :: "nat option list \<times> bool \<Rightarrow> bool" where
  "slot_ok p \<longleftrightarrow> length (fst p) = NOFILE \<and> (\<forall>f. Some f \<in> set (fst p) \<longrightarrow> f < NFILE)
     \<and> (snd p \<longrightarrow> set (fst p) \<subseteq> {None})"

definition fds_ok :: "(nat \<Rightarrow> int) \<Rightarrow> slots \<Rightarrow> (nat \<times> bool) list \<Rightarrow> bool" where
  "fds_ok E sl fl \<longleftrightarrow> list_all slot_ok sl \<and> length fl = NFILE
     \<and> (\<forall>f < NFILE. int (fst (fl ! f)) = fd_refs sl f + E f \<and> (snd (fl ! f) \<longrightarrow> fst (fl ! f) = 0))"

definition fd_inv :: "(nat \<Rightarrow> int) \<Rightarrow> slots \<Rightarrow> 'a kern_scheme \<Rightarrow> bool" where
  "fd_inv E sl s \<longleftrightarrow> fd_slots s = sl \<and> fds_ok E sl (fd_files s)"

definition fd_ok :: "'a kern_scheme \<Rightarrow> bool" where
  "fd_ok s \<longleftrightarrow> fds_ok (\<lambda>_. 0) (fd_slots s) (fd_files s)"

definition alive :: "nat \<Rightarrow> slots \<Rightarrow> bool" where
  "alive p sl \<longleftrightarrow> p < length sl \<and> \<not> snd (sl ! p)"

lemma fd_okI: "fd_inv (\<lambda>_. 0) sl s \<Longrightarrow> fd_ok s"
  by (auto simp: fd_inv_def fd_ok_def)

lemma fd_okD: "fd_ok s \<Longrightarrow> fd_inv (\<lambda>_. 0) (fd_slots s) s"
  by (auto simp: fd_inv_def fd_ok_def)

section \<open>Steps that do not touch descriptors\<close>

named_theorems same_fds \<open>updates that leave descriptors and counts as they are\<close>

lemma fd_files_upds [same_fds]:
  "fd_files (s\<lparr>procs := ps\<rparr>) = fd_files s" "fd_files (s\<lparr>km := k\<rparr>) = fd_files s"
  "fd_files (s\<lparr>pipes := pp\<rparr>) = fd_files s" "fd_files (s\<lparr>nextpid := np\<rparr>) = fd_files s"
  "fd_files (upd_proc i h s) = fd_files s" "fd_files (set_mem m s) = fd_files s"
  "fd_files (wakeup1 ch1 s) = fd_files s" "fd_files (wakeup ch s) = fd_files s"
  by (simp_all add: fd_files_def upd_proc_def set_mem_def wakeup_def wakeup1_def)

lemma fd_sys_upds [same_fds]:
  "fd_files (s\<lparr>segs := sg\<rparr>) = fd_files s" "fd_files (s\<lparr>ticks := t\<rparr>) = fd_files s"
  "fd_files (s\<lparr>cons := k\<rparr>) = fd_files s" "fd_files (s\<lparr>kbd_shift := sh\<rparr>) = fd_files s"
  "fd_slots (s\<lparr>segs := sg\<rparr>) = fd_slots s" "fd_slots (s\<lparr>ticks := t\<rparr>) = fd_slots s"
  "fd_slots (s\<lparr>cons := k\<rparr>) = fd_slots s" "fd_slots (s\<lparr>kbd_shift := sh\<rparr>) = fd_slots s"
  by (simp_all add: fd_files_def fd_slots_def)

lemma fd_slots_upds [same_fds]:
  "fd_slots (s\<lparr>km := k\<rparr>) = fd_slots s" "fd_slots (s\<lparr>pipes := pp\<rparr>) = fd_slots s"
  "fd_slots (s\<lparr>ftable := ft\<rparr>) = fd_slots s" "fd_slots (upd_file i h s) = fd_slots s"
  "fd_slots (set_mem m s) = fd_slots s"
  by (simp_all add: fd_slots_def set_mem_def upd_file_def)

lemma fd_slots_wakeup [same_fds]: "fd_slots (wakeup1 ch1 s) = fd_slots s" "fd_slots (wakeup ch s) = fd_slots s"
  by (auto simp: fd_slots_def wakeup_def wakeup1_def dead_def)

lemma fd_slots_nextpid [same_fds]: "fd_slots (s\<lparr>nextpid := np\<rparr>) = fd_slots s"
  by (simp add: fd_slots_def)

lemma fd_slots_proc [same_fds]:
  "(\<And>p. p_ofile (h p) = p_ofile p \<and> dead (p_state (h p)) = dead (p_state p)) \<Longrightarrow> fd_slots (upd_proc i h s) = fd_slots s"
  by (cases "i < length (procs s)") (auto simp: fd_slots_def upd_proc_def nth_list_update intro!: nth_equalityI)

lemma fd_files_file [same_fds]:
  "(\<And>f. f_ref (h f) = f_ref f \<and> (f_type (h f) = FD_CLOSED \<longleftrightarrow> f_type f = FD_CLOSED)) \<Longrightarrow> fd_files (upd_file i h s) = fd_files s"
  by (cases "i < length (ftable s)") (auto simp: fd_files_def upd_file_def nth_list_update intro!: nth_equalityI)

lemma fd_inv_same: "fd_inv E sl s \<Longrightarrow> fd_slots s' = fd_slots s \<Longrightarrow> fd_files s' = fd_files s \<Longrightarrow> fd_inv E sl s'"
  by (simp add: fd_inv_def)

subsection \<open>The file system\<close>

text \<open>The part of the frame that is kept even by the console: the file table's counts.\<close>

definition counts :: "'a kern_scheme \<Rightarrow> 'a kern_ext \<Rightarrow> (nat \<times> bool) list" where
  "counts s0 m = fd_files (fs.more_update (\<lambda>_. m) s0)"

lemma counts_more [simp]: "counts s0 (fs.more s) = fd_files s"
  by (cases s, cases s0) (simp add: counts_def fd_files_def)

lemma frame_fds:
  assumes "frame (counts s0) s s'"
  shows "fd_slots s' = fd_slots s" "fd_files s' = fd_files s"
proof -
  have "p_ofile q = p_ofile p \<and> dead (p_state q) = dead (p_state p)" if "woken p q" for p q
    using that by (auto simp: woken_def dead_def)
  then show "fd_slots s' = fd_slots s"
    using assms by (auto simp: frame_def fd_slots_def proc_at_def intro!: nth_equalityI)
  show "fd_files s' = fd_files s" using assms by (simp add: frame_def)
qed

text \<open>A routine with the frame keeps the invariant.\<close>

lemma inv_bind:
  assumes "kept (counts s) s r" and "fd_inv E sl s" and "\<And>s'. fd_inv E sl s' \<Longrightarrow> ensures Q (f s')"
  shows "ensures Q (rbind r f)"
  using assms(1) by (rule ensures_bind) (rule assms(3) [OF fd_inv_same [OF assms(2) frame_fds]])

lemma inv_bind2:
  assumes "kept2 (counts s) s r" and "fd_inv E sl s" and "\<And>x s'. fd_inv E sl s' \<Longrightarrow> ensures Q (f (x, s'))"
  shows "ensures Q (rbind r f)"
  using assms(1) by (rule ensures_bind) (auto intro!: assms(3) fd_inv_same [OF assms(2)] frame_fds)

named_theorems fds \<open>the invariant through the routines of the kernel\<close>


lemmas inv_fs [fds] =
  inv_bind [OF kept_ilock [OF frame_refl]] inv_bind [OF kept_iunlock [OF frame_refl]]
  inv_bind [OF kept_iput [OF frame_refl]] inv_bind [OF kept_iunlockput [OF frame_refl]]
  inv_bind [OF kept_iupdate [OF frame_refl]]
  inv_bind2 [OF kept_namei [OF frame_refl]] inv_bind2 [OF kept_nameiparent [OF frame_refl]]
  inv_bind2 [OF kept_dirlookup [OF frame_refl]] inv_bind2 [OF kept_ialloc [OF frame_refl]]

lemma inv_upd [fds]:
  "fd_inv E sl s \<Longrightarrow> fd_inv E sl (upd_inode i h s)" "fd_inv E sl s \<Longrightarrow> fd_inv E sl (idup i s)"
  "fd_inv E sl s \<Longrightarrow> fd_inv E sl (set_mem m s)" "fd_inv E sl s \<Longrightarrow> fd_inv E sl (s\<lparr>pipes := pp\<rparr>)"
  "fd_inv E sl s \<Longrightarrow> fd_inv E sl (wakeup ch s)" "fd_inv E sl s \<Longrightarrow> fd_inv E sl (wakeup1 ch1 s)"
  "fd_inv E sl s \<Longrightarrow> fd_inv E sl (s\<lparr>km := k\<rparr>)"
  by (auto intro: fd_inv_same simp: same_fds)
    (auto simp: fd_inv_def fd_slots_def fd_files_def upd_inode_def idup_def)

section \<open>Steps on descriptors\<close>

lemma count_list_update:
  "i < length xs \<Longrightarrow> int (count_list (xs[i := y]) z) = int (count_list xs z) - of_bool (xs ! i = z) + of_bool (y = z)"
proof (induction xs arbitrary: i)
  case (Cons x xs)
  show ?case
  proof (cases i)
    case (Suc j)
    then show ?thesis using Cons.IH [of j] Cons.prems by simp
  qed simp
qed simp

lemma fd_refs_update:
  "p < length sl \<Longrightarrow>
    fd_refs (sl[p := x]) f = fd_refs sl f - int (count_list (fst (sl ! p)) (Some f)) + int (count_list (fst x) (Some f))"
  unfolding fd_refs_def by (induction sl arbitrary: p) (auto simp: nth_Cons split: nat.splits)

definition put_slot :: "nat \<Rightarrow> nat \<Rightarrow> nat option \<Rightarrow> slots \<Rightarrow> slots" where
  "put_slot p fd fo sl = sl[p := ((fst (sl ! p))[fd := fo], snd (sl ! p))]"

lemma slot_at:
  assumes "fd_inv E sl s" and "p < length sl"
  shows "p_ofile (proc_at p s) = fst (sl ! p)" "length (fst (sl ! p)) = NOFILE" "p < length (procs s)"
    "dead (p_state (proc_at p s)) = snd (sl ! p)"
    and "\<And>fd f. fd < NOFILE \<Longrightarrow> fst (sl ! p) ! fd = Some f \<Longrightarrow> f < NFILE"
proof -
  have ok: "slot_ok (sl ! p)" and len: "p < length (procs s)"
    using assms by (auto simp: fd_inv_def fds_ok_def list_all_length fd_slots_def)
  show "p_ofile (proc_at p s) = fst (sl ! p)" "length (fst (sl ! p)) = NOFILE" "p < length (procs s)"
    "dead (p_state (proc_at p s)) = snd (sl ! p)"
    using assms ok len by (auto simp: fd_inv_def slot_ok_def fd_slots_def proc_at_def)
  show "f < NFILE" if "fd < NOFILE" "fst (sl ! p) ! fd = Some f" for fd f
    using ok that unfolding slot_ok_def by (metis nth_mem)
qed

lemma put_slot_alive [simp]: "alive q (put_slot p fd fo sl) \<longleftrightarrow> alive q sl"
  by (cases "p < length sl") (auto simp: alive_def put_slot_def nth_list_update)

lemma put_slot_nth:
  "p < length sl \<Longrightarrow> fd < length (fst (sl ! p)) \<Longrightarrow> fst (put_slot p fd fo sl ! p) = (fst (sl ! p))[fd := fo]"
  by (simp add: put_slot_def)

lemma fds_ok_put:
  assumes "fds_ok E sl fl" and "alive p sl" and "fd < NOFILE" and "\<And>f. fo = Some f \<Longrightarrow> f < NFILE"
    and E': "\<And>f. E' f = E f + of_bool (fst (sl ! p) ! fd = Some f) - of_bool (fo = Some f)"
  shows "fds_ok E' (put_slot p fd fo sl) fl"
proof -
  have p: "p < length sl" "\<not> snd (sl ! p)" and ok: "slot_ok (sl ! p)"
    using assms(1,2) by (auto simp: alive_def fds_ok_def list_all_length)
  have "slot_ok ((fst (sl ! p))[fd := fo], snd (sl ! p))"
    using ok p(2) assms(4) set_update_subset_insert [of "fst (sl ! p)" fd fo] unfolding slot_ok_def by auto
  then have "list_all slot_ok (put_slot p fd fo sl)"
    using assms(1) p(1) by (auto simp: fds_ok_def put_slot_def list_all_length nth_list_update)
  moreover have "fd_refs (put_slot p fd fo sl) f + E' f = fd_refs sl f + E f" for f
    using p(1) ok assms(3) by (simp add: put_slot_def fd_refs_update E' count_list_update slot_ok_def)
  ultimately show ?thesis using assms(1) by (simp add: fds_ok_def)
qed

lemma fd_slots_set:
  assumes "p < length (procs s)"
  shows "fd_slots (upd_proc p (\<lambda>q. q\<lparr>p_ofile := (p_ofile q)[fd := fo]\<rparr>) s) = put_slot p fd fo (fd_slots s)"
  using assms by (simp add: fd_slots_def upd_proc_def put_slot_def map_update)

lemma set_fd_inv:
  assumes "fd_inv E sl s" and "alive p sl" and "fd < NOFILE" and "\<And>f. fo = Some f \<Longrightarrow> f < NFILE"
    and "\<And>f. E' f = E f + of_bool (fst (sl ! p) ! fd = Some f) - of_bool (fo = Some f)"
  shows "fd_inv E' (put_slot p fd fo sl) (upd_proc p (\<lambda>q. q\<lparr>p_ofile := (p_ofile q)[fd := fo]\<rparr>) s)"
proof -
  have "p < length (procs s)" using assms(2) slot_at(3) [OF assms(1)] by (simp add: alive_def)
  then show ?thesis
    using assms(1) fds_ok_put [OF _ assms(2-5)] by (auto simp: fd_inv_def fd_slots_set same_fds)
qed

subsection \<open>The file table\<close>

definition bump :: "nat \<Rightarrow> int \<Rightarrow> (nat \<Rightarrow> int) \<Rightarrow> nat \<Rightarrow> int" where
  "bump f d E g = E g + (if g = f then d else 0)"

lemma bump_simps [simp]:
  "bump f 1 (bump f (- 1) E) = E" "bump f (- 1) (bump f 1 E) = E" "bump f 0 E = E"
  "bump f (- 1) (bump g (- 1) (bump f 1 (bump g 1 E))) = E"
  by (auto simp: bump_def fun_eq_iff)

lemma count_inv:
  assumes "fd_inv E sl s" and "f < NFILE" and "int (f_ref (h (file_at f s))) = int (f_ref (file_at f s)) + d"
    and "f_type (h (file_at f s)) = FD_CLOSED \<Longrightarrow> f_ref (h (file_at f s)) = 0"
  shows "fd_inv (bump f d E) sl (upd_file f h s)"
proof -
  have "fd_files (upd_file f h s) = (fd_files s)[f := (f_ref (h (file_at f s)), f_type (h (file_at f s)) = FD_CLOSED)]"
    by (simp add: fd_files_def upd_file_def map_update file_at_def)
  moreover have "fd_files s ! f = (f_ref (file_at f s), f_type (file_at f s) = FD_CLOSED)"
    using assms(1,2) by (simp add: fd_inv_def fds_ok_def fd_files_def file_at_def)
  ultimately show ?thesis
    using assms by (auto simp: fd_inv_def fds_ok_def same_fds nth_list_update bump_def)
qed

lemma file_at_inv:
  assumes "fd_inv E sl s" and "f < NFILE"
  shows "f < length (ftable s)" "int (f_ref (file_at f s)) = fd_refs sl f + E f"
    "f_type (file_at f s) = FD_CLOSED \<Longrightarrow> f_ref (file_at f s) = 0"
  using assms by (auto simp: fd_inv_def fds_ok_def fd_files_def file_at_def)

lemma filealloc_inv:
  assumes "fd_inv E sl s" and "filealloc s = (fo, s')"
  shows "case fo of None \<Rightarrow> s' = s | Some f \<Rightarrow> f < NFILE \<and> fd_inv (bump f 1 E) sl s'"
proof (cases "first_idx (\<lambda>f. f_type f = FD_CLOSED) (ftable s)")
  case None then show ?thesis using assms(2) by (simp add: filealloc_def)
next
  case (Some f)
  then have f: "f < length (ftable s)" "f_type (file_at f s) = FD_CLOSED"
    by (auto simp: file_at_def dest: first_idx_SomeD)
  then have n: "f < NFILE" using assms(1) by (simp add: fd_inv_def fds_ok_def fd_files_def)
  then show ?thesis
    using assms Some file_at_inv(3) [OF assms(1) n f(2)] by (auto simp: filealloc_def simp del: One_nat_def split: option.splits intro!: count_inv)
qed

lemma filedup_inv:
  assumes "fd_inv E sl s" and "f < NFILE" and "\<And>s'. fd_inv (bump f 1 E) sl s' \<Longrightarrow> ensures Q (k s')"
  shows "ensures Q (rbind (filedup f s) k)"
  using assms by (auto simp: filedup_def intro!: count_inv assms(3))

lemma k_free_inv: "fd_inv E sl s \<Longrightarrow> ensures (fd_inv E sl) (k_free p n s)"
  by (cases "kfree (km s) p n") (auto simp: k_free_def intro: inv_upd)

lemma k_pipeclose_inv: "fd_inv E sl s \<Longrightarrow> ensures (fd_inv E sl) (k_pipeclose p w s)"
  by (auto simp: k_pipeclose_def pipeclose_def Let_def intro!: k_free_inv inv_upd)

lemma iput_inv: "fd_inv E sl s \<Longrightarrow> ensures (fd_inv E sl) (iput i s)"
  using kept_iput [OF frame_refl, of "counts s" s i]
  by (rule ensures_weaken) (rule fd_inv_same [OF _ frame_fds])

lemma fileclose_kept:
  assumes "fd_inv E sl s" and "f < NFILE"
  shows "ensures (fd_inv (bump f (- 1) E) sl) (fileclose f s)"
proof -
  let ?s1 = "upd_file f (\<lambda>x. x\<lparr>f_ref := f_ref x - 1\<rparr>) s"
  let ?s2 = "upd_file f (\<lambda>x. x\<lparr>f_ref := 0, f_type := FD_CLOSED\<rparr>) ?s1"
  have at: "file_at f ?s1 = (file_at f s)\<lparr>f_ref := f_ref (file_at f s) - 1\<rparr>"
    using file_at_inv(1) [OF assms] by (simp add: file_at_def upd_file_def)
  have two: "?s2 = upd_file f (\<lambda>x. x\<lparr>f_ref := 0, f_type := FD_CLOSED\<rparr>) s"
    using file_at_inv(1) [OF assms] by (simp add: upd_file_def)
  have "fd_inv (bump f (- 1) E) sl ?s1" if "f_ref (file_at f s) \<ge> 1" "f_type (file_at f s) \<noteq> FD_CLOSED"
    using that by (intro count_inv assms) auto
  moreover have "fd_inv (bump f (- 1) E) sl ?s2" if "f_ref (file_at f s) = 1"
    unfolding two using that by (intro count_inv assms) auto
  ultimately show ?thesis
    unfolding fileclose_def Let_def at by (auto intro!: ensures_if k_pipeclose_inv iput_inv)
qed

lemma fileclose_inv [fds]:
  assumes "fd_inv E sl s" and "f < NFILE" and "\<And>s'. fd_inv (bump f (- 1) E) sl s' \<Longrightarrow> ensures Q (k s')"
  shows "ensures Q (rbind (fileclose f s) k)"
  using fileclose_kept [OF assms(1,2)] by (rule ensures_bind) (rule assms(3))

lemma k_free_bind [fds]:
  assumes "fd_inv E sl s" and "\<And>s'. fd_inv E sl s' \<Longrightarrow> ensures Q (k s')"
  shows "ensures Q (rbind (k_free p n s) k)"
  using k_free_inv [OF assms(1)] by (rule ensures_bind) (rule assms(2))

lemma k_alloc_bind [fds]:
  assumes "fd_inv E sl s" and "\<And>p s'. fd_inv E sl s' \<Longrightarrow> ensures Q (k (p, s'))"
  shows "ensures Q (rbind (k_alloc n s) k)"
  using assms(1) by (cases "kalloc (km s) n") (auto simp: k_alloc_def intro!: assms(2) inv_upd)

subsection \<open>Descriptors of the running process\<close>

lemma argfd_inv:
  assumes "argfd p n s = Some (fd, f)" and "fd_inv E sl s" and "alive p sl"
  shows "fd < NOFILE" "fst (sl ! p) ! fd = Some f" "f < NFILE"
proof -
  have p: "p < length sl" using assms(3) by (simp add: alive_def)
  show fd: "fd < NOFILE" and f: "fst (sl ! p) ! fd = Some f"
    using assms(1) slot_at(1) [OF assms(2) p]
    by (auto simp: argfd_def nat_less_iff split: option.splits if_splits)
  show "f < NFILE" by (rule slot_at(5) [OF assms(2) p fd f])
qed

lemma fdalloc_inv:
  assumes "fdalloc p f s = (fdo, s')" and "fd_inv E sl s" and "alive p sl" and "f < NFILE"
  shows "case fdo of None \<Rightarrow> s' = s | Some fd \<Rightarrow>
    fd < NOFILE \<and> fd_inv (bump f (- 1) E) (put_slot p fd (Some f) sl) s' \<and> fst (sl ! p) ! fd = None"
proof (cases "first_idx (\<lambda>fd. p_ofile (proc_at p s) ! fd = None) [0..<NOFILE]")
  case None then show ?thesis using assms(1) by (simp add: fdalloc_def)
next
  case (Some fd)
  have p: "p < length sl" using assms(3) by (simp add: alive_def)
  have fd: "fd < NOFILE" "fst (sl ! p) ! fd = None"
    using first_idx_SomeD [OF Some] slot_at(1) [OF assms(2) p] by auto
  have "fd_inv (bump f (- 1) E) (put_slot p fd (Some f) sl) (set_fd p fd (Some f) s)"
    unfolding set_fd_def by (rule set_fd_inv [OF assms(2,3) fd(1)]) (use assms(4) fd(2) in \<open>auto simp: bump_def\<close>)
  then show ?thesis using Some assms(1) fd by (auto simp: fdalloc_def split: option.splits)
qed

section \<open>Devices\<close>

lemma dev_table_kept: "dsw_kept (counts s0) (dev_table cp :: u16 \<Rightarrow> 'a sys_scheme devsw)"
proof -
  have c: "frame (counts s0) s (s1\<lparr>cons := k\<rparr>)" if "frame (counts s0) s s1" for s s1 :: "'a sys_scheme" and k
    using that by (auto simp: frame_def proc_at_def same_fds)
  have "ensures (\<lambda>(r, bs, s'). frame (counts s0) s s') (console_dev_read cp i n s)" for i n and s :: "'a sys_scheme"
    by (auto simp: console_dev_read_def split: prod.splits read_out.splits intro!: frames c)
  moreover have "kept2 (counts s0) s (console_dev_write i bs s)" for i bs and s :: "'a sys_scheme"
    unfolding console_dev_write_def Let_def
    by (rule kept_bind [OF kept_iunlock [OF frame_refl, of "counts s0"]], rule ensures_bind [of "\<lambda>_. True"])
      (simp add: ensures_def split: sum.splits, auto intro!: frames c)
  ultimately show ?thesis by (auto simp: dsw_kept_def dev_table_def)
qed

lemmas inv_devs [fds] =
  inv_bind2 [OF kept_dirlink [OF dev_table_kept frame_refl]] inv_bind2 [OF kept_writei [OF dev_table_kept frame_refl]]

lemma readi_inv [fds]:
  assumes "fd_inv E sl s" and "\<And>r bs s'. fd_inv E sl s' \<Longrightarrow> ensures Q (f (r, bs, s'))"
  shows "ensures Q (rbind (readi (dev_table cp) i off n s) f)"
  by (rule readi_bind [OF dev_table_kept frame_refl]) (rule assms(2) [OF fd_inv_same [OF assms(1) frame_fds]])

section \<open>System calls\<close>

text \<open>How a system call ends: the counts are right and the process is still there.\<close>

definition done_ok :: "nat \<Rightarrow> 'a kern_scheme \<Rightarrow> bool" where
  "done_ok cp s \<longleftrightarrow> fd_ok s \<and> alive cp (fd_slots s)"

abbreviation fd_end :: "nat \<Rightarrow> ('x \<times> 'a kern_scheme) res \<Rightarrow> bool" where
  "fd_end cp r \<equiv> ensures (\<lambda>(out, s'). done_ok cp s') r"

lemma doneI [fds]: "fd_inv (\<lambda>_. 0) sl s \<Longrightarrow> alive cp sl \<Longrightarrow> done_ok cp s"
  by (auto simp: done_ok_def fd_inv_def fd_ok_def)

lemma fd_end_Inr [fds]: "fd_inv (\<lambda>_. 0) sl s \<Longrightarrow> alive cp sl \<Longrightarrow> fd_end cp (Inr (x, s))"
  by (simp add: doneI)

lemma inv2_bind:
  assumes "ensures (\<lambda>(x, s'). fd_inv E sl s') r" and "\<And>x s'. fd_inv E sl s' \<Longrightarrow> ensures Q (f (x, s'))"
  shows "ensures Q (rbind r f)"
  using assms(1) by (rule ensures_bind) (use assms(2) in auto)

lemma pipe_inv:
  "piperead p kl a n pi m s = (out, pi1, m1, s1) \<Longrightarrow> fd_inv E sl s \<Longrightarrow> fd_inv E sl s1"
  "pipewrite k p kl m a n pi s = (out, pi1, s1) \<Longrightarrow> fd_inv E sl s \<Longrightarrow> fd_inv E sl s1"
proof -
  show "piperead p kl a n pi m s = (out, pi1, m1, s1) \<Longrightarrow> fd_inv E sl s \<Longrightarrow> fd_inv E sl s1"
    by (auto simp: piperead_def split: if_splits prod.splits intro: inv_upd)
  have "pipewrite_loop j i p kl m a pi s = (out, pi1, s1) \<Longrightarrow> fd_inv E sl s \<Longrightarrow> fd_inv E sl s1" for j i
    by (induction j arbitrary: i pi) (auto split: if_splits intro: inv_upd)
  then show "pipewrite k p kl m a n pi s = (out, pi1, s1) \<Longrightarrow> fd_inv E sl s \<Longrightarrow> fd_inv E sl s1"
    by (simp add: pipewrite_def)
qed

lemma off_inv [fds]: "fd_inv E sl s \<Longrightarrow> fd_inv E sl (upd_file f (\<lambda>x. x\<lparr>f_off := f_off x + r\<rparr>) s)"
  by (rule fd_inv_same) (simp_all add: same_fds)

lemma sys_read_fds:
  assumes "fd_inv (\<lambda>_. 0) sl s" and "alive cp sl" shows "fd_end cp (sys_read (dev_table cp) cp s)"
proof -
  have "ensures (\<lambda>(r, s1). fd_inv (\<lambda>_. 0) sl s1) (fileread (dev_table cp) cp f p n s)" for f p n
    using assms unfolding fileread_def Let_def
    by (auto split: prod.splits intro!: inv_upd fds dest: pipe_inv)
  then show ?thesis
    by (auto simp: sys_read_def split: option.splits intro!: inv2_bind [of "\<lambda>_. 0" sl] intro: doneI [OF assms] doneI [OF _ assms(2)])
qed

lemma sys_write_fds:
  assumes "fd_inv (\<lambda>_. 0) sl s" and "alive cp sl" shows "fd_end cp (sys_write (dev_table cp) cp k s)"
proof -
  have "ensures (\<lambda>(r, s1). fd_inv (\<lambda>_. 0) sl s1) (filewrite (dev_table cp) cp k f p n s)" for f p n
    using assms unfolding filewrite_def Let_def
    by (auto split: prod.splits intro!: inv_upd fds dest: pipe_inv)
  then show ?thesis
    by (auto simp: sys_write_def split: option.splits intro!: inv2_bind [of "\<lambda>_. 0" sl] intro: doneI [OF assms] doneI [OF _ assms(2)])
qed

lemma sys_dup_fds:
  assumes "fd_inv (\<lambda>_. 0) sl s" and "alive cp sl" shows "fd_end cp (sys_dup cp s)"
proof (cases "argfd cp 0 s")
  case None then show ?thesis using doneI [OF assms] by (simp add: sys_dup_def)
next
  case (Some a)
  obtain fd f where a: "a = (fd, f)" by (cases a)
  have f: "f < NFILE" using argfd_inv [OF Some [unfolded a] assms] by simp
  obtain r s1 where r: "fdalloc cp f s = (r, s1)" by (cases "fdalloc cp f s")
  show ?thesis
    using fdalloc_inv [OF r assms f] Some a r assms
    by (auto simp: sys_dup_def split: option.splits intro!: filedup_inv [OF _ f] fds)
qed

lemma sys_close_fds:
  assumes "fd_inv (\<lambda>_. 0) sl s" and "alive cp sl" shows "fd_end cp (sys_close cp s)"
proof (cases "argfd cp 0 s")
  case None then show ?thesis using doneI [OF assms] by (simp add: sys_close_def)
next
  case (Some a)
  obtain fd f where a: "a = (fd, f)" by (cases a)
  note f = argfd_inv [OF Some [unfolded a] assms]
  have "fd_inv (bump f 1 (\<lambda>_. 0)) (put_slot cp fd None sl) (set_fd cp fd None s)"
    unfolding set_fd_def by (rule set_fd_inv [OF assms f(1)]) (use f in \<open>auto simp: bump_def\<close>)
  then show ?thesis
    using Some a f(3) assms(2) by (auto simp: sys_close_def intro!: fds)
qed

lemma sys_fstat_fds:
  assumes "fd_inv (\<lambda>_. 0) sl s" and "alive cp sl" shows "fd_end cp (sys_fstat cp s)"
proof -
  have "ensures (\<lambda>(r, s1). fd_inv (\<lambda>_. 0) sl s1) (filestat f s)" for f
    using assms by (auto simp: filestat_def Let_def intro!: fds)
  then show ?thesis
    using assms by (auto simp: sys_fstat_def split: option.splits intro!: inv2_bind [of "\<lambda>_. 0" sl] fds intro: doneI [OF assms] doneI)
qed

lemma link_bad_fds: "fd_inv (\<lambda>_. 0) sl s \<Longrightarrow> alive cp sl \<Longrightarrow> fd_end cp (link_bad dpo ip s)"
  by (cases dpo) (auto simp: link_bad_def add_nlink_def intro!: fds)

lemma sys_link_fds: "fd_inv (\<lambda>_. 0) sl s \<Longrightarrow> alive cp sl \<Longrightarrow> fd_end cp (sys_link (dev_table cp) cp s)"
  by (auto simp: sys_link_def link_new_def add_nlink_def doneI split: option.splits intro!: fds link_bad_fds)

lemma isdirempty_inv [fds]:
  assumes "fd_inv E sl s" and "\<And>b s'. fd_inv E sl s' \<Longrightarrow> ensures Q (f (b, s'))"
  shows "ensures Q (rbind (isdirempty (dev_table cp) dp s) f)"
proof (rule inv2_bind)
  have "ensures (\<lambda>(b, s'). fd_inv E sl s') (isdirempty_loop k off (dev_table cp) dp s)" for k off
    using assms(1) by (induction k arbitrary: off s) (auto intro!: fds)
  then show "ensures (\<lambda>(b, s'). fd_inv E sl s') (isdirempty (dev_table cp) dp s)" by (simp add: isdirempty_def)
qed (rule assms(2))

lemma sys_unlink_fds: "fd_inv (\<lambda>_. 0) sl s \<Longrightarrow> alive cp sl \<Longrightarrow> fd_end cp (sys_unlink (dev_table cp) cp s)"
  by (auto simp: sys_unlink_def unlink_in_def add_nlink_def doneI split: option.splits intro!: fds)

lemma create_inv [fds]:
  assumes "fd_inv E sl s" and "\<And>i s'. fd_inv E sl s' \<Longrightarrow> ensures Q (f (i, s'))"
  shows "ensures Q (rbind (create (dev_table cp) cp path ex ty ma mi s) f)"
proof (rule inv2_bind)
  have new: "ensures (\<lambda>(i, s'). fd_inv E sl s') (create_new (dev_table cp) dp name ty ma mi s1)" if "fd_inv E sl s1" for dp name s1
    using that by (auto simp: create_new_def add_nlink_def rbind_assoc intro!: fds)
  then show "ensures (\<lambda>(i, s'). fd_inv E sl s') (create (dev_table cp) cp path ex ty ma mi s)"
    using assms(1) by (auto simp: create_def split: option.splits intro!: fds new)
qed (rule assms(2))

lemma sys_mknod_fds: "fd_inv (\<lambda>_. 0) sl s \<Longrightarrow> alive cp sl \<Longrightarrow> fd_end cp (sys_mknod (dev_table cp) cp s)"
  by (auto simp: sys_mknod_def doneI split: option.splits intro!: fds)

lemma sys_mkdir_fds: "fd_inv (\<lambda>_. 0) sl s \<Longrightarrow> alive cp sl \<Longrightarrow> fd_end cp (sys_mkdir (dev_table cp) cp s)"
  by (auto simp: sys_mkdir_def doneI split: option.splits intro!: fds)

lemma open_file_at_fds:
  assumes "fd_inv (\<lambda>_. 0) sl s" and "alive cp sl" shows "fd_end cp (open_file_at cp ip omode s)"
proof (cases "filealloc s")
  case (Pair fo s1)
  show ?thesis
  proof (cases fo)
    case None
    then show ?thesis using filealloc_inv [OF assms(1) Pair] assms Pair by (auto simp: open_file_at_def intro!: fds)
  next
    case (Some f)
    have f: "f < NFILE" "fd_inv (bump f 1 (\<lambda>_. 0)) sl s1" using filealloc_inv [OF assms(1) Pair] Some by auto
    obtain r s2 where r: "fdalloc cp f s1 = (r, s2)" by (cases "fdalloc cp f s1")
    have init: "fd_inv E sl' (upd_file f (\<lambda>x. x\<lparr>f_type := FD_INODE, f_ip := ip, f_off := 0, f_readable := a, f_writable := b\<rparr>) s3)"
      if "fd_inv E sl' s3" for E sl' s3 a b
      using count_inv [OF that f(1), of "\<lambda>x. x\<lparr>f_type := FD_INODE, f_ip := ip, f_off := 0, f_readable := a, f_writable := b\<rparr>" 0]
      by simp
    show ?thesis
      using fdalloc_inv [OF r f(2) assms(2) f(1)] Pair Some r f assms(2)
      by (cases r) (auto simp: open_file_at_def intro!: fds init)
  qed
qed

lemma sys_open_fds: "fd_inv (\<lambda>_. 0) sl s \<Longrightarrow> alive cp sl \<Longrightarrow> fd_end cp (sys_open (dev_table cp) cp s)"
  by (auto simp: sys_open_def doneI split: option.splits intro!: fds open_file_at_fds)

lemma proc_inv [fds]:
  "fd_inv E sl s \<Longrightarrow> (\<And>p. p_ofile (h p) = p_ofile p \<and> dead (p_state (h p)) = dead (p_state p)) \<Longrightarrow> fd_inv E sl (upd_proc i h s)"
  by (rule fd_inv_same) (simp_all add: same_fds)

lemma sys_chdir_fds: "fd_inv (\<lambda>_. 0) sl s \<Longrightarrow> alive cp sl \<Longrightarrow> fd_end cp (sys_chdir cp s)"
  by (auto simp: sys_chdir_def doneI split: option.splits intro!: fds)

lemma exec_size_inv [fds]:
  assumes "fd_inv E sl s" and "\<And>x s'. fd_inv E sl s' \<Longrightarrow> ensures Q (f (x, s'))"
  shows "ensures Q (rbind (exec_size k (dev_table cp) ip off sz s) f)"
proof (rule inv2_bind)
  show "ensures (\<lambda>(x, s'). fd_inv E sl s') (exec_size k (dev_table cp) ip off sz s)"
    using assms(1) by (induction k arbitrary: off sz s) (auto simp: Let_def intro!: fds)
qed (rule assms(2))

lemma exec_load_inv [fds]:
  assumes "fd_inv E sl s" and "\<And>x s'. fd_inv E sl s' \<Longrightarrow> ensures Q (f (x, s'))"
  shows "ensures Q (rbind (exec_load k (dev_table cp) ip off sz m s) f)"
proof (rule inv2_bind)
  show "ensures (\<lambda>(x, s'). fd_inv E sl s') (exec_load k (dev_table cp) ip off sz m s)"
    using assms(1)
  proof (induction k arbitrary: off s)
    case (Suc k)
    from Suc.prems show ?case by (auto simp: Let_def intro!: fds Suc.IH)
  qed simp
qed (rule assms(2))

lemma sys_upd_inv [fds]:
  "fd_inv E sl s \<Longrightarrow> fd_inv E sl (s\<lparr>segs := sg\<rparr>)" "fd_inv E sl s \<Longrightarrow> fd_inv E sl (s\<lparr>ticks := t\<rparr>)"
  "fd_inv E sl s \<Longrightarrow> fd_inv E sl (s\<lparr>cons := k\<rparr>)" "fd_inv E sl s \<Longrightarrow> fd_inv E sl (s\<lparr>cons := k, kbd_shift := sh\<rparr>)"
  by (auto intro: fd_inv_same simp: same_fds)

lemma exec_bad_inv: "fd_inv E sl s \<Longrightarrow> ensures (\<lambda>(r, s'). fd_inv E sl s') (exec_bad ip m sz s)"
  by (auto simp: exec_bad_def intro!: fds)

lemma exec_inv:
  assumes "fd_inv E sl s" shows "ensures (\<lambda>(r, s'). fd_inv E sl s') (exec ts junk (dev_table cp) cp path argv s)"
  using assms unfolding exec_def exec_commit_def Let_def
  by (auto simp: rbind_assoc split: option.splits prod.splits intro!: fds exec_bad_inv)

lemma sys_exec_fds: "fd_inv (\<lambda>_. 0) sl s \<Longrightarrow> alive cp sl \<Longrightarrow> fd_end cp (sys_exec ts junk (dev_table cp) cp s)"
  by (auto simp: sys_exec_def doneI split: option.splits intro!: inv2_bind [OF exec_inv] fds)

lemma type_inv: "fd_inv E sl s \<Longrightarrow> f < NFILE \<Longrightarrow> ty \<noteq> FD_CLOSED \<Longrightarrow> fd_inv E sl (upd_file f (\<lambda>x. x\<lparr>f_type := ty\<rparr>) s)"
  using count_inv [of E sl s f "\<lambda>x. x\<lparr>f_type := ty\<rparr>" 0] by simp

lemma pipe_end_inv:
  assumes "fd_inv E sl s" and "f < NFILE"
  shows "fd_inv E sl (upd_file f (\<lambda>x. x\<lparr>f_type := FD_PIPE, f_readable := a, f_writable := b, f_pipe := p\<rparr>) s)"
  using count_inv [OF assms, of "\<lambda>x. x\<lparr>f_type := FD_PIPE, f_readable := a, f_writable := b, f_pipe := p\<rparr>" 0] by simp

lemma pipealloc_bad_inv:
  assumes "f0 < NFILE" and "f1 < NFILE"
  shows "fd_inv (bump f0 1 E) sl s \<Longrightarrow> ensures (fd_inv E sl) (pipealloc_bad (Some f0) None s)"
    and "fd_inv (bump f1 1 (bump f0 1 E)) sl s \<Longrightarrow> ensures (fd_inv E sl) (pipealloc_bad (Some f0) (Some f1) s)"
proof -
  show "ensures (fd_inv E sl) (pipealloc_bad (Some f0) None s)" if "fd_inv (bump f0 1 E) sl s"
    using that assms(1) by (auto simp: pipealloc_bad_def intro!: fileclose_inv [OF type_inv])
  have "ensures (fd_inv E sl) (fileclose f1 (upd_file f1 (f_type_update (\<lambda>_. FD_NONE)) s1))"
    if "fd_inv (bump f0 (- 1) (bump f1 1 (bump f0 1 E))) sl s1" for s1 :: "'a kern_scheme"
    using fileclose_kept [OF type_inv [OF that assms(2)] assms(2), of FD_NONE] by simp
  then show "ensures (fd_inv E sl) (pipealloc_bad (Some f0) (Some f1) s)" if "fd_inv (bump f1 1 (bump f0 1 E)) sl s"
    using that assms by (auto simp: pipealloc_bad_def intro!: fileclose_inv [OF type_inv])
qed

lemma pipealloc_inv:
  assumes "fd_inv E sl s"
  shows "ensures (\<lambda>(r, s'). case r of None \<Rightarrow> fd_inv E sl s'
    | Some (f0, f1) \<Rightarrow> f0 < NFILE \<and> f1 < NFILE \<and> fd_inv (bump f1 1 (bump f0 1 E)) sl s') (pipealloc s)"
proof (cases "filealloc s")
  case (Pair fo0 s1)
  note a0 = filealloc_inv [OF assms Pair]
  show ?thesis
  proof (cases fo0)
    case None
    then show ?thesis using a0 assms Pair by (auto simp: pipealloc_def pipealloc_bad_def)
  next
    case (Some f0)
    then have f0: "f0 < NFILE" "fd_inv (bump f0 1 E) sl s1" using a0 by auto
    obtain fo1 s2 where p1: "filealloc s1 = (fo1, s2)" by (cases "filealloc s1")
    note a1 = filealloc_inv [OF f0(2) p1]
    show ?thesis
    proof (cases fo1)
      case None
      then show ?thesis
        using a1 f0(2) Pair p1 \<open>fo0 = Some f0\<close> unfolding pipealloc_def
        by (auto intro!: ensures_bind [OF pipealloc_bad_inv(1) [OF f0(1) f0(1)]])
    next
      case (Some f1)
      then have f1: "f1 < NFILE" "fd_inv (bump f1 1 (bump f0 1 E)) sl s2" using a1 by auto
      then show ?thesis
        unfolding pipealloc_def Pair p1 \<open>fo0 = Some f0\<close> Some prod.case option.case Let_def
        by (intro k_alloc_bind [OF f1(2)])
          (auto simp: f0(1) intro!: pipe_end_inv inv_upd ensures_bind [OF pipealloc_bad_inv(2) [OF f0(1) f1(1)]])
    qed
  qed
qed

lemma sys_pipe_fds:
  assumes "fd_inv (\<lambda>_. 0) sl s" and "alive cp sl" shows "fd_end cp (sys_pipe cp s)"
proof -
  have "fd_end cp (case fdalloc cp f0 s1 of
        (None, s2) \<Rightarrow> rbind (fileclose f0 s2) (\<lambda>s3. rbind (fileclose f1 s3) (\<lambda>s4. fails s4))
      | (Some fd0, s2) \<Rightarrow>
        (case fdalloc cp f1 s2 of
           (None, s3) \<Rightarrow>
             rbind (fileclose f0 (set_fd cp fd0 None s3)) (\<lambda>s4. rbind (fileclose f1 s4) (\<lambda>s5. fails s5))
         | (Some fd1, s3) \<Rightarrow>
             Inr (SysRet 0, set_mem (write32 (fd + 4) (of_nat fd1) (write32 fd (of_nat fd0) (memory s3))) s3)))"
    if f: "f0 < NFILE" "f1 < NFILE" and inv: "fd_inv (bump f1 1 (bump f0 1 (\<lambda>_. 0))) sl s1"
    for f0 f1 fd and s1 :: "'a sys_scheme"
  proof -
    have close: "fd_end cp (rbind (fileclose f0 s2) (\<lambda>s3. rbind (fileclose f1 s3) (\<lambda>s4. fails s4)))"
      if "fd_inv (bump f1 1 (bump f0 1 (\<lambda>_. 0))) sl' s2" "alive cp sl'" for sl' and s2 :: "'a sys_scheme"
      using that f by (auto intro!: fds)
    obtain r s2 where r: "fdalloc cp f0 s1 = (r, s2)" by (cases "fdalloc cp f0 s1")
    note a = fdalloc_inv [OF r inv assms(2) f(1)]
    show ?thesis
    proof (cases r)
      case None
      then show ?thesis using a r close [OF inv assms(2)] by simp
    next
      case (Some fd0)
      let ?sl = "put_slot cp fd0 (Some f0) sl" and ?E = "bump f0 (- 1) (bump f1 1 (bump f0 1 (\<lambda>_. 0)))"
      have a1: "fd0 < NOFILE" "fd_inv ?E ?sl s2" using a Some by auto
      have cp: "cp < length sl" using assms(2) by (simp add: alive_def)
      obtain r1 s3 where r1: "fdalloc cp f1 s2 = (r1, s3)" by (cases "fdalloc cp f1 s2")
      note b = fdalloc_inv [OF r1 a1(2) _ f(2)]
      have "fd_inv (bump f1 1 (bump f0 1 (\<lambda>_. 0))) (put_slot cp fd0 None ?sl) (set_fd cp fd0 None s2)"
        unfolding set_fd_def
        by (rule set_fd_inv [OF a1(2)])
          (use assms(2) cp a1(1) slot_at(2) [OF inv cp] in \<open>auto simp: put_slot_nth bump_def\<close>)
      then show ?thesis
        using a1 b assms(2) r r1 Some close by (cases r1) (auto intro!: fds)
    qed
  qed
  then show ?thesis
    unfolding sys_pipe_def using assms
    by (auto split: option.splits intro!: fds ensures_bind [OF pipealloc_inv [OF assms(1)]])
qed

lemma k_printf_inv [fds]:
  assumes "fd_inv E sl s" and "\<And>s'. fd_inv E sl s' \<Longrightarrow> ensures Q (f s')"
  shows "ensures Q (rbind (k_printf fmt args s) f)"
  using assms(1) by (cases "cprintf (map of_char fmt @ [10]) args (cons s)") (auto simp: k_printf_def intro!: assms(2) fds)

lemma sys_kill_fds: "fd_inv (\<lambda>_. 0) sl s \<Longrightarrow> alive cp sl \<Longrightarrow> fd_end cp (sys_kill cp s)"
  by (auto simp: sys_kill_def kill_def Let_def dead_def split: option.splits prod.splits if_splits intro!: fds)

lemma sys_sleep_fds: "fd_inv (\<lambda>_. 0) sl s \<Longrightarrow> alive cp sl \<Longrightarrow> fd_end cp (sys_sleep cp s)"
  by (auto simp: sys_sleep_def sys_sleep_loop_def split: option.splits intro!: fds)

lemma sys_sbrk_fds: "fd_inv (\<lambda>_. 0) sl s \<Longrightarrow> alive cp sl \<Longrightarrow> fd_end cp (sys_sbrk ts cp s)"
  by (auto simp: sys_sbrk_def growproc_def Let_def rbind_assoc split: option.splits intro!: fds)

subsection \<open>fork, exit and wait\<close>

lemma fd_slots_upd:
  "i < length (procs s) \<Longrightarrow> fd_slots (upd_proc i h s) = (fd_slots s)[i := (p_ofile (h (proc_at i s)), dead (p_state (h (proc_at i s))))]"
  by (simp add: fd_slots_def upd_proc_def map_update proc_at_def)

text \<open>An entry may change its state if it has no open files, or stays alive.\<close>

lemma flag_inv:
  assumes "fd_inv E sl s" and "i < length sl" and "p_ofile (h (proc_at i s)) = fst (sl ! i)"
    and "dead (p_state (h (proc_at i s))) = d" and "d \<Longrightarrow> set (fst (sl ! i)) \<subseteq> {None}"
  shows "fd_inv E (sl[i := (fst (sl ! i), d)]) (upd_proc i h s)"
proof -
  have "slot_ok (sl ! i)" using assms(1,2) by (simp add: fd_inv_def fds_ok_def list_all_length)
  then have "slot_ok (fst (sl ! i), d)" using assms(5) by (auto simp: slot_ok_def)
  moreover have "fd_refs (sl[i := (fst (sl ! i), d)]) f = fd_refs sl f" for f
    using assms(2) by (simp add: fd_refs_update)
  ultimately show ?thesis
    using assms slot_at(3) [OF assms(1,2)]
    by (auto simp: fd_inv_def fds_ok_def fd_slots_upd same_fds list_all_length nth_list_update)
qed

lemma keep_inv:
  assumes "fd_inv E sl s" and "i < length sl" and "p_ofile (h (proc_at i s)) = fst (sl ! i)"
    and "dead (p_state (h (proc_at i s))) = snd (sl ! i)"
  shows "fd_inv E sl (upd_proc i h s)"
proof -
  have "set (fst (sl ! i)) \<subseteq> {None}" if "snd (sl ! i)"
    using assms(1,2) that by (simp add: fd_inv_def fds_ok_def list_all_length slot_ok_def)
  from flag_inv [of E sl s i h, OF assms this] show ?thesis by simp
qed

lemma sys_wait_fds:
  assumes "fd_inv (\<lambda>_. 0) sl s" and "alive cp sl" shows "fd_end cp (sys_wait cp s)"
proof (cases "wait_scan cp 0 False (procs s)")
  case (Zombie i)
  then have i: "i < length sl" "snd (sl ! i)"
    using wait_scan_Zombie [OF Zombie] assms by (auto simp: fd_inv_def fd_slots_def dead_def)
  have "fd_inv (\<lambda>_. 0) sl (wait_reap i s1)" if "fd_inv (\<lambda>_. 0) sl s1" for s1 :: "'a sys_scheme"
    unfolding wait_reap_def using i slot_at(1) [OF that i(1)] by (intro keep_inv that) (auto simp: dead_def)
  then show ?thesis using assms Zombie by (auto simp: sys_wait_def proc_wait_def rbind_assoc intro!: fds)
next
  case (Kids h)
  then show ?thesis using assms by (auto simp: sys_wait_def proc_wait_def intro!: fds)
qed

lemma close_files_inv:
  assumes "fd_inv (\<lambda>_. 0) sl s" and "alive cp sl" and "\<forall>fd \<in> set fds. fd < NOFILE"
    and "\<forall>fd < NOFILE. fd \<in> set fds \<or> fst (sl ! cp) ! fd = None"
  shows "ensures (\<lambda>s'. \<exists>sl'. fd_inv (\<lambda>_. 0) sl' s' \<and> alive cp sl' \<and> set (fst (sl' ! cp)) \<subseteq> {None}) (close_files fds cp s)"
  using assms
proof (induction fds arbitrary: s sl)
  case Nil
  have "cp < length sl" using Nil.prems(2) by (simp add: alive_def)
  then have "set (fst (sl ! cp)) \<subseteq> {None}"
    using Nil.prems(4) slot_at(2) [OF Nil.prems(1)] by (auto simp: in_set_conv_nth)
  then show ?case using Nil.prems by auto
next
  case (Cons fd fds)
  have cp: "cp < length sl" using Cons.prems(2) by (simp add: alive_def)
  note at = slot_at [OF Cons.prems(1) cp]
  show ?case
  proof (cases "fst (sl ! cp) ! fd")
    case None
    then have "\<forall>fd < NOFILE. fd \<in> set fds \<or> fst (sl ! cp) ! fd = None" using Cons.prems(4) by auto
    then show ?thesis using Cons.IH [OF Cons.prems(1,2)] Cons.prems(3) at(1) None by simp
  next
    case (Some f)
    have f: "f < NFILE" using at(5) [OF _ Some] Cons.prems(3) by simp
    have fd: "fd < length (fst (sl ! cp))" using at(2) Cons.prems(3) by simp
    have "fd_inv (\<lambda>_. 0) (put_slot cp fd None sl) (upd_proc cp (\<lambda>p. p\<lparr>p_ofile := (p_ofile p)[fd := None]\<rparr>) s1)"
      if "fd_inv (bump f (- 1) (\<lambda>_. 0)) sl s1" for s1 :: "'a sys_scheme"
      using set_fd_inv [OF that Cons.prems(2), of fd None "\<lambda>_. 0"] Cons.prems(3) Some by (auto simp: bump_def)
    then have "ensures (\<lambda>s'. \<exists>sl'. fd_inv (\<lambda>_. 0) sl' s' \<and> alive cp sl' \<and> set (fst (sl' ! cp)) \<subseteq> {None})
      (close_files fds cp (upd_proc cp (\<lambda>p. p\<lparr>p_ofile := (p_ofile p)[fd := None]\<rparr>) s1))"
      if "fd_inv (bump f (- 1) (\<lambda>_. 0)) sl s1" for s1 :: "'a sys_scheme"
      by (rule Cons.IH) (use that Cons.prems(2-4) put_slot_nth [OF cp fd, of None] fd in \<open>auto simp: nth_list_update\<close>)
    then show ?thesis using Some at(1) by (auto intro!: fileclose_inv [OF Cons.prems(1) f])
  qed
qed

lemma exit_table_fds:
  assumes "fd_inv E sl s" and "cp < length sl" and "set (fst (sl ! cp)) \<subseteq> {None}"
  shows "\<exists>sl'. fd_inv E sl' (exit_table cp s)"
proof -
  have r: "fd_inv E sl (reparent q i s1)" if "fd_inv E sl s1" for q i and s1 :: "'a kern_scheme"
    using that by (auto simp: reparent_def Let_def intro!: fds)
  have "fd_inv E sl (fold (reparent q) is s1)" if "fd_inv E sl s1" for q "is" and s1 :: "'a kern_scheme"
    using that by (induction "is" arbitrary: s1) (simp_all add: r)
  then have inv: "fd_inv E sl (fold (reparent cp) [0..<NPROC] (wakeup1 (map_option ChanProc (p_parent (proc_at cp s))) s))"
    using assms(1) inv_upd(6) by blast
  have "fd_inv E (sl[cp := (fst (sl ! cp), True)]) (exit_table cp s)"
    unfolding exit_table_def Let_def
    by (rule flag_inv [OF inv assms(2)]) (use slot_at(1) [OF inv assms(2)] assms(3) in \<open>auto simp: dead_def\<close>)
  then show ?thesis by blast
qed

lemma proc_exit_fds:
  assumes "fd_inv (\<lambda>_. 0) sl s" and "alive cp sl" shows "ensures fd_ok (proc_exit cp s)"
proof -
  have "ensures (\<lambda>s'. \<exists>sl'. fd_inv (\<lambda>_. 0) sl' s' \<and> alive cp sl' \<and> set (fst (sl' ! cp)) \<subseteq> {None}) (close_files [0..<NOFILE] cp s)"
    by (rule close_files_inv [OF assms]) auto
  moreover have "ensures fd_ok (rbind (iput i s1) (\<lambda>s2. Inr (exit_table cp (upd_proc cp (\<lambda>p. p\<lparr>p_cwd := None\<rparr>) s2))))"
    if "fd_inv (\<lambda>_. 0) sl' s1" "alive cp sl'" "set (fst (sl' ! cp)) \<subseteq> {None}" for i sl' and s1 :: "'a sys_scheme"
  proof (rule inv_fs(3) [OF that(1)])
    fix s2 :: "'a sys_scheme"
    assume "fd_inv (\<lambda>_. 0) sl' s2"
    then have "fd_inv (\<lambda>_. 0) sl' (upd_proc cp (\<lambda>p. p\<lparr>p_cwd := None\<rparr>) s2)" by (rule proc_inv) simp
    from exit_table_fds [OF this] that(2,3)
    show "ensures fd_ok (Inr (exit_table cp (upd_proc cp (\<lambda>p. p\<lparr>p_cwd := None\<rparr>) s2)))"
      by (auto simp: alive_def intro: fd_okI)
  qed
  ultimately show ?thesis
    unfolding proc_exit_def by (auto elim!: ensures_bind)
qed

lemma dup_files_inv:
  assumes "fd_inv (\<lambda>_. 0) sl s" and "alive np sl" and "alive p sl" and "p \<noteq> np" and "distinct is"
    and "\<forall>i \<in> set is. i < NOFILE \<and> fst (sl ! np) ! i = None"
  shows "ensures (\<lambda>s'. \<exists>sl'. fd_inv (\<lambda>_. 0) sl' s' \<and> alive np sl' \<and> alive p sl') (dup_files is p np s)"
  using assms
proof (induction "is" arbitrary: s sl)
  case Nil
  then show ?case by auto
next
  case (Cons i "is")
  have np: "np < length sl" using Cons.prems(2) by (simp add: alive_def)
  have p: "p < length sl" using Cons.prems(3) by (simp add: alive_def)
  note at = slot_at [OF Cons.prems(1) p]
  show ?case
  proof (cases "fst (sl ! p) ! i")
    case None
    then show ?thesis using Cons.IH [OF Cons.prems(1-4)] Cons.prems(5,6) at(1) by auto
  next
    case (Some f)
    have f: "f < NFILE" using at(5) [OF _ Some] Cons.prems(6) by simp
    have "fd_inv (\<lambda>_. 0) (put_slot np i (Some f) sl) (upd_proc np (\<lambda>q. q\<lparr>p_ofile := (p_ofile q)[i := Some f]\<rparr>) s1)"
      if "fd_inv (bump f 1 (\<lambda>_. 0)) sl s1" for s1 :: "'a sys_scheme"
      by (rule set_fd_inv [OF that Cons.prems(2)]) (use Cons.prems(6) f in \<open>auto simp: bump_def\<close>)
    then have "ensures (\<lambda>s'. \<exists>sl'. fd_inv (\<lambda>_. 0) sl' s' \<and> alive np sl' \<and> alive p sl')
      (dup_files is p np (upd_proc np (\<lambda>q. q\<lparr>p_ofile := (p_ofile q)[i := Some f]\<rparr>) s1))"
      if "fd_inv (bump f 1 (\<lambda>_. 0)) sl s1" for s1 :: "'a sys_scheme"
      by (rule Cons.IH) (use that Cons.prems(2-6) slot_at(2) [OF Cons.prems(1) np] np
          in \<open>auto simp: put_slot_def nth_list_update alive_def\<close>)
    then show ?thesis using Some at(1) by (auto intro!: filedup_inv [OF Cons.prems(1) f])
  qed
qed

lemma allocproc_inv:
  assumes "fd_inv E sl s" and "allocproc s = (no, s')"
  shows "case no of None \<Rightarrow> s' = s | Some np \<Rightarrow> np < length sl \<and> snd (sl ! np)
    \<and> fd_inv E (sl[np := (fst (sl ! np), False)]) s' \<and> set (fst (sl ! np)) \<subseteq> {None}"
proof (cases "first_idx (\<lambda>p. p_state p = UNUSED) (procs s)")
  case None then show ?thesis using assms(2) by (simp add: allocproc_def)
next
  case (Some np)
  then have np: "np < length sl" "snd (sl ! np)"
    using first_idx_SomeD [OF Some] assms(1) by (auto simp: fd_inv_def fd_slots_def dead_def)
  then have "set (fst (sl ! np)) \<subseteq> {None}"
    using assms(1) by (simp add: fd_inv_def fds_ok_def list_all_length slot_ok_def)
  moreover have "fd_inv E (sl[np := (fst (sl ! np), False)])
      (upd_proc np (\<lambda>p. p\<lparr>p_state := EMBRYO, p_pid := nextpid s\<rparr>) s\<lparr>nextpid := nextpid s + 1\<rparr>)"
    by (rule fd_inv_same [OF flag_inv [OF assms(1) np(1)]])
      (use slot_at(1) [OF assms(1) np(1)] in \<open>auto simp: same_fds dead_def\<close>)
  ultimately show ?thesis using assms(2) np Some by (auto simp: allocproc_def split: option.splits)
qed

lemma copyproc_inv:
  assumes "fd_inv (\<lambda>_. 0) sl s" and "alive cp sl"
  shows "ensures (\<lambda>(no, s'). case no of None \<Rightarrow> done_ok cp s' | Some np \<Rightarrow> \<exists>sl'. fd_inv (\<lambda>_. 0) sl' s' \<and> alive np sl' \<and> alive cp sl')
    (copyproc forkret (Some cp) s)"
proof (cases "allocproc s")
  case (Pair no s1)
  note a = allocproc_inv [OF assms(1) Pair]
  show ?thesis
  proof (cases no)
    case None
    then show ?thesis using a assms Pair by (auto simp: copyproc_def intro!: fds)
  next
    case (Some np)
    let ?sl = "sl[np := (fst (sl ! np), False)]"
    have np: "np < length sl" "snd (sl ! np)" "fd_inv (\<lambda>_. 0) ?sl s1" "set (fst (sl ! np)) \<subseteq> {None}"
      using a Some by auto
    have neq: "cp \<noteq> np" using assms(2) np(2) by (auto simp: alive_def)
    have len: "length (fst (sl ! np)) = NOFILE" by (rule slot_at(2) [OF assms(1) np(1)])
    have free: "done_ok cp (upd_proc np h s2)"
      if "fd_inv (\<lambda>_. 0) ?sl s2" "\<And>q. p_ofile (h q) = p_ofile q" "\<And>q. p_state (h q) = UNUSED" for h and s2 :: "'a sys_scheme"
      using flag_inv [of "\<lambda>_. 0" ?sl s2 np h True] slot_at(1) [OF that(1), of np] that np(1,4) assms(2) neq
      by (auto simp: dead_def alive_def intro!: doneI)
    have dup: "ensures (\<lambda>s'. \<exists>sl'. fd_inv (\<lambda>_. 0) sl' s' \<and> alive np sl' \<and> alive cp sl') (dup_files [0..<NOFILE] cp np s2)"
      if "fd_inv (\<lambda>_. 0) ?sl s2" for s2 :: "'a sys_scheme"
      by (rule dup_files_inv [OF that _ _ neq]) (use np(1,4) len assms(2) neq in \<open>auto simp: alive_def subset_iff\<close>)
    have fin: "\<exists>sl''. fd_inv (\<lambda>_. 0) sl'' (start_context forkret np (upd_proc np (\<lambda>q. q\<lparr>p_cwd := c\<rparr>) (idup i s2)))
        \<and> alive np sl'' \<and> alive cp sl''"
      if "fd_inv (\<lambda>_. 0) sl' s2" "alive np sl'" "alive cp sl'" for sl' c i and s2 :: "'a sys_scheme"
      by (rule exI [of _ sl']) (use that in \<open>auto simp: start_context_def intro!: inv_upd proc_inv\<close>)
    show ?thesis
      unfolding copyproc_def Pair Some prod.case option.case Let_def set_state_def
      by (intro k_alloc_bind [OF np(3)])
        (auto intro!: free fin k_alloc_bind k_free_bind inv_upd proc_inv ensures_bind [OF dup])
  qed
qed

lemma sys_fork_fds:
  assumes "fd_inv (\<lambda>_. 0) sl s" and "alive cp sl" shows "fd_end cp (sys_fork forkret cp s)"
proof -
  have "done_ok cp (set_state i RUNNABLE s1)" if "fd_inv (\<lambda>_. 0) sl' s1" "alive i sl'" "alive cp sl'" for i sl' and s1 :: "'a sys_scheme"
    unfolding set_state_def using that slot_at(1) [OF that(1), of i]
    by (intro doneI [OF keep_inv [of _ sl']]) (auto simp: alive_def dead_def)
  then show ?thesis
    unfolding sys_fork_def
    by (intro ensures_bind [OF copyproc_inv [OF assms]]) (auto split: option.splits)
qed

section \<open>The whole kernel\<close>

lemma set_eax_same [simp]: "fd_slots (set_eax cp v s) = fd_slots s" "fd_ok (set_eax cp v s) = fd_ok s"
  by (simp_all add: set_eax_def fd_ok_def same_fds)

lemma nth_SomeD: "xs ! n = Some g \<Longrightarrow> n < length xs \<Longrightarrow> Some g \<in> set xs"
  by (metis nth_mem)

definition out_ok :: "nat \<Rightarrow> sys_out \<times> 'a kern_scheme \<Rightarrow> bool" where
  "out_ok cp x \<longleftrightarrow> fd_ok (snd x) \<and> (fst x \<noteq> SysExit \<longrightarrow> alive cp (fd_slots (snd x)))"

lemma out_okI: "fd_end cp r \<Longrightarrow> ensures (out_ok cp) r"
  by (erule ensures_weaken) (auto simp: out_ok_def done_ok_def)

lemma sys_exit_fds: "fd_inv (\<lambda>_. 0) sl s \<Longrightarrow> alive cp sl \<Longrightarrow> ensures (out_ok cp) (sys_exit cp s)"
  unfolding sys_exit_def by (rule ensures_bind [OF proc_exit_fds]) (auto simp: out_ok_def)

lemma sys_getpid_fds: "fd_inv (\<lambda>_. 0) sl s \<Longrightarrow> alive cp sl \<Longrightarrow> fd_end cp (sys_getpid cp s)"
  by (simp add: sys_getpid_def doneI)

lemmas calls_fds =
  sys_fork_fds sys_wait_fds sys_pipe_fds sys_write_fds sys_read_fds sys_close_fds sys_kill_fds sys_exec_fds sys_open_fds
  sys_mknod_fds sys_unlink_fds sys_fstat_fds sys_link_fds sys_mkdir_fds sys_chdir_fds sys_dup_fds sys_getpid_fds
  sys_sbrk_fds sys_sleep_fds

lemma syscalls_fds:
  assumes "fd_inv (\<lambda>_. 0) sl s" and "alive cp sl" and "Some g \<in> set (syscalls e k)"
  shows "ensures (out_ok cp) (g cp s)"
  using assms(3) sys_exit_fds [OF assms(1,2)] calls_fds [OF assms(1,2), THEN out_okI]
  unfolding syscalls_def by auto

lemma syscall_fds:
  assumes "fd_inv (\<lambda>_. 0) sl s" and "alive cp sl" shows "ensures (out_ok cp) (syscall e k cp s)"
proof -
  have "ensures (out_ok cp) (rbind (g cp s) (\<lambda>(out, s1). Inr (out, case out of SysRet v \<Rightarrow> set_eax cp v s1 | _ \<Rightarrow> s1)))"
    if "Some g \<in> set (syscalls e k)" for g
    using syscalls_fds [OF assms that]
    by (rule ensures_bind) (auto simp: out_ok_def split: sys_out.splits)
  moreover have "out_ok cp (SysRet v, set_eax cp v s')" if "fd_inv (\<lambda>_. 0) sl s'" for v s'
    using doneI [OF that assms(2)] by (simp add: out_ok_def done_ok_def)
  ultimately show ?thesis
    unfolding syscall_def Let_def
    by (auto split: option.splits if_splits intro!: k_printf_inv [OF assms(1)] dest: nth_SomeD)
qed

lemma trap_exit_fds: "fd_inv (\<lambda>_. 0) sl s \<Longrightarrow> alive cp sl \<Longrightarrow> ensures (\<lambda>(out, s'). fd_ok s') (trap_exit cp s)"
  unfolding trap_exit_def by (rule ensures_bind [OF proc_exit_fds]) auto

lemma trap_syscall_fds:
  assumes "fd_inv (\<lambda>_. 0) sl s" and "alive cp sl"
  shows "ensures (\<lambda>(out, s'). fd_ok s') (trap_syscall e k cp tf s)"
proof -
  have "fd_inv (\<lambda>_. 0) sl (upd_proc cp (\<lambda>p. p\<lparr>p_tf := tf\<rparr>) s)" using assms(1) by (rule proc_inv) simp
  note r = syscall_fds [OF this assms(2)]
  have "ensures (\<lambda>(out, s'). fd_ok s') (trap_exit cp s1)" if "fd_ok s1" "alive cp (fd_slots s1)" for s1 :: "'a sys_scheme"
    using trap_exit_fds [OF fd_okD] that by blast
  then show ?thesis
    unfolding trap_syscall_def using trap_exit_fds [OF assms]
    by (auto intro!: ensures_bind [OF r] simp: out_ok_def split: sys_out.splits)
qed

lemma console_intr_inv:
  "console_intr dump cs k s = Inr (k1, s1) \<Longrightarrow> fd_inv E sl s \<Longrightarrow> fd_inv E sl s1"
  by (induction cs arbitrary: k s) (auto simp: rbind_eq_Inr split: if_splits intro: inv_upd)

lemma trap_switch_inv:
  assumes "fd_inv E sl s"
  shows "ensures (fd_inv E sl) (trap_switch c keys cpo tf s)"
proof -
  have "kbd_intr keys s = Inr s1 \<Longrightarrow> fd_inv E sl s1" for s1
    using assms by (auto simp: kbd_intr_def rbind_eq_Inr split: prod.splits dest: console_intr_inv intro!: sys_upd_inv)
  then have kbd: "ensures (fd_inv E sl) (kbd_intr keys s)" by (cases "kbd_intr keys s") auto
  have ide: "ensures (fd_inv E sl) (ide_intr s)"
    using inv_bind [OF kept_intr [OF frame_refl] assms, of "fd_inv E sl" Inr] by (simp add: ensures_def rbind_def split: sum.splits)
  have pr: "ensures (fd_inv E sl) (k_printf fmt args s)" for fmt args
    using k_printf_inv [OF assms, of "fd_inv E sl" Inr fmt args] by (cases "k_printf fmt args s") simp_all
  show ?thesis
    unfolding trap_switch_def using assms kbd ide pr
    by (auto simp: timer_tick_def split: option.splits intro!: k_printf_inv [OF assms] inv_upd sys_upd_inv proc_inv)
qed

lemma trap_fds:
  assumes "fd_inv (\<lambda>_. 0) sl s" and "\<And>cp. cpo = Some cp \<Longrightarrow> alive cp sl"
  shows "ensures (\<lambda>(out, s'). fd_ok s') (trap e k c keys cpo tf s)"
  unfolding trap_def using assms
  by (auto intro!: trap_syscall_fds ensures_bind [OF trap_switch_inv [OF assms(1)]] trap_exit_fds split: option.splits
      intro: fd_okI)

section \<open>Properties\<close>

text \<open>
  \<^bold>\<open>C1.\<close> Whatever enters the kernel, a system call of a process or an interrupt, if the handler
  ends (by returning, asleep, or with the process gone), the reference count of every open file
  is the number of descriptors that name it, provided it was before.
\<close>

theorem trap_counts_files:
  assumes "fd_ok s" and "case cpo of None \<Rightarrow> True | Some cp \<Rightarrow> cp < length (procs s) \<and> \<not> dead (p_state (proc_at cp s))"
    and "trap e k c keys cpo tf s = Inr (out, s')"
  shows "fd_ok s'"
proof -
  have "ensures (\<lambda>(out, s'). fd_ok s') (trap e k c keys cpo tf s)"
    by (rule trap_fds [OF fd_okD [OF assms(1)]])
      (use assms(2) in \<open>auto simp: alive_def fd_slots_def proc_at_def\<close>)
  then show ?thesis using assms(3) by simp
qed

text \<open>A process with one open file, about to call \<^verbatim>\<open>dup(0)\<close>.\<close>

definition dup_tf :: trapframe where
  "dup_tf = (p_tf a_proc)\<lparr>tf_eax := 17, tf_trapno := 48, tf_cs := 27\<rparr>"

definition one_open :: sys where
  "one_open =
     kern.extend
       (fs.extend (formatted\<lparr>procs := [a_proc\<lparr>p_ofile := Some 0 # replicate 15 None\<rparr>]\<rparr>)
         (kern.fields
           (\<lparr>f_type = FD_PIPE, f_ref = 1, f_readable = True, f_writable = False, f_pipe = 0, f_ip = 0, f_off = 0\<rparr> #
            replicate 99 \<lparr>f_type = FD_CLOSED, f_ref = 0, f_readable = False, f_writable = False, f_pipe = 0, f_ip = 0, f_off = 0\<rparr>)
           (\<lambda>_. \<lparr>readopen = True, writeopen = True, writep = 0, readp = 0, pdata = []\<rparr>)
           \<lparr>pmem = \<lambda>_. 0, freelist = 0\<rparr>))
       (sys.fields (setupsegs 0 None) 0
         \<lparr>crt = (\<lambda>_. 0), cursor = 0, lpt = [], panicked = False, in_buf = [], in_r = 0, in_w = 0, in_e = 0\<rparr> 0)"

lemma one_open_ok: "fd_ok one_open"
proof -
  have "fd_slots one_open = [(Some 0 # replicate 15 None, False)]"
    by (simp add: one_open_def fd_slots_def kern.defs fs.defs sys.defs a_proc_def dead_def)
  moreover have "fd_files one_open = (1, False) # replicate 99 (0, True)"
    by (simp add: one_open_def fd_files_def kern.defs fs.defs sys.defs)
  ultimately show ?thesis
    by (auto simp: fd_ok_def fds_ok_def slot_ok_def fd_refs_def NOFILE_def NFILE_def nth_Cons' count_list_0_iff split: if_splits)
qed

theorem trap_counts_files_witness:
  "\<exists>s'. trap \<lparr>e_forkret = 0, e_ts = 0, e_junk = []\<rparr> 0 0 [] (Some 0) dup_tf one_open = Inr (TrapReturns, s')
     \<and> p_ofile (proc_at 0 s') = Some 0 # Some 0 # replicate 14 None \<and> fd_ok s'"
proof -
  let ?e = "\<lparr>e_forkret = 0, e_ts = 0, e_junk = []\<rparr>"
  have rep: "replicate 15 (None :: nat option) = None # replicate 14 None" by (simp add: numeral_eq_Suc)
  have "\<exists>s'. trap ?e 0 0 [] (Some 0) dup_tf one_open = Inr (TrapReturns, s')
     \<and> p_ofile (proc_at 0 s') = Some 0 # Some 0 # replicate 14 None"
    by (simp add: trap_def trap_syscall_def syscall_def syscalls_def dup_tf_def one_open_def kern.defs fs.defs sys.defs
        a_proc_def sys_dup_def argfd_def argint_def fetchint_def read32_def le32_def fdalloc_def set_fd_def filedup_def upd_proc_def
        upd_file_def file_at_def proc_at_def NOFILE_def upt_conv_Cons Let_def set_eax_def T_SYSCALL_def rep)
  then show ?thesis
    using trap_counts_files [OF one_open_ok, where cpo = "Some 0" and e = ?e and k = 0 and c = 0 and keys = "[]" and tf = dup_tf]
    by (fastforce simp: one_open_def kern.defs fs.defs sys.defs a_proc_def proc_at_def dead_def)
qed

end
