(* ===== verification/Kalloc_Spec.thy ===== *)
theory Kalloc_Spec
  imports Kalloc_Refine
begin

text \<open>
  The allocator seen by the rest of the kernel: a set of free bytes. The contract is the
  locale \<open>page_allocator\<close>, interpreted on \<open>kalloc\<close> and \<open>kfree\<close>.
\<close>

section \<open>The allocator as a set of free bytes\<close>

text \<open>State \<open>k\<close> represents the set \<open>A\<close> of free physical bytes.\<close>

definition kmem_free :: "kmem \<Rightarrow> nat set \<Rightarrow> bool" where
  "kmem_free k A \<longleftrightarrow> (\<exists>rs. runs (pmem k) (freelist k) rs \<and> wf_runs 0 rs \<and> A = free_bytes rs)"

definition span :: "addr \<Rightarrow> u32 \<Rightarrow> nat set" where
  "span p n = {unat p..<unat p + unat n}"

text \<open>A request the routines accept: a positive number of whole pages, as a C \<^verbatim>\<open>int\<close>.\<close>

definition pages :: "u32 \<Rightarrow> bool" where
  "pages n \<longleftrightarrow> 0 < unat n \<and> unat n < 2147483648 \<and> 4096 dvd unat n"

definition block :: "addr \<Rightarrow> u32 \<Rightarrow> bool" where
  "block p n \<longleftrightarrow> page_addr p \<and> pages n \<and> unat p + unat n < 2147483648"

lemma pagesD:
  assumes "pages n" shows "\<not> (sint n \<le> 0 \<or> unat n mod 4096 \<noteq> 0)" and "4096 \<le> unat n"
  using assms sint_pos [of n] by (auto simp: pages_def dvd_imp_le)

lemma memset_span:
  assumes "block p n" shows "memset p c n m x = (if unat x \<in> span p n then ucast c else m x)"
  using assms unat_lt_2p32 [of x]
  by (auto simp: memset_def memset_loop_apply in_range_def span_def block_def unat_sub_u32 split: if_splits)

lemma run_in_free:
  assumes "wf_runs b rs" and "(a, l) \<in> set rs" shows "{a..<a + 8} \<subseteq> free_bytes rs"
  using assms
proof (induction rs arbitrary: b)
  case (Cons r rs)
  obtain c m where r: "r = (c, m)" by (cases r)
  have "8 \<le> m" using Cons.prems(1) r dvd_imp_le [of 4096 m] by simp
  then show ?case using Cons r by auto
qed simp

lemma kept_frame:
  assumes "kept k k' Freelist p rs" and "wf_runs b rs" and "unat x \<notin> free_bytes rs"
    and "unat x \<notin> {unat p..<unat p + 8}"
  shows "pmem k' x = pmem k x"
proof -
  have "unat x < a \<or> a + 8 \<le> unat x" if "(a, l) \<in> set rs" for a l
    using run_in_free [OF assms(2) that] assms(3) by (metis atLeastLessThan_iff not_le subsetD)
  then have "untouched Freelist p rs x" using assms(4) by (auto simp: untouched_def)
  then show ?thesis using assms(1) by (simp add: kept_def)
qed

text \<open>A contiguous free region lies inside one run, since adjacent runs have been combined.\<close>

lemma contiguous_in_run:
  assumes "wf_runs b rs" and "{p..<p + n} \<subseteq> free_bytes rs" and "0 < n"
  shows "\<exists>(a, l) \<in> set rs. a \<le> p \<and> p + n \<le> a + l"
  using assms
proof (induction rs arbitrary: b)
  case (Cons r rs)
  obtain a l where r: "r = (a, l)" by (cases r)
  have w: "wf_runs (a + l) rs" using Cons.prems(1) r by auto
  have above: "a + l < x" if "x \<in> free_bytes rs" for x using wf_runs_above [OF w that] by simp
  have p: "p \<in> {p..<p + n}" using Cons.prems(3) by simp
  show ?case
  proof (cases "p < a + l")
    case True
    have "a \<le> p" using subsetD [OF Cons.prems(2) p] above [of p] True r by auto
    moreover have "a + l \<notin> {p..<p + n}"
      using Cons.prems(2) above [of "a + l"] r by auto
    ultimately show ?thesis using True r by auto
  next
    case False
    then have "{p..<p + n} \<subseteq> free_bytes rs" using Cons.prems(2) r by auto
    then show ?thesis using Cons.IH [OF w _ Cons.prems(3)] by auto
  qed
qed auto

lemma kalloc_l_fits:
  assumes "wf_runs b rs" and "4096 dvd n" and "0 < n"
  shows "(\<exists>q. {q..<q + n} \<subseteq> free_bytes rs) \<longleftrightarrow> kalloc_l n rs \<noteq> None"
proof
  assume "\<exists>q. {q..<q + n} \<subseteq> free_bytes rs"
  then obtain q a l where "(a, l) \<in> set rs" "a \<le> q" "q + n \<le> a + l"
    using contiguous_in_run [OF assms(1) _ assms(3)] by blast
  then have "\<not> l < n" by simp
  then show "kalloc_l n rs \<noteq> None" using \<open>(a, l) \<in> set rs\<close> unfolding kalloc_l_None by auto
next
  assume "kalloc_l n rs \<noteq> None"
  then obtain a rs' where "kalloc_l n rs = Some (a, rs')" by auto
  then show "\<exists>q. {q..<q + n} \<subseteq> free_bytes rs" using kalloc_l_correct [OF assms] by metis
qed

section \<open>kfree and kalloc\<close>

lemma kfree_free:
  assumes "kmem_free k A" and "block p n" and "span p n \<inter> A = {}"
  shows "\<exists>k'. kfree k p n = Inr k' \<and> kmem_free k' (A \<union> span p n)
     \<and> (\<forall>x. unat x \<notin> A \<union> span p n \<longrightarrow> pmem k' x = pmem k x)"
proof -
  obtain rs where rs: "runs (pmem k) (freelist k) rs" "wf_runs 0 rs" "A = free_bytes rs"
    using assms(1) by (auto simp: kmem_free_def)
  let ?k = "k\<lparr>pmem := memset p 1 n (pmem k)\<rparr>"
  have b: "page_addr p" "0 < unat n" "4096 dvd unat n" "unat p + unat n < 2147483648"
    and p: "0 < unat p" "4096 dvd unat p" and n: "pages n"
    using assms(2) by (auto simp: block_def pages_def page_addr_def unat_gt_0)
  have "same_hdr (pmem k) (pmem ?k) a" if "(a, l) \<in> set rs" for a l
    using run_in_free [OF rs(2) that] assms(3) rs(3)
    by (auto simp: same_hdr_def memset_span [OF assms(2)])
  then have r: "runs (pmem ?k) (get_loc ?k Freelist) rs" 
    using rs(1) runs_cong [OF rs(2), of "pmem k" "pmem ?k" "freelist k"] by simp
  have d: "{unat p..<unat p + unat n} \<inter> free_bytes rs = {}" using assms(3) rs(3) by (simp add: span_def)
  obtain rs' where rs': "kfree_l (unat p) (unat n) rs = Some rs'" "wf_runs 0 rs'"
    "free_bytes rs' = A \<union> span p n"
    using kfree_l_correct [OF rs(2) p b(3,2,4) d] rs(3) by (auto simp: span_def)
  obtain k' where k': "kfree_loop ?k p n Freelist = Some (Inr k')"
    "runs (pmem k') (freelist k') rs'" "kept ?k k' Freelist p rs"
    using kfree_loop_refines [OF r rs(2) rs'(1) b(1,2,4) d] p(1) by (auto simp: rp_ok_def)
  have "pmem k' x = pmem k x" if "unat x \<notin> A \<union> span p n" for x
    using kept_frame [OF k'(3) rs(2)] that rs(3) pagesD(2) [OF n]
    by (auto simp: memset_span [OF assms(2)] span_def)
  then show ?thesis
    using k' rs' pagesD [OF n] by (auto simp: kfree_def kmem_free_def)
qed

lemma junk_len:
  assumes "block p n" shows "p < p + run_len (memset p 1 n m) p"
proof -
  have x: "unat (p + 4) = unat p + 4" "unat (p + 4 + 1) = unat p + 5" "unat (p + 4 + 2) = unat p + 6"
    "unat (p + 4 + 3) = unat p + 7"
    using assms by (simp_all add: block_def unat_add_u32 add.assoc)
  have "4096 \<le> unat n" using assms pagesD(2) [of n] by (simp add: block_def)
  then have "run_len (memset p 1 n m) p = le32 1 1 1 1"
    unfolding run_len_def read32_def memset_span [OF assms] span_def atLeastLessThan_iff x by simp
  also have "le32 1 1 1 1 = 16843009" by code_simp
  finally show ?thesis using assms by (simp add: word_less_nat_alt unat_add_u32 block_def)
qed

text \<open>
  Freeing a block whose first page is already free panics, although \<^verbatim>\<open>kfree\<close> has by then
  overwritten the block, including any run header in it, with the junk byte 1.
\<close>

lemma kfree_double_free:
  assumes "kmem_free k A" and "block p n" and "unat p \<in> A"
  shows "kfree k p n = Inl (Panic ''freeing free page'')"
proof -
  obtain rs where rs: "runs (pmem k) (freelist k) rs" "wf_runs 0 rs" "A = free_bytes rs"
    using assms(1) by (auto simp: kmem_free_def)
  let ?k = "k\<lparr>pmem := memset p 1 n (pmem k)\<rparr>"
  have b: "page_addr p" "unat p + unat n < 2147483648" "pages n"
    using assms(2) by (auto simp: block_def)
  have "same_hdr (pmem k) (pmem ?k) a" if "4096 dvd a" "a < unat p" for a
    using pages_apart [of a "unat p"] that b(1)
    by (auto simp: same_hdr_def memset_span [OF assms(2)] span_def page_addr_def)
  then have "kfree_loop ?k p n Freelist = Some (Inl (Panic ''freeing free page''))"
    using kfree_loop_double_free [OF rs(1,2) _ _ b(1,2), of ?k Freelist] assms(3) rs(3)
      junk_len [OF assms(2)] by simp
  then show ?thesis using pagesD [OF b(3)] by (simp add: kfree_def)
qed

lemma kalloc_alloc:
  assumes "kmem_free k A" and "pages n"
  shows "\<exists>p k'. kalloc k n = Inr (p, k')
     \<and> (if \<exists>q. {q..<q + unat n} \<subseteq> A
        then block p n \<and> span p n \<subseteq> A \<and> kmem_free k' (A - span p n)
             \<and> (\<forall>x. unat x \<notin> A \<longrightarrow> pmem k' x = pmem k x)
        else p = 0 \<and> k' = k)"
proof -
  obtain rs where rs: "runs (pmem k) (get_loc k Freelist) rs" "wf_runs 0 rs" "A = free_bytes rs"
    using assms(1) by (auto simp: kmem_free_def)
  have n: "0 < sint n" "4096 dvd unat n" "0 < unat n"
    using assms(2) by (auto simp: pages_def sint_pos)
  note fits = kalloc_l_fits [OF rs(2) n(2,3), folded rs(3)]
  have ref: "rp_ok Freelist 0" by (simp add: rp_ok_def)
  show ?thesis
  proof (cases "kalloc_l (unat n) rs")
    case None
    then show ?thesis
      using kalloc_loop_refines [OF rs(1,2) ref n(1,2)] fits pagesD [OF assms(2)]
      by (auto simp: kalloc_def)
  next
    case (Some ar)
    obtain a rs' where ar: "ar = (a, rs')" by (cases ar)
    obtain p k' where k': "kalloc_loop k n Freelist = Some (p, k')" "unat p = a" "page_addr p"
      "runs (pmem k') (freelist k') rs'" "kept k k' Freelist p rs"
      using kalloc_loop_refines [OF rs(1,2) ref n(1,2)] Some ar by auto
    have l: "wf_runs 0 rs'" "span p n \<subseteq> A" "free_bytes rs' = A - span p n"
      using kalloc_l_correct [OF rs(2) n(2,3) Some [unfolded ar]] k'(2) rs(3) by (auto simp: span_def)
    have "unat p + unat n < 2147483648"
      using contiguous_in_run [OF rs(2) _ n(3)] wf_runs_member [OF rs(2)] l(2) rs(3)
      by (fastforce simp: span_def)
    then have "block p n" using k'(3) assms(2) by (simp add: block_def)
    moreover have "pmem k' x = pmem k x" if "unat x \<notin> A" for x
      using kept_frame [OF k'(5) rs(2)] that rs(3) l(2) pagesD(2) [OF assms(2)]
      by (fastforce simp: span_def)
    ultimately show ?thesis
      using k'(1,4) l fits Some pagesD [OF assms(2)] by (auto simp: kalloc_def kmem_free_def)
  qed
qed

lemma kmem_free_empty: "kmem_free \<lparr>pmem = m, freelist = 0\<rparr> {}"
  unfolding kmem_free_def by (rule exI [of _ "[]"]) simp

section \<open>kinit\<close>

lemma page_mask:
  "unat ((w :: u32) AND NOT (PAGE - 1)) = unat w div 4096 * 4096"
proof -
  have "PAGE - 1 = mask 12" by (simp add: PAGE_def mask_eq_exp_minus_1)
  then show ?thesis using unat_clear_low [of 12 w] by simp
qed

section \<open>The contract of a page allocator\<close>

locale page_allocator =
  fixes repr :: "'s \<Rightarrow> nat set \<Rightarrow> bool" and contents :: "'s \<Rightarrow> mem"
    and alloc :: "'s \<Rightarrow> u32 \<Rightarrow> (addr \<times> 's) res" and free :: "'s \<Rightarrow> addr \<Rightarrow> u32 \<Rightarrow> 's res"
  assumes free_law: "repr s A \<Longrightarrow> block p n \<Longrightarrow> span p n \<inter> A = {} \<Longrightarrow>
      \<exists>s'. free s p n = Inr s' \<and> repr s' (A \<union> span p n)
         \<and> (\<forall>x. unat x \<notin> A \<union> span p n \<longrightarrow> contents s' x = contents s x)"
    and alloc_law: "repr s A \<Longrightarrow> pages n \<Longrightarrow>
      \<exists>p s'. alloc s n = Inr (p, s')
         \<and> (if \<exists>q. {q..<q + unat n} \<subseteq> A
            then block p n \<and> span p n \<subseteq> A \<and> repr s' (A - span p n)
                 \<and> (\<forall>x. unat x \<notin> A \<longrightarrow> contents s' x = contents s x)
            else p = 0 \<and> s' = s)"
begin

lemma alloc_success:
  assumes "repr s A" and "pages n" and "alloc s n = Inr (p, s')" and "p \<noteq> 0"
  shows "block p n \<and> span p n \<subseteq> A \<and> repr s' (A - span p n)
    \<and> (\<forall>x. unat x \<notin> A \<longrightarrow> contents s' x = contents s x)"
  using alloc_law [OF assms(1,2)] assms(3,4) by (auto split: if_splits)

text \<open>Two live allocations never overlap.\<close>

lemma alloc_alloc_disjoint:
  assumes "repr s A" and "pages n" and "alloc s n = Inr (p, s1)" and "p \<noteq> 0"
    and "pages m" and "alloc s1 m = Inr (q, s2)" and "q \<noteq> 0"
  shows "span p n \<inter> span q m = {} \<and> repr s2 (A - span p n - span q m)"
  using alloc_success [OF assms(1-4)] alloc_success [of s1 "A - span p n" m q s2] assms(5-7) by auto

text \<open>
  Giving back what was allocated restores the set of free bytes, and no byte that the rest
  of the kernel was using changes meanwhile.
\<close>

lemma alloc_free_restores:
  assumes "repr s A" and "pages n" and "alloc s n = Inr (p, s1)" and "p \<noteq> 0"
  shows "\<exists>s2. free s1 p n = Inr s2 \<and> repr s2 A
    \<and> (\<forall>x. unat x \<notin> A \<longrightarrow> contents s2 x = contents s x)"
proof -
  note a = alloc_success [OF assms]
  then have "A - span p n \<union> span p n = A" and "span p n \<inter> (A - span p n) = {}" by auto
  then show ?thesis using free_law [of s1 "A - span p n" p n] a by auto
qed

end

interpretation kmem: page_allocator kmem_free pmem kalloc kfree
  by unfold_locales (fact kfree_free, fact kalloc_alloc)

section \<open>Properties\<close>

text \<open>A one-run free list of two pages at 4096, used in the examples below.\<close>

definition two_pages :: kmem where
  "two_pages = set_len 4096 8192 \<lparr>pmem = (\<lambda>_. 0), freelist = 4096\<rparr>"

lemma two_pages_free: "kmem_free two_pages {4096..<12288}"
proof -
  have "run_next (pmem two_pages) 4096 = 0" "run_len (pmem two_pages) 4096 = 8192"
    "freelist two_pages = 4096"
    by code_simp+
  then show ?thesis
    unfolding kmem_free_def by (intro exI [of _ "[(4096, 8192)]"]) (simp add: free_bytes_def)
qed

lemma example_blocks [simp]: "block 4096 4096" "pages 4096" "block 16384 4096" "block 8192 4096"
  "span 4096 4096 = {4096..<8192}" "span 16384 4096 = {16384..<20480}" "span 8192 4096 = {8192..<12288}"
  by (simp_all add: block_def pages_def page_addr_def span_def)

text \<open>
  \<^bold>\<open>C5.\<close> \<^verbatim>\<open>kfree\<close> of a page-aligned block that is not free succeeds. The free list then
  describes exactly the old free bytes plus the block, its runs still sorted, page-aligned and
  fully combined, and no byte of memory outside the free pages has changed.
\<close>

theorem kfree_correct:
  assumes "kmem_free k A" and "block p n" and "span p n \<inter> A = {}"
  shows "\<exists>k'. kfree k p n = Inr k' \<and> kmem_free k' (A \<union> span p n)
     \<and> (\<forall>x. unat x \<notin> A \<union> span p n \<longrightarrow> pmem k' x = pmem k x)"
  by (rule kmem.free_law [OF assms])

theorem kfree_correct_witness:
  "\<exists>k'. kfree two_pages 16384 4096 = Inr k' \<and> kmem_free k' ({4096..<12288} \<union> {16384..<20480})"
  using kfree_correct [OF two_pages_free, of 16384 4096] by auto

text \<open>
  \<^bold>\<open>C4.\<close> \<^verbatim>\<open>kalloc\<close> of a positive number of pages always returns. It returns a block of free
  bytes and removes exactly those from the free list whenever some contiguous range of that
  size is free; otherwise, and only then, it returns 0 and changes nothing. Memory outside the
  free pages is not written.
\<close>

theorem kalloc_correct:
  assumes "kmem_free k A" and "pages n"
  shows "\<exists>p k'. kalloc k n = Inr (p, k')
     \<and> (if \<exists>q. {q..<q + unat n} \<subseteq> A
        then block p n \<and> span p n \<subseteq> A \<and> kmem_free k' (A - span p n)
             \<and> (\<forall>x. unat x \<notin> A \<longrightarrow> pmem k' x = pmem k x)
        else p = 0 \<and> k' = k)"
  by (rule kmem.alloc_law [OF assms])

theorem kalloc_correct_witness:
  "\<exists>p k'. kalloc two_pages 4096 = Inr (p, k') \<and> block p 4096 \<and> span p 4096 \<subseteq> {4096..<12288}
     \<and> kmem_free k' ({4096..<12288} - span p 4096)"
proof -
  have "\<exists>q. {q..<q + unat (4096 :: u32)} \<subseteq> {4096..<12288}" by (rule exI [of _ 4096]) simp
  then show ?thesis using kalloc_correct [OF two_pages_free, of 4096] by auto
qed

text \<open>
  Blocks handed out by successive calls of \<^verbatim>\<open>kalloc\<close> do not overlap, and freeing the
  second one restores the free list to what it was after the first.
\<close>

lemma kalloc_kfree_restores:
  assumes "kmem_free k A" and "pages n" and "pages m"
    and "kalloc k n = Inr (p, k1)" and "p \<noteq> 0" and "kalloc k1 m = Inr (q, k2)" and "q \<noteq> 0"
  shows "span p n \<inter> span q m = {}
    \<and> (\<exists>k3. kfree k2 q m = Inr k3 \<and> kmem_free k3 (A - span p n)
         \<and> (\<forall>x. unat x \<notin> A - span p n \<longrightarrow> pmem k3 x = pmem k1 x))"
  using kmem.alloc_alloc_disjoint [OF assms(1,2,4,5,3,6,7)] kmem.alloc_success [OF assms(1,2,4,5)]
    kmem.alloc_free_restores [OF _ assms(3,6,7)] by blast

text \<open>
  \<^verbatim>\<open>kinit\<close> leaves exactly one megabyte free, starting at the first page boundary
  strictly above the end of the kernel image.
\<close>

lemma kinit_frees_megabyte:
  assumes "unat end_addr < 2146430976"
  shows "\<exists>k. kinit m end_addr = Inr k
     \<and> kmem_free k {Suc (unat end_addr div 4096) * 4096..<Suc (unat end_addr div 4096) * 4096 + 1048576}"
proof -
  let ?s = "(end_addr + PAGE) AND NOT (PAGE - 1)"
  have "unat (end_addr + PAGE) = unat end_addr + 4096"
    using assms by (simp add: PAGE_def unat_add_u32)
  then have s: "unat ?s = Suc (unat end_addr div 4096) * 4096" unfolding page_mask by (simp add: div_add_self2 flip: Suc_eq_plus1 del: mult_Suc)
  have "unat end_addr div 4096 * 4096 \<le> unat end_addr" by simp
  then have "unat ?s + 1048576 < 2147483648" using assms s by simp
  then have "block ?s (256 * PAGE)"
    using s by (simp add: block_def page_addr_def pages_def PAGE_def word_unat_eq_iff)
  then show ?thesis
    using kmem.free_law [OF kmem_free_empty [of m], of ?s "256 * PAGE"] s
    by (auto simp: kinit_def span_def PAGE_def)
qed

end
