(* ===== verification/Sbrk.thy ===== *)
theory Sbrk
  imports Fds Umalloc Kalloc_Spec
begin

text \<open>
  The system call \<^verbatim>\<open>sbrk\<close> from both sides: \<^verbatim>\<open>sys_sbrk\<close> with \<^verbatim>\<open>growproc\<close> and the page allocator in the
  kernel, and the growing memory that \<^verbatim>\<open>malloc\<close> sees in the process.
\<close>

section \<open>The memory of a process\<close>

text \<open>The process sees the bytes of its block at the addresses from 0 on.\<close>

definition proc_view :: "nat \<Rightarrow> 'a sys_scheme \<Rightarrow> uheap \<Rightarrow> bool" where
  "proc_view cp s h \<longleftrightarrow> (let p = proc_at cp s in brk h = p_sz p
     \<and> (\<forall>a. unat a < unat (p_sz p) \<longrightarrow> umem h a = memory s (p_mem p + a)))"

text \<open>The free bytes are \<open>A\<close>, and the block of the process is not among them.\<close>

definition owns_memory :: "nat \<Rightarrow> 'a sys_scheme \<Rightarrow> nat set \<Rightarrow> bool" where
  "owns_memory cp s A \<longleftrightarrow> (let p = proc_at cp s in kmem_free (km s) A \<and> Kalloc_Spec.block (p_mem p) (p_sz p)
     \<and> span (p_mem p) (p_sz p) \<inter> A = {})"

text \<open>The allocator has a block for the new size.\<close>

definition can_grow :: "nat set \<Rightarrow> uheap \<Rightarrow> u32 \<Rightarrow> bool" where
  "can_grow A h n \<longleftrightarrow> (\<exists>q. {q..<q + unat (brk h + n)} \<subseteq> A)"

lemma whole_pages_eq: "whole_pages n \<longleftrightarrow> pages n" "whole_pages n \<longleftrightarrow> \<not> (unat n mod 4096 \<noteq> 0 \<or> sint n \<le> 0)"
  by (auto simp: whole_pages_def pages_def sint_pos dvd_eq_mod_eq_0 not_le)

lemma kmem_free_cong:
  assumes "kmem_free k A" and "freelist k' = freelist k" and "\<And>x. unat x \<in> A \<Longrightarrow> pmem k' x = pmem k x"
  shows "kmem_free k' A"
proof -
  obtain rs where rs: "runs (pmem k) (freelist k) rs" "wf_runs 0 rs" "A = free_bytes rs"
    using assms(1) by (auto simp: kmem_free_def)
  have "same_hdr (pmem k) (pmem k') a" if "(a, l) \<in> set rs" for a l
    using run_in_free [OF rs(2) that] assms(3) rs(3) by (force simp: same_hdr_def)
  then have "runs (pmem k') (freelist k) rs" using runs_cong [OF rs(2), of "pmem k" "pmem k'"] rs(1) by blast
  then show ?thesis using rs(2,3) assms(2) by (auto simp: kmem_free_def)
qed

lemma in_range_span: "unat p + n \<le> 4294967296 \<Longrightarrow> in_range p n x \<longleftrightarrow> unat x \<in> {unat p..<unat p + n}"
  using unat_lt_2p32 [of x] by (auto simp: in_range_def unat_sub_u32)

section \<open>growproc\<close>

text \<open>The copy that \<^verbatim>\<open>growproc\<close> makes: the old bytes, then zeros.\<close>

lemma grown_bytes:
  assumes "Kalloc_Spec.block P sz" and "Kalloc_Spec.block Q (sz + n)" and "unat (sz + n) = unat sz + unat n"
    and "span P sz \<inter> span Q (sz + n) = {}"
    and "m' = memset (Q + sz) 0 n (memmove Q P sz m)"
  shows "unat a < unat (sz + n) \<Longrightarrow> m' (Q + a) = (if unat a < unat sz then m (P + a) else 0)"
    and "unat x \<notin> span Q (sz + n) \<Longrightarrow> m' x = m x"
proof -
  have b: "unat P + unat sz < 2147483648" "unat Q + unat sz + unat n < 2147483648"
    using assms(1-3) by (simp_all add: Kalloc_Spec.block_def)
  have qs: "unat (Q + sz) = unat Q + unat sz" using b(2) by (simp add: unat_add_u32)
  have mv: "memmove Q P sz m x = (if unat x \<in> {unat Q..<unat Q + unat sz} then m (x + (P - Q)) else m x)" for x
    using memmove_apply [of P sz Q m x] in_range_span [of Q "unat sz" x] b by simp
  have ms: "m' x = (if unat x \<in> {unat Q + unat sz..<unat Q + unat sz + unat n} then 0 else memmove Q P sz m x)" for x
    unfolding assms(5) memset_def memset_loop_apply using in_range_span [of "Q + sz" "unat n" x] b(2) qs by simp
  show "m' x = m x" if "unat x \<notin> span Q (sz + n)" using that assms(3) by (auto simp: ms mv span_def)
  assume "unat a < unat (sz + n)"
  then have "unat (Q + a) = unat Q + unat a" "unat a < unat sz + unat n" using b(2) assms(3) by (simp_all add: unat_add_u32)
  then show "m' (Q + a) = (if unat a < unat sz then m (P + a) else 0)" by (auto simp: ms mv algebra_simps)
qed

lemma growproc_grows:
  assumes "owns_memory cp s A" and "cp < length (procs s)" and "P = p_mem (proc_at cp s)" and "sz = p_sz (proc_at cp s)"
    and "pages (sz + n)" and "sz \<le> sz + n" and "{q..<q + unat (sz + n)} \<subseteq> A"
  shows "\<exists>s' Q. growproc ts cp n s = Inr (sz, s') \<and> p_mem (proc_at cp s') = Q \<and> p_sz (proc_at cp s') = sz + n
    \<and> owns_memory cp s' (A - span Q (sz + n) \<union> span P sz)
    \<and> (\<forall>a. unat a < unat (sz + n) \<longrightarrow> memory s' (Q + a) = (if unat a < unat sz then memory s (P + a) else 0))
    \<and> (\<forall>x. unat x \<notin> A \<union> span P sz \<longrightarrow> memory s' x = memory s x)"
proof -
  have o: "kmem_free (km s) A" "Kalloc_Spec.block P sz" "span P sz \<inter> A = {}"
    using assms(1,3,4) unfolding owns_memory_def Let_def by blast+
  have u: "unat (sz + n) = unat sz + unat n"
    using assms(6) unat_lt_2p32 [of sz] unat_lt_2p32 [of n] by (auto simp: unat_word_ariths(1) word_le_nat_alt mod_if split: if_splits)
  obtain Q k1 where a: "kalloc (km s) (sz + n) = Inr (Q, k1)" "Kalloc_Spec.block Q (sz + n)" "span Q (sz + n) \<subseteq> A"
      "kmem_free k1 (A - span Q (sz + n))" "\<forall>x. unat x \<notin> A \<longrightarrow> pmem k1 x = pmem (km s) x"
    using kalloc_alloc [OF o(1) assms(5)] assms(7) by (fastforce split: if_splits)
  define m3 where "m3 = memset (Q + sz) 0 n (memmove Q P sz (pmem k1))"
  note gb = grown_bytes [OF o(2) a(2) u _ m3_def]
  have dis: "span P sz \<inter> span Q (sz + n) = {}" using o(3) a(3) by blast
  have "kmem_free (k1\<lparr>pmem := m3\<rparr>) (A - span Q (sz + n))"
    by (rule kmem_free_cong [OF a(4)]) (use gb(2) dis in auto)
  moreover have "span P sz \<inter> (A - span Q (sz + n)) = {}" using o(3) by blast
  ultimately obtain k4 where f: "kfree (k1\<lparr>pmem := m3\<rparr>) P sz = Inr k4" "kmem_free k4 (A - span Q (sz + n) \<union> span P sz)"
      "\<forall>x. unat x \<notin> A - span Q (sz + n) \<union> span P sz \<longrightarrow> pmem k4 x = m3 x"
    using kfree_free [OF _ o(2), of "k1\<lparr>pmem := m3\<rparr>"] by fastforce
  have Q: "Q \<noteq> 0" using a(2) by (simp add: Kalloc_Spec.block_def page_addr_def)
  obtain s' where s': "growproc ts cp n s = Inr (sz, s')" "km s' = k4" "p_mem (proc_at cp s') = Q" "p_sz (proc_at cp s') = sz + n"
    using a(1) f(1) Q assms(2,3,4)
    by (simp add: growproc_def Let_def k_alloc_def k_free_def set_mem_def m3_def proc_at_def upd_proc_def)
  have new: "unat (Q + b) \<in> span Q (sz + n)" if "unat b < unat (sz + n)" for b
    using that a(2) by (simp add: span_def Kalloc_Spec.block_def unat_add_u32)
  have "memory s' (Q + b) = (if unat b < unat sz then memory s (P + b) else 0)" if b: "unat b < unat (sz + n)" for b
  proof -
    have "unat (Q + b) \<notin> A - span Q (sz + n) \<union> span P sz" using new [OF b] dis by blast
    then have "memory s' (Q + b) = m3 (Q + b)" using f(3) s'(2) by simp
    moreover have "pmem k1 (P + b) = memory s (P + b)" if "unat b < unat sz"
    proof -
      have "unat (P + b) \<in> span P sz" using that o(2) by (simp add: span_def Kalloc_Spec.block_def unat_add_u32)
      then show ?thesis using a(5) o(3) by blast
    qed
    ultimately show ?thesis using gb(1) [OF dis b] by simp
  qed
  moreover have "memory s' x = memory s x" if "unat x \<notin> A \<union> span P sz" for x
    using that f(3) s'(2) gb(2) [OF dis, of x] a(3,5) by auto
  moreover have "owns_memory cp s' (A - span Q (sz + n) \<union> span P sz)"
    unfolding owns_memory_def Let_def s' using a(2) f(2) dis by auto
  ultimately show ?thesis using s' by blast
qed

lemma growproc_refused:
  assumes "kmem_free (km s) A" and "sz = p_sz (proc_at cp s)"
  shows "\<not> whole_pages (sz + n) \<Longrightarrow> growproc ts cp n s = Inl (Panic ''kalloc'')"
    and "whole_pages (sz + n) \<Longrightarrow> \<nexists>q. {q..<q + unat (sz + n)} \<subseteq> A \<Longrightarrow> growproc ts cp n s = Inr (-1, s)"
proof -
  show "growproc ts cp n s = Inl (Panic ''kalloc'')" if "\<not> whole_pages (sz + n)"
    using that assms(2) unfolding whole_pages_eq(2) by (simp add: growproc_def Let_def k_alloc_def kalloc_def)
  show "growproc ts cp n s = Inr (-1, s)" if "whole_pages (sz + n)" "\<nexists>q. {q..<q + unat (sz + n)} \<subseteq> A"
    using that(2) kalloc_alloc [OF assms(1) that(1) [unfolded whole_pages_eq(1)]] assms(2)
    by (auto simp: growproc_def Let_def k_alloc_def)
qed

text \<open>
  \<^bold>\<open>C14.\<close> The kernel implements the \<^verbatim>\<open>sbrk\<close> that \<^verbatim>\<open>malloc\<close> calls. For a process that has its block of memory and
  sees it as the heap \<open>h\<close>, the system call does what \<open>sbrk\<close> says of \<open>h\<close>, where the memory can grow if
  the page allocator has free bytes in one piece: it panics in the same cases, or it returns the same
  number and leaves the process with a block of its own, not among the free bytes, in which it sees
  the new heap, its old bytes and then zeros. No memory in use elsewhere changes. Nothing is said
  of a block that shrinks.
\<close>

theorem sys_sbrk_refines:
  assumes "proc_view cp s h" and "owns_memory cp s A" and "cp < length (procs s)" and "argint cp 0 s = Some n"
  shows "case sbrk (can_grow A) n h of
      Inl e \<Rightarrow> e = Diverges \<or> sys_sbrk ts cp s = Inl e
    | Inr (r, h') \<Rightarrow> \<exists>s' A'. sys_sbrk ts cp s = Inr (SysRet r, s') \<and> proc_view cp s' h' \<and> owns_memory cp s' A'
        \<and> (\<forall>x. unat x \<notin> A \<union> span (p_mem (proc_at cp s)) (p_sz (proc_at cp s)) \<longrightarrow> memory s' x = memory s x)"
proof -
  let ?P = "p_mem (proc_at cp s)" and ?sz = "p_sz (proc_at cp s)"
  have v: "brk h = ?sz" "\<forall>a. unat a < unat ?sz \<longrightarrow> umem h a = memory s (?P + a)" using assms(1) by (simp_all add: proc_view_def Let_def)
  have o: "kmem_free (km s) A" "Kalloc_Spec.block ?P ?sz" using assms(2) by (simp_all add: owns_memory_def Let_def)
  have pos: "\<not> sint ?sz < 0" using o(2) by (simp add: Kalloc_Spec.block_def pages_def sint_u32)
  have sys: "sys_sbrk ts cp s = rbind (growproc ts cp n s) (\<lambda>(a, s1). if sint a < 0 then fails s1 else Inr (SysRet a, s1))"
    using assms(4) by (simp add: sys_sbrk_def)
  note refused = growproc_refused [OF o(1) refl, of cp n ts]
  consider (panic) "\<not> whole_pages (?sz + n)" | (none) "whole_pages (?sz + n)" "\<not> can_grow A h n"
    | (shrink) "whole_pages (?sz + n)" "can_grow A h n" "?sz + n < ?sz" | (grow) "whole_pages (?sz + n)" "can_grow A h n" "?sz \<le> ?sz + n"
    by fastforce
  then show ?thesis
  proof cases
    case panic
    then show ?thesis using refused(1) sys v(1) by (simp add: sbrk_def)
  next
    case none
    then have "growproc ts cp n s = Inr (-1, s)" using refused(2) v(1) by (simp add: can_grow_def)
    then show ?thesis using none sys v(1) assms(1,2) by (auto simp: sbrk_def)
  next
    case shrink
    then show ?thesis using v(1) by (simp add: sbrk_def)
  next
    case grow
    then obtain q where "{q..<q + unat (?sz + n)} \<subseteq> A" using v(1) by (auto simp: can_grow_def)
    from growproc_grows [OF assms(2,3) refl refl _ grow(3) this] grow(1)
    obtain s' Q where g: "growproc ts cp n s = Inr (?sz, s')" "p_mem (proc_at cp s') = Q" "p_sz (proc_at cp s') = ?sz + n"
        "owns_memory cp s' (A - span Q (?sz + n) \<union> span ?P ?sz)"
        "\<forall>a. unat a < unat (?sz + n) \<longrightarrow> memory s' (Q + a) = (if unat a < unat ?sz then memory s (?P + a) else 0)"
        "\<forall>x. unat x \<notin> A \<union> span ?P ?sz \<longrightarrow> memory s' x = memory s x" unfolding whole_pages_eq(1) by blast
    let ?h = "h\<lparr>brk := ?sz + n, umem := memset ?sz 0 n (umem h)\<rparr>"
    have "unat ?sz + unat n < 4294967296" using grow(3) unat_lt_2p32 [of ?sz] unat_lt_2p32 [of n]
      by (auto simp: unat_word_ariths(1) word_le_nat_alt mod_if split: if_splits)
    then have "memset ?sz 0 n (umem h) a = (if unat a < unat ?sz then umem h a else 0)" if "unat a < unat (?sz + n)" for a
      using that in_range_span [of ?sz "unat n" a] by (auto simp: memset_def memset_loop_apply unat_add_u32)
    then have "proc_view cp s' ?h" using g(2,3,5) v(2) by (simp add: proc_view_def Let_def)
    moreover have "sbrk (can_grow A) n h = Inr (?sz, ?h)" using grow v(1) pos by (simp add: sbrk_def Let_def not_less)
    moreover have "sys_sbrk ts cp s = Inr (SysRet ?sz, s')" using sys g(1) pos by simp
    ultimately show ?thesis using g(4,6) by auto
  qed
qed

text \<open>A process of one page that asks for another, in a machine with two free pages.\<close>

definition grower :: sys where
  "grower = one_open\<lparr>procs := [a_proc\<lparr>p_sz := 4096, p_tf := (p_tf a_proc)\<lparr>tf_esp := 0\<rparr>\<rparr>],
     km := two_pages\<lparr>pmem := (pmem two_pages)(0x200005 := 16)\<rparr>\<rparr>"

definition grower_heap :: uheap where
  "grower_heap = \<lparr>umem = (\<lambda>a. memory grower (0x200000 + a)), freep = 0, brk = 4096\<rparr>"

lemma grower_simps: "proc_at 0 grower = a_proc\<lparr>p_sz := 4096, p_tf := (p_tf a_proc)\<lparr>tf_esp := 0\<rparr>\<rparr>" "length (procs grower) = 1"
  "km grower = two_pages\<lparr>pmem := (pmem two_pages)(0x200005 := 16)\<rparr>"
  by (simp_all add: grower_def proc_at_def)

lemma grower_ok: "proc_view 0 grower grower_heap" "owns_memory 0 grower {4096..<12288}" "argint 0 0 grower = Some 4096"
proof -
  show "proc_view 0 grower grower_heap" by (simp add: proc_view_def grower_simps grower_heap_def a_proc_def)
  have "kmem_free (two_pages\<lparr>pmem := (pmem two_pages)(0x200005 := 16)\<rparr>) {4096..<12288}"
    by (rule kmem_free_cong [OF two_pages_free]) auto
  moreover have "Kalloc_Spec.block 0x200000 4096" "span 0x200000 4096 = {2097152..<2101248}"
    by (simp_all add: Kalloc_Spec.block_def pages_def page_addr_def span_def)
  ultimately show "owns_memory 0 grower {4096..<12288}" by (simp add: owns_memory_def grower_simps a_proc_def)
  show "argint 0 0 grower = Some 4096" unfolding argint_def grower_simps by code_simp
qed

theorem sys_sbrk_refines_witness:
  "sbrk (can_grow {4096..<12288}) 4096 grower_heap
     = Inr (4096, grower_heap\<lparr>brk := 8192, umem := memset 4096 0 4096 (umem grower_heap)\<rparr>)
   \<and> (\<exists>s' A'. sys_sbrk 0 0 grower = Inr (SysRet 4096, s')
     \<and> proc_view 0 s' (grower_heap\<lparr>brk := 8192, umem := memset 4096 0 4096 (umem grower_heap)\<rparr>) \<and> owns_memory 0 s' A')"
proof -
  have "can_grow {4096..<12288} grower_heap 4096" unfolding can_grow_def by (rule exI [of _ 4096]) (simp add: grower_heap_def)
  then have "sbrk (can_grow {4096..<12288}) 4096 grower_heap
     = Inr (4096, grower_heap\<lparr>brk := 8192, umem := memset 4096 0 4096 (umem grower_heap)\<rparr>)"
    by (simp add: sbrk_def Let_def whole_pages_def) (simp add: grower_heap_def)
  then show ?thesis using sys_sbrk_refines [OF grower_ok(1,2) _ grower_ok(3), of 0] grower_simps(2) by auto
qed

end
