(* ===== verification/Boot.thy ===== *)
theory Boot
  imports Exec
begin

text \<open>
  The boot loader (\<^verbatim>\<open>bootmain.c\<close>): sectors read with port I/O, segments copied to memory, and the
  jump to the kernel. The contents of the drives and the value of the status port are arguments.
\<close>

section \<open>Definitions\<close>

definition SECTSIZE :: u32 where "SECTSIZE = 512"

definition waitdisk :: "u8 \<Rightarrow> bool" where
  "waitdisk status \<longleftrightarrow> status AND 0xC0 = 0x40"

text \<open>The bytes sent to ports \<^verbatim>\<open>0x1F3\<close> to \<^verbatim>\<open>0x1F6\<close>, read by the drive as in \<^verbatim>\<open>ide.c\<close>.\<close>

definition boot_regs :: "u32 \<Rightarrow> u8 \<times> u8 \<times> u8 \<times> u8" where
  "boot_regs off = (ucast off, ucast (drop_bit 8 off), ucast (drop_bit 16 off), ucast (drop_bit 24 off OR 0xE0))"

type_synonym drives = "bool \<Rightarrow> u32 \<Rightarrow> u8 list"

text \<open>Without a ready drive \<^verbatim>\<open>waitdisk\<close> does not return.\<close>

definition readsect :: "drives \<Rightarrow> u8 \<Rightarrow> addr \<Rightarrow> u32 \<Rightarrow> mem \<Rightarrow> mem option" where
  "readsect d status dst off m =
     (if waitdisk status
      then case ide_addr (boot_regs off) of (dr, sec) \<Rightarrow> Some (store_bytes dst (d dr sec) m)
      else None)"

partial_function (option) readseg_loop :: "drives \<Rightarrow> u8 \<Rightarrow> addr \<Rightarrow> addr \<Rightarrow> u32 \<Rightarrow> mem \<Rightarrow> mem option" where
  "readseg_loop d status eva va off m =
     (if va < eva then Option.bind (readsect d status va off m) (readseg_loop d status eva (va + SECTSIZE) (off + 1))
      else Some m)"

definition readseg :: "drives \<Rightarrow> u8 \<Rightarrow> addr \<Rightarrow> u32 \<Rightarrow> u32 \<Rightarrow> mem \<Rightarrow> mem option" where
  "readseg d status va count off m =
     readseg_loop d status (va + count) (va AND NOT (SECTSIZE - 1)) (off div SECTSIZE + 1) m"

datatype boot_out = BootJump addr mem | BootBad

definition elf_space :: addr where "elf_space = 0x10000"

definition elf_at :: "mem \<Rightarrow> elfhdr" where
  "elf_at m = get_elfhdr (load_bytes m elf_space 52)"

partial_function (option) load_segments :: "drives \<Rightarrow> u8 \<Rightarrow> addr \<Rightarrow> addr \<Rightarrow> mem \<Rightarrow> mem option" where
  "load_segments d status eph ph m =
     (if ph < eph then
        Option.bind
          (readseg d status (ph_va (get_proghdr (load_bytes m ph 32)) AND 0xFFFFFF)
             (ph_memsz (get_proghdr (load_bytes m ph 32))) (ph_offset (get_proghdr (load_bytes m ph 32))) m)
          (load_segments d status eph (ph + 32))
      else Some m)"

definition bootmain :: "drives \<Rightarrow> u8 \<Rightarrow> mem \<Rightarrow> boot_out option" where
  "bootmain d status m =
     Option.bind (readseg d status elf_space (SECTSIZE * 8) 0 m) (\<lambda>m1.
       if elf_magic (elf_at m1) \<noteq> ELF_MAGIC then Some BootBad
       else let ph = elf_space + elf_phoff (elf_at m1); eph = ph + 32 * ucast (elf_phnum (elf_at m1)) in
         map_option (\<lambda>m2. BootJump (elf_entry (elf_at m2) AND 0xFFFFFF) m2) (load_segments d status eph ph m1))"

section \<open>Sectors\<close>

lemma boot_sector:
  assumes "off < 0x10000000"
  shows "ide_addr (boot_regs off) = (False, off)"
proof -
  define b where "b = \<lparr>b_busy = True, b_valid = False, b_dirty = False, b_dev = 0, b_sector = off, b_data = []\<rparr>"
  have "take_bit 28 (unat off) = unat off" using assms by (simp add: take_bit_nat_eq_self word_less_nat_alt)
  then have "unat (take_bit 28 off) = unat off" by (simp only: unsigned_take_bit_eq)
  then have m28: "take_bit 28 off = off" by (simp only: unat_inject_u32)
  have hi: "\<not> bit off n" if "28 \<le> n" for n
    using that by (subst m28 [symmetric]) (simp only: bit_take_bit_iff, simp)
  have "ucast (drop_bit 24 off OR 0xE0) = (ucast (0xe0 OR push_bit 4 (b_dev b AND 1) OR (drop_bit 24 off AND 0x0f)) :: u8)"
    unfolding masks
  proof (rule bit_word_eqI)
    fix n
    show "bit (ucast (drop_bit 24 off OR 0xE0) :: u8) n \<longleftrightarrow>
        bit (ucast (0xe0 OR push_bit 4 (b_dev b AND mask 1) OR (drop_bit 24 off AND mask 4)) :: u8) n"
      using hi [of "24 + n"] by (cases "n < 4") (auto simp: bit_simps bit_0xe0 b_def)
  qed
  moreover have "ucast (v AND 0xff) = (ucast v :: u8)" for v :: u32
    unfolding masks by (rule bit_word_eqI) (simp add: bit_simps)
  ultimately have "boot_regs off = ide_regs b" by (simp add: boot_regs_def ide_regs_def b_def)
  moreover have "off AND 0x0fffffff = off" unfolding masks by (simp only: take_bit_eq_mask [symmetric] m28)
  ultimately show ?thesis using sector_of_eq [of b] by (simp add: sector_of_def b_def)
qed

text \<open>The kernel image: the bytes of the drive from sector 1 on.\<close>

definition kimage :: "drives \<Rightarrow> nat \<Rightarrow> u8" where
  "kimage d k = d False (of_nat (1 + k div 512)) ! (k mod 512)"

definition sectors_ok :: "drives \<Rightarrow> bool" where
  "sectors_ok d \<longleftrightarrow> (\<forall>dr sec. length (d dr sec) = 512)"

lemma store_bytes_nat:
  assumes "unat a + length bs \<le> 4294967296"
  shows "store_bytes a bs m x = (if unat a \<le> unat x \<and> unat x < unat a + length bs then bs ! (unat x - unat a) else m x)"
  using assms unat_lt_2p32 [of x] unat_lt_2p32 [of a] by (auto simp: store_bytes_def unat_sub_u32)

text \<open>The loop copies whole sectors, from \<open>n\<close> sectors before the end.\<close>

lemma readseg_loop_copies:
  assumes "sectors_ok d" and "waitdisk status" and "unat va mod 512 = 0" and "unat eva \<le> unat va + 512 * n" and "unat va + 512 * n < 4294967296"
    and "0 < n \<Longrightarrow> unat va + 512 * (n - 1) < unat eva"
    and "unat off = k + 1" and "k + n < 0xFFFFFFF"
  shows "\<exists>m'. readseg_loop d status eva va off m = Some m'
    \<and> (\<forall>x. m' x = (if unat va \<le> unat x \<and> unat x < unat va + 512 * n then kimage d (512 * k + (unat x - unat va)) else m x))"
  using assms(3-)
proof (induction n arbitrary: va off k m)
  case 0
  then show ?case by (subst readseg_loop.simps) (auto simp: word_less_nat_alt)
next
  case (Suc n)
  have lt: "va < eva" using Suc.prems(4) by (cases n) (auto simp: word_less_nat_alt)
  have va: "unat (va + SECTSIZE) = unat va + 512" using Suc.prems(3) by (simp add: SECTSIZE_def unat_add_u32)
  have off: "unat (off + 1) = unat off + 1" using Suc.prems(5,6) by (simp add: unat_add_u32)
  have sec: "off < 0x10000000" using Suc.prems(5,6) by (simp add: word_less_nat_alt)
  have rs: "readsect d status va off m = Some (store_bytes va (d False off) m)"
    using assms(2) boot_sector [OF sec] by (simp add: readsect_def)
  have IH: "\<exists>m'. readseg_loop d status eva (va + SECTSIZE) (off + 1) m1 = Some m'
    \<and> (\<forall>x. m' x = (if unat (va + SECTSIZE) \<le> unat x \<and> unat x < unat (va + SECTSIZE) + 512 * n
          then kimage d (512 * Suc k + (unat x - unat (va + SECTSIZE))) else m1 x))" for m1
    using Suc.IH [of "va + SECTSIZE" "off + 1" "Suc k" m1] Suc.prems va off by auto
  have off_eq: "off = of_nat (1 + k)" by (rule unat_inject_u32 [THEN iffD1]) (use Suc.prems(5,6) in \<open>simp del: of_nat_add of_nat_Suc\<close>)
  have img: "d False off ! i = kimage d (512 * k + i)" if "i < 512" for i
    using that off_eq by (simp add: kimage_def)
  obtain m' where m': "readseg_loop d status eva (va + SECTSIZE) (off + 1) (store_bytes va (d False off) m) = Some m'"
     "\<forall>x. m' x = (if unat (va + SECTSIZE) \<le> unat x \<and> unat x < unat (va + SECTSIZE) + 512 * n
          then kimage d (512 * Suc k + (unat x - unat (va + SECTSIZE))) else store_bytes va (d False off) m x)" using IH by blast
  have "m' x = (if unat va \<le> unat x \<and> unat x < unat va + 512 * Suc n then kimage d (512 * k + (unat x - unat va)) else m x)" for x
  proof -
    have st: "store_bytes va (d False off) m x = (if unat va \<le> unat x \<and> unat x < unat va + 512 then d False off ! (unat x - unat va) else m x)"
      using store_bytes_nat [of va "d False off" m x] assms(1) Suc.prems(3) by (simp add: sectors_ok_def)
    consider "unat x < unat va" | "unat va \<le> unat x" "unat x < unat va + 512" | "unat va + 512 \<le> unat x" by linarith
    then show ?thesis
    proof cases
      case 2
      then show ?thesis using m'(2) va st img [of "unat x - unat va"] by simp
    next
      case 3
      then have "512 * Suc k + (unat x - (unat va + 512)) = 512 * k + (unat x - unat va)" by simp
      then show ?thesis using 3 m'(2) va st by simp
    qed (use m'(2) va st in simp)
  qed
  then show ?case using m'(1) rs lt by (subst readseg_loop.simps) auto
qed

lemma align_sector: "unat (va AND NOT (SECTSIZE - 1)) = unat va div 512 * 512"
proof -
  have "SECTSIZE - 1 = mask 9" by (simp add: SECTSIZE_def mask_eq_exp_minus_1)
  then show ?thesis using unat_clear_low [of 9 va] by simp
qed

text \<open>The whole sectors that a segment covers.\<close>

definition seg_lo :: "addr \<Rightarrow> nat" where
  "seg_lo va = unat va div 512 * 512"

definition seg_hi :: "addr \<Rightarrow> u32 \<Rightarrow> nat" where
  "seg_hi va count = (unat va + unat count + 511) div 512 * 512"

lemma readseg_copies:
  assumes "sectors_ok d" and "waitdisk status" and "unat va + unat count \<le> 4294966784"
  shows "\<exists>m'. readseg d status va count off m = Some m'
    \<and> (\<forall>x. m' x = (if seg_lo va \<le> unat x \<and> unat x < seg_hi va count then kimage d (512 * (unat off div 512) + (unat x - seg_lo va)) else m x))"
proof -
  let ?va = "va AND NOT (SECTSIZE - 1)"
  define n where "n = (unat va + unat count + 511) div 512 - unat va div 512"
  have lo: "unat ?va = seg_lo va" by (simp add: align_sector seg_lo_def)
  have eva: "unat (va + count) = unat va + unat count" using assms(3) by (simp add: unat_add_u32)
  have hi: "seg_lo va + 512 * n = seg_hi va count"
    by (simp add: n_def seg_lo_def seg_hi_def diff_mult_distrib2 div_le_mono mult.commute)
  have "unat (off div SECTSIZE) = unat off div 512" by (simp add: SECTSIZE_def unat_div)
  then have off: "unat (off div SECTSIZE + 1) = unat off div 512 + 1"
    using unat_lt_2p32 [of off] by (subst unat_add_u32) simp_all
  have "\<exists>m'. readseg_loop d status (va + count) ?va (off div SECTSIZE + 1) m = Some m'
    \<and> (\<forall>x. m' x = (if unat ?va \<le> unat x \<and> unat x < unat ?va + 512 * n then kimage d (512 * (unat off div 512) + (unat x - unat ?va)) else m x))"
  proof (rule readseg_loop_copies [OF assms(1,2)])
    show "unat ?va mod 512 = 0" by (simp add: lo seg_lo_def)
    show "unat (va + count) \<le> unat ?va + 512 * n" unfolding lo hi eva seg_hi_def by linarith
    show "unat ?va + 512 * n < 4294967296" unfolding lo hi seg_hi_def using assms(3) by linarith
    show "unat ?va + 512 * (n - 1) < unat (va + count)" if "0 < n"
    proof -
      have "unat ?va + 512 * (n - 1) = seg_hi va count - 512" using that hi lo by (simp add: diff_mult_distrib2)
      then show ?thesis using that hi unfolding eva seg_hi_def seg_lo_def by linarith
    qed
    show "unat off div 512 + n < 0xFFFFFFF" using unat_lt_2p32 [of off] assms(3) unfolding n_def by linarith
  qed (rule off)
  then show ?thesis unfolding readseg_def lo hi .
qed

section \<open>The kernel in memory\<close>

definition img_elf :: "drives \<Rightarrow> elfhdr" where
  "img_elf d = get_elfhdr (map (kimage d) [0..<52])"

definition img_ph :: "drives \<Rightarrow> nat \<Rightarrow> proghdr" where
  "img_ph d i = get_proghdr (map (\<lambda>k. kimage d (unat (elf_phoff (img_elf d)) + 32 * i + k)) [0..<32])"

definition load_va :: "proghdr \<Rightarrow> addr" where
  "load_va ph = ph_va ph AND 0xFFFFFF"

definition covers :: "proghdr \<Rightarrow> nat \<Rightarrow> bool" where
  "covers ph x \<longleftrightarrow> seg_lo (load_va ph) \<le> x \<and> x < seg_hi (load_va ph) (ph_memsz ph)"

definition seg_ok :: "proghdr \<Rightarrow> bool" where
  "seg_ok ph \<longleftrightarrow> unat (load_va ph) + unat (ph_memsz ph) \<le> 4294966784 \<and> unat (load_va ph) mod 512 = unat (ph_offset ph) mod 512
     \<and> (\<forall>x. covers ph x \<longrightarrow> x < 0x10000 \<or> 0x11000 \<le> x)"

definition loaded :: "drives \<Rightarrow> proghdr \<Rightarrow> mem \<Rightarrow> bool" where
  "loaded d ph m \<longleftrightarrow> (\<forall>i < unat (ph_memsz ph). m (load_va ph + of_nat i) = kimage d (unat (ph_offset ph) + i))"

definition spares :: "proghdr \<Rightarrow> proghdr \<Rightarrow> bool" where
  "spares ph qh \<longleftrightarrow> (\<forall>i < unat (ph_memsz ph). \<not> covers qh (unat (load_va ph) + i))"

definition scratch_ok :: "drives \<Rightarrow> mem \<Rightarrow> bool" where
  "scratch_ok d m \<longleftrightarrow> (\<forall>k < 4096. m (elf_space + of_nat k) = kimage d k)"

lemma scratch_bytes:
  assumes "scratch_ok d m" and "k + n \<le> 4096"
  shows "load_bytes m (elf_space + of_nat k) n = map (\<lambda>i. kimage d (k + i)) [0..<n]"
  using assms by (auto simp: load_bytes_def scratch_ok_def add.assoc simp flip: of_nat_add)

lemma seg_addr:
  assumes "seg_ok ph" and "i < unat (ph_memsz ph)"
  shows "unat (load_va ph + of_nat i) = unat (load_va ph) + i"
proof -
  have "unat (load_va ph) + i < 4294967296" using assms by (simp add: seg_ok_def)
  then show ?thesis by (simp add: unat_add_u32)
qed

lemma one_segment:
  assumes "sectors_ok d" and "waitdisk status" and "seg_ok ph" and "scratch_ok d m"
  shows "\<exists>m'. readseg d status (load_va ph) (ph_memsz ph) (ph_offset ph) m = Some m' \<and> scratch_ok d m' \<and> loaded d ph m'
    \<and> (\<forall>x. covers ph (unat x) \<or> m' x = m x)"
proof -
  obtain m' where r: "readseg d status (load_va ph) (ph_memsz ph) (ph_offset ph) m = Some m'"
      and m': "\<And>x. m' x = (if covers ph (unat x) then kimage d (512 * (unat (ph_offset ph) div 512) + (unat x - seg_lo (load_va ph))) else m x)"
    using readseg_copies [OF assms(1,2), of "load_va ph" "ph_memsz ph" "ph_offset ph" m] assms(3) by (auto simp: seg_ok_def covers_def)
  have "scratch_ok d m'"
  proof -
    have "\<not> covers ph (unat (elf_space + of_nat k))" if "k < 4096" for k
    proof -
      have "unat (elf_space + of_nat k) = 0x10000 + k" using that by (simp add: elf_space_def unat_add_u32)
      then show ?thesis using assms(3) that by (auto simp: seg_ok_def)
    qed
    then show ?thesis using assms(4) m' by (simp add: scratch_ok_def)
  qed
  moreover have "loaded d ph m'"
    unfolding loaded_def
  proof (intro allI impI)
    fix i assume i: "i < unat (ph_memsz ph)"
    have "covers ph (unat (load_va ph) + i)" using i unfolding covers_def seg_lo_def seg_hi_def by linarith
    moreover have "512 * (unat (ph_offset ph) div 512) + (unat (load_va ph) + i - seg_lo (load_va ph)) = unat (ph_offset ph) + i"
    proof -
      have "unat (load_va ph) + i - seg_lo (load_va ph) = unat (load_va ph) mod 512 + i" unfolding seg_lo_def by (simp add: minus_div_mult_eq_mod [symmetric])
      then show ?thesis using assms(3) by (simp add: seg_ok_def)
    qed
    ultimately show "m' (load_va ph + of_nat i) = kimage d (unat (ph_offset ph) + i)"
      using m' [of "load_va ph + of_nat i"] seg_addr [OF assms(3) i] by simp
  qed
  ultimately show ?thesis using r m' by auto
qed

lemma load_segments_loads:
  assumes "sectors_ok d" and "waitdisk status" and "scratch_ok d m" and "i \<le> n"
    and "unat (elf_phoff (img_elf d)) + 32 * n \<le> 4096"
    and "\<forall>j < n. seg_ok (img_ph d j)" and "\<forall>j < n. \<forall>k < n. j < k \<longrightarrow> spares (img_ph d j) (img_ph d k)"
    and "\<forall>j < i. loaded d (img_ph d j) m"
  defines "ph \<equiv> elf_space + elf_phoff (img_elf d)"
  shows "\<exists>m'. load_segments d status (ph + 32 * of_nat n) (ph + 32 * of_nat i) m = Some m' \<and> scratch_ok d m'
    \<and> (\<forall>j < n. loaded d (img_ph d j) m')"
  using assms(3,4,8)
proof (induction "n - i" arbitrary: i m)
  case 0
  then show ?case by (subst load_segments.simps) auto
next
  case (Suc r)
  then have i: "i < n" by simp
  let ?o = "unat (elf_phoff (img_elf d))"
  have at: "unat (ph + 32 * of_nat j) = 0x10000 + ?o + 32 * j" if "j \<le> n" for j
  proof -
    have "ph + 32 * of_nat j = of_nat (0x10000 + ?o + 32 * j)" by (simp add: ph_def elf_space_def)
    moreover have "0x10000 + ?o + 32 * j < 4294967296" using assms(5) that by simp
    ultimately show ?thesis by (simp only: unat_of_nat_u32)
  qed
  have lt: "ph + 32 * of_nat i < ph + 32 * of_nat n" using at [of i] at [of n] i by (simp add: word_less_nat_alt)
  have eq: "ph + 32 * of_nat i = elf_space + of_nat (?o + 32 * i)" by (simp add: ph_def add.assoc)
  have hdr: "get_proghdr (load_bytes m (ph + 32 * of_nat i) 32) = img_ph d i"
    unfolding eq img_ph_def by (subst scratch_bytes [OF Suc.prems(1)]) (use assms(5) i in simp_all)
  obtain m1 where m1: "readseg d status (load_va (img_ph d i)) (ph_memsz (img_ph d i)) (ph_offset (img_ph d i)) m = Some m1"
      "scratch_ok d m1" "loaded d (img_ph d i) m1" "\<forall>x. covers (img_ph d i) (unat x) \<or> m1 x = m x"
    using one_segment [OF assms(1,2) _ Suc.prems(1), of "img_ph d i"] assms(6) i by blast
  have "loaded d (img_ph d j) m1" if "j < Suc i" for j
  proof (cases "j = i")
    case False
    then have "spares (img_ph d j) (img_ph d i)" "loaded d (img_ph d j) m" "seg_ok (img_ph d j)"
      using that i assms(6,7) Suc.prems(3) by auto
    then show ?thesis unfolding loaded_def spares_def using m1(4) seg_addr by metis
  qed (use m1(3) in simp)
  then have "\<exists>m'. load_segments d status (ph + 32 * of_nat n) (ph + 32 * of_nat (Suc i)) m1 = Some m' \<and> scratch_ok d m'
    \<and> (\<forall>j < n. loaded d (img_ph d j) m')"
    using Suc.hyps(1) [of "Suc i" m1] Suc.hyps(2) m1(2) i by auto
  moreover have "ph + 32 * of_nat i + 32 = ph + 32 * of_nat (Suc i)" by (simp add: algebra_simps)
  moreover have "load_segments d status (ph + 32 * of_nat n) (ph + 32 * of_nat i) m =
      load_segments d status (ph + 32 * of_nat n) (ph + 32 * of_nat i + 32) m1"
    by (subst load_segments.simps) (use m1(1) lt hdr in \<open>simp add: load_va_def\<close>)
  ultimately show ?case by (simp only:)
qed

section \<open>Properties\<close>

text \<open>
  \<^bold>\<open>C16.\<close> The boot loader loads the kernel. If the program headers lie in the first page of the image, every
  segment has the same offset within its sector in memory and on disk and stays clear of the
  scratch page, and no segment is rounded into the bytes of an earlier one, then with a ready drive
  \<^verbatim>\<open>bootmain\<close> ends with a jump to the entry point and every segment in memory.
\<close>

theorem bootmain_loads_kernel:
  assumes "sectors_ok d" and "waitdisk status" and "elf_magic (img_elf d) = ELF_MAGIC" and "n = unat (elf_phnum (img_elf d))"
    and "unat (elf_phoff (img_elf d)) + 32 * n \<le> 4096" and "\<forall>j < n. seg_ok (img_ph d j)"
    and "\<forall>j < n. \<forall>k < n. j < k \<longrightarrow> spares (img_ph d j) (img_ph d k)"
  shows "\<exists>m'. bootmain d status m = Some (BootJump (elf_entry (img_elf d) AND 0xFFFFFF) m')
    \<and> (\<forall>j < n. loaded d (img_ph d j) m')"
proof -
  obtain m1 where r: "readseg d status elf_space (SECTSIZE * 8) 0 m = Some m1"
     "\<And>x. m1 x = (if 0x10000 \<le> unat x \<and> unat x < 0x11000 then kimage d (unat x - 0x10000) else m x)"
    using readseg_copies [OF assms(1,2), of elf_space "SECTSIZE * 8" 0 m] by (auto simp: elf_space_def SECTSIZE_def seg_lo_def seg_hi_def)
  have sc: "scratch_ok d m1"
    unfolding scratch_ok_def
  proof (intro allI impI)
    fix k :: nat assume "k < 4096"
    then have "unat (elf_space + of_nat k) = 0x10000 + k" by (simp add: elf_space_def unat_add_u32)
    then show "m1 (elf_space + of_nat k) = kimage d k" using r(2) [of "elf_space + of_nat k"] \<open>k < 4096\<close> by simp
  qed
  have elf: "elf_at m' = img_elf d" if "scratch_ok d m'" for m'
    using scratch_bytes [OF that, of 0 52] by (simp add: elf_at_def img_elf_def)
  obtain m' where "load_segments d status (elf_space + elf_phoff (img_elf d) + 32 * of_nat n) (elf_space + elf_phoff (img_elf d)) m1 = Some m'"
      "scratch_ok d m'" "\<forall>j < n. loaded d (img_ph d j) m'"
    using load_segments_loads [OF assms(1,2) sc _ assms(5-7), of 0] by auto
  moreover have "of_nat n = (ucast (elf_phnum (img_elf d)) :: u32)" by (simp add: assms(4))
  ultimately show ?thesis using r(1) elf [OF sc] elf [of m'] assms(3) by (simp add: bootmain_def Let_def)
qed

text \<open>A kernel with one segment of 4 bytes at \<^verbatim>\<open>0x100000\<close>, stored in sector 9.\<close>

definition example_header :: "u8 list" where
  "example_header =
     [0x7F, 0x45, 0x4C, 0x46] @ replicate 20 0 @ [0x04, 0, 0x10, 0] @ [52, 0, 0, 0] @ replicate 12 0 @ [1, 0] @ replicate 6 0
     @ [1, 0, 0, 0] @ [0, 0x10, 0, 0] @ [0, 0, 0x10, 0] @ [0, 0, 0, 0] @ [4, 0, 0, 0] @ [4, 0, 0, 0] @ replicate 8 0"

definition example_drive :: drives where
  "example_drive dr sec = (if sec = 1 then example_header @ replicate 428 0 else replicate 512 7)"

lemma example_headers:
  "img_elf example_drive = \<lparr>elf_magic = ELF_MAGIC, elf_entry = 0x100004, elf_phoff = 52, elf_phnum = 1\<rparr>"
  "img_ph example_drive 0 = \<lparr>ph_type = 1, ph_offset = 4096, ph_va = 0x100000, ph_filesz = 4, ph_memsz = 4\<rparr>"
  by code_simp+

theorem bootmain_loads_kernel_witness:
  "\<exists>m'. bootmain example_drive 0x40 (\<lambda>_. 0) = Some (BootJump 0x100004 m')
     \<and> m' 0x100003 = 7"
proof -
  have ok: "sectors_ok example_drive" by (simp add: sectors_ok_def example_drive_def example_header_def)
  have seg: "seg_ok (img_ph example_drive 0)"
    by (auto simp: example_headers seg_ok_def covers_def seg_lo_def seg_hi_def load_va_def)
  have "\<exists>m'. bootmain example_drive 0x40 (\<lambda>_. 0) = Some (BootJump (elf_entry (img_elf example_drive) AND 0xFFFFFF) m')
    \<and> (\<forall>j < 1. loaded example_drive (img_ph example_drive j) m')"
    by (rule bootmain_loads_kernel [OF ok]) (use seg in \<open>simp_all add: example_headers waitdisk_def\<close>)
  then show ?thesis
    by (auto simp: example_headers loaded_def load_va_def kimage_def example_drive_def dest!: spec [of _ 3])
qed

end
