(* ===== verification/Mp.thy ===== *)
theory Mp
  imports Spinlock
begin

text \<open>
  The multiprocessor tables (\<^verbatim>\<open>mp.c\<close>, \<^verbatim>\<open>mp.h\<close>): the search for the floating pointer structure in the
  memory of the BIOS, the check of the configuration table, and the processors read from it.
\<close>

section \<open>Structures in memory\<close>

definition read16 :: "mem \<Rightarrow> addr \<Rightarrow> u16" where
  "read16 m a = ucast (m a) OR push_bit 8 (ucast (m (a + 1)))"

definition mp_size :: u32 where "mp_size = 16"
definition mp_physaddr :: "mem \<Rightarrow> addr \<Rightarrow> addr" where "mp_physaddr m p = read32 m (p + 4)"
definition mp_imcrp :: "mem \<Rightarrow> addr \<Rightarrow> u8" where "mp_imcrp m p = m (p + 12)"

definition mpconf_size :: u32 where "mpconf_size = 44"
definition mpconf_length :: "mem \<Rightarrow> addr \<Rightarrow> u16" where "mpconf_length m p = read16 m (p + 4)"
definition mpconf_version :: "mem \<Rightarrow> addr \<Rightarrow> u8" where "mpconf_version m p = m (p + 6)"
definition mpconf_lapicaddr :: "mem \<Rightarrow> addr \<Rightarrow> addr" where "mpconf_lapicaddr m p = read32 m (p + 36)"

definition mpproc_size :: u32 where "mpproc_size = 20"
definition mpproc_apicid :: "mem \<Rightarrow> addr \<Rightarrow> u8" where "mpproc_apicid m p = m (p + 1)"
definition mpproc_flags :: "mem \<Rightarrow> addr \<Rightarrow> u8" where "mpproc_flags m p = m (p + 3)"
definition MPBOOT :: u8 where "MPBOOT = 2"

definition mpioapic_size :: u32 where "mpioapic_size = 8"
definition mpioapic_apicno :: "mem \<Rightarrow> addr \<Rightarrow> u8" where "mpioapic_apicno m p = m (p + 1)"

definition MPPROC :: u8 where "MPPROC = 0"
definition MPBUS :: u8 where "MPBUS = 1"
definition MPIOAPIC :: u8 where "MPIOAPIC = 2"
definition MPIOINTR :: u8 where "MPIOINTR = 3"
definition MPLINTR :: u8 where "MPLINTR = 4"

text \<open>\<^verbatim>\<open>memcmp\<close> of four bytes with a string constant.\<close>

definition has_sig :: "mem \<Rightarrow> addr \<Rightarrow> u8 list \<Rightarrow> bool" where
  "has_sig m p s \<longleftrightarrow> [m p, m (p + 1), m (p + 2), m (p + 3)] = s"

definition sig_mp :: "u8 list" where "sig_mp = [95, 77, 80, 95]"
definition sig_pcmp :: "u8 list" where "sig_pcmp = [80, 67, 77, 80]"

section \<open>Search\<close>

primrec mp_sum_loop :: "mem \<Rightarrow> nat \<Rightarrow> addr \<Rightarrow> u32 \<Rightarrow> u32" where
  "mp_sum_loop m 0 a s = s"
| "mp_sum_loop m (Suc n) a s = mp_sum_loop m n (a + 1) (s + ucast (m a))"

definition mp_sum :: "mem \<Rightarrow> addr \<Rightarrow> u32 \<Rightarrow> u8" where
  "mp_sum m a len = ucast (mp_sum_loop m (nat (sint len)) a 0)"

text \<open>The result 0 means that nothing was found.\<close>

partial_function (option) mp_search1_loop :: "mem \<Rightarrow> addr \<Rightarrow> addr \<Rightarrow> addr option" where
  "mp_search1_loop m e p =
     (if p < e then
        if has_sig m p sig_mp \<and> mp_sum m p mp_size = 0 then Some p else mp_search1_loop m e (p + mp_size)
      else Some 0)"

definition mp_search1 :: "mem \<Rightarrow> addr \<Rightarrow> u32 \<Rightarrow> addr option" where
  "mp_search1 m a len = mp_search1_loop m (a + len) a"

definition mp_search :: "mem \<Rightarrow> addr option" where
  "mp_search m =
     (let p = push_bit 4 (push_bit 8 (ucast (m 0x40F)) OR ucast (m 0x40E)) in
      Option.bind
        (if p \<noteq> 0 then mp_search1 m p 1024
         else let p1 = (push_bit 8 (ucast (m 0x414)) OR ucast (m 0x413)) * 1024 in mp_search1 m (p1 - 1024) 1024)
        (\<lambda>mp. if mp \<noteq> 0 then Some mp else mp_search1 m 0xF0000 0x10000))"

text \<open>The structure and the configuration table it points to, or \<open>None\<close> for a result of 0.\<close>

definition mp_config :: "mem \<Rightarrow> (addr \<times> addr) option option" where
  "mp_config m =
     Option.bind (mp_search m) (\<lambda>mp.
       if mp = 0 \<or> mp_physaddr m mp = 0 then Some None
       else let conf = mp_physaddr m mp in
         if \<not> has_sig m conf sig_pcmp then Some None
         else if mpconf_version m conf \<noteq> 1 \<and> mpconf_version m conf \<noteq> 4 then Some None
         else if mp_sum m conf (ucast (mpconf_length m conf)) \<noteq> 0 then Some None
         else Some (Some (mp, conf)))"

section \<open>mp_init\<close>

text \<open>
  The variables that \<^verbatim>\<open>mp_init\<close> sets, and the bytes written to ports. \<^verbatim>\<open>cpus\<close> holds the \<^verbatim>\<open>apicid\<close>
  fields of the table of \<^verbatim>\<open>NCPU\<close> processors, \<^verbatim>\<open>bcpu\<close> is an index of it.
\<close>

record mpstate =
  apicids :: "u8 list"
  bcpu :: nat
  ismp :: bool
  ncpu :: nat
  ioapic_id :: u8
  lapic :: addr
  outs :: "(u16 \<times> u8) list"

definition mp_bcpu :: "mpstate \<Rightarrow> nat" where
  "mp_bcpu s = bcpu s"

definition mp_proc :: "mem \<Rightarrow> addr \<Rightarrow> mpstate \<Rightarrow> mpstate res" where
  "mp_proc m p s =
     (if ncpu s < NCPU then
        Inr (s\<lparr>apicids := (apicids s)[ncpu s := mpproc_apicid m p],
               bcpu := (if mpproc_flags m p AND MPBOOT \<noteq> 0 then ncpu s else bcpu s),
               ncpu := ncpu s + 1\<rparr>)
      else Inl Diverges)"

text \<open>The message on the console that precedes the panic is left out.\<close>

partial_function (option) mp_entries :: "mem \<Rightarrow> addr \<Rightarrow> addr \<Rightarrow> mpstate \<Rightarrow> mpstate res option" where
  "mp_entries m e p s =
     (if p < e then
        if m p = MPPROC then
          (case mp_proc m p s of Inl x \<Rightarrow> Some (Inl x) | Inr s1 \<Rightarrow> mp_entries m e (p + mpproc_size) s1)
        else if m p = MPIOAPIC then
          mp_entries m e (p + mpioapic_size) (s\<lparr>ioapic_id := mpioapic_apicno m p\<rparr>)
        else if m p \<in> {MPBUS, MPIOINTR, MPLINTR} then mp_entries m e (p + 8) s
        else Some (Inl (Panic ''mp_init''))
      else Some (Inr s))"

text \<open>\<^verbatim>\<open>inb\<close> is what the port \<^verbatim>\<open>0x23\<close> holds.\<close>

definition mp_init :: "mem \<Rightarrow> u8 \<Rightarrow> mpstate \<Rightarrow> mpstate res option" where
  "mp_init m inb s =
     (let s1 = s\<lparr>bcpu := ncpu s\<rparr> in
      Option.bind (mp_config m) (\<lambda>c. case c of
         None \<Rightarrow> Some (Inr s1)
       | Some (mp, conf) \<Rightarrow>
           map_option (\<lambda>r. rbind r (\<lambda>s2.
             Inr (if mp_imcrp m mp \<noteq> 0 then s2\<lparr>outs := outs s2 @ [(0x22, 0x70), (0x23, inb OR 1)]\<rparr> else s2)))
             (mp_entries m (conf + ucast (mpconf_length m conf)) (conf + mpconf_size)
                (s1\<lparr>ismp := True, lapic := mpconf_lapicaddr m conf\<rparr>))))"

section \<open>Termination of the search\<close>

lemma search1_returns:
  assumes "unat e + 16 \<le> 4294967296"
  shows "\<exists>r. mp_search1_loop m e p = Some r \<and> (r = 0 \<or> has_sig m r sig_mp \<and> mp_sum m r mp_size = 0)"
proof (induction "unat e - unat p" arbitrary: p rule: less_induct)
  case less
  show ?case
  proof (cases "p < e")
    case True
    then have "unat (p + mp_size) = unat p + 16" using assms by (simp add: mp_size_def word_less_nat_alt unat_add_u32)
    then have "unat e - unat (p + mp_size) < unat e - unat p" using True by (simp add: word_less_nat_alt)
    from less [OF this] show ?thesis using True by (subst mp_search1_loop.simps) auto
  qed (simp add: mp_search1_loop.simps)
qed

text \<open>Where the code looks, in order.\<close>

definition ebda :: "mem \<Rightarrow> u32" where
  "ebda m = push_bit 4 (push_bit 8 (ucast (m 0x40F)) OR ucast (m 0x40E))"

definition base_kb :: "mem \<Rightarrow> u32" where
  "base_kb m = push_bit 8 (ucast (m 0x414)) OR ucast (m 0x413)"

lemma two_bytes_bound: "unat (push_bit 8 (ucast (a :: u8)) OR ucast (b :: u8) :: u32) < 65536"
proof -
  let ?w = "push_bit 8 (ucast a) OR ucast b :: u32"
  have eq: "take_bit 16 ?w = ?w" by (rule bit_word_eqI) (auto simp: bit_simps dest: bit_imp_le_length)
  have "take_bit 16 (unat ?w) = unat (take_bit 16 ?w)" by (simp only: unsigned_take_bit_eq)
  also have "\<dots> = unat ?w" by (simp only: eq)
  finally show ?thesis using take_bit_nat_less_exp [of 16 "unat ?w"] by simp
qed

lemma mp_search_returns:
  "\<exists>r. mp_search m = Some r \<and> (r = 0 \<or> has_sig m r sig_mp \<and> mp_sum m r mp_size = 0)"
proof -
  have "unat (ebda m) = 16 * unat (push_bit 8 (ucast (m 0x40F)) OR ucast (m 0x40E) :: u32)"
    using two_bytes_bound [of "m 0x40F" "m 0x40E"] by (simp add: ebda_def push_bit_eq_mult unat_word_ariths(2))
  then have e: "unat (ebda m + 1024) + 16 \<le> 4294967296"
    using two_bytes_bound [of "m 0x40F" "m 0x40E"] by (simp add: unat_add_u32)
  have "unat (base_kb m * 1024) = 1024 * unat (base_kb m)"
    using two_bytes_bound [of "m 0x414" "m 0x413"] by (simp add: base_kb_def unat_word_ariths(2))
  then have b: "unat (base_kb m * 1024 - 1024 + 1024) + 16 \<le> 4294967296"
    using two_bytes_bound [of "m 0x414" "m 0x413"] by (simp add: base_kb_def)
  have f: "unat (0xF0000 + 0x10000 :: u32) + 16 \<le> 4294967296" by simp
  show ?thesis
    using search1_returns [OF e, of m "ebda m"] search1_returns [OF b, of m "base_kb m * 1024 - 1024"]
      search1_returns [OF f, of m "0xF0000"]
    unfolding mp_search_def mp_search1_def ebda_def base_kb_def Let_def by (auto split: if_splits)
qed

lemma mp_config_returns:
  "\<exists>c. mp_config m = Some c"
  using mp_search_returns [of m] by (auto simp: mp_config_def Let_def)

section \<open>The entries of the table\<close>

datatype mpentry = Eproc u8 bool | Eioapic u8 | Eother

primrec entry_at :: "mem \<Rightarrow> addr \<Rightarrow> mpentry \<Rightarrow> bool" where
  "entry_at m p (Eproc a b) \<longleftrightarrow> m p = MPPROC \<and> mpproc_apicid m p = a \<and> (mpproc_flags m p AND MPBOOT \<noteq> 0) = b"
| "entry_at m p (Eioapic a) \<longleftrightarrow> m p = MPIOAPIC \<and> mpioapic_apicno m p = a"
| "entry_at m p Eother \<longleftrightarrow> m p \<in> {MPBUS, MPIOINTR, MPLINTR}"

primrec entry_size :: "mpentry \<Rightarrow> nat" where
  "entry_size (Eproc a b) = 20"
| "entry_size (Eioapic a) = 8"
| "entry_size Eother = 8"

primrec entries_at :: "mem \<Rightarrow> addr \<Rightarrow> mpentry list \<Rightarrow> addr \<Rightarrow> bool" where
  "entries_at m p [] e \<longleftrightarrow> p = e"
| "entries_at m p (x # xs) e \<longleftrightarrow> entry_at m p x \<and> unat p + entry_size x \<le> unat e \<and> entries_at m (p + of_nat (entry_size x)) xs e"

primrec cpu_ids :: "mpentry list \<Rightarrow> u8 list" where
  "cpu_ids [] = []"
| "cpu_ids (x # xs) = (case x of Eproc a b \<Rightarrow> [a] | _ \<Rightarrow> []) @ cpu_ids xs"

primrec boot_idx :: "nat \<Rightarrow> mpentry list \<Rightarrow> nat list" where
  "boot_idx n [] = []"
| "boot_idx n (x # xs) = (case x of Eproc a b \<Rightarrow> (if b then [n] else []) @ boot_idx (Suc n) xs | _ \<Rightarrow> boot_idx n xs)"

primrec ioapic_ids :: "mpentry list \<Rightarrow> u8 list" where
  "ioapic_ids [] = []"
| "ioapic_ids (x # xs) = (case x of Eioapic a \<Rightarrow> [a] | _ \<Rightarrow> []) @ ioapic_ids xs"

definition with_entries :: "mpentry list \<Rightarrow> mpstate \<Rightarrow> mpstate" where
  "with_entries es s =
     s\<lparr>apicids := take (ncpu s) (apicids s) @ cpu_ids es @ drop (ncpu s + length (cpu_ids es)) (apicids s),
       bcpu := last (bcpu s # boot_idx (ncpu s) es), ncpu := ncpu s + length (cpu_ids es),
       ioapic_id := last (ioapic_id s # ioapic_ids es)\<rparr>"

lemma entries_read:
  assumes "entries_at m p es e" and "length (apicids s) = NCPU" and "ncpu s \<le> NCPU"
  shows "mp_entries m e p s = Some (if ncpu s + length (cpu_ids es) \<le> NCPU then Inr (with_entries es s) else Inl Diverges)"
  using assms
proof (induction es arbitrary: p s)
  case Nil
  then show ?case by (subst mp_entries.simps) (simp add: with_entries_def)
next
  case (Cons x es)
  have pe: "p < e" using Cons.prems(1) by (cases x) (auto simp: word_less_nat_alt)
  note cs = MPPROC_def MPIOAPIC_def MPBUS_def MPIOINTR_def MPLINTR_def
  show ?case
  proof (cases x)
    case (Eproc a b)
    show ?thesis
    proof (cases "ncpu s < NCPU")
      case True
      let ?s = "s\<lparr>apicids := (apicids s)[ncpu s := a], bcpu := (if b then ncpu s else bcpu s), ncpu := ncpu s + 1\<rparr>"
      have "mp_proc m p s = Inr ?s" using True Cons.prems(1) Eproc by (auto simp: mp_proc_def)
      then have "mp_entries m e p s = mp_entries m e (p + 20) ?s"
        using pe Cons.prems(1) Eproc by (subst mp_entries.simps) (simp add: mpproc_size_def)
      also have "\<dots> = Some (if ncpu ?s + length (cpu_ids es) \<le> NCPU then Inr (with_entries es ?s) else Inl Diverges)"
        using Cons.IH [of "p + 20" ?s] Cons.prems Eproc True by simp
      also have "with_entries es ?s = with_entries (x # es) s"
        using True Cons.prems(2) Eproc by (simp add: with_entries_def take_Suc_conv_app_nth)
      finally show ?thesis using Eproc by simp
    next
      case False
      then show ?thesis
        using pe Cons.prems Eproc by (subst mp_entries.simps) (simp add: mp_proc_def)
    qed
  next
    case (Eioapic a)
    have "mp_entries m e p s = mp_entries m e (p + 8) (s\<lparr>ioapic_id := a\<rparr>)"
      using pe Cons.prems(1) Eioapic by (subst mp_entries.simps) (simp add: mpioapic_size_def cs)
    then show ?thesis
      using Cons.IH [of "p + 8" "s\<lparr>ioapic_id := a\<rparr>"] Cons.prems Eioapic by (simp add: with_entries_def)
  next
    case Eother
    have "mp_entries m e p s = mp_entries m e (p + 8) s"
      using pe Cons.prems(1) Eother by (subst mp_entries.simps) (auto simp: cs)
    then show ?thesis
      using Cons.IH [of "p + 8" s] Cons.prems Eother by (simp add: with_entries_def)
  qed
qed

section \<open>Properties\<close>

text \<open>
  \<^bold>\<open>C26.\<close> The search for the configuration always ends, whatever the memory holds, and what it
  accepts is valid: the floating pointer structure has its signature and checksum, and the
  table it points to has its signature, a known version and a checksum over its full length.
\<close>

theorem mp_config_accepts_valid:
  "\<exists>c. mp_config m = Some c \<and> (case c of None \<Rightarrow> True | Some (mp, conf) \<Rightarrow>
     mp \<noteq> 0 \<and> has_sig m mp sig_mp \<and> mp_sum m mp mp_size = 0 \<and> conf = mp_physaddr m mp \<and> conf \<noteq> 0
     \<and> has_sig m conf sig_pcmp \<and> mpconf_version m conf \<in> {1, 4} \<and> mp_sum m conf (ucast (mpconf_length m conf)) = 0)"
  using mp_search_returns [of m] by (auto simp: mp_config_def Let_def)

text \<open>
  \<^bold>\<open>C25.\<close> \<^verbatim>\<open>mp_init\<close> reads the table: with a valid configuration whose entries fill it, it records the local
  APIC, the identifiers of all processors in order, the last one marked as bootstrap processor and
  the last I/O APIC. With more entries for processors than \<^verbatim>\<open>NCPU\<close> it writes past the end of \<^verbatim>\<open>cpus\<close>.
\<close>

theorem mp_init_reads_table:
  assumes "mp_config m = Some (Some (mp, conf))"
    and "entries_at m (conf + mpconf_size) es (conf + ucast (mpconf_length m conf))"
    and "length (apicids s) = NCPU" and "ncpu s = 0"
  shows "if length (cpu_ids es) \<le> NCPU
    then \<exists>s'. mp_init m inb s = Some (Inr s') \<and> ismp s' \<and> lapic s' = mpconf_lapicaddr m conf
      \<and> ncpu s' = length (cpu_ids es) \<and> take (ncpu s') (apicids s') = cpu_ids es
      \<and> mp_bcpu s' = last (0 # boot_idx 0 es) \<and> ioapic_id s' = last (ioapic_id s # ioapic_ids es)
    else mp_init m inb s = Some (Inl Diverges)"
proof -
  let ?s = "s\<lparr>bcpu := ncpu s, ismp := True, lapic := mpconf_lapicaddr m conf\<rparr>"
  have "mp_entries m (conf + ucast (mpconf_length m conf)) (conf + mpconf_size) ?s =
      Some (if length (cpu_ids es) \<le> NCPU then Inr (with_entries es ?s) else Inl Diverges)"
    using entries_read [OF assms(2), of ?s] assms(3,4) by simp
  then show ?thesis using assms(1,3,4) by (simp add: mp_init_def mp_bcpu_def Let_def with_entries_def)
qed

definition example_mem :: mem where
  "example_mem a =
     (if 0xF0000 \<le> a \<and> a < 0xF0010
      then [95, 77, 80, 95, 0, 16, 0, 0, 1, 4, 144, 0, 0, 0, 0, 0] ! unat (a - 0xF0000)
      else if 0x1000 \<le> a \<and> a < 0x1040
      then ([80, 67, 77, 80, 64, 0, 4, 163] @ replicate 26 0 @ [1, 0, 0, 0, 0xE0, 0xFE, 0, 0, 0, 0] @ [0, 7, 0, 3] @ replicate 16 0)
        ! unat (a - 0x1000)
      else 0)"

lemma example_checks:
  "has_sig example_mem 0xF0000 sig_mp" "mp_sum example_mem 0xF0000 mp_size = 0" "mp_physaddr example_mem 0xF0000 = 0x1000"
  "has_sig example_mem 0x1000 sig_pcmp" "mpconf_version example_mem 0x1000 = 4" "mpconf_length example_mem 0x1000 = 64"
  "mp_sum example_mem 0x1000 64 = 0"
  by code_simp+

lemma example_config: "mp_config example_mem = Some (Some (0xF0000, 0x1000))"
proof -
  have "mp_search1_loop example_mem (0xF0000 + 0x10000) 0xF0000 = Some 0xF0000"
    by (subst mp_search1_loop.simps) (simp add: example_checks)
  moreover have "ebda example_mem = 0" "base_kb example_mem = 0" by code_simp+
  moreover have "mp_search1_loop example_mem 0 p = Some 0" for p by (subst mp_search1_loop.simps) simp
  ultimately have "mp_search example_mem = Some 0xF0000"
    by (simp add: mp_search_def mp_search1_def ebda_def base_kb_def Let_def)
  then show ?thesis by (simp add: mp_config_def example_checks)
qed

theorem mp_init_reads_table_witness:
  "\<exists>s'. mp_init example_mem 0 \<lparr>apicids = replicate 8 0, bcpu = 0, ismp = False, ncpu = 0, ioapic_id = 0, lapic = 0, outs = []\<rparr> = Some (Inr s')
     \<and> ismp s' \<and> lapic s' = 0xFEE00000 \<and> ncpu s' = 1 \<and> take 1 (apicids s') = [7] \<and> mp_bcpu s' = 0 \<and> ioapic_id s' = 0"
proof -
  let ?s = "\<lparr>apicids = replicate 8 0, bcpu = 0, ismp = False, ncpu = 0, ioapic_id = 0, lapic = 0, outs = []\<rparr>"
  have "entry_at example_mem 0x102C (Eproc 7 True)" "mpconf_lapicaddr example_mem 0x1000 = 0xFEE00000" by code_simp+
  then have "entries_at example_mem (0x1000 + mpconf_size) [Eproc 7 True] (0x1000 + ucast (mpconf_length example_mem 0x1000))"
    by (simp add: example_checks mpconf_size_def del: entry_at.simps)
  from mp_init_reads_table [OF example_config this, of ?s 0] show ?thesis
    using \<open>mpconf_lapicaddr example_mem 0x1000 = 0xFEE00000\<close> by (auto simp: NCPU_def)
qed

end
