(* ===== verification/Devices.thy ===== *)
theory Devices
  imports Mp Segments
begin

text \<open>
  The interrupt controllers and the timer (\<^verbatim>\<open>picirq.c\<close>, \<^verbatim>\<open>timer.c\<close>, \<^verbatim>\<open>ioapic.c\<close>, \<^verbatim>\<open>lapic.c\<close>). A routine
  changes the registers of memory-mapped devices or appends to the list of bytes written to
  ports; what the hardware answers is an argument. The meaning of the bytes for the 8259A is
  given by a small model of that chip.
\<close>

type_synonym port_write = "u16 \<times> u8"

section \<open>picirq.c\<close>

definition IO_PIC1 :: u16 where "IO_PIC1 = 0x20"
definition IO_PIC2 :: u16 where "IO_PIC2 = 0xA0"
definition IRQ_SLAVE :: nat where "IRQ_SLAVE = 2"

record pic =
  irqmask :: u16
  pic_outs :: "port_write list"

definition pic_start :: pic where
  "pic_start = \<lparr>irqmask = 0xFFFF AND NOT (push_bit IRQ_SLAVE 1), pic_outs = []\<rparr>"

definition pic_outb :: "u16 \<Rightarrow> u8 \<Rightarrow> pic \<Rightarrow> pic" where
  "pic_outb port v s = s\<lparr>pic_outs := pic_outs s @ [(port, v)]\<rparr>"

definition pic_setmask :: "u16 \<Rightarrow> pic \<Rightarrow> pic" where
  "pic_setmask m s = pic_outb (IO_PIC2 + 1) (ucast (drop_bit 8 m)) (pic_outb (IO_PIC1 + 1) (ucast m) (s\<lparr>irqmask := m\<rparr>))"

definition pic_enable :: "nat \<Rightarrow> pic \<Rightarrow> pic" where
  "pic_enable irq s = pic_setmask (irqmask s AND NOT (push_bit irq 1)) s"

definition pic_init :: "pic \<Rightarrow> pic" where
  "pic_init s =
     (let s1 = fold (\<lambda>(port, v). pic_outb port v)
        [(IO_PIC1 + 1, 0xFF), (IO_PIC2 + 1, 0xFF),
         (IO_PIC1, 0x11), (IO_PIC1 + 1, ucast IRQ_OFFSET), (IO_PIC1 + 1, push_bit IRQ_SLAVE 1), (IO_PIC1 + 1, 0x3),
         (IO_PIC2, 0x11), (IO_PIC2 + 1, ucast (IRQ_OFFSET + 8)), (IO_PIC2 + 1, of_nat IRQ_SLAVE), (IO_PIC2 + 1, 0x3),
         (IO_PIC1, 0x68), (IO_PIC1, 0x0a), (IO_PIC2, 0x68), (IO_PIC2, 0x0a)] s
      in if irqmask s1 \<noteq> 0xFFFF then pic_setmask (irqmask s1) s1 else s1)"

section \<open>timer.c\<close>

definition TIMER_FREQ :: nat where "TIMER_FREQ = 1193182"
definition TIMER_DIV :: "nat \<Rightarrow> nat" where "TIMER_DIV x = (TIMER_FREQ + x div 2) div x"
definition IO_TIMER1 :: u16 where "IO_TIMER1 = 0x40"
definition TIMER_MODE :: u16 where "TIMER_MODE = IO_TIMER1 + 3"
definition TIMER_SEL0 :: u8 where "TIMER_SEL0 = 0"
definition TIMER_RATEGEN :: u8 where "TIMER_RATEGEN = 4"
definition TIMER_16BIT :: u8 where "TIMER_16BIT = 0x30"

definition timer_init :: "pic \<Rightarrow> pic" where
  "timer_init s =
     pic_enable (unat IRQ_TIMER)
       (pic_outb IO_TIMER1 (of_nat (TIMER_DIV 100 div 256))
         (pic_outb IO_TIMER1 (of_nat (TIMER_DIV 100 mod 256))
           (pic_outb TIMER_MODE (TIMER_SEL0 OR TIMER_RATEGEN OR TIMER_16BIT) s)))"

section \<open>ioapic.c\<close>

text \<open>The registers behind \<^verbatim>\<open>ioapic->reg\<close> and \<^verbatim>\<open>ioapic->data\<close>: a write selects a register and stores into it.\<close>

definition REG_ID :: nat where "REG_ID = 0"
definition REG_VER :: nat where "REG_VER = 1"
definition REG_TABLE :: nat where "REG_TABLE = 0x10"
definition INT_DISABLED :: u32 where "INT_DISABLED = 0x00010000"

record ioapic =
  io_reg :: nat
  io_data :: "nat \<Rightarrow> u32"

definition ioapic_read :: "nat \<Rightarrow> ioapic \<Rightarrow> u32 \<times> ioapic" where
  "ioapic_read reg s = (io_data s reg, s\<lparr>io_reg := reg\<rparr>)"

definition ioapic_write :: "nat \<Rightarrow> u32 \<Rightarrow> ioapic \<Rightarrow> ioapic" where
  "ioapic_write reg d s = s\<lparr>io_reg := reg, io_data := (io_data s)(reg := d)\<rparr>"

text \<open>The result says whether the warning about the identifier is printed.\<close>

definition ioapic_init :: "bool \<Rightarrow> u8 \<Rightarrow> ioapic \<Rightarrow> bool \<times> ioapic" where
  "ioapic_init mp id0 s =
     (if \<not> mp then (False, s)
      else case ioapic_read REG_VER s of (ver, s1) \<Rightarrow>
        let maxintr = unat (drop_bit 16 ver AND 0xFF) in
        case ioapic_read REG_ID s1 of (idr, s2) \<Rightarrow>
        let id = drop_bit 24 idr;
            s3 = fold (\<lambda>i t. ioapic_write (REG_TABLE + 2 * i + 1) 0
                   (ioapic_write (REG_TABLE + 2 * i) (INT_DISABLED OR (IRQ_OFFSET + of_nat i)) t)) [0..<maxintr + 1] s2
        in (id \<noteq> ucast id0, s3))"

definition ioapic_enable :: "bool \<Rightarrow> nat \<Rightarrow> u32 \<Rightarrow> ioapic \<Rightarrow> ioapic" where
  "ioapic_enable mp irq cpunum s =
     (if \<not> mp then s
      else ioapic_write (REG_TABLE + 2 * irq + 1) (push_bit 24 cpunum)
        (ioapic_write (REG_TABLE + 2 * irq) ((IRQ_OFFSET + of_nat irq)) s))"

section \<open>lapic.c\<close>

definition LAPIC_ID :: nat where "LAPIC_ID = 0x20 div 4"
definition VER :: nat where "VER = 0x30 div 4"
definition TPR :: nat where "TPR = 0x80 div 4"
definition EOI :: nat where "EOI = 0xB0 div 4"
definition SVR :: nat where "SVR = 0xF0 div 4"
definition ENABLE :: u32 where "ENABLE = 0x100"
definition ESR :: nat where "ESR = 0x280 div 4"
definition ICRLO :: nat where "ICRLO = 0x300 div 4"
definition INIT :: u32 where "INIT = 0x500"
definition STARTUP :: u32 where "STARTUP = 0x600"
definition DELIVS :: u32 where "DELIVS = 0x1000"
definition ASSERT :: u32 where "ASSERT = 0x4000"
definition LEVEL :: u32 where "LEVEL = 0x8000"
definition BCAST :: u32 where "BCAST = 0x80000"
definition ICRHI :: nat where "ICRHI = 0x310 div 4"
definition TIMER :: nat where "TIMER = 0x320 div 4"
definition X1 :: u32 where "X1 = 0xB"
definition PERIODIC :: u32 where "PERIODIC = 0x20000"
definition PCINT :: nat where "PCINT = 0x340 div 4"
definition LINT0 :: nat where "LINT0 = 0x350 div 4"
definition LINT1 :: nat where "LINT1 = 0x360 div 4"
definition ERROR :: nat where "ERROR = 0x370 div 4"
definition MASKED :: u32 where "MASKED = 0x10000"
definition TICR :: nat where "TICR = 0x380 div 4"
definition TDCR :: nat where "TDCR = 0x3E0 div 4"

text \<open>
  The registers of the local APIC of a processor as they were last written, the order of the
  writes, and the bytes written to ports and to the warm reset vector.
\<close>

record lapic_dev =
  l_regs :: "nat \<Rightarrow> u32"
  l_writes :: "(nat \<times> u32) list"
  l_outs :: "port_write list"
  l_wrv :: "u16 \<times> u16"

definition lapicw :: "nat \<Rightarrow> u32 \<Rightarrow> lapic_dev \<Rightarrow> lapic_dev" where
  "lapicw index v s = s\<lparr>l_regs := (l_regs s)(index := v), l_writes := l_writes s @ [(index, v)]\<rparr>"

text \<open>The values that successive reads of \<^verbatim>\<open>lapic[ICRLO]\<close> give; the loop ends at the first with \<^verbatim>\<open>DELIVS\<close> clear.\<close>

primrec wait_delivery :: "u32 list \<Rightarrow> unit res" where
  "wait_delivery [] = Inl Diverges"
| "wait_delivery (v # vs) = (if v AND DELIVS \<noteq> 0 then wait_delivery vs else Inr ())"

definition lapic_init :: "addr \<Rightarrow> u32 list \<Rightarrow> lapic_dev \<Rightarrow> lapic_dev res" where
  "lapic_init base polls s =
     (if base = 0 then Inr s
      else
        let s1 = lapicw SVR (ENABLE OR (IRQ_OFFSET + IRQ_SPURIOUS)) s;
            s2 = lapicw TDCR X1 s1;
            s3 = lapicw TIMER (PERIODIC OR (IRQ_OFFSET + IRQ_TIMER)) s2;
            s4 = lapicw TICR 10000000 s3;
            s5 = lapicw LINT1 MASKED (lapicw LINT0 MASKED s4);
            s6 = (if unat (drop_bit 16 (l_regs s5 VER) AND 0xFF) \<ge> 4 then lapicw PCINT MASKED s5 else s5);
            s7 = lapicw ERROR ((IRQ_OFFSET + IRQ_ERROR)) s6;
            s8 = lapicw ESR 0 (lapicw ESR 0 s7);
            s9 = lapicw EOI 0 s8;
            s10 = lapicw ICRLO (BCAST OR INIT OR LEVEL) (lapicw ICRHI 0 s9)
        in rbind (wait_delivery polls) (\<lambda>_. Inr (lapicw TPR 0 s10)))"

text \<open>\<^verbatim>\<open>cpu\<close>; the warning that interrupts are enabled has no effect on the result.\<close>

definition lapic_cpu :: "addr \<Rightarrow> lapic_dev \<Rightarrow> u32" where
  "lapic_cpu base s = (if base \<noteq> 0 then drop_bit 24 (l_regs s LAPIC_ID) else 0)"

definition lapic_eoi :: "addr \<Rightarrow> lapic_dev \<Rightarrow> lapic_dev" where
  "lapic_eoi base s = (if base \<noteq> 0 then lapicw EOI 0 s else s)"

definition IO_RTC :: u16 where "IO_RTC = 0x70"

definition lapic_startap :: "u8 \<Rightarrow> u32 \<Rightarrow> lapic_dev \<Rightarrow> lapic_dev" where
  "lapic_startap apicid code s =
     (let s1 = s\<lparr>l_outs := l_outs s @ [(IO_RTC, 0xF), (IO_RTC + 1, 0x0A)], l_wrv := (0, ucast (drop_bit 4 code))\<rparr>;
          s2 = lapicw ICRHI (push_bit 24 (ucast apicid)) s1;
          s3 = lapicw ICRLO (INIT OR LEVEL OR ASSERT) s2;
          s4 = lapicw ICRLO (INIT OR LEVEL) s3
      in fold (\<lambda>i t. lapicw ICRLO (STARTUP OR drop_bit 12 code) (lapicw ICRHI (push_bit 24 (ucast apicid)) t)) [0..<2] s4)"

section \<open>The 8259A\<close>

text \<open>
  What the chip does with the bytes written to its two ports: a command byte with bit 4 starts
  an initialisation, which clears the mask and takes the next bytes at the data port as vector,
  cascade and mode; otherwise a byte at the data port is the mask.
\<close>

datatype phase = Idle | Want2 | Want3 | Want4

record pic_chip =
  c_phase :: phase
  c_need4 :: bool
  c_vector :: u8
  c_cascade :: u8
  c_mode :: u8
  c_mask :: u8

definition chip_cmd :: "u8 \<Rightarrow> pic_chip \<Rightarrow> pic_chip" where
  "chip_cmd v c = (if bit v 4 then c\<lparr>c_phase := Want2, c_need4 := bit v 0, c_mask := 0\<rparr> else c)"

definition chip_data :: "u8 \<Rightarrow> pic_chip \<Rightarrow> pic_chip" where
  "chip_data v c =
     (case c_phase c of
        Idle \<Rightarrow> c\<lparr>c_mask := v\<rparr>
      | Want2 \<Rightarrow> c\<lparr>c_vector := v, c_phase := Want3\<rparr>
      | Want3 \<Rightarrow> c\<lparr>c_cascade := v, c_phase := (if c_need4 c then Want4 else Idle)\<rparr>
      | Want4 \<Rightarrow> c\<lparr>c_mode := v, c_phase := Idle\<rparr>)"

definition chip_write :: "u16 \<Rightarrow> port_write \<Rightarrow> pic_chip \<Rightarrow> pic_chip" where
  "chip_write base w c =
     (if fst w = base then chip_cmd (snd w) c else if fst w = base + 1 then chip_data (snd w) c else c)"

definition chip_run :: "u16 \<Rightarrow> port_write list \<Rightarrow> pic_chip \<Rightarrow> pic_chip" where
  "chip_run base ws c = fold (chip_write base) ws c"

lemma chip_run_simps [simp]:
  "chip_run base [] c = c" "chip_run base (w # ws) c = chip_run base ws (chip_write base w c)"
  "chip_run base (us @ ws) c = chip_run base ws (chip_run base us c)"
  by (simp_all add: chip_run_def)

text \<open>Both chips are set up, and their masks are the two bytes of \<^verbatim>\<open>irqmask\<close>.\<close>

definition chip_ok :: "u8 \<Rightarrow> u8 \<Rightarrow> u8 \<Rightarrow> pic_chip \<Rightarrow> bool" where
  "chip_ok vec cas m c \<longleftrightarrow> c_phase c = Idle \<and> c_vector c = vec \<and> c_cascade c = cas \<and> c_mode c = 3 \<and> c_mask c = m"

definition pics_ok :: "pic_chip \<Rightarrow> pic_chip \<Rightarrow> pic \<Rightarrow> bool" where
  "pics_ok c1 c2 s \<longleftrightarrow>
     chip_ok 32 4 (ucast (irqmask s)) (chip_run IO_PIC1 (pic_outs s) c1)
     \<and> chip_ok 40 2 (ucast (drop_bit 8 (irqmask s))) (chip_run IO_PIC2 (pic_outs s) c2)"

lemmas pic_ports = IO_PIC1_def IO_PIC2_def IO_TIMER1_def TIMER_MODE_def

lemma pics_setmask:
  assumes "pics_ok c1 c2 s"
  shows "pics_ok c1 c2 (pic_setmask m s)"
  using assms by (simp add: pics_ok_def chip_ok_def pic_setmask_def pic_outb_def chip_write_def chip_data_def pic_ports)

lemma pics_init:
  assumes "irqmask s \<noteq> 0xFFFF"
  shows "pics_ok c1 c2 (pic_init s)" "irqmask (pic_init s) = irqmask s"
  using assms
  by (simp_all add: pics_ok_def chip_ok_def pic_init_def pic_setmask_def pic_outb_def chip_write_def chip_data_def chip_cmd_def
      pic_ports IRQ_OFFSET_def IRQ_SLAVE_def Let_def split: phase.splits)

lemma pics_enable:
  assumes "pics_ok c1 c2 s"
  shows "pics_ok c1 c2 (fold pic_enable irqs s)"
    "i < 16 \<Longrightarrow> bit (irqmask (fold pic_enable irqs s)) i \<longleftrightarrow> bit (irqmask s) i \<and> i \<notin> set irqs"
proof -
  have m: "irqmask (pic_enable irq t) = irqmask t AND NOT (push_bit irq 1)" for irq t
    by (simp add: pic_enable_def pic_setmask_def pic_outb_def)
  show "pics_ok c1 c2 (fold pic_enable irqs s)"
    using assms by (induction irqs arbitrary: s) (simp_all add: pic_enable_def pics_setmask)
  show "bit (irqmask (fold pic_enable irqs s)) i \<longleftrightarrow> bit (irqmask s) i \<and> i \<notin> set irqs" if "i < 16"
    using that by (induction irqs arbitrary: s) (auto simp: m bit_simps)
qed

lemma pic_start_mask:
  shows "irqmask pic_start \<noteq> 0xFFFF" and "i < 16 \<Longrightarrow> bit (irqmask pic_start) i \<longleftrightarrow> i \<noteq> IRQ_SLAVE"
proof -
  show "irqmask pic_start \<noteq> 0xFFFF" by (simp add: pic_start_def IRQ_SLAVE_def)
  have "irqmask pic_start = NOT (push_bit IRQ_SLAVE 1)" by (simp add: pic_start_def IRQ_SLAVE_def)
  then show "bit (irqmask pic_start) i \<longleftrightarrow> i \<noteq> IRQ_SLAVE" if "i < 16" using that by (auto simp only: bit_simps) simp
qed

definition line_enabled :: "pic_chip \<Rightarrow> pic_chip \<Rightarrow> nat \<Rightarrow> bool" where
  "line_enabled c1 c2 i = (if i < 8 then \<not> bit (c_mask c1) i else \<not> bit (c_mask c2) (i - 8))"

lemma pics_lines:
  assumes "pics_ok c1 c2 s" and "i < 16"
  shows "line_enabled (chip_run IO_PIC1 (pic_outs s) c1) (chip_run IO_PIC2 (pic_outs s) c2) i \<longleftrightarrow> \<not> bit (irqmask s) i"
  using assms by (auto simp: pics_ok_def chip_ok_def line_enabled_def bit_simps)

section \<open>The redirection table\<close>

lemma ioapic_write_table: "io_data (ioapic_write r d s) = (io_data s)(r := d)"
  by (simp add: ioapic_write_def)

definition routed :: "nat \<Rightarrow> u32 \<Rightarrow> ioapic \<Rightarrow> bool" where
  "routed i c s \<longleftrightarrow> io_data s (REG_TABLE + 2 * i) = (IRQ_OFFSET + of_nat i) \<and> io_data s (REG_TABLE + 2 * i + 1) = push_bit 24 c"

definition disabled :: "nat \<Rightarrow> ioapic \<Rightarrow> bool" where
  "disabled i s \<longleftrightarrow> io_data s (REG_TABLE + 2 * i) = INT_DISABLED OR (IRQ_OFFSET + of_nat i) \<and> io_data s (REG_TABLE + 2 * i + 1) = 0"

definition init_entry :: "nat \<Rightarrow> ioapic \<Rightarrow> ioapic" where
  "init_entry i t = ioapic_write (REG_TABLE + 2 * i + 1) 0 (ioapic_write (REG_TABLE + 2 * i) (INT_DISABLED OR (IRQ_OFFSET + of_nat i)) t)"

lemma odd_even: "2 * (i :: nat) \<noteq> Suc (2 * j)" "Suc (2 * j) \<noteq> 2 * (i :: nat)"
  by presburger+

lemma init_entries: "i < n \<Longrightarrow> disabled i (fold init_entry [0..<n] s)"
  by (induction n) (auto simp: less_Suc_eq disabled_def init_entry_def ioapic_write_table odd_even)

lemma enable_entry:
  "routed i c (ioapic_enable True i c s)"
  "i \<noteq> j \<Longrightarrow> routed j d (ioapic_enable True i c s) = routed j d s"
  "i \<noteq> j \<Longrightarrow> disabled j (ioapic_enable True i c s) = disabled j s"
  by (simp_all add: routed_def disabled_def ioapic_enable_def ioapic_write_table odd_even)

lemma enable_others:
  assumes "i \<notin> fst ` set rs"
  shows "routed i c (fold (\<lambda>(irq, c). ioapic_enable True irq c) rs s) = routed i c s"
    "disabled i (fold (\<lambda>(irq, c). ioapic_enable True irq c) rs s) = disabled i s"
  using assms by (induction rs arbitrary: s) (auto simp: enable_entry)

lemma enable_entries:
  assumes "disabled i s" and "distinct (map fst rs)"
  shows "case map_of rs i of None \<Rightarrow> disabled i (fold (\<lambda>(irq, c). ioapic_enable True irq c) rs s)
    | Some c \<Rightarrow> routed i c (fold (\<lambda>(irq, c). ioapic_enable True irq c) rs s)"
  using assms
proof (induction rs arbitrary: s)
  case (Cons r rs)
  obtain j c where r: "r = (j, c)" by (cases r)
  show ?case
  proof (cases "j = i")
    case True
    then show ?thesis using Cons.prems(2) r by (simp add: enable_others enable_entry)
  next
    case False
    then show ?thesis
      using Cons.IH [of "ioapic_enable True j c s"] Cons.prems r by (cases "map_of rs i") (simp_all add: enable_entry)
  qed
qed simp

section \<open>The local APIC\<close>

lemma wait_delivery_cases: "wait_delivery vs = (if \<exists>v \<in> set vs. v AND DELIVS = 0 then Inr () else Inl Diverges)"
  by (induction vs) auto

section \<open>Properties\<close>

text \<open>
  Whatever state the two 8259A chips are in, after \<^verbatim>\<open>pic_init\<close> they deliver their interrupts at
  vectors 32 to 39 and 40 to 47, connected by line 2, and after any calls of \<^verbatim>\<open>pic_enable\<close> exactly the
  lines named by the calls and line 2 are enabled.
\<close>

lemma pic_enables_lines:
  assumes "i < 16" and "s = fold pic_enable irqs (pic_init pic_start)"
    and "d1 = chip_run IO_PIC1 (pic_outs s) c1" and "d2 = chip_run IO_PIC2 (pic_outs s) c2"
  shows "(line_enabled d1 d2 i \<longleftrightarrow> i = IRQ_SLAVE \<or> i \<in> set irqs)
    \<and> c_vector d1 = ucast IRQ_OFFSET \<and> c_vector d2 = ucast (IRQ_OFFSET + 8)
    \<and> c_cascade d1 = push_bit IRQ_SLAVE 1 \<and> c_cascade d2 = of_nat IRQ_SLAVE"
proof -
  note ok = pics_init(1) [OF pic_start_mask(1), of c1 c2] pics_init(2) [OF pic_start_mask(1)]
  note start = pic_start_mask(2) [OF assms(1)]
  have "pics_ok c1 c2 s" using pics_enable(1) [OF ok(1)] assms(2) by simp
  moreover have "bit (irqmask s) i \<longleftrightarrow> i \<noteq> IRQ_SLAVE \<and> i \<notin> set irqs"
    using pics_enable(2) [OF ok(1) assms(1)] ok(2) start assms(2) by simp
  ultimately show ?thesis
    using pics_lines [of c1 c2 s i] assms(1,3,4) by (simp add: pics_ok_def chip_ok_def IRQ_OFFSET_def IRQ_SLAVE_def)
qed

text \<open>
  \<^bold>\<open>C27.\<close> After \<^verbatim>\<open>ioapic_init\<close> and calls of \<^verbatim>\<open>ioapic_enable\<close> for different interrupts, each interrupt
  named by a call has its vector \<^verbatim>\<open>IRQ_OFFSET\<close> + \<^verbatim>\<open>irq\<close> enabled and routed to the processor of the call,
  and every other one that the chip has is disabled and routed to none.
\<close>

theorem ioapic_routes_enabled:
  assumes "i \<le> unat (drop_bit 16 (io_data s REG_VER) AND 0xFF)" and "distinct (map fst rs)"
    and "s' = fold (\<lambda>(irq, c). ioapic_enable True irq c) rs (snd (ioapic_init True id0 s))"
  shows "case map_of rs i of None \<Rightarrow> disabled i s' | Some c \<Rightarrow> routed i c s'"
proof -
  let ?n = "unat (drop_bit 16 (io_data s REG_VER) AND 0xFF)"
  have "snd (ioapic_init True id0 s) = fold init_entry [0..<?n + 1] (s\<lparr>io_reg := REG_ID\<rparr>)"
    by (simp add: ioapic_init_def ioapic_read_def Let_def init_entry_def [abs_def])
  then have "disabled i (snd (ioapic_init True id0 s))" using init_entries [of i "?n + 1"] assms(1) by simp
  then show ?thesis unfolding assms(3) by (rule enable_entries [OF _ assms(2)])
qed

theorem ioapic_routes_enabled_witness:
  "let s = \<lparr>io_reg = 0, io_data = (\<lambda>_. 0)(REG_VER := 0x170011)\<rparr>;
       s' = ioapic_enable True 14 1 (ioapic_enable True 1 0 (snd (ioapic_init True 0 s)))
   in routed 14 1 s' \<and> routed 1 0 s' \<and> disabled 23 s'"
proof -
  let ?s = "\<lparr>io_reg = 0, io_data = (\<lambda>_. 0)(REG_VER := 0x170011)\<rparr>"
  have n: "unat (drop_bit 16 (io_data ?s REG_VER) AND 0xFF) = 23" by simp
  show ?thesis
    using ioapic_routes_enabled [of 14 ?s "[(1, 0), (14, 1)]" _ 0] ioapic_routes_enabled [of 1 ?s "[(1, 0), (14, 1)]" _ 0]
      ioapic_routes_enabled [of 23 ?s "[(1, 0), (14, 1)]" _ 0] n by (simp add: Let_def)
qed

end
