(* ===== verification/Kmain.thy ===== *)
theory Kmain
  imports Fds Devices Printf Kalloc_Spec
begin

text \<open>
  The start of the kernel (\<^verbatim>\<open>main.c\<close>, with \<^verbatim>\<open>console_init\<close> and the interrupt set-up of \<^verbatim>\<open>ide_init\<close>): the
  initialisers in their order on the state of the whole machine, the start of the other processors
  and the way of a processor into the scheduler.
\<close>

section \<open>State\<close>

text \<open>What the build and the hardware provide.\<close>

record boot_env =
  be_edata :: addr
  be_end :: addr
  be_vectors :: "nat \<Rightarrow> u32"
  be_forkret :: addr
  be_mpmain :: addr
  be_initcode :: "u8 list"
  be_bootother :: "u8 list"
  be_imcr :: u8
  be_polls :: "u32 list"
  be_ide :: "nat \<Rightarrow> u8"
  be_answers :: "nat \<Rightarrow> bool"

record machine =
  b_mp :: mpstate
  b_pic :: pic
  b_ioapic :: ioapic
  b_lapic :: lapic_dev
  b_links :: links
  b_idt :: "gatedesc list"
  b_booted :: "nat list"
  b_sys :: sys

definition on_sys :: "(sys \<Rightarrow> sys res) \<Rightarrow> machine \<Rightarrow> machine res" where
  "on_sys f b = rbind (f (b_sys b)) (\<lambda>s. Inr (b\<lparr>b_sys := s\<rparr>))"

section \<open>Initialisers\<close>

definition cpu_num :: "machine \<Rightarrow> u32" where
  "cpu_num b = lapic_cpu (lapic (b_mp b)) (b_lapic b)"

definition enable_irq :: "u32 \<Rightarrow> u32 \<Rightarrow> machine \<Rightarrow> machine" where
  "enable_irq irq c b =
     b\<lparr>b_pic := pic_enable (unat irq) (b_pic b), b_ioapic := ioapic_enable (ismp (b_mp b)) (unat irq) c (b_ioapic b)\<rparr>"

text \<open>The device table is \<^const>\<open>dev_table\<close>; the locks of the console are left out.\<close>

definition console_init :: "machine \<Rightarrow> machine" where
  "console_init b = enable_irq IRQ_KBD 0 b"

definition ide_setup :: "boot_env \<Rightarrow> machine \<Rightarrow> machine res" where
  "ide_setup e b = on_sys (ide_init (be_ide e)) (enable_irq IRQ_IDE (of_nat (ncpu (b_mp b)) - 1) b)"

definition init_mp :: "boot_env \<Rightarrow> machine \<Rightarrow> machine res" where
  "init_mp e b =
     (case mp_init (pmem (km (b_sys b))) (be_imcr e) (b_mp b) of
        None \<Rightarrow> Inl Diverges
      | Some r \<Rightarrow> rbind r (\<lambda>mp. Inr (b\<lparr>b_mp := mp\<rparr>)))"

definition init_lapic :: "boot_env \<Rightarrow> machine \<Rightarrow> machine res" where
  "init_lapic e b = rbind (lapic_init (lapic (b_mp b)) (be_polls e) (b_lapic b)) (\<lambda>l. Inr (b\<lparr>b_lapic := l\<rparr>))"

definition init_mem :: "boot_env \<Rightarrow> sys \<Rightarrow> sys res" where
  "init_mem e s =
     rbind (k_printf ''mem = %d'' [ArgWord (256 * PAGE)] s) (\<lambda>s1.
     rbind (kinit (pmem (km s1)) (be_end e)) (\<lambda>k. Inr (s1\<lparr>km := k\<rparr>)))"

section \<open>Other processors\<close>

text \<open>\<^verbatim>\<open>be_answers c\<close> says whether processor \<open>c\<close> gets through its bootstrap; the loop waits forever otherwise.\<close>

primrec start_others :: "boot_env \<Rightarrow> nat list \<Rightarrow> machine \<Rightarrow> machine res" where
  "start_others e [] b = Inr b"
| "start_others e (c # cs) b =
     (if of_nat c = cpu_num b then start_others e cs b
      else rbind (k_alloc KSTACKSIZE (b_sys b)) (\<lambda>(stack, s1).
        let s2 = set_mem (write32 (0x7000 - 4) (stack + KSTACKSIZE) (memory s1)) s1;
            s3 = set_mem (write32 (0x7000 - 8) (be_mpmain e) (memory s2)) s2;
            b1 = b\<lparr>b_sys := s3, b_lapic := lapic_startap (apicids (b_mp b) ! c) 0x7000 (b_lapic b)\<rparr>
        in if be_answers e c then start_others e cs (b1\<lparr>b_booted := b_booted b1 @ [c]\<rparr>) else Inl Diverges))"

definition bootothers :: "boot_env \<Rightarrow> machine \<Rightarrow> machine res" where
  "bootothers e b =
     start_others e [0..<ncpu (b_mp b)]
       (b\<lparr>b_sys := set_mem (store_bytes 0x7000 (be_bootother e) (memory (b_sys b))) (b_sys b)\<rparr>)"

text \<open>\<^verbatim>\<open>mpmain\<close> up to the call of \<^verbatim>\<open>scheduler\<close>; \<open>idtinit\<close> only loads the register of the table.\<close>

definition mpmain :: "boot_env \<Rightarrow> machine \<Rightarrow> machine res" where
  "mpmain e b =
     rbind (on_sys (k_printf ''cpu%d: mpmain'' [ArgWord (cpu_num b)]) b) (\<lambda>b1.
     rbind (if unat (cpu_num b1) \<noteq> mp_bcpu (b_mp b1) then init_lapic e b1 else Inr b1) (\<lambda>b2.
     on_sys (k_printf ''cpu%d: scheduling'' [ArgWord (cpu_num b2)])
       (b2\<lparr>b_sys := (b_sys b2)\<lparr>segs := setupsegs 0 None\<rparr>, b_booted := b_booted b2 @ [unat (cpu_num b2)]\<rparr>)))"

section \<open>main\<close>

text \<open>
  The clearing of the static variables without initial values. The kernel's tables are not part of the
  memory of the model, so they are set here to what zero bytes mean for them, next to the bytes
  between \<^verbatim>\<open>edata\<close> and \<^verbatim>\<open>end\<close>; \<^verbatim>\<open>nextpid\<close> and \<^verbatim>\<open>irqmask\<close> have initial values. The pointer \<^verbatim>\<open>bcpu\<close>, the list
  of buffers and the interrupt table are assigned by \<^verbatim>\<open>mp_init\<close>, \<^verbatim>\<open>binit\<close> and \<^verbatim>\<open>tvinit\<close> before they are read.
\<close>

definition zero_proc :: proc where
  "zero_proc = \<lparr>p_mem = 0, p_sz = 0, p_kstack = 0, p_state = UNUSED, p_pid = 0, p_parent = None, p_chan = None, p_killed = False,
     p_ofile = replicate NOFILE None, p_cwd = None,
     p_context = \<lparr>ctx_eip = 0, ctx_esp = 0, ctx_ebx = 0, ctx_ecx = 0, ctx_edx = 0, ctx_esi = 0, ctx_edi = 0, ctx_ebp = 0\<rparr>,
     p_tf = \<lparr>tf_edi = 0, tf_esi = 0, tf_ebp = 0, tf_oesp = 0, tf_ebx = 0, tf_edx = 0, tf_ecx = 0, tf_eax = 0, tf_es = 0,
       tf_ds = 0, tf_trapno = 0, tf_err = 0, tf_eip = 0, tf_cs = 0, tf_eflags = 0, tf_esp = 0, tf_ss = 0\<rparr>,
     p_name = replicate 16 0\<rparr>"

definition zero_buf :: buf where
  "zero_buf = \<lparr>b_busy = False, b_valid = False, b_dirty = False, b_dev = 0, b_sector = 0, b_data = replicate 512 0\<rparr>"

definition zero_inode :: inode where
  "zero_inode = \<lparr>i_dev = 0, i_inum = 0, i_ref = 0, i_busy = False, i_valid = False, i_type = 0, i_major = 0, i_minor = 0,
     i_nlink = 0, i_size = 0, i_addrs = replicate NADDRS 0\<rparr>"

definition zero_file :: kfile where
  "zero_file = \<lparr>f_type = FD_CLOSED, f_ref = 0, f_readable = False, f_writable = False, f_pipe = 0, f_ip = 0, f_off = 0\<rparr>"

definition zero_sys :: "sys \<Rightarrow> sys" where
  "zero_sys s = s\<lparr>procs := replicate NPROC zero_proc, initproc := None, bufs := replicate NBUF zero_buf, ide_queue := [],
     disk_1_present := False, inodes := replicate NINODE zero_inode, ftable := replicate NFILE zero_file,
     km := (km s)\<lparr>freelist := 0\<rparr>, segs := \<lparr>ts_ss0 = 0, ts_esp0 = 0, gdt = replicate NSEGS SEG_NULL\<rparr>, ticks := 0,
     cons := (cons s)\<lparr>panicked := False, in_buf := replicate INPUT_BUF 0, in_r := 0, in_w := 0, in_e := 0\<rparr>, kbd_shift := 0\<rparr>"

definition clear_bss :: "boot_env \<Rightarrow> machine \<Rightarrow> machine" where
  "clear_bss e b =
     b\<lparr>b_mp := (b_mp b)\<lparr>apicids := replicate NCPU 0, ismp := False, ncpu := 0, ioapic_id := 0, lapic := 0\<rparr>,
       b_sys := set_mem (memset (be_edata e) 0 (be_end e - be_edata e) (memory (b_sys b))) (zero_sys (b_sys b))\<rparr>"

definition kmain :: "boot_env \<Rightarrow> machine \<Rightarrow> machine res" where
  "kmain e b =
     rbind (init_mp e (clear_bss e b)) (\<lambda>b1.
     rbind (init_lapic e b1) (\<lambda>b2.
     rbind (on_sys (k_printf (CHR 0x0A # ''cpu%d: starting xv6'' @ [CHR 0x0A]) [ArgWord (cpu_num b2)]) b2) (\<lambda>b3.
     let b4 = b3\<lparr>b_links := binit (b_links b3), b_sys := (b_sys b3)\<lparr>lru := rev [0..<NBUF]\<rparr>\<rparr>;
         b5 = b4\<lparr>b_pic := pic_init (b_pic b4)\<rparr>;
         (warn, io) = ioapic_init (ismp (b_mp b5)) (ioapic_id (b_mp b5)) (b_ioapic b5) in
     rbind (if warn then on_sys (k_printf (''ioapic_init: id isn'' @ CHR 0x27 # ''t equal to ioapic_id; not a MP'') []) (b5\<lparr>b_ioapic := io\<rparr>)
            else Inr (b5\<lparr>b_ioapic := io\<rparr>)) (\<lambda>b6.
     rbind (on_sys (init_mem e) b6) (\<lambda>b7.
     let b8 = console_init (b7\<lparr>b_idt := tvinit (be_vectors e)\<rparr>) in
     rbind (ide_setup e b8) (\<lambda>b9.
     let b10 = (if \<not> ismp (b_mp b9) then b9\<lparr>b_pic := timer_init (b_pic b9)\<rparr> else b9) in
     rbind (on_sys (userinit (be_forkret e) (be_initcode e)) b10) (\<lambda>b11.
     rbind (bootothers e b11) (mpmain e))))))))"

section \<open>What the initialisers leave alone\<close>

definition core :: "sys \<Rightarrow> proc list \<times> nat option \<times> kfile list" where
  "core s = (procs s, initproc s, ftable s)"

definition calm :: "machine \<Rightarrow> machine \<Rightarrow> bool" where
  "calm b b' \<longleftrightarrow> core (b_sys b') = core (b_sys b) \<and> b_pic b' = b_pic b \<and> ismp (b_mp b') = ismp (b_mp b)"

lemma calm_refl [simp]: "calm b b"
  by (simp add: calm_def)

lemma calm_trans: "calm a b \<Longrightarrow> calm b c \<Longrightarrow> calm a c"
  by (simp add: calm_def)

lemma core_upds [simp]:
  "core (set_mem m s) = core s" "core (s\<lparr>cons := k\<rparr>) = core s" "core (s\<lparr>km := q\<rparr>) = core s" "core (s\<lparr>segs := g\<rparr>) = core s"
  "core (s\<lparr>lru := l\<rparr>) = core s" "core (s\<lparr>disk_1_present := d\<rparr>) = core s"
  by (simp_all add: core_def set_mem_def)

lemma k_printf_core: "k_printf fmt args s = Inr s' \<Longrightarrow> core s' = core s"
  by (auto simp: k_printf_def rbind_eq_Inr)

lemma k_alloc_core: "k_alloc n s = Inr (p, s') \<Longrightarrow> core s' = core s"
  by (auto simp: k_alloc_def rbind_eq_Inr)

lemma on_sys_calm:
  assumes "on_sys f b = Inr b'" and "\<And>s s'. f s = Inr s' \<Longrightarrow> core s' = core s"
  shows "calm b b'"
  using assms by (auto simp: on_sys_def rbind_eq_Inr calm_def)

lemma print_calm: "on_sys (k_printf fmt args) b = Inr b' \<Longrightarrow> calm b b'"
  by (rule on_sys_calm) (auto dest: k_printf_core)

lemma start_others_calm: "start_others e cs b = Inr b' \<Longrightarrow> calm b b'"
proof (induction cs arbitrary: b)
  case (Cons c cs)
  show ?case
  proof (cases "of_nat c = cpu_num b")
    case False
    then obtain stack s1 where a: "k_alloc KSTACKSIZE (b_sys b) = Inr (stack, s1)"
      using Cons.prems by (auto simp: rbind_eq_Inr)
    from Cons.prems False show ?thesis
      by (auto simp: a Let_def calm_def k_alloc_core [OF a] split: if_splits dest!: Cons.IH)
  qed (use Cons in simp)
qed simp

lemma bootothers_calm: "bootothers e b = Inr b' \<Longrightarrow> calm b b'"
  unfolding bootothers_def by (drule start_others_calm) (simp add: calm_def)

lemma init_lapic_calm: "init_lapic e b = Inr b' \<Longrightarrow> calm b b'"
  by (auto simp: init_lapic_def rbind_eq_Inr calm_def)

lemma mpmain_calm:
  assumes "mpmain e b = Inr b'"
  shows "calm b b'"
proof -
  obtain b1 b2 where s: "on_sys (k_printf ''cpu%d: mpmain'' [ArgWord (cpu_num b)]) b = Inr b1"
      "(if unat (cpu_num b1) \<noteq> mp_bcpu (b_mp b1) then init_lapic e b1 else Inr b1) = Inr b2"
      "on_sys (k_printf ''cpu%d: scheduling'' [ArgWord (cpu_num b2)])
         (b2\<lparr>b_sys := (b_sys b2)\<lparr>segs := setupsegs 0 None\<rparr>, b_booted := b_booted b2 @ [unat (cpu_num b2)]\<rparr>) = Inr b'"
    using assms by (auto simp: mpmain_def rbind_eq_Inr)
  have "calm b1 b2" using s(2) init_lapic_calm by (auto split: if_splits)
  moreover have "calm b2 b'" using print_calm [OF s(3)] by (simp add: calm_def)
  ultimately show ?thesis using print_calm [OF s(1)] calm_trans by blast
qed

section \<open>The first process\<close>

definition fresh :: "proc list \<times> nat option \<times> kfile list \<Rightarrow> bool" where
  "fresh c \<longleftrightarrow> (case c of (ps, i, fs) \<Rightarrow> length ps = NPROC \<and> length fs = NFILE
     \<and> (\<forall>p \<in> set ps. p_state p = UNUSED \<and> p_ofile p = replicate NOFILE None) \<and> (\<forall>f \<in> set fs. f_ref f = 0 \<and> f_type f = FD_CLOSED))"

definition started :: "proc list \<times> nat option \<times> kfile list \<Rightarrow> bool" where
  "started c \<longleftrightarrow> (case c of (ps, i, fs) \<Rightarrow> length ps = NPROC \<and> length fs = NFILE \<and> i = Some 0
     \<and> p_state (ps ! 0) = RUNNABLE \<and> (\<forall>j < NPROC. j \<noteq> 0 \<longrightarrow> p_state (ps ! j) = UNUSED)
     \<and> (\<forall>p \<in> set ps. p_ofile p = replicate NOFILE None) \<and> (\<forall>f \<in> set fs. f_ref f = 0 \<and> f_type f = FD_CLOSED))"

lemma started_fds:
  assumes "started (core s)"
  shows "fd_ok s"
proof -
  have sl: "fst p = replicate NOFILE None" if "p \<in> set (fd_slots s)" for p
    using assms that by (auto simp: started_def core_def fd_slots_def)
  have "fd_refs (fd_slots s) f = 0" for f
  proof -
    have "map (\<lambda>p. int (count_list (fst p) (Some f))) (fd_slots s) = map (\<lambda>_. 0) (fd_slots s)"
      by (rule map_cong) (use sl in \<open>simp_all add: count_list_0_iff\<close>)
    then show ?thesis unfolding fd_refs_def by (simp only: sum_list_0)
  qed
  moreover have "slot_ok p" if "p \<in> set (fd_slots s)" for p using sl [OF that] by (auto simp: slot_ok_def)
  then have "list_all slot_ok (fd_slots s)" by (simp add: list_all_iff)
  moreover have "fd_files s ! f = (0, True)" if "f < NFILE" for f
    using assms that by (auto simp: started_def core_def fd_files_def)
  ultimately show ?thesis using assms by (auto simp: fd_ok_def fds_ok_def started_def core_def fd_files_def)
qed

lemma namei_root: "namei cp [slash] s = rbind (iget ROOTDEV 1 s) (\<lambda>(i, s1). Inr (Some i, s1))"
  by (cases "iget ROOTDEV 1 s") (auto simp: namei_def namei0_def namei_loop.simps skipelem_def slash_def)

lemma iget_core: "iget dev inum s = Inr (i, s') \<Longrightarrow> core s' = core s"
  by (auto simp: iget_def core_def upd_inode_def split: option.splits)

text \<open>Only entry 0 of the process table has changed, and it has no open files.\<close>

definition first_only :: "proc list \<times> nat option \<times> kfile list \<Rightarrow> proc list \<times> nat option \<times> kfile list \<Rightarrow> bool" where
  "first_only c c' \<longleftrightarrow> (case (c, c') of ((ps, i, fs), (ps', i', fs')) \<Rightarrow> length ps' = length ps \<and> fs' = fs
     \<and> (\<forall>j < length ps. j \<noteq> 0 \<longrightarrow> ps' ! j = ps ! j) \<and> p_ofile (ps' ! 0) = p_ofile (ps ! 0))"

lemma first_only_upd:
  assumes "first_only c (core s)" and "\<And>q. p_ofile (f q) = p_ofile q"
  shows "first_only c (core (upd_proc 0 f s))"
  using assms by (cases "procs s = []") (auto simp: first_only_def core_def upd_proc_def split: prod.splits)

lemma first_only_core: "first_only c (core s) \<Longrightarrow> core s' = core s \<Longrightarrow> first_only c (core s')"
  by simp

lemma copyproc_first:
  assumes "fresh (core s)" and "copyproc forkret None s = Inr (po, s')"
  shows "po = None \<or> po = Some 0 \<and> first_only (core s) (core s')"
proof -
  have "first_idx (\<lambda>p. p_state p = UNUSED) (procs s) = Some 0"
    using assms(1) by (auto simp: first_idx_Some fresh_def core_def NPROC_def)
  then have al: "allocproc s = (Some 0, (upd_proc 0 (\<lambda>p. p\<lparr>p_state := EMBRYO, p_pid := nextpid s\<rparr>) s)\<lparr>nextpid := nextpid s + 1\<rparr>)"
    (is "_ = (_, ?s1)") by (simp add: allocproc_def)
  have "first_only (core s) (core s)" by (simp add: first_only_def core_def)
  then have "first_only (core s) (core (upd_proc 0 (\<lambda>p. p\<lparr>p_state := EMBRYO, p_pid := nextpid s\<rparr>) s))"
    by (rule first_only_upd) simp
  then have s1: "first_only (core s) (core ?s1)" by (simp add: core_def)
  have eq: "copyproc forkret None s = rbind (k_alloc KSTACKSIZE ?s1) (\<lambda>(ks, s2).
      if ks = 0 then Inr (None, set_state 0 UNUSED (upd_proc 0 (\<lambda>q. q\<lparr>p_kstack := ks\<rparr>) s2))
      else Inr (Some 0, start_context forkret 0 (upd_proc 0 (\<lambda>q. q\<lparr>p_kstack := ks\<rparr>) s2)))"
    unfolding copyproc_def al prod.case option.case Let_def ..
  obtain ks s2 where k: "k_alloc KSTACKSIZE ?s1 = Inr (ks, s2)"
    using assms(2) unfolding eq by (cases "k_alloc KSTACKSIZE ?s1") auto
  have "first_only (core s) (core (start_context forkret 0 (upd_proc 0 (\<lambda>q. q\<lparr>p_kstack := ks\<rparr>) s2)))"
    unfolding start_context_def by (intro first_only_upd first_only_core [OF s1 k_alloc_core [OF k]]) simp_all
  then show ?thesis using assms(2) unfolding eq k by (auto split: if_splits)
qed

lemma first_only_started:
  assumes "fresh c" and "first_only c (ps, i, fs)" and "p_state (ps ! 0) = RUNNABLE"
  shows "started (ps, Some 0, fs)"
proof -
  obtain qs k gs where c: "c = (qs, k, gs)" by (cases c)
  have len: "length ps = NPROC" "length qs = NPROC" "fs = gs" "length gs = NFILE"
    and same: "\<And>j. j < NPROC \<Longrightarrow> j \<noteq> 0 \<Longrightarrow> ps ! j = qs ! j" and z: "p_ofile (ps ! 0) = p_ofile (qs ! 0)"
    using assms c by (auto simp: fresh_def first_only_def)
  have q: "p_state (qs ! j) = UNUSED" "p_ofile (qs ! j) = replicate NOFILE None" if "j < NPROC" for j
    using assms(1) c that by (auto simp: fresh_def)
  have "p_ofile p = replicate NOFILE None" if p: "p \<in> set ps" for p
  proof -
    obtain j where j: "j < NPROC" "p = ps ! j" using p len(1) by (auto simp: in_set_conv_nth)
    then show ?thesis using q(2) [OF j(1)] same z by (cases "j = 0") auto
  qed
  then show ?thesis using assms(1,3) c len same q(1) by (auto simp: started_def fresh_def)
qed

lemma userinit_starts:
  assumes "fresh (core s)" and "userinit forkret ic s = Inr s'"
  shows "started (core s')"
proof -
  obtain po s1 where c: "copyproc forkret None s = Inr (po, s1)" "po \<noteq> None"
    using assms(2) by (cases "copyproc forkret None s") (auto simp: userinit_def split: option.splits)
  then have po: "po = Some 0" "first_only (core s) (core s1)" using copyproc_first [OF assms(1) c(1)] by auto
  let ?s2 = "upd_proc 0 (\<lambda>q. q\<lparr>p_sz := PAGE\<rparr>) s1"
  obtain m s3 where k: "k_alloc PAGE ?s2 = Inr (m, s3)"
    using assms(2) c(1) po(1) by (cases "k_alloc PAGE ?s2") (auto simp: userinit_def Let_def)
  let ?s4 = "upd_proc 0 (\<lambda>q. q\<lparr>p_mem := m\<rparr>) s3"
  obtain i s5 where g: "iget ROOTDEV 1 ?s4 = Inr (i, s5)"
    using assms(2) c(1) po(1) k by (cases "iget ROOTDEV 1 ?s4") (auto simp: userinit_def Let_def namei_root)
  have f5: "first_only (core s) (core s5)"
    by (intro first_only_core [OF _ iget_core [OF g]] first_only_upd first_only_core [OF _ k_alloc_core [OF k]] po(2)) simp_all
  let ?s6 = "upd_proc 0 (\<lambda>q. q\<lparr>p_cwd := Some i, p_tf := user_tf PAGE\<rparr>) s5"
  obtain mem where s': "s' = (upd_proc 0 (\<lambda>q. q\<lparr>p_name := set_name initcode_name (p_name q), p_state := RUNNABLE\<rparr>) (set_mem mem ?s6))\<lparr>initproc := Some 0\<rparr>"
    using assms(2) c(1) po(1) k g by (auto simp: userinit_def Let_def namei_root set_mem_def)
  let ?s8 = "upd_proc 0 (\<lambda>q. q\<lparr>p_name := set_name initcode_name (p_name q), p_state := RUNNABLE\<rparr>) (set_mem mem ?s6)"
  have f8: "first_only (core s) (core ?s8)"
    by (intro first_only_upd first_only_core [OF first_only_upd [OF f5], of "\<lambda>q. q\<lparr>p_cwd := Some i, p_tf := user_tf PAGE\<rparr>"]) simp_all
  moreover have "core s' = (procs ?s8, Some 0, ftable ?s8)" by (simp add: s' core_def)
  moreover have "0 < length (procs s5)" using f5 assms(1) by (auto simp: first_only_def fresh_def core_def NPROC_def split: prod.splits)
  then have "p_state (procs ?s8 ! 0) = RUNNABLE" by (simp add: upd_proc_def set_mem_def)
  ultimately show ?thesis using first_only_started [OF assms(1), of "procs ?s8" _ "ftable ?s8"] by (simp add: core_def)
qed

section \<open>Interrupts\<close>

lemma pics_outb:
  assumes "pics_ok c1 c2 s" and "port \<notin> {0x20, 0x21, 0xA0, 0xA1}"
  shows "pics_ok c1 c2 (pic_outb port v s)"
  using assms by (simp add: pics_ok_def pic_outb_def chip_write_def IO_PIC1_def IO_PIC2_def)

definition boot_pic :: "bool \<Rightarrow> pic \<Rightarrow> pic" where
  "boot_pic mp s = (let s1 = pic_enable 14 (pic_enable 1 (pic_init s)) in if mp then s1 else timer_init s1)"

lemma boot_pic_lines:
  assumes "i < 16"
  shows "line_enabled (chip_run IO_PIC1 (pic_outs (boot_pic mp pic_start)) c1) (chip_run IO_PIC2 (pic_outs (boot_pic mp pic_start)) c2) i
    \<longleftrightarrow> i \<in> {1, 2, 14} \<or> \<not> mp \<and> i = 0"
proof -
  note ok = pics_init(1) [OF pic_start_mask(1), of c1 c2] and m0 = pics_init(2) [OF pic_start_mask(1)]
  let ?s1 = "fold pic_enable [1, 14] (pic_init pic_start)"
  let ?t = "pic_outb IO_TIMER1 (of_nat (TIMER_DIV 100 div 256)) (pic_outb IO_TIMER1 (of_nat (TIMER_DIV 100 mod 256))
           (pic_outb TIMER_MODE (TIMER_SEL0 OR TIMER_RATEGEN OR TIMER_16BIT) ?s1))"
  have b1: "bit (irqmask ?s1) i \<longleftrightarrow> bit (irqmask pic_start) i \<and> i \<notin> {1, 14}"
    using pics_enable(2) [OF ok assms, of "[1, 14]"] m0 by simp
  have t: "pics_ok c1 c2 ?t" by (intro pics_outb pics_enable(1) ok) (simp_all add: IO_TIMER1_def TIMER_MODE_def)
  have "irqmask ?t = irqmask ?s1" by (simp add: pic_outb_def)
  then have b2: "bit (irqmask (fold pic_enable [0] ?t)) i \<longleftrightarrow> bit (irqmask pic_start) i \<and> i \<notin> {1, 14, 0}"
    using pics_enable(2) [OF t assms, of "[0]"] b1 by auto
  have s: "bit (irqmask pic_start) i \<longleftrightarrow> i \<noteq> 2" using pic_start_mask(2) [OF assms] by (simp add: IRQ_SLAVE_def)
  have e: "boot_pic mp pic_start = (if mp then ?s1 else fold pic_enable [0] ?t)"
    by (simp add: boot_pic_def timer_init_def Let_def IRQ_TIMER_def)
  show ?thesis
    unfolding e using pics_lines [OF pics_enable(1) [OF ok, of "[1, 14]"] assms] pics_lines [OF pics_enable(1) [OF t, of "[0]"] assms] b1 b2 s
    by (cases mp) auto
qed

section \<open>Messages\<close>

lemma cons_puts_returns: "\<not> panicked k \<Longrightarrow> \<exists>k'. cons_puts cs k = Inr k' \<and> \<not> panicked k'"
proof (induction cs arbitrary: k)
  case (Cons c cs)
  let ?k = "cga_putc c (lpt_putc c k)"
  have "\<not> panicked ?k" using Cons.prems by (simp add: cga_putc_def lpt_putc_def Let_def split: prod.splits)
  then show ?case using Cons.IH [of ?k] Cons.prems by (simp add: cons_putc_def)
qed simp

definition quiet :: "sys \<Rightarrow> sys \<Rightarrow> bool" where
  "quiet s s' \<longleftrightarrow> (\<exists>k. \<not> panicked k \<and> s' = s\<lparr>cons := k\<rparr>)"

lemma print_returns:
  assumes "\<not> panicked (cons s)" and "printf (map of_char fmt @ [10]) args = Inr out"
    and "no_char False (map of_char fmt @ [10])" and "list_all ascii_arg args"
  shows "\<exists>s'. k_printf fmt args s = Inr s' \<and> quiet s s'"
proof -
  have "cprintf (map of_char fmt @ [10]) args (cons s) = cons_puts (map ucast out) (cons s)"
    using cprintf_loop_printf [OF _ assms(3,4)] assms(2) by (simp add: printf_def cprintf_def)
  then show ?thesis using cons_puts_returns [OF assms(1), of "map ucast out"] by (auto simp: k_printf_def quiet_def)
qed

lemma messages_return:
  assumes "\<not> panicked (cons s)"
  shows "\<exists>s'. k_printf (CHR 0x0A # ''cpu%d: starting xv6'' @ [CHR 0x0A]) [ArgWord w] s = Inr s' \<and> quiet s s'"
    and "\<exists>s'. k_printf ''mem = %d'' [ArgWord w] s = Inr s' \<and> quiet s s'"
    and "\<exists>s'. k_printf ''cpu%d: mpmain'' [ArgWord w] s = Inr s' \<and> quiet s s'"
    and "\<exists>s'. k_printf ''cpu%d: scheduling'' [ArgWord w] s = Inr s' \<and> quiet s s'"
  by (rule print_returns [OF assms], simp add: printf_def arg_word_def, simp, simp add: ascii_arg_def)+

section \<open>A single processor\<close>

lemma page_left:
  assumes "4096 dvd lo" and "4096 dvd p"
  shows "\<exists>q. {q..<q + 4096} \<subseteq> {lo..<lo + 1048576} - {p..<p + (4096 :: nat)}"
proof (cases "p = lo")
  case True
  then show ?thesis by (intro exI [of _ "lo + 4096"]) auto
next
  case False
  have "{lo..<lo + 4096} \<inter> {p..<p + 4096} = {}"
  proof -
    obtain i j where "lo = 4096 * i" "p = 4096 * j" using assms by (auto elim!: dvdE)
    then show ?thesis using False by (cases "i < j") (auto simp: not_less)
  qed
  then show ?thesis by (intro exI [of _ lo]) auto
qed

lemma pages_4096: "pages 4096" "pages PAGE" "pages KSTACKSIZE"
  by (simp_all add: pages_def PAGE_def KSTACKSIZE_def)

lemma alloc_page:
  assumes "kmem_free (km s) A" and "{q..<q + 4096} \<subseteq> A"
  shows "\<exists>p k. k_alloc PAGE s = Inr (p, s\<lparr>km := k\<rparr>) \<and> p \<noteq> 0 \<and> 4096 dvd unat p \<and> kmem_free k (A - {unat p..<unat p + 4096})"
proof -
  have fit: "\<exists>q. {q..<q + unat PAGE} \<subseteq> A" using assms(2) by (auto simp: PAGE_def)
  from kmem.alloc_law [OF assms(1) pages_4096(2)] fit
  obtain p k where "kalloc (km s) PAGE = Inr (p, k)" "block p PAGE" "kmem_free k (A - span p PAGE)" by auto
  then show ?thesis
    by (intro exI [of _ p] exI [of _ k]) (auto simp: k_alloc_def span_def PAGE_def block_def page_addr_def)
qed

lemma userinit_returns:
  assumes "fresh (core s)" and "kmem_free (km s) {lo..<lo + 1048576}" and "4096 dvd lo" and "\<exists>ip \<in> set (inodes s). i_ref ip = 0"
  shows "\<exists>s'. userinit forkret ic s = Inr s' \<and> cons s' = cons s"
proof -
  let ?s1 = "(upd_proc 0 (\<lambda>p. p\<lparr>p_state := EMBRYO, p_pid := nextpid s\<rparr>) s)\<lparr>nextpid := nextpid s + 1\<rparr>"
  have "first_idx (\<lambda>p. p_state p = UNUSED) (procs s) = Some 0"
    using assms(1) by (auto simp: first_idx_Some fresh_def core_def NPROC_def)
  then have al: "allocproc s = (Some 0, ?s1)" by (simp add: allocproc_def)
  have km1: "kmem_free (km ?s1) {lo..<lo + 1048576}" using assms(2) by (simp add: upd_proc_def)
  obtain ks k where k: "k_alloc PAGE ?s1 = Inr (ks, ?s1\<lparr>km := k\<rparr>)" "ks \<noteq> 0" "4096 dvd unat ks"
      "kmem_free k ({lo..<lo + 1048576} - {unat ks..<unat ks + 4096})"
    using alloc_page [OF km1, of lo] by auto
  let ?s3 = "start_context forkret 0 (upd_proc 0 (\<lambda>q. q\<lparr>p_kstack := ks\<rparr>) (?s1\<lparr>km := k\<rparr>))"
  have c: "copyproc forkret None s = Inr (Some 0, ?s3)"
    unfolding copyproc_def al prod.case option.case Let_def using k(1,2) by (simp add: KSTACKSIZE_def)
  let ?s4 = "upd_proc 0 (\<lambda>q. q\<lparr>p_sz := PAGE\<rparr>) ?s3"
  have km4: "kmem_free (km ?s4) ({lo..<lo + 1048576} - {unat ks..<unat ks + 4096})"
    using k(4) by (simp add: upd_proc_def start_context_def)
  obtain q where "{q..<q + 4096} \<subseteq> {lo..<lo + 1048576} - {unat ks..<unat ks + 4096}" using page_left [OF assms(3) k(3)] by blast
  then obtain m k' where a: "k_alloc PAGE ?s4 = Inr (m, ?s4\<lparr>km := k'\<rparr>)" using alloc_page [OF km4] by blast
  let ?s5 = "upd_proc 0 (\<lambda>q. q\<lparr>p_mem := m\<rparr>) (?s4\<lparr>km := k'\<rparr>)"
  have ino: "inodes ?s5 = inodes s" "cons ?s5 = cons s" by (simp_all add: upd_proc_def start_context_def)
  have "\<exists>i s6. iget ROOTDEV 1 ?s5 = Inr (i, s6) \<and> cons s6 = cons s"
    using assms(4) unfolding iget_def ino by (auto simp: first_idx_None upd_inode_def ino split: option.splits)
  then obtain i s6 where "iget ROOTDEV 1 ?s5 = Inr (i, s6)" "cons s6 = cons s" by blast
  then show ?thesis unfolding userinit_def c using a by (simp add: namei_root Let_def upd_proc_def set_mem_def)
qed

text \<open>
  The machine when \<^verbatim>\<open>main\<close> is entered: the masks of the interrupt controllers as initialised, a ready
  drive, a kernel image that ends below 2 GiB, and no table for other processors in memory.
\<close>

definition at_reset :: "boot_env \<Rightarrow> machine \<Rightarrow> bool" where
  "at_reset e b \<longleftrightarrow> b_pic b = pic_start \<and> ide_status (b_sys b) AND IDE_BSY = 0 \<and> ide_status (b_sys b) AND IDE_DRDY \<noteq> 0
     \<and> unat (be_end e) < 2146430976
     \<and> mp_config (memset (be_edata e) 0 (be_end e - be_edata e) (memory (b_sys b))) = Some None"

lemma clear_bss_tables:
  "fresh (core (b_sys (clear_bss e b)))" "\<exists>ip \<in> set (inodes (b_sys (clear_bss e b))). i_ref ip = 0" "\<not> panicked (cons (b_sys (clear_bss e b)))"
  by (simp_all add: clear_bss_def zero_sys_def set_mem_def fresh_def core_def zero_proc_def zero_file_def zero_inode_def NINODE_def)

lemma clear_bss_rest:
  "b_pic (clear_bss e b) = b_pic b" "\<not> ismp (b_mp (clear_bss e b))" "lapic (b_mp (clear_bss e b)) = 0" "ncpu (b_mp (clear_bss e b)) = 0"
  "ide_status (b_sys (clear_bss e b)) = ide_status (b_sys b)"
  "memory (b_sys (clear_bss e b)) = memset (be_edata e) 0 (be_end e - be_edata e) (memory (b_sys b))"
  by (simp_all add: clear_bss_def zero_sys_def set_mem_def)

lemma on_sys_Inr: "f (b_sys b) = Inr s \<Longrightarrow> on_sys f b = Inr (b\<lparr>b_sys := s\<rparr>)"
  by (simp add: on_sys_def)

text \<open>The state of the kernel that the first half of \<^verbatim>\<open>main\<close> hands to the second.\<close>

definition ready :: "sys \<Rightarrow> sys \<Rightarrow> bool" where
  "ready s s' \<longleftrightarrow> core s' = core s \<and> \<not> panicked (cons s') \<and> inodes s' = inodes s \<and> ide_status s' = ide_status s"

lemma quiet_ready: "quiet s s' \<Longrightarrow> ready s s'"
  by (auto simp: quiet_def ready_def)

lemma ready_trans: "ready s t \<Longrightarrow> ready t u \<Longrightarrow> ready s u"
  by (simp add: ready_def)

lemma init_mem_returns:
  assumes "\<not> panicked (cons s)" and "unat (be_end e) < 2146430976"
  shows "\<exists>s' lo. init_mem e s = Inr s' \<and> ready s s' \<and> 4096 dvd lo \<and> kmem_free (km s') {lo..<lo + 1048576}"
proof -
  obtain s1 where s1: "k_printf ''mem = %d'' [ArgWord (256 * PAGE)] s = Inr s1" "quiet s s1"
    using messages_return(2) [OF assms(1)] by blast
  obtain k where k: "kinit (pmem (km s1)) (be_end e) = Inr k"
      "kmem_free k {Suc (unat (be_end e) div 4096) * 4096..<Suc (unat (be_end e) div 4096) * 4096 + 1048576}"
    using kinit_frees_megabyte [OF assms(2)] by blast
  have "ready s (s1\<lparr>km := k\<rparr>)" using quiet_ready [OF s1(2)] by (simp add: ready_def)
  moreover have "init_mem e s = Inr (s1\<lparr>km := k\<rparr>)" using s1(1) k(1) by (simp add: init_mem_def)
  ultimately show ?thesis
    using k(2) by (intro exI [of _ "s1\<lparr>km := k\<rparr>"] exI [of _ "Suc (unat (be_end e) div 4096) * 4096"]) simp
qed

lemma ide_setup_returns:
  assumes "ide_status (b_sys b) AND IDE_BSY = 0" and "ide_status (b_sys b) AND IDE_DRDY \<noteq> 0"
  shows "\<exists>d. ide_setup e b =
    Inr ((enable_irq IRQ_IDE (of_nat (ncpu (b_mp b)) - 1) b)\<lparr>b_sys := (b_sys b)\<lparr>disk_1_present := d\<rparr>\<rparr>)"
proof -
  have "\<exists>d. ide_init (be_ide e) (b_sys b) = Inr ((b_sys b)\<lparr>disk_1_present := d\<rparr>)"
  proof (cases "first_idx (\<lambda>i. be_ide e i \<noteq> 0) [0..<1000] = None")
    case True
    then show ?thesis using assms by (intro exI [of _ "disk_1_present (b_sys b)"]) (simp add: ide_init_def ide_wait_ready_def)
  next
    case False
    then show ?thesis using assms by (intro exI [of _ True]) (auto simp: ide_init_def ide_wait_ready_def)
  qed
  then show ?thesis by (auto simp: ide_setup_def on_sys_def enable_irq_def)
qed

lemma mpmain_returns:
  assumes "\<not> panicked (cons (b_sys b))" and "lapic (b_mp b) = 0" and "bcpu (b_mp b) = 0"
  shows "\<exists>b'. mpmain e b = Inr b'"
proof -
  have c: "cpu_num b = 0" using assms(2) by (simp add: cpu_num_def lapic_cpu_def)
  obtain s1 where s1: "k_printf ''cpu%d: mpmain'' [ArgWord 0] (b_sys b) = Inr s1" "quiet (b_sys b) s1"
    using messages_return(3) [OF assms(1)] by blast
  let ?b = "b\<lparr>b_sys := s1\<lparr>segs := setupsegs 0 None\<rparr>, b_booted := b_booted b @ [0]\<rparr>"
  have "\<not> panicked (cons (b_sys ?b))" using s1(2) by (auto simp: quiet_def)
  then obtain s2 where "k_printf ''cpu%d: scheduling'' [ArgWord 0] (b_sys ?b) = Inr s2"
    using messages_return(4) by blast
  then show ?thesis
    using s1(1) c assms by (simp add: mpmain_def on_sys_def cpu_num_def lapic_cpu_def mp_bcpu_def)
qed

lemma kmain_first_half:
  assumes "at_reset e b"
  shows "\<exists>b10 lo. kmain e b = rbind (on_sys (userinit (be_forkret e) (be_initcode e)) b10) (\<lambda>b11. rbind (bootothers e b11) (mpmain e))
    \<and> ready (b_sys (clear_bss e b)) (b_sys b10) \<and> b_pic b10 = boot_pic False pic_start \<and> b_mp b10 = (b_mp (clear_bss e b))\<lparr>bcpu := 0\<rparr>
    \<and> 4096 dvd lo \<and> kmem_free (km (b_sys b10)) {lo..<lo + 1048576}"
proof -
  let ?b0 = "clear_bss e b" let ?mp = "(b_mp ?b0)\<lparr>bcpu := 0\<rparr>"
  have r: "b_pic ?b0 = pic_start" "\<not> ismp (b_mp ?b0)" "lapic (b_mp ?b0) = 0" "ncpu (b_mp ?b0) = 0" "\<not> panicked (cons (b_sys ?b0))"
      "unat (be_end e) < 2146430976" "mp_config (memory (b_sys ?b0)) = Some None"
    "ide_status (b_sys ?b0) AND IDE_BSY = 0" "ide_status (b_sys ?b0) AND IDE_DRDY \<noteq> 0"
    using assms clear_bss_rest [of e b] clear_bss_tables(3) [of e b] by (simp_all add: at_reset_def)
  have mp: "init_mp e ?b0 = Inr (?b0\<lparr>b_mp := ?mp\<rparr>)"
    using r by (simp add: init_mp_def mp_init_def)
  let ?b1 = "?b0\<lparr>b_mp := ?mp\<rparr>"
  have la: "init_lapic e ?b1 = Inr ?b1" using r by (simp add: init_lapic_def lapic_init_def)
  obtain s3 where s3: "k_printf (CHR 0x0A # ''cpu%d: starting xv6'' @ [CHR 0x0A]) [ArgWord (cpu_num ?b1)] (b_sys ?b1) = Inr s3"
      "quiet (b_sys ?b1) s3"
    using messages_return(1) [of "b_sys ?b1" "cpu_num ?b1"] r(5) by auto
  define b6 where "b6 = ?b1\<lparr>b_links := binit (b_links ?b0), b_sys := s3\<lparr>lru := rev [0..<NBUF]\<rparr>, b_pic := pic_init (b_pic ?b0)\<rparr>"
  have rd6: "ready (b_sys ?b0) (b_sys b6)"
    using quiet_ready [OF s3(2)] by (simp add: ready_def b6_def set_mem_def core_def)
  then obtain s7 lo where m: "init_mem e (b_sys b6) = Inr s7" "ready (b_sys b6) s7" "4096 dvd lo" "kmem_free (km s7) {lo..<lo + 1048576}"
    using init_mem_returns [of "b_sys b6" e] r(6) by (auto simp: ready_def)
  let ?b8 = "console_init (b6\<lparr>b_sys := s7, b_idt := tvinit (be_vectors e)\<rparr>)"
  have "b_sys ?b8 = s7" "b_mp ?b8 = ?mp" by (simp_all add: console_init_def enable_irq_def b6_def)
  moreover have "ide_status s7 = ide_status (b_sys ?b0)" using ready_trans [OF rd6 m(2)] by (simp add: ready_def)
  ultimately obtain d where ide: "ide_setup e ?b8 = Inr ((enable_irq IRQ_IDE (of_nat (ncpu (b_mp ?b8)) - 1) ?b8)\<lparr>b_sys := s7\<lparr>disk_1_present := d\<rparr>\<rparr>)"
    using ide_setup_returns [of ?b8 e] r(8,9) by auto
  let ?b9 = "(enable_irq IRQ_IDE (of_nat (ncpu (b_mp ?b8)) - 1) ?b8)\<lparr>b_sys := s7\<lparr>disk_1_present := d\<rparr>\<rparr>"
  let ?b10 = "?b9\<lparr>b_pic := timer_init (b_pic ?b9)\<rparr>"
  have ns: "\<not> ismp (b_mp ?b9)" using r(2) by (simp add: enable_irq_def console_init_def b6_def)
  have "kmain e b = rbind (on_sys (userinit (be_forkret e) (be_initcode e)) ?b10) (\<lambda>b11. rbind (bootothers e b11) (mpmain e))"
    unfolding kmain_def using mp la s3(1) m(1) ide ns r(2) by (simp add: on_sys_def ioapic_init_def Let_def b6_def)
  moreover have "ready (b_sys ?b0) (b_sys ?b10)" using ready_trans [OF rd6 m(2)] by (simp add: ready_def)
  moreover have "b_pic ?b10 = boot_pic False pic_start"
    using r(1) by (simp add: boot_pic_def enable_irq_def console_init_def b6_def IRQ_IDE_def IRQ_KBD_def)
  moreover have "b_mp ?b10 = ?mp" by (simp add: enable_irq_def console_init_def b6_def)
  ultimately show ?thesis using m(3,4) by (intro exI [of _ ?b10] exI [of _ lo]) simp
qed

section \<open>Properties\<close>

text \<open>
  \<^bold>\<open>C15.\<close> The kernel starts. On a machine with one processor and a ready drive, \<^verbatim>\<open>main\<close> reaches the
  scheduler with exactly one process, \<^verbatim>\<open>init\<close>, ready to run in entry 0 of the process table and no open
  files, so that the invariant of the reference counts holds, and with exactly the interrupt lines of
  the timer, the keyboard, the second controller and the disk enabled.
\<close>

theorem kmain_starts_kernel:
  assumes "at_reset e b"
  shows "\<exists>b'. kmain e b = Inr b' \<and> started (core (b_sys b')) \<and> fd_ok (b_sys b')
    \<and> (\<forall>i < 16. line_enabled (chip_run IO_PIC1 (pic_outs (b_pic b')) c1) (chip_run IO_PIC2 (pic_outs (b_pic b')) c2) i
         \<longleftrightarrow> i \<in> {0, 1, 2, 14})"
proof -
  obtain b10 lo where b10: "kmain e b = rbind (on_sys (userinit (be_forkret e) (be_initcode e)) b10) (\<lambda>b11. rbind (bootothers e b11) (mpmain e))"
      "ready (b_sys (clear_bss e b)) (b_sys b10)" "b_pic b10 = boot_pic False pic_start" "b_mp b10 = (b_mp (clear_bss e b))\<lparr>bcpu := 0\<rparr>"
      "4096 dvd lo" "kmem_free (km (b_sys b10)) {lo..<lo + 1048576}"
    using kmain_first_half [OF assms] by blast
  have fr: "fresh (core (b_sys b10))" "\<exists>ip \<in> set (inodes (b_sys b10)). i_ref ip = 0" "\<not> panicked (cons (b_sys b10))"
      "ncpu (b_mp (clear_bss e b)) = 0" "lapic (b_mp (clear_bss e b)) = 0"
    using b10(2) clear_bss_tables [of e b] clear_bss_rest [of e b] by (simp_all add: ready_def)
  obtain s where s: "userinit (be_forkret e) (be_initcode e) (b_sys b10) = Inr s" "cons s = cons (b_sys b10)"
    using userinit_returns [OF fr(1) b10(6,5) fr(2)] by blast
  let ?b12 = "b10\<lparr>b_sys := set_mem (store_bytes 0x7000 (be_bootother e) (memory s)) s\<rparr>"
  have bo: "bootothers e (b10\<lparr>b_sys := s\<rparr>) = Inr ?b12" using b10(4) fr(4) by (simp add: bootothers_def)
  obtain b' where m: "mpmain e ?b12 = Inr b'"
    using mpmain_returns [of ?b12 e] fr(3,5) s(2) b10(4) by (auto simp: set_mem_def)
  have "calm (b10\<lparr>b_sys := s\<rparr>) b'" using calm_trans [OF bootothers_calm [OF bo] mpmain_calm [OF m]] .
  then have c: "core (b_sys b') = core s" "b_pic b' = boot_pic False pic_start" using b10(3) by (simp_all add: calm_def)
  have st: "started (core (b_sys b'))" using userinit_starts [OF fr(1) s(1)] c(1) by simp
  have "kmain e b = Inr b'" using b10(1) s(1) bo m by (simp add: on_sys_def)
  then show ?thesis using st started_fds [OF st] boot_pic_lines [of _ False c1 c2] c(2) by auto
qed

text \<open>A machine with empty memory, and the kernel image up to \<^verbatim>\<open>0x108000\<close>.\<close>

definition bare_sys :: sys where
  "bare_sys =
     kern.extend
       (fs.extend (formatted\<lparr>procs := replicate NPROC (a_proc\<lparr>p_state := UNUSED\<rparr>),
            inodes := replicate NINODE \<lparr>i_dev = 0, i_inum = 0, i_ref = 0, i_busy = False, i_valid = False, i_type = 0, i_major = 0,
              i_minor = 0, i_nlink = 0, i_size = 0, i_addrs = []\<rparr>\<rparr>)
         (kern.fields
           (replicate NFILE \<lparr>f_type = FD_CLOSED, f_ref = 0, f_readable = False, f_writable = False, f_pipe = 0, f_ip = 0, f_off = 0\<rparr>)
           (\<lambda>_. \<lparr>readopen = False, writeopen = False, writep = 0, readp = 0, pdata = []\<rparr>)
           \<lparr>pmem = \<lambda>_. 0, freelist = 0\<rparr>))
       (sys.fields (setupsegs 0 None) 0
         \<lparr>crt = (\<lambda>_. 0), cursor = 0, lpt = [], panicked = False, in_buf = [], in_r = 0, in_w = 0, in_e = 0\<rparr> 0)"

definition bare_machine :: machine where
  "bare_machine =
     \<lparr>b_mp = \<lparr>apicids = replicate NCPU 0, bcpu = 0, ismp = False, ncpu = 0, ioapic_id = 0, lapic = 0, outs = []\<rparr>, b_pic = pic_start,
      b_ioapic = \<lparr>io_reg = 0, io_data = \<lambda>_. 0\<rparr>, b_lapic = \<lparr>l_regs = \<lambda>_. 0, l_writes = [], l_outs = [], l_wrv = (0, 0)\<rparr>,
      b_links = \<lparr>nextp = (\<lambda>_. Bufhead), prevp = (\<lambda>_. Bufhead)\<rparr>, b_idt = [], b_booted = [], b_sys = bare_sys\<rparr>"

definition bare_env :: boot_env where
  "bare_env = \<lparr>be_edata = 0x106000, be_end = 0x108000, be_vectors = \<lambda>_. 0, be_forkret = 0x100400, be_mpmain = 0x100100, be_initcode = [],
     be_bootother = [], be_imcr = 0, be_polls = [], be_ide = \<lambda>_. 0, be_answers = \<lambda>_. True\<rparr>"

lemma no_mp_table: "mp_config (\<lambda>_. 0) = Some None"
proof -
  have "\<not> has_sig (\<lambda>_. 0) p sig_mp" for p by (simp add: has_sig_def sig_mp_def)
  then have "mp_search (\<lambda>_. 0) = Some 0" using mp_search_returns [of "\<lambda>_. 0"] by auto
  then show ?thesis by (simp add: mp_config_def)
qed

lemma bare_reset: "at_reset bare_env bare_machine"
proof -
  have "memset d 0 n (\<lambda>_. 0) = (\<lambda>_. 0)" for d n by (rule ext) (simp add: memset_def memset_loop_apply)
  then show ?thesis
    by (simp add: at_reset_def bare_env_def bare_machine_def bare_sys_def formatted_def kern.defs fs.defs sys.defs
        fresh_def core_def a_proc_def no_mp_table NINODE_def IDE_BSY_def IDE_DRDY_def)
qed

theorem kmain_starts_kernel_witness:
  "\<exists>b'. kmain bare_env bare_machine = Inr b' \<and> initproc (b_sys b') = Some 0 \<and> p_state (proc_at 0 (b_sys b')) = RUNNABLE \<and> fd_ok (b_sys b')"
  using kmain_starts_kernel [OF bare_reset] unfolding started_def core_def proc_at_def prod.case by blast

end
