(* ===== verification/Spec2Isabelle.thy ===== *)
theory Spec2Isabelle
  imports Strings Sched_Inv Sleep_Wakeup Fs_Link Console_Spec Sh_Run Mkfs_Spec Umalloc_Spec Sbrk Boot Kmain
begin

text \<open>
  A verification development for the xv6 teaching kernel (\<^verbatim>\<open>src/xv6\<close>), a multiprocessor Unix
  version 6 in C for the x86.

  \<^bold>\<open>The program and its parts.\<close> User programs enter the kernel through \<^verbatim>\<open>trap\<close> (\<^verbatim>\<open>trap.c\<close>), which
  dispatches system calls (\<^verbatim>\<open>syscall.c\<close>, \<^verbatim>\<open>sysproc.c\<close>, \<^verbatim>\<open>sysfile.c\<close>, \<^verbatim>\<open>exec.c\<close>) and device
  interrupts. Below are the table of open files (\<^verbatim>\<open>file.c\<close>), pipes (\<^verbatim>\<open>pipe.c\<close>), the file system
  (\<^verbatim>\<open>fs.c\<close>) on a buffer cache (\<^verbatim>\<open>bio.c\<close>) on a disk driver (\<^verbatim>\<open>ide.c\<close>), the console with the
  keyboard (\<^verbatim>\<open>console.c\<close>, \<^verbatim>\<open>kbd.c\<close>), processes and the scheduler (\<^verbatim>\<open>proc.c\<close>), spin locks
  (\<^verbatim>\<open>spinlock.c\<close>) and the allocator of physical pages (\<^verbatim>\<open>kalloc.c\<close>). The first process \<^verbatim>\<open>init\<close>, the shell
  (\<^verbatim>\<open>sh.c\<close>) and small programs (\<^verbatim>\<open>cat\<close>, \<^verbatim>\<open>wc\<close>, \<^verbatim>\<open>grep\<close>, \<^verbatim>\<open>ls\<close> and others) run on top, with string routines, a memory
  allocator and \<^verbatim>\<open>printf\<close> of their own (\<^verbatim>\<open>ulib.c\<close>, \<^verbatim>\<open>umalloc.c\<close>, \<^verbatim>\<open>printf.c\<close>). The disk they live on is written by a
  program of the host (\<^verbatim>\<open>mkfs.c\<close>). The machine comes up through the boot loader (\<^verbatim>\<open>bootmain.c\<close>) and \<^verbatim>\<open>main.c\<close>, which reads the tables of the BIOS
  (\<^verbatim>\<open>mp.c\<close>) and programs the interrupt controllers and the timer (\<^verbatim>\<open>lapic.c\<close>, \<^verbatim>\<open>ioapic.c\<close>,
  \<^verbatim>\<open>picirq.c\<close>, \<^verbatim>\<open>timer.c\<close>).

  \<^bold>\<open>Conventions\<close> (\<open>Xv6_Prelude\<close>). Machine integers are words of their C width and wrap; a C \<^verbatim>\<open>int\<close>
  is a word read with \<^term>\<open>sint\<close>. Memory is a function from addresses to bytes. An operation that
  may fail to return has a result in \<open>'a res\<close>: \<open>Inl (Panic msg)\<close> for a call of \<^verbatim>\<open>panic\<close>,
  \<open>Inl (Blocked ch)\<close> for a process that sleeps on a channel until another one acts, and
  \<open>Inl Diverges\<close> for a loop that never ends or a step that C leaves undefined. Pointers into the
  kernel's static tables are indices, null is \<^term>\<open>None\<close>. The global variables are records that
  extend each other: the process table (\<open>ptable\<close>), buffers and disk (\<open>blk\<close>), inodes (\<open>fs\<close>), open
  files, pipes and memory (\<open>kern\<close>), and the rest of the machine (\<open>sys\<close>); a routine is typed with the
  part it uses. The current process \<^verbatim>\<open>cp\<close> and the CPU number are arguments. What an argument
  shows of the build or the hardware (the address of \<^verbatim>\<open>forkret\<close>, keys typed, sectors) is a parameter.

  \<^bold>\<open>Theories, code and results.\<close>

  \<^item> \<open>Strings\<close>: \<^verbatim>\<open>string.c\<close> and the string routines of \<^verbatim>\<open>ulib.c\<close>. \<^verbatim>\<open>memmove\<close> is right for every overlap;
    \<^verbatim>\<open>safestrcpy\<close> terminates its copy; \<^verbatim>\<open>strncmp\<close> decides equality of cut-off strings.
  \<^item> \<open>Kalloc\<close>, \<open>Kalloc_List\<close>, \<open>Kalloc_Refine\<close>, \<open>Kalloc_Spec\<close>: \<^verbatim>\<open>kalloc.c\<close> at byte level, with the free list
    stored in the free pages. Loops are \<^theory_text>\<open>partial_function\<close>s; on a well-formed list they return, and
    \<^verbatim>\<open>kfree\<close> and \<^verbatim>\<open>kalloc\<close> refine the union and difference of sets of addresses.
  \<^item> \<open>Spinlock\<close>: \<^verbatim>\<open>spinlock.c\<close>; mutual exclusion over all interleavings of the instructions of all CPUs.
  \<^item> \<open>Sched\<close>, \<open>Sched_Inv\<close>, \<open>Sleep_Wakeup\<close>: the process table and its transitions. The relation \<open>sched_step\<close> composes the
    operations of \<^verbatim>\<open>scheduler\<close>, \<^verbatim>\<open>yield\<close>, \<^verbatim>\<open>sleep\<close>, \<^verbatim>\<open>wakeup\<close>, \<^verbatim>\<open>kill\<close>, \<^verbatim>\<open>fork\<close>, \<^verbatim>\<open>userinit\<close>, \<^verbatim>\<open>exit\<close> and \<^verbatim>\<open>wait\<close> on all CPUs. In
    every table it reaches a running process runs on one CPU, process numbers are distinct, every process but
    \<^verbatim>\<open>init\<close> has a living parent, and that parent's \<^verbatim>\<open>wait\<close> finds a zombie. Children of an exiting process
    go to \<^verbatim>\<open>init\<close>, and the protocol of \<^verbatim>\<open>sleep\<close> and \<^verbatim>\<open>wakeup\<close> loses no wakeup.
  \<^item> \<open>Ring\<close>, \<open>Pipe\<close>: ring buffers with free-running counters as an interface, \<^verbatim>\<open>pipe.c\<close> as one of its
    providers; a pipe is a bounded first-in-first-out queue.
  \<^item> \<open>Lru\<close>, \<open>Ide\<close>, \<open>Bio\<close>: the doubly linked list of buffers, the disk driver, and the buffer cache. Through
    the cache the disk is an array of sectors; that contract is a locale the file system relies on.
  \<^item> \<open>Fs\<close>, \<open>Fs_Block\<close>, \<open>Fs_Inode\<close>, \<open>Fs_File\<close>, \<open>Fs_Dir\<close>, \<open>Fs_Content\<close>, \<open>Fs_Grow\<close>, \<open>Fs_Link\<close>: \<^verbatim>\<open>fs.c\<close> layer by layer. Allocation changes
    one bit; inodes survive a round trip through the disk; \<^verbatim>\<open>readi\<close> and \<^verbatim>\<open>writei\<close> read and replace the
    bytes of a file; \<^verbatim>\<open>dirlookup\<close> finds the first entry of a name; paths are split at slashes. A write past
    the end takes blocks from the bitmap and makes the file longer, on the disk as well, and \<^verbatim>\<open>dirlink\<close>
    and \<^verbatim>\<open>dirlookup\<close> update and read the map from names to inodes that a directory denotes.
  \<^item> \<open>Frame\<close>: what every routine of the file system leaves alone, without any assumption on the disk.
  \<^item> \<open>Console\<close>, \<open>Console_Spec\<close>, \<open>Kbd\<close>: output, the line editor as a function on the pending lines, what a
    reader gets, and the keyboard: from the presses and releases of keys the driver makes the
    characters that the shift, control and caps lock keys held at the time call for.
  \<^item> \<open>Segments\<close>: descriptors; the user segments give a process exactly its memory.
  \<^item> \<open>File\<close>, \<open>Proc\<close>, \<open>Syscall\<close>, \<open>Exec\<close>, \<open>Sysfile\<close>, \<open>Trap\<close>: open files, process creation and exit, argument checks,
    all twenty system calls and the trap handler, on the state of the whole kernel.
  \<^item> \<open>Fds\<close>: through every trap the reference counts of open files equal the number of descriptors.
  \<^item> \<open>Grep\<close>: the matcher of \<^verbatim>\<open>grep.c\<close> against the language of its patterns, and its reading loop on the buffer
    of 1024 bytes, with the ways in which it leaves that buffer.
  \<^item> \<open>Sh\<close>, \<open>Sh_Spec\<close>: the parser of \<^verbatim>\<open>sh.c\<close>; it terminates and separates the words of the line.
  \<^item> \<open>Uproc\<close>: user programs as trees of system calls, and what a program and the processes it forks do in an
    environment that answers the calls, with the descriptors of each process.
  \<^item> \<open>Uprogs\<close>: \<^verbatim>\<open>cat.c\<close>, \<^verbatim>\<open>wc.c\<close>, \<^verbatim>\<open>echo.c\<close>, \<^verbatim>\<open>main\<close> of \<^verbatim>\<open>grep.c\<close>, \<^verbatim>\<open>rm.c\<close>, \<^verbatim>\<open>mkdir.c\<close>, \<^verbatim>\<open>ln.c\<close>, \<^verbatim>\<open>kill.c\<close>, \<^verbatim>\<open>zombie.c\<close>, \<^verbatim>\<open>ls.c\<close> and
    \<^verbatim>\<open>init.c\<close> in these terms; what \<^verbatim>\<open>cat\<close> and \<^verbatim>\<open>wc\<close> print.
  \<^item> \<open>Sh_Run\<close>: \<^verbatim>\<open>runcmd\<close> and the main loop of \<^verbatim>\<open>sh.c\<close>. Every program of a line is executed with exactly the
    descriptors that its redirections and pipes ask for; \<^verbatim>\<open>init\<close> starts the shell with three descriptors.
  \<^item> \<open>Mkfs\<close>, \<open>Mkfs_Append\<close>, \<open>Mkfs_Spec\<close>: \<^verbatim>\<open>mkfs.c\<close> on an image as a list of sectors. The image is a sound file system,
    and \<^verbatim>\<open>dirlookup\<close> and \<^verbatim>\<open>readi\<close> of the kernel find the files of the host on it.
  \<^item> \<open>Umalloc\<close>, \<open>Umalloc_Free\<close>, \<open>Umalloc_Spec\<close>: \<^verbatim>\<open>umalloc.c\<close> at byte level, with the headers of the circular
    free list in memory. \<^verbatim>\<open>malloc\<close> and \<^verbatim>\<open>free\<close> take from and add to the set of free units; \<^verbatim>\<open>malloc\<close>
    returns unless the kernel panics because the size of the process is not a number of whole pages.
  \<^item> \<open>Sbrk\<close>: the memory that \<^verbatim>\<open>malloc\<close> asks for, from the side of the kernel: \<^verbatim>\<open>sys_sbrk\<close> with \<^verbatim>\<open>growproc\<close> and
    the page allocator implements the \<open>sbrk\<close> of \<open>Umalloc\<close>.
  \<^item> \<open>Printf\<close>: \<^verbatim>\<open>printf.c\<close>; it writes what \<^verbatim>\<open>cprintf\<close> of the console shows.
  \<^item> \<open>Boot\<close>: \<^verbatim>\<open>bootmain.c\<close>; every segment of the kernel's ELF file is in memory at the jump to its entry.
  \<^item> \<open>Mp\<close>, \<open>Devices\<close>: \<^verbatim>\<open>mp.c\<close> and the interrupt controllers. The search for the tables ends and accepts
    only tables with valid checksums; \<^verbatim>\<open>mp_init\<close> records exactly the processors of the table; the
    controllers deliver exactly the interrupts that were enabled.
  \<^item> \<open>Kmain\<close>: \<^verbatim>\<open>main.c\<close>, on a machine record that holds the kernel state and the devices; \<^verbatim>\<open>main\<close> clears the static
    tables and reaches the scheduler with one process that can run, with the invariant of \<open>Fds\<close>.

  \<^bold>\<open>Bounds and fuel.\<close> Loops over a table or a string recurse on the number of elements left, taken from
  the loop condition. \<^verbatim>\<open>ide_wait\<close> lets a process that waits for the disk see at most as many
  interrupts as there are requests. The parser of the shell takes fuel, and the theorem on its
  termination shows that four times the length of the line, plus four, is enough. The loop of the shell that
  opens the console ends with descriptor 3 at the latest and is given as many rounds as there are descriptors. The
  loops of \<^verbatim>\<open>init\<close> do not end by themselves; they are taken for any given number of rounds.

  \<^bold>\<open>Atomicity.\<close> The lock protocols are proved on interleaved steps. Above them a system call is a
  function: it runs to its end, or to the point where it sleeps. A call that would sleep in
  \<^verbatim>\<open>ilock\<close> or \<^verbatim>\<open>bget\<close> because another process holds the object has the result \<open>Inl (Blocked ch)\<close>.

  \<^bold>\<open>Simplifications.\<close> Messages on the console that come with an error are left out (in \<^verbatim>\<open>kalloc\<close> without memory,
  in \<^verbatim>\<open>mp_init\<close> before its panic), as is the console's lock around \<^verbatim>\<open>cprintf\<close>. Reference counts of files and
  inodes do not wrap. A message of a user program is one \<^verbatim>\<open>write\<close>, where \<^verbatim>\<open>printf\<close> writes byte by byte.
  The environment of the user programs (\<open>run\<close> in \<open>Uproc\<close>) stands for the kernel: it answers the calls, and a
  descriptor of a file has what its reads will return. A process that shrinks by \<^verbatim>\<open>sbrk\<close> has no defined
  result in \<open>Umalloc\<close>. The image builder is shown right for files that fit: fewer than 199, each within the largest
  file size, fewer than 512 blocks in use, and a root directory whose entries do not end with a block.

  \<^bold>\<open>Not modelled.\<close> Assembly code, the delay loops of \<^verbatim>\<open>lapic.c\<close>, and the test programs \<^verbatim>\<open>usertests.c\<close> and
  \<^verbatim>\<open>forktest.c\<close>, which exercise single runs of the system calls.
\<close>

end
